(* ===== verification/Qjs_Prelude.thy ===== *)
theory Qjs_Prelude
  imports Main "HOL-Library.Word"
begin

text \<open>
  Shared vocabulary of the development: the C integer types as words, the collection
  \<open>word_nat\<close> that turns word operations into arithmetic on \<open>nat\<close>, and list lemmas
  about sub-array writes (\<open>blit\<close>) that the buffer and limb theories share.
\<close>

unbundle bit_operations_syntax

type_synonym u8 = "8 word"
type_synonym u16 = "16 word"
type_synonym u32 = "32 word"
type_synonym u64 = "64 word"

section \<open>Word operations read as natural numbers\<close>

named_theorems word_nat \<open>rules that rewrite unat of a word operation to nat arithmetic\<close>

lemma unat_push_bit [word_nat]:
  "unat (push_bit n (w :: 'a::len word)) = (unat w * 2 ^ n) mod 2 ^ LENGTH('a)"
  by (subst unsigned_push_bit_eq) (simp only: push_bit_eq_mult take_bit_eq_mod)

lemma unat_drop_bit [word_nat]: "unat (drop_bit n w) = unat w div 2 ^ n"
  by (subst unat_drop_bit_eq) (simp only: drop_bit_eq_div)

lemma unat_ucast_mod [word_nat]:
  "unat (ucast (w :: 'a::len word) :: 'b::len word) = unat w mod 2 ^ LENGTH('b)"
  by (simp add: unsigned_ucast_eq take_bit_eq_mod)

lemmas [word_nat] = unat_word_ariths unsigned_and_eq unsigned_or_eq

lemma unat_lt_u8 [simp]: "unat (w :: u8) < 256"
  using unsigned_less[of w, where 'a = nat] by simp

lemma unat_lt_u16 [simp]: "unat (w :: u16) < 65536"
  using unsigned_less[of w, where 'a = nat] by simp

lemma unat_lt_u32 [simp]: "unat (w :: u32) < 4294967296"
  using unsigned_less[of w, where 'a = nat] by simp

lemma unat_lt_u64 [simp]: "unat (w :: u64) < 18446744073709551616"
  using unsigned_less[of w, where 'a = nat] by simp

lemma unat_u8_less [simp]: "256 \<le> n \<Longrightarrow> unat (w :: u8) < n"
  by (rule less_le_trans[OF unat_lt_u8])

lemma unat_u16_less [simp]: "65536 \<le> n \<Longrightarrow> unat (w :: u16) < n"
  by (rule less_le_trans[OF unat_lt_u16])

lemma unat_u32_less [simp]: "4294967296 \<le> n \<Longrightarrow> unat (w :: u32) < n"
  by (rule less_le_trans[OF unat_lt_u32])

text \<open>Masks and disjoint sums on \<open>nat\<close>.\<close>

lemma nat_and_mask: "(n :: nat) AND mask k = n mod 2 ^ k"
  by (simp add: take_bit_eq_mod flip: take_bit_eq_mask)

lemma nat_and_63: "(n :: nat) AND 63 = n mod 64"
  using nat_and_mask[of n 6] by (simp add: mask_eq_exp_minus_1)

lemma nat_and_1023: "(n :: nat) AND 1023 = n mod 1024"
  using nat_and_mask[of n 10] by (simp add: mask_eq_exp_minus_1)

lemma nat_or_add:
  assumes "b < 2 ^ k"
  shows "(a * 2 ^ k) OR b = a * 2 ^ k + (b :: nat)"
proof -
  have "push_bit k a AND b = 0"
  proof (rule bit_eqI)
    fix n
    have "\<not> bit b n" if "k \<le> n"
    proof -
      have "bit (take_bit k b) n = bit b n"
        using assms by (simp only: take_bit_nat_eq_self)
      with that show ?thesis by (simp add: bit_take_bit_iff)
    qed
    then show "bit (push_bit k a AND b) n = bit (0 :: nat) n"
      by (auto simp: bit_and_iff bit_push_bit_iff)
  qed
  then show ?thesis
    by (simp add: disjunctive_add_eq_or push_bit_eq_mult)
qed

lemma nat_or_128: "x < 64 \<Longrightarrow> (x :: nat) OR 128 = x + 128"
  using nat_or_add[of x 6 2] by (simp add: or.commute)

lemma nat_or_192: "x < 32 \<Longrightarrow> (x :: nat) OR 192 = x + 192"
  using nat_or_add[of x 6 3] by (simp add: or.commute)

lemma nat_or_224: "x < 16 \<Longrightarrow> (x :: nat) OR 224 = x + 224"
  using nat_or_add[of x 5 7] by (simp add: or.commute)

lemma nat_or_240: "x < 8 \<Longrightarrow> (x :: nat) OR 240 = x + 240"
  using nat_or_add[of x 4 15] by (simp add: or.commute)

lemma nat_div_eq_iff:
  assumes "0 < d"
  shows "(n :: nat) div d = q \<longleftrightarrow> q * d \<le> n \<and> n < Suc q * d"
proof
  assume "n div d = q"
  then show "q * d \<le> n \<and> n < Suc q * d"
    using assms dividend_less_div_times[of d n] by auto
qed (use div_nat_eqI[of d q n] in \<open>auto simp: mult.commute\<close>)

section \<open>Writing a block into an array\<close>

lemma unat_add_u32:
  "unat (a + b :: u32) = (if unat a + unat b < 4294967296 then unat a + unat b else unat a + unat b - 4294967296)"
  by (simp add: unat_plus_if')

lemma unat_sub_u32:
  "unat (a - b :: u32) = (if unat b \<le> unat a then unat a - unat b else unat a + 4294967296 - unat b)"
  by (simp add: unat_sub_if')

text \<open>\<open>blit xs i ys\<close> is the array \<open>xs\<close> after \<open>memcpy(xs + i, ys, length ys)\<close>.\<close>

definition blit :: "'a list \<Rightarrow> nat \<Rightarrow> 'a list \<Rightarrow> 'a list" where
  "blit xs i ys = take i xs @ ys @ drop (i + length ys) xs"

lemma length_blit [simp]: "i + length ys \<le> length xs \<Longrightarrow> length (blit xs i ys) = length xs"
  by (simp add: blit_def)

lemma take_blit [simp]:
  "i + length ys \<le> length xs \<Longrightarrow> take (i + length ys) (blit xs i ys) = take i xs @ ys"
  by (simp add: blit_def)

lemma take_blit_before [simp]: "j \<le> i \<Longrightarrow> i \<le> length xs \<Longrightarrow> take j (blit xs i ys) = take j xs"
  by (simp add: blit_def min_def)

lemma drop_blit_after [simp]:
  "i + length ys \<le> j \<Longrightarrow> i + length ys \<le> length xs \<Longrightarrow> drop j (blit xs i ys) = drop j xs"
  by (simp add: blit_def)

lemma blit_Nil [simp]: "blit xs i [] = xs"
  by (simp add: blit_def)

lemma take_list_update_swap: "i < length xs \<Longrightarrow> take (Suc i) (xs[i := x]) = take i xs @ [x]"
  by (simp add: take_Suc_conv_app_nth)

end
