(* ===== verification/Cutils_Bits.thy ===== *)
theory Cutils_Bits
  imports Qjs_Prelude "HOL-Library.Monad_Syntax"
begin

text \<open>
  The integer helpers of \<open>cutils.h\<close>: minima and maxima, the Fibonacci hash, leading and
  trailing zero counts, unaligned loads and stores, byte swaps, UTF-16 surrogates and ASCII
  classification. \<open>int\<close> arguments are \<open>int\<close>, unsigned ones words of their width.
\<close>

section \<open>Minimum, maximum, hash\<close>

definition max_int :: "int \<Rightarrow> int \<Rightarrow> int" where
  "max_int a b = (if a > b then a else b)"

definition min_int :: "int \<Rightarrow> int \<Rightarrow> int" where
  "min_int a b = (if a < b then a else b)"

definition max_uint32 :: "u32 \<Rightarrow> u32 \<Rightarrow> u32" where
  "max_uint32 a b = (if a > b then a else b)"

definition min_uint32 :: "u32 \<Rightarrow> u32 \<Rightarrow> u32" where
  "min_uint32 a b = (if a < b then a else b)"

definition max_int64 :: "int \<Rightarrow> int \<Rightarrow> int" where
  "max_int64 a b = (if a > b then a else b)"

definition min_int64 :: "int \<Rightarrow> int \<Rightarrow> int" where
  "min_int64 a b = (if a < b then a else b)"

lemma max_int_eq [simp]: "max_int a b = max a b"
  by (simp add: max_int_def)

lemma min_int_eq [simp]: "min_int a b = min a b"
  by (simp add: min_int_def)

definition hash32 :: "u32 \<Rightarrow> u32" where
  "hash32 a = a * 0x61c88647"

text \<open>The multiplier is odd, so the hash permutes the 32-bit values: no two keys collide.\<close>

lemma hash32_inverse: "hash32 a * 3954393975 = a"
proof -
  have "(0x61c88647 :: u32) * 3954393975 = 1" by simp
  then show ?thesis by (simp only: hash32_def mult.assoc mult_1_right)
qed

lemma hash32_inj: "hash32 a = hash32 b \<Longrightarrow> a = b"
  by (metis hash32_inverse)

section \<open>Leading and trailing zeros\<close>

text \<open>
  \<open>__builtin_clz\<close> and \<open>__builtin_ctz\<close> count from the top and from the bottom bit; both are
  undefined at 0, where the model gives the width.
\<close>

fun clz_from :: "nat \<Rightarrow> 'a::len word \<Rightarrow> nat" where
  "clz_from 0 w = 0"
| "clz_from (Suc n) w = (if bit w n then 0 else Suc (clz_from n w))"

fun ctz_upto :: "nat \<Rightarrow> 'a::len word \<Rightarrow> nat" where
  "ctz_upto 0 w = 0"
| "ctz_upto (Suc n) w = (if bit w 0 then 0 else Suc (ctz_upto n (drop_bit 1 w)))"

definition clz32 :: "u32 \<Rightarrow> nat" where
  "clz32 a = clz_from 32 a"

text \<open>The branch for 32-bit MSVC, which counts in two halves.\<close>

definition clz64 :: "u64 \<Rightarrow> nat" where
  "clz64 a = (if drop_bit 32 a \<noteq> 0 then clz32 (ucast (drop_bit 32 a))
              else clz32 (ucast a) + 32)"

definition ctz32 :: "u32 \<Rightarrow> nat" where
  "ctz32 a = ctz_upto 32 a"

definition ctz64 :: "u64 \<Rightarrow> nat" where
  "ctz64 a = ctz_upto 64 a"

lemma clz_from_bound:
  assumes "unat (w :: 'a::len word) < 2 ^ n" and "w \<noteq> 0"
  shows "clz_from n w < n \<and> 2 ^ (n - 1 - clz_from n w) \<le> unat w
         \<and> unat w < 2 ^ (n - clz_from n w)"
  using assms
proof (induction n)
  case 0
  then show ?case by (simp add: unat_eq_zero)
next
  case (Suc n)
  show ?case
  proof (cases "bit w n")
    case True
    have "2 ^ n \<le> unat w"
    proof -
      have "odd (unat w div 2 ^ n)"
        using True by (simp add: bit_unsigned_iff flip: bit_iff_odd)
      then have "unat w div 2 ^ n \<noteq> 0" by (metis even_zero)
      then show ?thesis by (simp add: div_eq_0_iff)
    qed
    with True Suc.prems show ?thesis by simp
  next
    case False
    have "even (unat w div 2 ^ n)"
      using False by (metis bit_iff_odd bit_unsigned_iff)
    moreover have "unat w div 2 ^ n < 2"
      using Suc.prems by (simp add: div_less_iff_less_mult mult.commute)
    ultimately have "unat w div 2 ^ n = 0"
      by (metis One_nat_def less_2_cases odd_one)
    then have "unat w < 2 ^ n" by (simp add: div_eq_0_iff)
    with Suc.IH Suc.prems(2) False show ?thesis by (simp add: Suc_diff_le)
  qed
qed

lemma clz32_bound:
  "a \<noteq> 0 \<Longrightarrow> clz32 a < 32 \<and> 2 ^ (31 - clz32 a) \<le> unat a \<and> unat a < 2 ^ (32 - clz32 a)"
  using clz_from_bound[of a 32] by (simp add: clz32_def)

section \<open>Unaligned loads and stores\<close>

text \<open>
  \<open>get_u*\<close> and \<open>put_u*\<close> are \<open>memcpy\<close> to and from an integer: the byte order is the
  host's, the parameter \<open>be\<close> (the value of \<open>is_be()\<close>).
\<close>

fun le_bytes :: "nat \<Rightarrow> 'a::len word \<Rightarrow> u8 list" where
  "le_bytes 0 w = []"
| "le_bytes (Suc n) w = ucast w # le_bytes n (drop_bit 8 w)"

fun le_word :: "u8 list \<Rightarrow> 'a::len word" where
  "le_word [] = 0"
| "le_word (b # bs) = ucast b OR push_bit 8 (le_word bs)"

definition mem_bytes :: "bool \<Rightarrow> nat \<Rightarrow> 'a::len word \<Rightarrow> u8 list" where
  "mem_bytes be n w = (if be then rev (le_bytes n w) else le_bytes n w)"

definition mem_word :: "bool \<Rightarrow> u8 list \<Rightarrow> 'a::len word" where
  "mem_word be bs = (if be then le_word (rev bs) else le_word bs)"

lemma length_le_bytes [simp]: "length (le_bytes n w) = n"
  by (induction n arbitrary: w) auto

lemma length_mem_bytes [simp]: "length (mem_bytes be n w) = n"
  by (simp add: mem_bytes_def)

lemma le_word_le_bytes:
  "LENGTH('a::len) \<le> 8 * n \<Longrightarrow> le_word (le_bytes n (w :: 'a word)) = w"
proof -
  have gen: "le_word (le_bytes n (w :: 'a word)) = take_bit (8 * n) w" for n w
  proof (induction n arbitrary: w)
    case 0
    then show ?case by simp
  next
    case (Suc n)
    show ?case
      by (rule bit_word_eqI)
        (auto simp: Suc.IH bit_or_iff bit_push_bit_iff bit_take_bit_iff bit_drop_bit_eq
           bit_ucast_iff le_diff_conv2)
  qed
  assume "LENGTH('a) \<le> 8 * n"
  then show ?thesis
    by (simp add: gen take_bit_word_eq_self)
qed

definition get_u64 :: "bool \<Rightarrow> u8 list \<Rightarrow> u64" where
  "get_u64 be tab = mem_word be (take 8 tab)"

definition get_i64 :: "bool \<Rightarrow> u8 list \<Rightarrow> int" where
  "get_i64 be tab = sint (mem_word be (take 8 tab) :: u64)"

definition put_u64 :: "bool \<Rightarrow> u64 \<Rightarrow> u8 list" where
  "put_u64 be v = mem_bytes be 8 v"

definition get_u32 :: "bool \<Rightarrow> u8 list \<Rightarrow> u32" where
  "get_u32 be tab = mem_word be (take 4 tab)"

definition get_i32 :: "bool \<Rightarrow> u8 list \<Rightarrow> int" where
  "get_i32 be tab = sint (mem_word be (take 4 tab) :: u32)"

definition put_u32 :: "bool \<Rightarrow> u32 \<Rightarrow> u8 list" where
  "put_u32 be v = mem_bytes be 4 v"

definition get_u16 :: "bool \<Rightarrow> u8 list \<Rightarrow> u32" where
  "get_u16 be tab = ucast (mem_word be (take 2 tab) :: u16)"

definition get_i16 :: "bool \<Rightarrow> u8 list \<Rightarrow> int" where
  "get_i16 be tab = sint (mem_word be (take 2 tab) :: u16)"

definition put_u16 :: "bool \<Rightarrow> u16 \<Rightarrow> u8 list" where
  "put_u16 be v = mem_bytes be 2 v"

lemma mem_word_mem_bytes:
  "LENGTH('a::len) \<le> 8 * n \<Longrightarrow> mem_word be (mem_bytes be n (w :: 'a word)) = w"
  by (simp add: mem_word_def mem_bytes_def le_word_le_bytes)

section \<open>Byte swaps\<close>

definition bswap16 :: "u16 \<Rightarrow> u16" where
  "bswap16 x = drop_bit 8 x OR push_bit 8 x"

definition bswap32 :: "u32 \<Rightarrow> u32" where
  "bswap32 v = drop_bit 24 (v AND 0xff000000) OR drop_bit 8 (v AND 0x00ff0000)
     OR push_bit 8 (v AND 0x0000ff00) OR push_bit 24 (v AND 0x000000ff)"

definition bswap64 :: "u64 \<Rightarrow> u64" where
  "bswap64 v =
        drop_bit (7 * 8) (v AND push_bit (7 * 8) 0xff)
     OR drop_bit (5 * 8) (v AND push_bit (6 * 8) 0xff)
     OR drop_bit (3 * 8) (v AND push_bit (5 * 8) 0xff)
     OR drop_bit (1 * 8) (v AND push_bit (4 * 8) 0xff)
     OR push_bit (1 * 8) (v AND push_bit (3 * 8) 0xff)
     OR push_bit (3 * 8) (v AND push_bit (2 * 8) 0xff)
     OR push_bit (5 * 8) (v AND push_bit (1 * 8) 0xff)
     OR push_bit (7 * 8) (v AND push_bit (0 * 8) 0xff)"

section \<open>Surrogates and ASCII\<close>

definition is_surrogate :: "u32 \<Rightarrow> bool" where
  "is_surrogate c \<longleftrightarrow> drop_bit 11 c = drop_bit 11 0xD800"

definition is_hi_surrogate :: "u32 \<Rightarrow> bool" where
  "is_hi_surrogate c \<longleftrightarrow> drop_bit 10 c = drop_bit 10 0xD800"

definition is_lo_surrogate :: "u32 \<Rightarrow> bool" where
  "is_lo_surrogate c \<longleftrightarrow> drop_bit 10 c = drop_bit 10 0xDC00"

definition get_hi_surrogate :: "u32 \<Rightarrow> u32" where
  "get_hi_surrogate c = drop_bit 10 c - drop_bit 10 0x10000 + 0xD800"

definition get_lo_surrogate :: "u32 \<Rightarrow> u32" where
  "get_lo_surrogate c = (c AND 0x3FF) OR 0xDC00"

definition from_surrogate :: "u32 \<Rightarrow> u32 \<Rightarrow> u32" where
  "from_surrogate hi lo = 65536 + 1024 * (hi AND 1023) + (lo AND 1023)"

definition from_hex :: "int \<Rightarrow> int" where
  "from_hex c =
     (if c \<ge> 48 \<and> c \<le> 57 then c - 48
      else if c \<ge> 65 \<and> c \<le> 70 then c - 65 + 10
      else if c \<ge> 97 \<and> c \<le> 102 then c - 97 + 10
      else -1)"

definition is_upper_ascii :: "u8 \<Rightarrow> bool" where
  "is_upper_ascii c \<longleftrightarrow> c \<ge> 65 \<and> c \<le> 90"

definition to_upper_ascii :: "u8 \<Rightarrow> u8" where
  "to_upper_ascii c = (if c \<ge> 97 \<and> c \<le> 122 then c - 97 + 65 else c)"

lemma is_surrogate_iff: "is_surrogate c \<longleftrightarrow> 0xD800 \<le> unat c \<and> unat c < 0xE000"
proof -
  have "is_surrogate c \<longleftrightarrow> unat c div 2048 = 27"
    by (simp add: is_surrogate_def word_unat_eq_iff word_nat)
  then show ?thesis by (simp add: nat_div_eq_iff)
qed

lemma is_hi_surrogate_iff: "is_hi_surrogate c \<longleftrightarrow> 0xD800 \<le> unat c \<and> unat c < 0xDC00"
proof -
  have "is_hi_surrogate c \<longleftrightarrow> unat c div 1024 = 54"
    by (simp add: is_hi_surrogate_def word_unat_eq_iff word_nat)
  then show ?thesis by (simp add: nat_div_eq_iff)
qed

lemma is_lo_surrogate_iff: "is_lo_surrogate c \<longleftrightarrow> 0xDC00 \<le> unat c \<and> unat c < 0xE000"
proof -
  have "is_lo_surrogate c \<longleftrightarrow> unat c div 1024 = 55"
    by (simp add: is_lo_surrogate_def word_unat_eq_iff word_nat)
  then show ?thesis by (simp add: nat_div_eq_iff)
qed

lemma unat_get_hi_surrogate:
  assumes "0x10000 \<le> unat c" and "unat c < 0x110000"
  shows "unat (get_hi_surrogate c) = (unat c - 0x10000) div 1024 + 0xD800"
proof -
  have le: "64 \<le> unat c div 1024"
    using div_le_mono[OF assms(1), of 1024] by simp
  have lt: "unat c div 1024 < 1088"
    using assms(2) by (simp add: div_less_iff_less_mult)
  have "(unat c - 65536) div 1024 = unat c div 1024 - 64"
    using assms(1) div_mult_self1[of 1024 "unat c - 65536" 64] by simp
  with le lt show ?thesis
    by (simp add: get_hi_surrogate_def word_nat unat_sub_if')
qed

lemma unat_get_lo_surrogate: "unat (get_lo_surrogate c) = unat c mod 1024 + 0xDC00"
proof -
  have "unat c mod 1024 OR 56320 = unat c mod 1024 + 56320"
    using nat_or_add[of "unat c mod 1024" 10 55] by (simp add: or.commute)
  then show ?thesis
    by (simp add: get_lo_surrogate_def word_nat nat_and_1023)
qed

lemma unat_from_surrogate:
  "unat (from_surrogate hi lo) = 65536 + 1024 * (unat hi mod 1024) + unat lo mod 1024"
proof -
  have "65536 + 1024 * (unat hi mod 1024) + unat lo mod 1024 < 4294967296"
    using mod_less_divisor[of 1024 "unat hi"] mod_less_divisor[of 1024 "unat lo"] by linarith
  then show ?thesis
    by (simp add: from_surrogate_def word_nat nat_and_1023 mod_simps)
qed

end
