(* ===== verification/Utf8.thy ===== *)
theory Utf8
  imports Cutils_Bits
begin

text \<open>
  The UTF-8 codec of \<open>cutils.h\<close>: one code point at a time. The encoder returns the bytes it
  stores (its return value is their number). The decoder works on the bytes from \<open>p\<close> on and
  returns the code point and how far \<open>*pp\<close> is advanced; \<open>None\<close> means that it has read past
  the end of the array, which C leaves undefined.
\<close>

section \<open>Encoder\<close>

definition utf8_encode_len :: "u32 \<Rightarrow> nat" where
  "utf8_encode_len c =
     (if c < 0x80 then 1
      else if c < 0x800 then 2
      else if c < 0x10000 then 3
      else if c < 0x110000 then 4
      else 3)"

definition utf8_encode :: "u32 \<Rightarrow> u8 list" where
  "utf8_encode c =
     (if c < 0x80 then [ucast c]
      else if c < 0x800 then
        [ucast (drop_bit 6 c OR 0xC0), ucast ((c AND 0x3F) OR 0x80)]
      else if c < 0x10000 then
        [ucast (drop_bit 12 c OR 0xE0), ucast ((drop_bit 6 c AND 0x3F) OR 0x80),
         ucast ((c AND 0x3F) OR 0x80)]
      else if c < 0x110000 then
        [ucast (drop_bit 18 c OR 0xF0), ucast ((drop_bit 12 c AND 0x3F) OR 0x80),
         ucast ((drop_bit 6 c AND 0x3F) OR 0x80), ucast ((c AND 0x3F) OR 0x80)]
      else
        [ucast (drop_bit 12 (0xFFFD :: u32) OR 0xE0),
         ucast ((drop_bit 6 (0xFFFD :: u32) AND 0x3F) OR 0x80),
         ucast (((0xFFFD :: u32) AND 0x3F) OR 0x80)])"

section \<open>Decoder\<close>

definition rd :: "u8 list \<Rightarrow> nat \<Rightarrow> u8 option" where
  "rd p i = (if i < length p then Some (p ! i) else None)"

definition is_cont :: "u8 \<Rightarrow> u8 \<Rightarrow> u8 \<Rightarrow> bool" where
  "is_cont lower upper b \<longleftrightarrow> b \<ge> lower \<and> b \<le> upper"

text \<open>An encoding error consumes one byte.\<close>

definition decode_error :: "(u32 \<times> nat) option" where
  "decode_error = Some (0xFFFD, 1)"

text \<open>The three multi-byte branches of the \<open>switch\<close>: later bytes are read only if earlier ones fit.\<close>

definition decode_need1 :: "u8 list \<Rightarrow> u8 \<Rightarrow> (u32 \<times> nat) option" where
  "decode_need1 p c = do {
     b1 \<leftarrow> rd p 1;
     if is_cont 0x80 0xBF b1
     then Some (push_bit 6 (ucast c - 0xC0) + (ucast b1 - 0x80), 2)
     else decode_error }"

definition decode_need2 :: "u8 list \<Rightarrow> u8 \<Rightarrow> u8 \<Rightarrow> (u32 \<times> nat) option" where
  "decode_need2 p c lower = do {
     b1 \<leftarrow> rd p 1;
     if is_cont lower 0xBF b1 then do {
       b2 \<leftarrow> rd p 2;
       if is_cont 0x80 0xBF b2
       then Some (push_bit 12 (ucast c - 0xE0) + push_bit 6 (ucast b1 - 0x80)
                  + (ucast b2 - 0x80), 3)
       else decode_error }
     else decode_error }"

definition decode_need3 :: "u8 list \<Rightarrow> u8 \<Rightarrow> u8 \<Rightarrow> u8 \<Rightarrow> (u32 \<times> nat) option" where
  "decode_need3 p c lower upper = do {
     b1 \<leftarrow> rd p 1;
     if is_cont lower upper b1 then do {
       b2 \<leftarrow> rd p 2;
       if is_cont 0x80 0xBF b2 then do {
         b3 \<leftarrow> rd p 3;
         if is_cont 0x80 0xBF b3
         then Some (push_bit 18 (ucast c - 0xF0) + push_bit 12 (ucast b1 - 0x80)
                    + push_bit 6 (ucast b2 - 0x80) + (ucast b3 - 0x80), 4)
         else decode_error }
       else decode_error }
     else decode_error }"

definition utf8_decode :: "u8 list \<Rightarrow> (u32 \<times> nat) option" where
  "utf8_decode p = do {
     c \<leftarrow> rd p 0;
     if c < 0x80 then Some (ucast c, 1)
     else if c \<ge> 0xC2 \<and> c \<le> 0xDF then decode_need1 p c
     else if c = 0xE0 then decode_need2 p c 0xA0
     else if c \<ge> 0xE1 \<and> c \<le> 0xEF then decode_need2 p c 0x80
     else if c = 0xF0 then decode_need3 p c 0x90 0xBF
     else if c = 0xF4 then decode_need3 p c 0x80 0x8F
     else if c \<ge> 0xF1 \<and> c \<le> 0xF3 then decode_need3 p c 0x80 0xBF
     else decode_error }"

text \<open>\<open>max_len\<close> bytes may be read; shorter sequences are cut off by their lead byte.\<close>

definition utf8_decode_len :: "u8 list \<Rightarrow> nat \<Rightarrow> (u32 \<times> nat) option" where
  "utf8_decode_len p max_len =
     (if max_len = 0 then Some (0xFFFD, 0)
      else if max_len = 1 then
        do { b \<leftarrow> rd p 0; if b < 0x80 then utf8_decode p else Some (0xFFFD, 1) }
      else if max_len = 2 then
        do { b \<leftarrow> rd p 0; if b < 0xE0 then utf8_decode p else Some (0xFFFD, 1) }
      else if max_len = 3 then
        do { b \<leftarrow> rd p 0; if b < 0xF0 then utf8_decode p else Some (0xFFFD, 1) }
      else utf8_decode p)"

section \<open>Encodings byte by byte\<close>

lemma length_utf8_encode: "length (utf8_encode c) = utf8_encode_len c"
  by (simp add: utf8_encode_def utf8_encode_len_def)

lemma utf8_encode_len_bounds: "1 \<le> utf8_encode_len c \<and> utf8_encode_len c \<le> 4"
  by (simp add: utf8_encode_len_def)

text \<open>The bytes as numbers: the form every proof about the codec works with.\<close>

lemma unat_cont_byte: "unat (ucast ((x AND 0x3F) OR 0x80 :: u32) :: u8) = unat x mod 64 + 128"
proof -
  have "unat x mod 64 OR 128 = unat x mod 64 + 128" by (simp add: nat_or_128)
  moreover have "unat x mod 64 + 128 < 256"
    using mod_less_divisor[of 64 "unat x"] by linarith
  ultimately show ?thesis
    by (simp add: word_nat nat_and_63 mod_mod_cancel)
qed

lemma unat_lead2:
  "unat c < 0x800 \<Longrightarrow> unat (ucast (drop_bit 6 c OR 0xC0 :: u32) :: u8) = unat c div 64 + 192"
  using nat_or_192[of "unat c div 64"]
  by (simp add: word_nat div_less_iff_less_mult)

lemma unat_lead3:
  "unat c < 0x10000 \<Longrightarrow> unat (ucast (drop_bit 12 c OR 0xE0 :: u32) :: u8) = unat c div 4096 + 224"
  using nat_or_224[of "unat c div 4096"]
  by (simp add: word_nat div_less_iff_less_mult)

lemma unat_lead4:
  "unat c < 0x110000 \<Longrightarrow> unat (ucast (drop_bit 18 c OR 0xF0 :: u32) :: u8) = unat c div 262144 + 240"
  using nat_or_240[of "unat c div 262144"]
  by (simp add: word_nat div_less_iff_less_mult)


lemma unat_ucast_u8_u32 [simp]: "unat (ucast (b :: u8) :: u32) = unat b"
proof -
  have "unat b < 2 ^ LENGTH(32)"
    by (rule less_trans[OF unat_lt_u8]) simp
  then show ?thesis by (simp only: unat_ucast_mod mod_less)
qed

lemma unat_sub_const:
  "unat (k :: u32) \<le> unat (b :: u8) \<Longrightarrow> unat (ucast b - k :: u32) = unat b - unat k"
  by (subst unat_sub) (simp_all add: word_le_nat_alt)

lemma split64: "n div 64 * 64 + n mod 64 = (n :: nat)"
  by (rule div_mult_mod_eq)

lemma div_4096: "n div 4096 = n div 64 div (64 :: nat)"
  by (simp flip: div_mult2_eq)

lemma div_262144: "n div 262144 = n div 4096 div (64 :: nat)"
  by (simp flip: div_mult2_eq)

lemma digit64:
  assumes "v = a * 64 + b" and "b < (64 :: nat)"
  shows "v div 64 = a" and "v mod 64 = b"
  using assms by simp_all

lemma mod_64_le: "n mod 64 \<le> (63 :: nat)"
  using mod_less_divisor[of 64 n] by linarith

lemma unat_value2:
  assumes "192 \<le> unat c" and "128 \<le> unat b" and "unat b < 192"
  shows "unat (push_bit 6 (ucast (c :: u8) - 0xC0) + (ucast (b :: u8) - 0x80) :: u32)
         = (unat c - 192) * 64 + (unat b - 128)"
proof -
  have "unat c < 256" by simp
  then have "(unat c - 192) * 64 + (unat b - 128) < 4294967296" using assms by linarith
  with assms show ?thesis
    by (simp add: unat_word_ariths unat_push_bit unat_sub_const)
qed

lemma unat_value3:
  assumes "224 \<le> unat c" and "128 \<le> unat b1" and "128 \<le> unat b2"
  shows "unat (push_bit 12 (ucast (c :: u8) - 0xE0) + push_bit 6 (ucast (b1 :: u8) - 0x80)
               + (ucast (b2 :: u8) - 0x80) :: u32)
         = (unat c - 224) * 4096 + (unat b1 - 128) * 64 + (unat b2 - 128)"
proof -
  have "unat c < 256" "unat b1 < 256" "unat b2 < 256" by simp_all
  then have "(unat c - 224) * 4096 + (unat b1 - 128) * 64 + (unat b2 - 128) < 4294967296"
    using assms by linarith
  with assms show ?thesis
    by (simp add: unat_word_ariths unat_push_bit unat_sub_const)
qed

lemma unat_value4:
  assumes "240 \<le> unat c" and "128 \<le> unat b1" and "128 \<le> unat b2" and "128 \<le> unat b3"
  shows "unat (push_bit 18 (ucast (c :: u8) - 0xF0) + push_bit 12 (ucast (b1 :: u8) - 0x80)
               + push_bit 6 (ucast (b2 :: u8) - 0x80) + (ucast (b3 :: u8) - 0x80) :: u32)
         = (unat c - 240) * 262144 + (unat b1 - 128) * 4096 + (unat b2 - 128) * 64
           + (unat b3 - 128)"
proof -
  have "unat c < 256" "unat b1 < 256" "unat b2 < 256" "unat b3 < 256" by simp_all
  then have "(unat c - 240) * 262144 + (unat b1 - 128) * 4096 + (unat b2 - 128) * 64
           + (unat b3 - 128) < 4294967296"
    using assms by linarith
  with assms show ?thesis
    by (simp add: unat_word_ariths unat_push_bit unat_sub_const)
qed

lemmas byte_cmp = word_less_nat_alt word_le_nat_alt word_unat_eq_iff

lemma rd_Cons [simp]: "rd (b # bs) 0 = Some b" "rd (b # bs) (Suc i) = rd bs i"
  by (simp_all add: rd_def)

lemma rd_Cons_numeral [simp]: "rd (b # bs) 1 = rd bs 0" "rd (b # bs) (numeral k) = rd bs (pred_numeral k)"
  by (simp_all add: rd_def numeral_eq_Suc)

section \<open>Decoding an encoding\<close>

lemma decode_encode1: "unat c < 0x80 \<Longrightarrow> utf8_decode (utf8_encode c @ r) = Some (c, 1)"
  by (simp add: utf8_encode_def utf8_decode_def byte_cmp word_nat)

lemma decode_encode2:
  assumes "0x80 \<le> unat c" and "unat c < 0x800"
  shows "utf8_decode (utf8_encode c @ r) = Some (c, 2)"
proof -
  define h where "h = (ucast (drop_bit 6 c OR 0xC0) :: u8)"
  define l where "l = (ucast ((c AND 0x3F) OR 0x80) :: u8)"
  have h: "unat h = unat c div 64 + 192"
    unfolding h_def using assms by (simp only: unat_lead2)
  have l: "unat l = unat c mod 64 + 128"
    unfolding l_def by (rule unat_cont_byte)
  have "utf8_encode c = [h, l]"
    using assms by (simp add: utf8_encode_def byte_cmp h_def l_def)
  moreover have "2 \<le> unat c div 64" "unat c div 64 < 32" "unat c mod 64 \<le> 63"
    using assms div_le_mono[OF assms(1), of 64] by (simp_all add: div_less_iff_less_mult mod_64_le)
  moreover from this have "push_bit 6 (ucast h - 0xC0) + (ucast l - 0x80) = c"
    by (simp add: word_unat_eq_iff unat_value2 h l)
  ultimately show ?thesis
    by (simp add: utf8_decode_def decode_need1_def is_cont_def byte_cmp h l)
qed

lemma decode_encode3:
  assumes "0x800 \<le> unat c" and "unat c < 0x10000"
  shows "utf8_decode (utf8_encode c @ r) = Some (c, 3)"
proof -
  define h where "h = (ucast (drop_bit 12 c OR 0xE0) :: u8)"
  define m where "m = (ucast ((drop_bit 6 c AND 0x3F) OR 0x80) :: u8)"
  define l where "l = (ucast ((c AND 0x3F) OR 0x80) :: u8)"
  have h: "unat h = unat c div 4096 + 224"
    unfolding h_def using assms by (simp only: unat_lead3)
  have m: "unat m = unat c div 64 mod 64 + 128"
    unfolding m_def by (simp only: unat_cont_byte unat_drop_bit) simp
  have l: "unat l = unat c mod 64 + 128"
    unfolding l_def by (rule unat_cont_byte)
  have "utf8_encode c = [h, m, l]"
    using assms by (simp add: utf8_encode_def byte_cmp h_def m_def l_def)
  moreover have b: "unat c div 4096 < 16" "unat c mod 64 \<le> 63" "unat c div 64 mod 64 \<le> 63"
    using assms by (simp_all add: div_less_iff_less_mult mod_64_le)
  moreover have dm: "unat c div 4096 * 4096 + unat c div 64 mod 64 * 64 + unat c mod 64 = unat c"
    using split64[of "unat c"] split64[of "unat c div 64"] div_4096[of "unat c"] by linarith
  moreover from dm have "push_bit 12 (ucast h - 0xE0) + push_bit 6 (ucast m - 0x80) + (ucast l - 0x80) = c"
    by (simp add: word_unat_eq_iff unat_value3 h m l)
  moreover have "unat c div 4096 = 0 \<Longrightarrow> 32 \<le> unat c div 64 mod 64"
    using dm b assms by linarith
  ultimately show ?thesis
    by (auto simp: utf8_decode_def decode_need2_def is_cont_def byte_cmp h m l)
qed

lemma decode_encode4:
  assumes "0x10000 \<le> unat c" and "unat c < 0x110000"
  shows "utf8_decode (utf8_encode c @ r) = Some (c, 4)"
proof -
  define h where "h = (ucast (drop_bit 18 c OR 0xF0) :: u8)"
  define m where "m = (ucast ((drop_bit 12 c AND 0x3F) OR 0x80) :: u8)"
  define k where "k = (ucast ((drop_bit 6 c AND 0x3F) OR 0x80) :: u8)"
  define l where "l = (ucast ((c AND 0x3F) OR 0x80) :: u8)"
  have h: "unat h = unat c div 262144 + 240"
    unfolding h_def using assms by (simp only: unat_lead4)
  have m: "unat m = unat c div 4096 mod 64 + 128"
    unfolding m_def by (simp only: unat_cont_byte unat_drop_bit) simp
  have k: "unat k = unat c div 64 mod 64 + 128"
    unfolding k_def by (simp only: unat_cont_byte unat_drop_bit) simp
  have l: "unat l = unat c mod 64 + 128"
    unfolding l_def by (rule unat_cont_byte)
  have "utf8_encode c = [h, m, k, l]"
    using assms by (simp add: utf8_encode_def byte_cmp h_def m_def k_def l_def)
  moreover have b: "unat c div 262144 < 5" "unat c mod 64 \<le> 63" "unat c div 64 mod 64 \<le> 63"
    "unat c div 4096 mod 64 \<le> 63"
    using assms by (simp_all add: div_less_iff_less_mult mod_64_le)
  moreover have dm: "unat c div 262144 * 262144 + unat c div 4096 mod 64 * 4096
      + unat c div 64 mod 64 * 64 + unat c mod 64 = unat c"
    using split64[of "unat c"] split64[of "unat c div 64"] split64[of "unat c div 4096"]
      div_4096[of "unat c"] div_262144[of "unat c"] by linarith
  moreover from dm have "push_bit 18 (ucast h - 0xF0) + push_bit 12 (ucast m - 0x80)
      + push_bit 6 (ucast k - 0x80) + (ucast l - 0x80) = c"
    by (simp add: word_unat_eq_iff unat_value4 h m k l)
  moreover have "unat c div 262144 = 0 \<Longrightarrow> 16 \<le> unat c div 4096 mod 64"
    using dm b assms by linarith
  moreover have "unat c div 262144 = 4 \<Longrightarrow> unat c div 4096 mod 64 < 16"
    using dm b assms by linarith
  ultimately show ?thesis
    by (auto simp: utf8_decode_def decode_need3_def is_cont_def byte_cmp h m k l)
qed

lemma decode_encode:
  assumes "unat c < 0x110000"
  shows "utf8_decode (utf8_encode c @ r) = Some (c, utf8_encode_len c)"
proof -
  consider "unat c < 0x80" | "0x80 \<le> unat c" "unat c < 0x800"
    | "0x800 \<le> unat c" "unat c < 0x10000" | "0x10000 \<le> unat c" "unat c < 0x110000"
    using assms by linarith
  then show ?thesis
    by cases (simp_all add: decode_encode1 decode_encode2 decode_encode3 decode_encode4
        utf8_encode_len_def byte_cmp)
qed

section \<open>What a decoded code point was encoded as\<close>

lemma encode_value2:
  assumes "194 \<le> unat c" and "unat c < 224" and "128 \<le> unat b" and "unat b < 192"
  shows "utf8_encode (push_bit 6 (ucast c - 0xC0) + (ucast b - 0x80)) = [c, b]"
proof -
  define v where "v = push_bit 6 (ucast c - 0xC0) + (ucast b - 0x80 :: u32)"
  have v: "unat v = (unat c - 192) * 64 + (unat b - 128)"
    unfolding v_def using assms by (intro unat_value2) auto
  have "unat b - 128 < 64" using assms by linarith
  with v have "unat v div 64 = unat c - 192" "unat v mod 64 = unat b - 128"
    by (rule digit64)+
  moreover have "0x80 \<le> unat v" "unat v < 0x800"
    using v assms by linarith+
  ultimately have "utf8_encode v = [c, b]"
    using assms by (simp add: utf8_encode_def byte_cmp unat_cont_byte unat_lead2)
  then show ?thesis by (simp add: v_def)
qed

lemma encode_value3:
  assumes "224 \<le> unat c" and "unat c < 240" and "128 \<le> unat b1" and "unat b1 < 192"
    and "128 \<le> unat b2" and "unat b2 < 192" and "unat c = 224 \<Longrightarrow> 160 \<le> unat b1"
  shows "utf8_encode (push_bit 12 (ucast c - 0xE0) + push_bit 6 (ucast b1 - 0x80)
           + (ucast b2 - 0x80)) = [c, b1, b2]"
proof -
  define v where "v = push_bit 12 (ucast c - 0xE0) + push_bit 6 (ucast b1 - 0x80)
           + (ucast b2 - 0x80 :: u32)"
  have v: "unat v = (unat c - 224) * 4096 + (unat b1 - 128) * 64 + (unat b2 - 128)"
    unfolding v_def using assms by (intro unat_value3) auto
  have lt: "unat b1 - 128 < 64" "unat b2 - 128 < 64" using assms by linarith+
  have "unat v = ((unat c - 224) * 64 + (unat b1 - 128)) * 64 + (unat b2 - 128)"
    by (simp add: v add_mult_distrib mult.assoc)
  note d1 = digit64[OF this lt(2)]
  note d2 = digit64[OF d1(1) lt(1), folded div_4096]
  have "0x800 \<le> unat v"
    using v assms by (cases "unat c = 224") auto
  moreover have "unat v < 0x10000"
    using v assms by linarith
  ultimately have "utf8_encode v = [c, b1, b2]"
    using assms d1 d2
    by (simp add: utf8_encode_def byte_cmp unat_cont_byte unat_lead3 unat_drop_bit)
  then show ?thesis by (simp add: v_def)
qed

lemma encode_value4:
  assumes "240 \<le> unat c" and "unat c < 245" and "128 \<le> unat b1" and "unat b1 < 192"
    and "128 \<le> unat b2" and "unat b2 < 192" and "128 \<le> unat b3" and "unat b3 < 192"
    and "unat c = 240 \<Longrightarrow> 144 \<le> unat b1" and "unat c = 244 \<Longrightarrow> unat b1 < 144"
  shows "utf8_encode (push_bit 18 (ucast c - 0xF0) + push_bit 12 (ucast b1 - 0x80)
           + push_bit 6 (ucast b2 - 0x80) + (ucast b3 - 0x80)) = [c, b1, b2, b3]"
    and "unat (push_bit 18 (ucast c - 0xF0) + push_bit 12 (ucast b1 - 0x80)
           + push_bit 6 (ucast b2 - 0x80) + (ucast b3 - 0x80 :: u32)) < 0x110000"
proof -
  define v where "v = push_bit 18 (ucast c - 0xF0) + push_bit 12 (ucast b1 - 0x80)
           + push_bit 6 (ucast b2 - 0x80) + (ucast b3 - 0x80 :: u32)"
  have v: "unat v = (unat c - 240) * 262144 + (unat b1 - 128) * 4096 + (unat b2 - 128) * 64
             + (unat b3 - 128)"
    unfolding v_def using assms by (intro unat_value4) auto
  have lt: "unat b1 - 128 < 64" "unat b2 - 128 < 64" "unat b3 - 128 < 64"
    using assms by linarith+
  have "unat v = (((unat c - 240) * 64 + (unat b1 - 128)) * 64 + (unat b2 - 128)) * 64
      + (unat b3 - 128)"
    by (simp add: v add_mult_distrib mult.assoc)
  note d1 = digit64[OF this lt(3)]
  note d2 = digit64[OF d1(1) lt(2), folded div_4096]
  note d3 = digit64[OF d2(1) lt(1), folded div_262144]
  have "0x10000 \<le> unat v"
    using v assms by (cases "unat c = 240") auto
  moreover have vlt: "unat v < 0x110000"
    using v assms by (cases "unat c = 244") auto
  ultimately have "utf8_encode v = [c, b1, b2, b3]"
    using assms d1 d2 d3
    by (simp add: utf8_encode_def byte_cmp unat_cont_byte unat_lead4 unat_drop_bit)
  then show "utf8_encode (push_bit 18 (ucast c - 0xF0) + push_bit 12 (ucast b1 - 0x80)
           + push_bit 6 (ucast b2 - 0x80) + (ucast b3 - 0x80)) = [c, b1, b2, b3]"
    by (simp add: v_def)
  show "unat (push_bit 18 (ucast c - 0xF0) + push_bit 12 (ucast b1 - 0x80)
           + push_bit 6 (ucast b2 - 0x80) + (ucast b3 - 0x80 :: u32)) < 0x110000"
    using vlt by (simp add: v_def)
qed

text \<open>
  The decoder as one case distinction: a result is an exact encoding or the error value.
\<close>

lemma rd_SomeD: "rd p i = Some b \<Longrightarrow> i < length p \<and> p ! i = b"
  by (simp add: rd_def split: if_splits)

lemma take_rd2: "rd p 0 = Some a \<Longrightarrow> rd p 1 = Some b \<Longrightarrow> take 2 p = [a, b]"
  by (cases p; cases "tl p") (auto simp: rd_def)

lemma take_rd3:
  "rd p 0 = Some a \<Longrightarrow> rd p 1 = Some b \<Longrightarrow> rd p 2 = Some c \<Longrightarrow> take 3 p = [a, b, c]"
  by (auto simp: rd_def numeral_eq_Suc take_Suc_conv_app_nth split: if_splits)

lemma take_rd4:
  "rd p 0 = Some a \<Longrightarrow> rd p 1 = Some b \<Longrightarrow> rd p 2 = Some c \<Longrightarrow> rd p 3 = Some d
   \<Longrightarrow> take 4 p = [a, b, c, d]"
  by (auto simp: rd_def numeral_eq_Suc take_Suc_conv_app_nth split: if_splits)

definition decoded :: "u8 list \<Rightarrow> u32 \<Rightarrow> nat \<Rightarrow> bool" where
  "decoded p c n \<longleftrightarrow> 0 < n \<and> n \<le> length p \<and> unat c < 0x110000 \<and>
     (take n p = utf8_encode c \<or> c = 0xFFFD \<and> n = 1)"

lemma decoded_error: "p \<noteq> [] \<Longrightarrow> decode_error = Some (c, n) \<Longrightarrow> decoded p c n"
  by (cases p) (auto simp: decode_error_def decoded_def)

lemma decoded_exact:
  assumes "utf8_encode v = bs" and "take (length bs) p = bs" and "unat v < 0x110000"
  shows "decoded p v (length bs)"
  using assms utf8_encode_len_bounds[of v] length_utf8_encode[of v]
  by (auto simp: decoded_def) (metis length_take min.cobounded1)

lemma decode_need1_sound:
  assumes "rd p 0 = Some a" and "194 \<le> unat a" and "unat a < 224"
    and "decode_need1 p a = Some (c, n)"
  shows "decoded p c n"
proof -
  obtain b where b: "rd p 1 = Some b"
    using assms(4) by (auto simp: decode_need1_def bind_eq_Some_conv)
  show ?thesis
  proof (cases "is_cont 0x80 0xBF b")
    case True
    then have bb: "128 \<le> unat b" "unat b < 192"
      by (auto simp: is_cont_def byte_cmp)
    note e = encode_value2[OF assms(2,3) bb]
    have "unat a < 256" by simp
    then have "unat (push_bit 6 (ucast a - 0xC0) + (ucast b - 0x80 :: u32)) < 0x110000"
      using bb assms(2) by (subst unat_value2) linarith+
    from decoded_exact[OF e _ this, of p] True b assms(4) take_rd2[OF assms(1) b]
    show ?thesis by (auto simp: decode_need1_def numeral_2_eq_2)
  next
    case False
    with b assms(1,4) decoded_error[of p c n] show ?thesis
      by (auto simp: decode_need1_def rd_def split: if_splits)
  qed
qed

lemma decode_need2_sound:
  assumes "rd p 0 = Some a" and "224 \<le> unat a" and "unat a < 240"
    and "128 \<le> unat lower" and "unat a = 224 \<Longrightarrow> 160 \<le> unat lower"
    and "decode_need2 p a lower = Some (c, n)"
  shows "decoded p c n"
proof -
  have ne: "p \<noteq> []" using assms(1) by (auto simp: rd_def)
  obtain b1 where b1: "rd p 1 = Some b1"
    using assms(6) by (auto simp: decode_need2_def bind_eq_Some_conv)
  show ?thesis
  proof (cases "is_cont lower 0xBF b1 \<and> (\<exists>b2. rd p 2 = Some b2 \<and> is_cont 0x80 0xBF b2)")
    case True
    then obtain b2 where b2: "rd p 2 = Some b2" "is_cont 0x80 0xBF b2" "is_cont lower 0xBF b1"
      by blast
    then have bb: "128 \<le> unat b1" "unat b1 < 192" "128 \<le> unat b2" "unat b2 < 192"
        "unat a = 224 \<Longrightarrow> 160 \<le> unat b1"
      using assms(4,5) by (auto simp: is_cont_def byte_cmp)
    note e = encode_value3[OF assms(2,3) bb]
    have "unat (push_bit 12 (ucast a - 0xE0) + push_bit 6 (ucast b1 - 0x80)
             + (ucast b2 - 0x80 :: u32)) < 0x110000"
      using bb assms(2,3) by (subst unat_value3) linarith+
    from decoded_exact[OF e _ this, of p] b1 b2 assms(6) take_rd3[OF assms(1) b1 b2(1)]
    show ?thesis by (auto simp: decode_need2_def numeral_3_eq_3)
  next
    case False
    with b1 assms(6) have "decode_error = Some (c, n)"
      by (auto simp: decode_need2_def bind_eq_Some_conv split: if_splits)
    then show ?thesis by (rule decoded_error[OF ne])
  qed
qed

lemma decode_need3_sound:
  assumes "rd p 0 = Some a" and "240 \<le> unat a" and "unat a < 245"
    and "128 \<le> unat lower" and "unat a = 240 \<Longrightarrow> 144 \<le> unat lower"
    and "unat upper < 192" and "unat a = 244 \<Longrightarrow> unat upper < 144"
    and "decode_need3 p a lower upper = Some (c, n)"
  shows "decoded p c n"
proof -
  have ne: "p \<noteq> []" using assms(1) by (auto simp: rd_def)
  obtain b1 where b1: "rd p 1 = Some b1"
    using assms(8) by (auto simp: decode_need3_def bind_eq_Some_conv)
  show ?thesis
  proof (cases "is_cont lower upper b1 \<and> (\<exists>b2. rd p 2 = Some b2 \<and> is_cont 0x80 0xBF b2
      \<and> (\<exists>b3. rd p 3 = Some b3 \<and> is_cont 0x80 0xBF b3))")
    case True
    then obtain b2 b3 where b23: "is_cont lower upper b1" "rd p 2 = Some b2"
        "is_cont 0x80 0xBF b2" "rd p 3 = Some b3" "is_cont 0x80 0xBF b3"
      by blast
    then have bb: "128 \<le> unat b1" "unat b1 < 192" "128 \<le> unat b2" "unat b2 < 192"
        "128 \<le> unat b3" "unat b3 < 192"
        "unat a = 240 \<Longrightarrow> 144 \<le> unat b1" "unat a = 244 \<Longrightarrow> unat b1 < 144"
      using assms(4-7) by (auto simp: is_cont_def byte_cmp)
    note e = encode_value4[OF assms(2,3) bb]
    from decoded_exact[OF e(1) _ e(2), of p] b1 b23 assms(8) take_rd4[OF assms(1) b1 b23(2,4)]
    show ?thesis by (auto simp: decode_need3_def numeral_eq_Suc)
  next
    case False
    with b1 assms(8) have "decode_error = Some (c, n)"
      by (auto simp: decode_need3_def bind_eq_Some_conv split: if_splits)
    then show ?thesis by (rule decoded_error[OF ne])
  qed
qed

lemma utf8_decode_decoded: "utf8_decode p = Some (c, n) \<Longrightarrow> decoded p c n"
proof -
  assume d: "utf8_decode p = Some (c, n)"
  then obtain a where a: "rd p 0 = Some a"
    by (auto simp: utf8_decode_def bind_eq_Some_conv)
  then have ne: "p \<noteq> []" and hd: "take 1 p = [a]"
    by (auto simp: rd_def take_Suc_conv_app_nth split: if_splits)
  consider (ascii) "unat a < 0x80" | (two) "194 \<le> unat a" "unat a < 224"
    | (e0) "unat a = 224" | (three) "225 \<le> unat a" "unat a < 240" | (f0) "unat a = 240"
    | (f4) "unat a = 244" | (four) "241 \<le> unat a" "unat a < 244"
    | (bad) "128 \<le> unat a \<and> unat a < 194 \<or> 244 < unat a"
    by linarith
  then show ?thesis
  proof cases
    case ascii
    then have "utf8_encode (ucast a) = [a]" "unat (ucast a :: u32) < 0x110000"
      by (auto simp: utf8_encode_def byte_cmp unat_ucast_mod)
    from decoded_exact[OF this(1) _ this(2), of p] hd have "decoded p (ucast a) 1" by simp
    moreover have "Some (c, n) = Some (ucast a, 1)"
      using a d ascii by (simp add: utf8_decode_def word_less_nat_alt)
    ultimately show ?thesis by simp
  next
    case two
    with a d show ?thesis
      by (intro decode_need1_sound[of p a]) (auto simp: utf8_decode_def byte_cmp)
  next
    case e0
    with a d show ?thesis
      by (intro decode_need2_sound[of p a "0xA0"]) (auto simp: utf8_decode_def byte_cmp)
  next
    case three
    with a d show ?thesis
      by (intro decode_need2_sound[of p a "0x80"]) (auto simp: utf8_decode_def byte_cmp)
  next
    case f0
    with a d show ?thesis
      by (intro decode_need3_sound[of p a "0x90" "0xBF"]) (auto simp: utf8_decode_def byte_cmp)
  next
    case f4
    with a d show ?thesis
      by (intro decode_need3_sound[of p a "0x80" "0x8F"]) (auto simp: utf8_decode_def byte_cmp)
  next
    case four
    with a d show ?thesis
      by (intro decode_need3_sound[of p a "0x80" "0xBF"]) (auto simp: utf8_decode_def byte_cmp)
  next
    case bad
    with a d have "decode_error = Some (c, n)"
      by (auto simp: utf8_decode_def byte_cmp)
    then show ?thesis by (rule decoded_error[OF ne])
  qed
qed

section \<open>The decoder is the inverse of the encoder\<close>

text \<open>
  \<^bold>\<open>C1.\<close> For a code point \<open>c\<close> up to \<open>0x10FFFF\<close>, surrogates included, \<open>utf8_decode\<close> returns
  \<open>c\<close> and advances by \<open>utf8_encode_len c\<close> exactly on the inputs that begin with the bytes
  \<open>utf8_encode\<close> stores for \<open>c\<close>: every encoding is decoded, and no overlong, truncated or
  out-of-range sequence is taken for one.
\<close>

theorem utf8_decode_iff:
  assumes "unat c < 0x110000"
  shows "utf8_decode p = Some (c, utf8_encode_len c) \<longleftrightarrow> (\<exists>r. p = utf8_encode c @ r)"
proof
  assume "utf8_decode p = Some (c, utf8_encode_len c)"
  then have "decoded p c (utf8_encode_len c)" by (rule utf8_decode_decoded)
  moreover have "utf8_encode_len 0xFFFD = 3" by (simp add: utf8_encode_len_def)
  ultimately have "take (utf8_encode_len c) p = utf8_encode c" by (auto simp: decoded_def)
  then show "\<exists>r. p = utf8_encode c @ r" by (metis append_take_drop_id)
next
  assume "\<exists>r. p = utf8_encode c @ r"
  then show "utf8_decode p = Some (c, utf8_encode_len c)"
    using assms by (auto simp: decode_encode)
qed

theorem utf8_decode_iff_witness:
  "utf8_decode [0xE2, 0x82, 0xAC, 0x21] = Some (0x20AC, 3)"
proof -
  have "\<exists>r. [0xE2, 0x82, 0xAC, 0x21] = utf8_encode 0x20AC @ r"
    by (rule exI[of _ "[0x21]"]) (simp add: utf8_encode_def)
  moreover have "utf8_encode_len 0x20AC = 3" by (simp add: utf8_encode_len_def)
  moreover have "unat (0x20AC :: u32) < 0x110000" by simp
  ultimately show ?thesis using utf8_decode_iff by metis
qed

section \<open>Bounded reads\<close>

lemma need1_reads: "rd p 1 = Some b \<Longrightarrow> \<exists>c n. decode_need1 p a = Some (c, n) \<and> n \<le> 2"
  by (simp add: decode_need1_def decode_error_def)

lemma need2_reads:
  "rd p 1 = Some b \<Longrightarrow> rd p 2 = Some b' \<Longrightarrow> \<exists>c n. decode_need2 p a l = Some (c, n) \<and> n \<le> 3"
  by (simp add: decode_need2_def decode_error_def)

lemma need3_reads:
  "rd p 1 = Some b \<Longrightarrow> rd p 2 = Some b' \<Longrightarrow> rd p 3 = Some b''
   \<Longrightarrow> \<exists>c n. decode_need3 p a l u = Some (c, n) \<and> n \<le> 4"
  by (simp add: decode_need3_def decode_error_def)

lemma utf8_decode_reads:
  assumes "0 < m" and "m \<le> length p"
    and "m = 1 \<Longrightarrow> unat (p ! 0) < 0x80" and "m = 2 \<Longrightarrow> unat (p ! 0) < 0xE0"
    and "m = 3 \<Longrightarrow> unat (p ! 0) < 0xF0"
  shows "\<exists>c n. utf8_decode p = Some (c, n) \<and> n \<le> m"
proof -
  define a where "a = p ! 0"
  have p0: "rd p 0 = Some a" using assms(1,2) by (auto simp: rd_def a_def)
  have err: "\<exists>c n. decode_error = Some (c, n) \<and> n \<le> m"
    using assms(1) by (simp add: decode_error_def)
  have r: "rd p k = Some (p ! k)" if "k < m" for k using that assms(2) by (simp add: rd_def)
  consider (ascii) "unat a < 0x80"
    | (two) "0x80 \<le> unat a" "unat a < 0xE0" "2 \<le> m"
    | (three) "0xE0 \<le> unat a" "unat a < 0xF0" "3 \<le> m"
    | (four) "0xF0 \<le> unat a" "4 \<le> m"
    using assms(1,3-5)[folded a_def] by linarith
  then show ?thesis
  proof cases
    case ascii
    then show ?thesis using assms(1) by (simp add: utf8_decode_def p0 word_less_nat_alt)
  next
    case two
    with need1_reads[OF r[of 1], of a] have "\<exists>c n. decode_need1 p a = Some (c, n) \<and> n \<le> m"
      by fastforce
    with two err show ?thesis by (simp add: utf8_decode_def p0 byte_cmp)
  next
    case three
    with need2_reads[OF r[of 1] r[of 2], of a]
    have "\<exists>c n. decode_need2 p a l = Some (c, n) \<and> n \<le> m" for l
      by fastforce
    with three err show ?thesis by (simp add: utf8_decode_def p0 byte_cmp)
  next
    case four
    with need3_reads[OF r[of 1] r[of 2] r[of 3], of a]
    have "\<exists>c n. decode_need3 p a l u = Some (c, n) \<and> n \<le> m" for l u
      by fastforce
    with four err show ?thesis by (simp add: utf8_decode_def p0 byte_cmp)
  qed
qed

lemma utf8_decode_len_alt:
  assumes "0 < m" and "m \<le> length p"
  shows "utf8_decode_len p m =
    (if (m = 1 \<longrightarrow> unat (p ! 0) < 0x80) \<and> (m = 2 \<longrightarrow> unat (p ! 0) < 0xE0)
        \<and> (m = 3 \<longrightarrow> unat (p ! 0) < 0xF0)
     then utf8_decode p else Some (0xFFFD, 1))"
proof -
  have "p \<noteq> []" using assms by auto
  then have "rd p 0 = Some (p ! 0)" by (simp add: rd_def)
  with assms(1) show ?thesis by (simp add: utf8_decode_len_def byte_cmp)
qed

lemma encode_lead_len:
  assumes "unat c < 0x110000"
  shows "utf8_encode_len c = (if unat (utf8_encode c ! 0) < 0x80 then 1
    else if unat (utf8_encode c ! 0) < 0xE0 then 2
    else if unat (utf8_encode c ! 0) < 0xF0 then 3 else 4)"
proof -
  consider "unat c < 0x80" | "0x80 \<le> unat c" "unat c < 0x800"
    | "0x800 \<le> unat c" "unat c < 0x10000" | "0x10000 \<le> unat c"
    by linarith
  then show ?thesis
  proof cases
    case 1
    then show ?thesis by (simp add: utf8_encode_len_def utf8_encode_def byte_cmp unat_ucast_mod)
  next
    case 2
    then have "unat c div 64 < 32" by (simp add: div_less_iff_less_mult)
    with 2 show ?thesis by (simp add: utf8_encode_len_def utf8_encode_def byte_cmp unat_lead2)
  next
    case 3
    then have "unat c div 4096 < 16" by (simp add: div_less_iff_less_mult)
    with 3 show ?thesis by (simp add: utf8_encode_len_def utf8_encode_def byte_cmp unat_lead3)
  next
    case 4
    with assms show ?thesis
      by (simp add: utf8_encode_len_def utf8_encode_def byte_cmp unat_lead4)
  qed
qed

lemma utf8_decode_len_bounded:
  assumes "0 < m" and "m \<le> length p"
  shows "\<exists>c n. utf8_decode_len p m = Some (c, n) \<and> 0 < n \<and> n \<le> m \<and> unat c < 0x110000 \<and>
    (take n p = utf8_encode c \<or>
     c = 0xFFFD \<and> n = 1 \<and> (\<forall>c' k. unat c' < 0x110000 \<longrightarrow> k \<le> m \<longrightarrow> take k p \<noteq> utf8_encode c'))"
proof (cases "(m = 1 \<longrightarrow> unat (p ! 0) < 0x80) \<and> (m = 2 \<longrightarrow> unat (p ! 0) < 0xE0)
        \<and> (m = 3 \<longrightarrow> unat (p ! 0) < 0xF0)")
  case True
  note eq = utf8_decode_len_alt[OF assms, unfolded if_P[OF True]]
  from True obtain c n where d: "utf8_decode p = Some (c, n)" and n: "n \<le> m"
    using utf8_decode_reads[OF assms] by blast
  from utf8_decode_decoded[OF d] have dec: "decoded p c n" .
  have "take n p = utf8_encode c" if "take k p = utf8_encode c'" "unat c' < 0x110000" for c' k
  proof -
    have "p = utf8_encode c' @ drop k p" using that(1) by (metis append_take_drop_id)
    then have "utf8_decode p = Some (c', utf8_encode_len c')"
      using decode_encode[OF that(2)] by metis
    with d that(1) show ?thesis
      by (auto simp flip: length_utf8_encode)
        (metis append_eq_conv_conj \<open>p = utf8_encode c' @ drop k p\<close>)
  qed
  with d n dec eq show ?thesis by (auto simp: decoded_def)
next
  case False
  note eq = utf8_decode_len_alt[OF assms, unfolded if_not_P[OF False]]
  have "take k p \<noteq> utf8_encode c'" if c: "unat c' < 0x110000" and k: "k \<le> m" for c' k
  proof
    assume e: "take k p = utf8_encode c'"
    have len: "utf8_encode_len c' = k"
      using e k assms(2) by (metis length_take length_utf8_encode min.absorb2 order_trans)
    have "0 < k" using len utf8_encode_len_bounds[of c'] by linarith
    with e have "utf8_encode c' ! 0 = p ! 0" by (metis nth_take)
    with encode_lead_len[OF c] len k False \<open>0 < k\<close> show False
      by (auto split: if_splits)
  qed
  with eq assms(1) show ?thesis by auto
qed

text \<open>
  What the decoder computes on the \<open>max_len\<close> bytes alone: \<open>utf8_decode\<close> of the shorter array is \<open>None\<close> exactly when it
  would read past them.
\<close>

lemma rd_take: "rd (take m p) i = (if i < m then rd p i else None)"
  by (simp add: rd_def)

lemma utf8_decode_len_take:
  assumes "0 < m" and "m \<le> length p"
  shows "utf8_decode_len p m = Some (case utf8_decode (take m p) of Some r \<Rightarrow> r | None \<Rightarrow> (0xFFFD, 1))"
proof -
  have r: "rd p i = Some (p ! i)" if "i < m" for i using that assms(2) by (simp add: rd_def)
  have r0: "rd p 0 = Some (p ! 0)" using r assms(1) by simp
  consider "m = 1" | "m = 2" | "m = 3" | "4 \<le> m" using assms(1) by linarith
  then show ?thesis
  proof cases
    case 1
    then show ?thesis using r0
      by (auto simp: utf8_decode_len_def utf8_decode_def rd_take decode_need1_def decode_need2_def decode_need3_def decode_error_def)
  next
    case 2
    then have "rd p 1 = Some (p ! 1)" using r by simp
    then show ?thesis using 2 r0
      by (auto simp: utf8_decode_len_def utf8_decode_def rd_take decode_need1_def decode_need2_def decode_need3_def decode_error_def byte_cmp)
  next
    case 3
    then have "rd p 1 = Some (p ! 1)" "rd p 2 = Some (p ! 2)" using r by simp_all
    then show ?thesis using 3 r0
      by (auto simp: utf8_decode_len_def utf8_decode_def rd_take decode_need1_def decode_need2_def decode_need3_def decode_error_def byte_cmp)
  next
    case 4
    then have "rd p 1 = Some (p ! 1)" "rd p 2 = Some (p ! 2)" "rd p 3 = Some (p ! 3)" using r by simp_all
    then show ?thesis using 4 r0
      by (auto simp: utf8_decode_len_def utf8_decode_def rd_take decode_need1_def decode_need2_def decode_need3_def decode_error_def byte_cmp)
  qed
qed

text \<open>
  \<^bold>\<open>C2.\<close> \<open>utf8_decode_len\<close> given \<open>max_len\<close> readable bytes, at least one, is \<open>utf8_decode\<close> of these bytes alone, where a
  sequence that is cut off at \<open>max_len\<close> counts as an error of one byte. So it never reads past them, always
  advances, by at most \<open>max_len\<close>, and returns either the one code point whose whole encoding begins there or
  \<open>0xFFFD\<close> with an advance of 1, the latter only when no encoding of a code point lies within the \<open>max_len\<close> bytes.
\<close>

theorem utf8_decode_len_exact:
  assumes "0 < m" and "m \<le> length p"
  shows "utf8_decode_len p m = Some (case utf8_decode (take m p) of Some r \<Rightarrow> r | None \<Rightarrow> (0xFFFD, 1)) \<and>
    (\<exists>c n. utf8_decode_len p m = Some (c, n) \<and> 0 < n \<and> n \<le> m \<and> unat c < 0x110000 \<and>
      (take n p = utf8_encode c \<or>
       c = 0xFFFD \<and> n = 1 \<and> (\<forall>c' k. unat c' < 0x110000 \<longrightarrow> k \<le> m \<longrightarrow> take k p \<noteq> utf8_encode c')))"
  using utf8_decode_len_take[OF assms] utf8_decode_len_bounded[OF assms] by blast

theorem utf8_decode_len_exact_witness:
  "\<exists>c n. utf8_decode_len [0xE2, 0x82, 0xAC] 2 = Some (c, n) \<and> 0 < n \<and> n \<le> 2"
proof -
  have "2 \<le> length [0xE2, 0x82, 0xAC :: u8]" by simp
  from conjunct2[OF utf8_decode_len_exact[OF _ this]] show ?thesis by auto
qed

end
