(* ===== verification/Utf8_Buf.thy ===== *)
theory Utf8_Buf
  imports Utf8
begin

text \<open>
  The buffer loops of \<open>cutils.h\<close> over the UTF-8 codec: classification (\<open>utf8_scan\<close>) and the
  conversions from UTF-8 to Latin-1 and UTF-16 and back. A destination is the list of its
  \<open>dest_len\<close> cells, updated in place; a source pointer is the rest of the source list. Each
  conversion returns the destination and the number of units a large enough one would hold.
\<close>

section \<open>Stores into a destination of limited length\<close>

text \<open>\<open>if (i < dest_len) dest[i] = c;\<close>\<close>

definition store :: "'a list \<Rightarrow> nat \<Rightarrow> 'a \<Rightarrow> 'a list" where
  "store dest i c = (if i < length dest then dest[i := c] else dest)"

text \<open>What storing \<open>us\<close> one after the other from index \<open>i\<close> on amounts to.\<close>

definition write_at :: "'a list \<Rightarrow> nat \<Rightarrow> 'a list \<Rightarrow> 'a list" where
  "write_at dest i us =
     take i dest @ take (length dest - i) us @ drop (i + length us) dest"

lemma length_store [simp]: "length (store dest i c) = length dest"
  by (simp add: store_def)

lemma write_at_Nil [simp]: "write_at dest i [] = dest"
  by (simp add: write_at_def)

lemma write_at_store: "write_at (store dest i c) (Suc i) us = write_at dest i (c # us)"
proof (cases "i < length dest")
  case True
  then have "length dest - i = Suc (length dest - Suc i)" by simp
  with True show ?thesis
    by (simp add: write_at_def store_def take_list_update_swap)
next
  case False
  then show ?thesis by (simp add: write_at_def store_def)
qed

lemma length_write_at [simp]: "length (write_at dest i us) = length dest"
  by (auto simp: write_at_def)

section \<open>Code points of a UTF-8 buffer\<close>

lemma utf8_decode_len_pos:
  "utf8_decode_len (b # bs) (Suc (length bs)) = Some (c, n) \<Longrightarrow> 0 < n"
  using utf8_decode_len_bounded[of "Suc (length bs)" "b # bs"] by auto

section \<open>Scanning\<close>

text \<open>
  The loop of \<open>utf8_scan\<close> from pointer \<open>p\<close> on: \<open>len\<close> and the mask \<open>kind\<close> (4-bit flags as a
  number) are its variables.
\<close>

definition UTF8_PLAIN_ASCII :: nat where "UTF8_PLAIN_ASCII = 0"
definition UTF8_NON_ASCII :: nat where "UTF8_NON_ASCII = 1"
definition UTF8_HAS_16BIT :: nat where "UTF8_HAS_16BIT = 2"
definition UTF8_HAS_NON_BMP1 :: nat where "UTF8_HAS_NON_BMP1 = 4"
definition UTF8_HAS_ERRORS :: nat where "UTF8_HAS_ERRORS = 8"

function (sequential) utf8_scan_loop :: "u8 list \<Rightarrow> nat \<Rightarrow> nat \<Rightarrow> (nat \<times> nat) option" where
  "utf8_scan_loop [] len kind = Some (kind, len)"
| "utf8_scan_loop (b # p) len kind =
     (if b \<ge> 0x80 then
        (case utf8_decode_len (b # p) (Suc (length p)) of
           None \<Rightarrow> None
         | Some (c, n) \<Rightarrow>
             let kind = (if n = 1 then kind OR UTF8_HAS_ERRORS else kind) in
             if c > 0xFFFF then
               utf8_scan_loop (drop n (b # p)) (len + 2)
                 (kind OR UTF8_HAS_16BIT OR UTF8_HAS_NON_BMP1)
             else if c > 0xFF then
               utf8_scan_loop (drop n (b # p)) (len + 1) (kind OR UTF8_HAS_16BIT)
             else utf8_scan_loop (drop n (b # p)) (len + 1) kind)
      else utf8_scan_loop p (len + 1) kind)"
  by pat_completeness auto
termination
  by (relation "measure (\<lambda>(p, len, kind). length p)") (auto dest!: utf8_decode_len_pos)

definition utf8_scan :: "u8 list \<Rightarrow> (nat \<times> nat) option" where
  "utf8_scan buf =
     (if foldl (OR) 0 buf \<ge> 0x80 then utf8_scan_loop buf 0 UTF8_NON_ASCII
      else Some (UTF8_PLAIN_ASCII, length buf))"

section \<open>UTF-8 to Latin-1 and UTF-16\<close>

fun utf8_decode_buf8_loop :: "u8 list \<Rightarrow> nat \<Rightarrow> u8 list \<Rightarrow> (u8 list \<times> nat) option" where
  "utf8_decode_buf8_loop dest i [] = Some (dest, i)"
| "utf8_decode_buf8_loop dest i (b # p) =
     (if b \<ge> 0xC0 then
        (case p of
           [] \<Rightarrow> None
         | b1 # p' \<Rightarrow>
             utf8_decode_buf8_loop
               (store dest i
                  (ucast (push_bit 6 (ucast b) + ucast b1 - (push_bit 6 0xC0 + 0x80) :: u32)))
               (Suc i) p')
      else utf8_decode_buf8_loop (store dest i b) (Suc i) p)"

definition utf8_decode_buf8 :: "u8 list \<Rightarrow> u8 list \<Rightarrow> (u8 list \<times> nat) option" where
  "utf8_decode_buf8 dest src =
     (case utf8_decode_buf8_loop dest 0 src of
        None \<Rightarrow> None
      | Some (dest, i) \<Rightarrow>
          Some (if i < length dest then dest[i := 0]
                else if length dest > 0 then dest[length dest - 1 := 0]
                else dest, i))"

function (sequential) utf8_decode_buf16_loop ::
    "u16 list \<Rightarrow> nat \<Rightarrow> u8 list \<Rightarrow> (u16 list \<times> nat) option" where
  "utf8_decode_buf16_loop dest i [] = Some (dest, i)"
| "utf8_decode_buf16_loop dest i (b # p) =
     (if b \<ge> 0x80 then
        (case utf8_decode_len (b # p) (Suc (length p)) of
           None \<Rightarrow> None
         | Some (c, n) \<Rightarrow>
             if c > 0xFFFF then
               utf8_decode_buf16_loop
                 (store (store dest i (ucast (get_hi_surrogate c)))
                    (Suc i) (ucast (get_lo_surrogate c)))
                 (Suc (Suc i)) (drop n (b # p))
             else utf8_decode_buf16_loop (store dest i (ucast c)) (Suc i) (drop n (b # p)))
      else utf8_decode_buf16_loop (store dest i (ucast b)) (Suc i) p)"
  by pat_completeness auto
termination
  by (relation "measure (\<lambda>(dest, i, p). length p)") (auto dest!: utf8_decode_len_pos)

definition utf8_decode_buf16 :: "u16 list \<Rightarrow> u8 list \<Rightarrow> (u16 list \<times> nat) option" where
  "utf8_decode_buf16 dest src = utf8_decode_buf16_loop dest 0 src"

section \<open>Latin-1 and UTF-16 to UTF-8\<close>

text \<open>After the label \<open>overflow\<close> the loops only count.\<close>

fun count8 :: "u8 list \<Rightarrow> nat" where
  "count8 [] = 0"
| "count8 (b # src) = (1 + (if b \<ge> 0x80 then 1 else 0)) + count8 src"

definition terminate :: "u8 list \<Rightarrow> nat \<Rightarrow> u8 list" where
  "terminate dest j = (if j < length dest then dest[j := 0] else dest)"

fun utf8_encode_buf8_loop :: "u8 list \<Rightarrow> nat \<Rightarrow> u8 list \<Rightarrow> u8 list \<times> nat" where
  "utf8_encode_buf8_loop dest j [] = (terminate dest j, j)"
| "utf8_encode_buf8_loop dest j (b # src) =
     (let c = ucast b :: u32 in
      if c < 0x80 then
        if j + 1 \<ge> length dest then (terminate dest j, j + count8 (b # src))
        else utf8_encode_buf8_loop (dest[j := ucast c]) (j + 1) src
      else
        if j + 2 \<ge> length dest then (terminate dest j, j + count8 (b # src))
        else utf8_encode_buf8_loop
               (dest[j := ucast (drop_bit 6 c OR 0xC0), j + 1 := ucast ((c AND 0x3F) OR 0x80)])
               (j + 2) src)"

definition utf8_encode_buf8 :: "u8 list \<Rightarrow> u8 list \<Rightarrow> u8 list \<times> nat" where
  "utf8_encode_buf8 dest src = utf8_encode_buf8_loop dest 0 src"

text \<open>The code point at the head of a UTF-16 buffer and the rest: a surrogate pair counts as one.\<close>

fun next16 :: "u16 \<Rightarrow> u16 list \<Rightarrow> u32 \<times> u16 list" where
  "next16 u [] = (ucast u, [])"
| "next16 u (v # src) =
     (if is_hi_surrogate (ucast u) \<and> is_lo_surrogate (ucast v)
      then (from_surrogate (ucast u) (ucast v), src)
      else (ucast u, v # src))"

lemma length_next16: "length (snd (next16 u src)) \<le> length src"
  by (cases src) auto

function (sequential) count16 :: "u16 list \<Rightarrow> nat" where
  "count16 [] = 0"
| "count16 (u # src) =
     (if u < 0x80 then 1 + count16 src
      else case next16 u src of (c, src') \<Rightarrow> utf8_encode_len c + count16 src')"
  by pat_completeness auto
termination
  by (relation "measure length") (auto simp: less_Suc_eq_le, metis length_next16 snd_conv)

text \<open>
  On overflow \<open>i\<close> is set back to the code point that did not fit (\<open>i -= 1 + (c > 0xFFFF)\<close>), so
  the counting loop starts at \<open>u # src\<close>.
\<close>

function (sequential) utf8_encode_buf16_loop :: "u8 list \<Rightarrow> nat \<Rightarrow> u16 list \<Rightarrow> u8 list \<times> nat" where
  "utf8_encode_buf16_loop dest j [] = (terminate dest j, j)"
| "utf8_encode_buf16_loop dest j (u # src) =
     (if u < 0x80 then
        if j + 1 \<ge> length dest then (terminate dest j, j + count16 (u # src))
        else utf8_encode_buf16_loop (dest[j := ucast u]) (j + 1) src
      else case next16 u src of (c, src') \<Rightarrow>
        if j + utf8_encode_len c \<ge> length dest then (terminate dest j, j + count16 (u # src))
        else utf8_encode_buf16_loop (blit dest j (utf8_encode c)) (j + utf8_encode_len c) src')"
  by pat_completeness auto
termination
  by (relation "measure (\<lambda>(dest, j, src). length src)")
    (auto simp: less_Suc_eq_le, metis length_next16 snd_conv)

definition utf8_encode_buf16 :: "u8 list \<Rightarrow> u16 list \<Rightarrow> u8 list \<times> nat" where
  "utf8_encode_buf16 dest src = utf8_encode_buf16_loop dest 0 src"

section \<open>What the loops compute\<close>

text \<open>
  The reference: the code points of a UTF-8 buffer, errors as \<open>0xFFFD\<close>, and the UTF-16 units of a
  code point.
\<close>

function (sequential) utf8_points :: "u8 list \<Rightarrow> u32 list" where
  "utf8_points [] = []"
| "utf8_points (b # p) =
     (if b \<ge> 0x80 then
        (case utf8_decode_len (b # p) (Suc (length p)) of
           None \<Rightarrow> []
         | Some (c, n) \<Rightarrow> c # utf8_points (drop n (b # p)))
      else ucast b # utf8_points p)"
  by pat_completeness auto
termination
  by (relation "measure length") (auto dest!: utf8_decode_len_pos)

definition units16 :: "u32 \<Rightarrow> u16 list" where
  "units16 c = (if c > 0xFFFF then [ucast (get_hi_surrogate c), ucast (get_lo_surrogate c)]
                else [ucast c])"

definition utf16_of :: "u8 list \<Rightarrow> u16 list" where
  "utf16_of p = concat (map units16 (utf8_points p))"

lemma utf8_decode_len_Some:
  obtains c n where "utf8_decode_len (b # p) (Suc (length p)) = Some (c, n)"
    and "0 < n" and "n \<le> Suc (length p)" and "unat c < 0x110000"
    and "take n (b # p) = utf8_encode c \<or> c = 0xFFFD \<and> n = 1"
  using utf8_decode_len_bounded[of "Suc (length p)" "b # p"] by auto

lemma units16_small: "\<not> b \<ge> (0x80 :: u8) \<Longrightarrow> units16 (ucast b) = [ucast b]"
  by (simp add: units16_def word_less_nat_alt word_le_nat_alt word_unat_eq_iff
      unat_ucast_mod)

lemma decode16_loop:
  "utf8_decode_buf16_loop dest i p
   = Some (write_at dest i (utf16_of p), i + length (utf16_of p))"
proof (induction dest i p rule: utf8_decode_buf16_loop.induct)
  case (1 dest i)
  show ?case by (simp add: utf16_of_def)
next
  case (2 dest i b p)
  obtain c n where d: "utf8_decode_len (b # p) (Suc (length p)) = Some (c, n)"
    by (rule utf8_decode_len_Some[of b p])
  show ?case
  proof (cases "b \<ge> 0x80")
    case True
    then have p: "utf16_of (b # p) = units16 c @ utf16_of (drop n (b # p))"
      by (simp add: utf16_of_def d)
    show ?thesis
    proof (cases "c > 0xFFFF")
      case True
      with p \<open>b \<ge> 0x80\<close> show ?thesis
        by (simp add: d "2.IH"(1)[OF \<open>b \<ge> 0x80\<close> d refl True] units16_def write_at_store)
    next
      case False
      with p \<open>b \<ge> 0x80\<close> show ?thesis
        by (simp add: d "2.IH"(2)[OF \<open>b \<ge> 0x80\<close> d refl False] units16_def write_at_store)
    qed
  next
    case False
    then have "utf16_of (b # p) = ucast b # utf16_of p"
      by (simp add: utf16_of_def units16_small)
    with False show ?thesis
      by (simp add: "2.IH"(3)[OF False] write_at_store)
  qed
qed

lemma utf8_decode_buf16_eq:
  "utf8_decode_buf16 dest src = Some (write_at dest 0 (utf16_of src), length (utf16_of src))"
  by (simp add: utf8_decode_buf16_def decode16_loop)

subsection \<open>Scanning\<close>

lemma bit_flags:
  "bit UTF8_HAS_16BIT k \<longleftrightarrow> k = 1" "bit UTF8_HAS_NON_BMP1 k \<longleftrightarrow> k = 2"
  "bit UTF8_HAS_ERRORS k \<longleftrightarrow> k = 3" "bit UTF8_NON_ASCII k \<longleftrightarrow> k = 0"
  "\<not> bit UTF8_PLAIN_ASCII k"
proof -
  have p: "UTF8_HAS_16BIT = 2 ^ 1" "UTF8_HAS_NON_BMP1 = 2 ^ 2" "UTF8_HAS_ERRORS = 2 ^ 3"
    "UTF8_NON_ASCII = 2 ^ 0"
    by (simp_all add: UTF8_HAS_16BIT_def UTF8_HAS_NON_BMP1_def UTF8_HAS_ERRORS_def
        UTF8_NON_ASCII_def)
  show "bit UTF8_HAS_16BIT k \<longleftrightarrow> k = 1" "bit UTF8_HAS_NON_BMP1 k \<longleftrightarrow> k = 2"
    "bit UTF8_HAS_ERRORS k \<longleftrightarrow> k = 3" "bit UTF8_NON_ASCII k \<longleftrightarrow> k = 0"
    unfolding p by (auto simp only: bit_exp_iff possible_bit_nat)
  show "\<not> bit UTF8_PLAIN_ASCII k" by (simp add: UTF8_PLAIN_ASCII_def)
qed

lemma scan_loop:
  "\<exists>kind'. utf8_scan_loop p len kind = Some (kind', len + length (utf16_of p)) \<and>
     (bit kind' 1 \<longleftrightarrow> bit kind 1 \<or> (\<exists>c \<in> set (utf8_points p). c > 0xFF)) \<and>
     (bit kind' 2 \<longleftrightarrow> bit kind 2 \<or> (\<exists>c \<in> set (utf8_points p). c > 0xFFFF))"
proof (induction p len kind rule: utf8_scan_loop.induct)
  case (1 len kind)
  show ?case by (simp add: utf16_of_def)
next
  case (2 b p len kind)
  obtain c n where d: "utf8_decode_len (b # p) (Suc (length p)) = Some (c, n)"
    by (rule utf8_decode_len_Some[of b p])
  define kind1 where "kind1 = (if n = 1 then kind OR UTF8_HAS_ERRORS else kind)"
  have k1: "bit kind1 1 = bit kind 1" "bit kind1 2 = bit kind 2"
    by (auto simp: kind1_def bit_or_iff bit_flags)
  show ?case
  proof (cases "b \<ge> 0x80")
    case True
    then have p: "utf8_points (b # p) = c # utf8_points (drop n (b # p))"
      by (simp add: d)
    then have u: "utf16_of (b # p) = units16 c @ utf16_of (drop n (b # p))"
      by (simp add: utf16_of_def)
    have step: "utf8_scan_loop (b # p) len kind =
        (if c > 0xFFFF then
           utf8_scan_loop (drop n (b # p)) (len + 2)
             (kind1 OR UTF8_HAS_16BIT OR UTF8_HAS_NON_BMP1)
         else if c > 0xFF then
           utf8_scan_loop (drop n (b # p)) (len + 1) (kind1 OR UTF8_HAS_16BIT)
         else utf8_scan_loop (drop n (b # p)) (len + 1) kind1)"
      using True by (simp only: utf8_scan_loop.simps d if_True option.case prod.case Let_def
          kind1_def)
    consider "c > 0xFFFF" | "\<not> c > 0xFFFF" "c > 0xFF" | "\<not> c > 0xFF" "\<not> c > 0xFFFF"
      by (meson less_trans linorder_not_less order_trans)
    then show ?thesis
    proof cases
      case 1
      then have "c > 0xFF" by (simp add: word_less_nat_alt)
      with 1 "2.IH"(1)[OF True d refl kind1_def 1] True show ?thesis
        by (auto simp: step p u units16_def bit_or_iff bit_flags k1[unfolded One_nat_def]
            simp del: utf8_points.simps utf8_scan_loop.simps drop_Cons')
    next
      case 2
      with "2.IH"(2)[OF True d refl kind1_def 2(1,2)] True show ?thesis
        by (auto simp: step p u units16_def bit_or_iff bit_flags k1[unfolded One_nat_def]
            simp del: utf8_points.simps utf8_scan_loop.simps drop_Cons')
    next
      case 3
      with "2.IH"(3)[OF True d refl kind1_def 3(2,1)] True show ?thesis
        by (auto simp: step p u units16_def bit_or_iff bit_flags k1[unfolded One_nat_def]
            simp del: utf8_points.simps utf8_scan_loop.simps drop_Cons')
    qed
  next
    case False
    then have "utf16_of (b # p) = ucast b # utf16_of p"
      by (simp add: utf16_of_def units16_small)
    moreover have "\<not> ucast b > (0xFF :: u32)" "\<not> ucast b > (0xFFFF :: u32)"
      using False by (simp_all add: word_less_nat_alt word_le_nat_alt)
    ultimately show ?thesis
      using "2.IH"(4)[OF False] False by simp
  qed
qed

lemma ge_128_iff: "(b :: u8) \<ge> 0x80 \<longleftrightarrow> bit b 7"
proof -
  have "bit b 7 \<longleftrightarrow> odd (unat b div 2 ^ 7)"
    by (simp only: bit_unsigned_iff flip: bit_iff_odd) simp
  moreover have "unat b div 2 ^ 7 < 2" by (simp add: div_less_iff_less_mult)
  ultimately have "bit b 7 \<longleftrightarrow> unat b div 2 ^ 7 \<noteq> 0"
    by (metis even_zero less_2_cases odd_one One_nat_def)
  then show ?thesis by (simp add: word_le_nat_alt div_eq_0_iff not_less)
qed

lemma foldl_or_ge_128:
  "foldl (OR) a buf \<ge> (0x80 :: u8) \<longleftrightarrow> a \<ge> 0x80 \<or> (\<exists>b \<in> set buf. b \<ge> 0x80)"
  by (induction buf arbitrary: a) (auto simp: ge_128_iff bit_or_iff)

lemma utf8_points_ascii:
  "\<forall>b \<in> set buf. \<not> b \<ge> 0x80 \<Longrightarrow> utf8_points buf = map ucast buf"
  by (induction buf) auto

lemma utf16_of_ascii:
  "\<forall>b \<in> set buf. \<not> b \<ge> 0x80 \<Longrightarrow> utf16_of buf = map ucast buf"
  by (induction buf) (auto simp: utf16_of_def units16_small)

lemma small_not_wide: "\<not> b \<ge> (0x80 :: u8) \<Longrightarrow> \<not> ucast b > (0xFF :: u32) \<and> \<not> ucast b > (0xFFFF :: u32)"
  by (simp add: word_less_nat_alt word_le_nat_alt)

lemma utf8_scan_eq:
  "\<exists>kind. utf8_scan buf = Some (kind, length (utf16_of buf)) \<and>
     (bit kind 1 \<longleftrightarrow> (\<exists>c \<in> set (utf8_points buf). c > 0xFF)) \<and>
     (bit kind 2 \<longleftrightarrow> (\<exists>c \<in> set (utf8_points buf). c > 0xFFFF))"
proof (cases "foldl (OR) 0 buf \<ge> 0x80")
  case True
  with scan_loop[of buf 0 UTF8_NON_ASCII] show ?thesis
    by (auto simp: utf8_scan_def bit_flags)
next
  case False
  then have a: "\<forall>b \<in> set buf. \<not> b \<ge> 0x80" by (simp add: foldl_or_ge_128)
  then have "\<forall>c \<in> set (utf8_points buf). \<not> c > 0xFF \<and> \<not> c > 0xFFFF"
    by (auto simp: utf8_points_ascii small_not_wide)
  with False show ?thesis
    by (auto simp: utf8_scan_def utf16_of_ascii[OF a] bit_flags)
qed

text \<open>A unit above \<open>0xFF\<close> comes from a code point above \<open>0xFF\<close>, and surrogates are such units.\<close>

lemma units16_wide:
  assumes "unat c < 0x110000"
  shows "(\<exists>u \<in> set (units16 c). u > 0xFF) \<longleftrightarrow> c > 0xFF"
proof (cases "c > 0xFFFF")
  case True
  then have lo: "0x10000 \<le> unat c" by (simp add: word_less_nat_alt)
  from lo assms have "(unat c - 65536) div 1024 < 1024"
    by (simp add: div_less_iff_less_mult)
  then have "unat (ucast (get_hi_surrogate c) :: u16) > 0xFF"
    by (simp add: unat_ucast_mod unat_get_hi_surrogate[OF lo assms])
  with True show ?thesis by (auto simp: units16_def word_less_nat_alt)
next
  case False
  then show ?thesis by (simp add: units16_def word_less_nat_alt unat_ucast_mod)
qed

lemma utf8_points_range: "c \<in> set (utf8_points p) \<Longrightarrow> unat c < 0x110000"
proof (induction p rule: utf8_points.induct)
  case (2 b p)
  obtain c' n where d: "utf8_decode_len (b # p) (Suc (length p)) = Some (c', n)"
    and r: "unat c' < 0x110000"
    by (rule utf8_decode_len_Some[of b p])
  have "unat (ucast b :: u32) < 0x110000"
    using less_trans[OF unat_lt_u8[of b], of "0x110000"] by simp
  with "2.prems" "2.IH"(1)[OF _ d refl] "2.IH"(2) r show ?case
    by (auto simp: d split: if_splits)
qed simp

lemma utf16_of_wide:
  "(\<exists>u \<in> set (utf16_of p). u > 0xFF) \<longleftrightarrow> (\<exists>c \<in> set (utf8_points p). c > 0xFF)"
  using units16_wide utf8_points_range by (auto simp: utf16_of_def)

subsection \<open>Latin-1\<close>

lemma utf8_decode_len_encode:
  assumes "unat c < 0x110000"
  shows "utf8_decode_len (utf8_encode c @ r) (length (utf8_encode c @ r))
         = Some (c, utf8_encode_len c)"
proof -
  let ?p = "utf8_encode c @ r"
  have e: "take (utf8_encode_len c) ?p = utf8_encode c" by (simp flip: length_utf8_encode)
  have "0 < length ?p" using utf8_encode_len_bounds[of c] by (simp add: length_utf8_encode)
  from utf8_decode_len_bounded[OF this order_refl] obtain c' n where
    d: "utf8_decode_len ?p (length ?p) = Some (c', n)"
      "unat c' < 0x110000" "n \<le> length ?p" and
    alt: "take n ?p = utf8_encode c' \<or> (\<forall>c'' k. unat c'' < 0x110000 \<longrightarrow> k \<le> length ?p
      \<longrightarrow> take k ?p \<noteq> utf8_encode c'')"
    by blast
  have "utf8_encode_len c \<le> length ?p" by (simp add: length_utf8_encode)
  with alt e assms have tk: "take n ?p = utf8_encode c'" by blast
  from tk have "?p = utf8_encode c' @ drop n ?p" by (metis append_take_drop_id)
  then have "utf8_decode ?p = utf8_decode (utf8_encode c' @ drop n ?p)" by (rule arg_cong)
  also have "\<dots> = Some (c', utf8_encode_len c')" by (rule decode_encode[OF d(2)])
  finally have "Some (c', utf8_encode_len c') = Some (c, utf8_encode_len c)"
    using decode_encode[OF assms, of r] by simp
  moreover have "n = utf8_encode_len c'"
    using tk d(3) by (metis length_take length_utf8_encode min.absorb2)
  ultimately show ?thesis using d(1) by simp
qed

lemma encode_Cons:
  assumes "utf8_encode c = b # bs" and "unat c < 0x110000"
  shows "(b \<ge> 0x80 \<longleftrightarrow> unat c \<ge> 0x80) \<and> (unat c < 0x80 \<longrightarrow> bs = [] \<and> ucast b = c)"
proof (cases "unat c < 0x80")
  case True
  then have "utf8_encode c = [ucast c]" by (simp add: utf8_encode_def byte_cmp)
  with assms(1) True show ?thesis
    by (auto simp: word_le_nat_alt word_unat_eq_iff unat_ucast_mod)
next
  case False
  then have "utf8_encode_len c \<noteq> 1" by (simp add: utf8_encode_len_def byte_cmp)
  then have "\<not> unat b < 0x80"
    using encode_lead_len[OF assms(2)] by (auto simp: assms(1))
  with False show ?thesis by (simp add: word_le_nat_alt)
qed

lemma utf8_points_encode:
  assumes "unat c < 0x110000"
  shows "utf8_points (utf8_encode c @ r) = c # utf8_points r"
proof -
  obtain b bs where b: "utf8_encode c = b # bs"
    using utf8_encode_len_bounds[of c] length_utf8_encode[of c] by (cases "utf8_encode c") auto
  from utf8_decode_len_encode[OF assms, of r]
  have d: "utf8_decode_len (b # bs @ r) (Suc (length (bs @ r))) = Some (c, utf8_encode_len c)"
    by (simp add: b)
  have "drop (utf8_encode_len c) (b # bs @ r) = r"
    by (simp add: b flip: length_utf8_encode)
  with b d encode_Cons[OF b assms] show ?thesis by auto
qed

lemma utf8_points_concat:
  "\<forall>c \<in> set cs. unat c < 0x110000 \<Longrightarrow> utf8_points (concat (map utf8_encode cs)) = cs"
  by (induction cs) (auto simp: utf8_points_encode)

lemma decode8_pair:
  assumes "128 \<le> unat c" and "unat c < 256" and "b # b1 # q = utf8_encode c @ r"
  shows "b \<ge> 0xC0" and "q = r"
    and "push_bit 6 (ucast b) + ucast b1 - (push_bit 6 0xC0 + 0x80) = c"
proof -
  have "utf8_encode c = [ucast (drop_bit 6 c OR 0xC0), ucast ((c AND 0x3F) OR 0x80)]"
    using assms by (simp add: utf8_encode_def byte_cmp)
  with assms(3) have b: "b = ucast (drop_bit 6 c OR 0xC0)" "b1 = ucast ((c AND 0x3F) OR 0x80)"
    and "q = r" by auto
  then show "q = r" by simp
  have ub: "unat b = unat c div 64 + 192"
    unfolding b using assms by (intro unat_lead2) linarith
  have ub1: "unat b1 = unat c mod 64 + 128" unfolding b by (rule unat_cont_byte)
  show "b \<ge> 0xC0" by (simp add: word_le_nat_alt ub)
  have "unat c div 64 < 4" using assms(2) by (simp add: div_less_iff_less_mult)
  then show "push_bit 6 (ucast b) + ucast b1 - (push_bit 6 0xC0 + 0x80) = c"
    using split64[of "unat c"] mod_64_le[of "unat c"]
    by (simp add: word_unat_eq_iff unat_word_ariths unat_push_bit unat_sub_if' ub ub1)
qed

lemma decode8_loop:
  assumes "\<forall>c \<in> set (utf8_points p). \<not> c > 0xFF"
  shows "utf8_decode_buf8_loop dest i p
    = Some (write_at dest i (map ucast (utf8_points p)), i + length (utf8_points p))"
  using assms
proof (induction p arbitrary: dest i rule: utf8_points.induct)
  case 1
  show ?case by simp
next
  case (2 b p)
  obtain c n where d: "utf8_decode_len (b # p) (Suc (length p)) = Some (c, n)"
    and r: "unat c < 0x110000" and e: "take n (b # p) = utf8_encode c \<or> c = 0xFFFD \<and> n = 1"
    by (rule utf8_decode_len_Some[of b p])
  show ?case
  proof (cases "b \<ge> 0x80")
    case True
    with "2.prems" have c: "\<not> c > 0xFF" and pts: "utf8_points (b # p) = c # utf8_points (drop n (b # p))"
      by (simp_all add: d)
    from c have c256: "unat c < 256" by (simp add: word_less_nat_alt)
    with e have e: "take n (b # p) = utf8_encode c" by (auto simp: word_less_nat_alt)
    then have app: "b # p = utf8_encode c @ drop n (b # p)" by (metis append_take_drop_id)
    have c128: "128 \<le> unat c"
      using encode_Cons[of c b] r True app
      by (metis append_Cons append_Nil list.exhaust list.inject length_greater_0_conv
          length_utf8_encode utf8_encode_len_bounds less_le_trans zero_less_one)
    then have "utf8_encode_len c = 2" using c256 by (simp add: utf8_encode_len_def byte_cmp)
    with app obtain b1 q where p: "p = b1 # q"
      by (metis append_Cons length_Cons length_utf8_encode list.exhaust list.inject
          length_append length_0_conv Suc_eq_numeral not_numeral_le_zero add_is_0
          nat.distinct(1) numeral_2_eq_2 nat.inject list.size(3))
    note pr = decode8_pair[OF c128 c256 app[unfolded p]]
    have IH: "utf8_decode_buf8_loop dest i (drop n (b # p))
        = Some (write_at dest i (map ucast (utf8_points (drop n (b # p)))),
                i + length (utf8_points (drop n (b # p))))" for dest i
      using "2.IH"(1)[OF True d refl] "2.prems" pts by simp
    show ?thesis
      unfolding pts
      using pr IH[of "store dest i (ucast c)" "Suc i"]
      by (simp add: p write_at_store del: utf8_points.simps)
  next
    case False
    then have nlt: "\<not> b \<ge> 0xC0" by (simp add: word_le_nat_alt)
    have "ucast (ucast b :: u32) = b" by (simp add: word_unat_eq_iff unat_ucast_mod)
    with False nlt "2.IH"(2)[OF False] "2.prems" show ?thesis
      by (simp add: write_at_store)
  qed
qed

subsection \<open>UTF-16 to UTF-8\<close>

function (sequential) utf16_points :: "u16 list \<Rightarrow> u32 list" where
  "utf16_points [] = []"
| "utf16_points (u # src) = (case next16 u src of (c, src') \<Rightarrow> c # utf16_points src')"
  by pat_completeness auto
termination
  by (relation "measure length") (auto simp: less_Suc_eq_le, metis length_next16 snd_conv)

definition utf8_of :: "u16 list \<Rightarrow> u8 list" where
  "utf8_of src = concat (map utf8_encode (utf16_points src))"

lemma unat_ucast_u16_u32 [simp]: "unat (ucast (u :: u16) :: u32) = unat u"
proof -
  have "unat u < 2 ^ LENGTH(32)"
    by (rule less_trans[OF unat_lt_u16]) simp
  then show ?thesis by (simp only: unat_ucast_mod mod_less)
qed

lemma next16_ascii: "u < 0x80 \<Longrightarrow> next16 u src = (ucast u, src)"
  by (cases src) (auto simp: is_hi_surrogate_iff word_less_nat_alt)

lemma encode_len_ascii: "u < (0x80 :: u16) \<Longrightarrow> utf8_encode_len (ucast u) = 1"
  by (simp add: utf8_encode_len_def word_less_nat_alt)

lemma encode_ascii: "u < (0x80 :: u16) \<Longrightarrow> utf8_encode (ucast u) = [ucast u]"
  by (simp add: utf8_encode_def word_less_nat_alt word_unat_eq_iff unat_ucast_mod)

lemma next16_units:
  assumes "next16 u src = (c, src')"
  shows "unat c < 0x110000 \<and> units16 c @ src' = u # src"
proof (cases "\<exists>v r. src = v # r \<and> is_hi_surrogate (ucast u) \<and> is_lo_surrogate (ucast v)")
  case True
  then obtain v r where s: "src = v # r" "is_hi_surrogate (ucast u)" "is_lo_surrogate (ucast v)"
    by blast
  with assms have c: "c = from_surrogate (ucast u) (ucast v)" "src' = r" by auto
  from s obtain x where x: "unat u = 0xD800 + x" "x < 1024"
    by (auto simp: is_hi_surrogate_iff intro!: that[of "unat u - 0xD800"])
  from s obtain y where y: "unat v = 0xDC00 + y" "y < 1024"
    by (auto simp: is_lo_surrogate_iff intro!: that[of "unat v - 0xDC00"])
  have ux: "unat u mod 1024 = x" "unat v mod 1024 = y"
    using x y by (simp_all add: mod_if)
  then have uc: "unat c = 65536 + 1024 * x + y"
    by (simp add: c unat_from_surrogate)
  then have "65536 \<le> unat c" and lt: "unat c < 0x110000" using x y by simp_all
  moreover have "(unat c - 65536) div 1024 = x" using uc x y by simp
  moreover have "unat c = (64 + x) * 1024 + y" using uc by simp
  then have "unat c mod 1024 = y" using y by (simp only: mod_mult_self3 mod_less)
  ultimately have "ucast (get_hi_surrogate c) = u" "ucast (get_lo_surrogate c) = v"
    using x y by (simp_all add: word_unat_eq_iff unat_ucast_mod unat_get_hi_surrogate
        unat_get_lo_surrogate)
  with uc lt s c show ?thesis by (simp add: units16_def word_less_nat_alt)
next
  case False
  with assms have c: "c = ucast u" "src' = src" by (cases src; auto split: if_splits)+
  have "unat u < 65536" "\<not> 65535 < unat u" using unat_lt_u16[of u] by linarith+
  with c show ?thesis
    by (simp add: units16_def word_less_nat_alt word_unat_eq_iff unat_ucast_mod)
qed

lemma utf16_points_range: "c \<in> set (utf16_points src) \<Longrightarrow> unat c < 0x110000"
  by (induction src rule: utf16_points.induct) (auto dest: next16_units[OF sym] split: prod.splits)

lemma units16_points: "concat (map units16 (utf16_points src)) = src"
  by (induction src rule: utf16_points.induct) (auto dest: next16_units split: prod.splits)

lemma utf16_of_utf8_of: "utf16_of (utf8_of src) = src"
  by (simp add: utf16_of_def utf8_of_def utf8_points_concat utf16_points_range units16_points)

lemma utf8_of_Cons:
  "next16 u src = (c, src') \<Longrightarrow> utf8_of (u # src) = utf8_encode c @ utf8_of src'"
  by (simp add: utf8_of_def)

lemma count16_eq: "count16 src = length (utf8_of src)"
proof (induction src rule: count16.induct)
  case (2 u src)
  then show ?case
    by (cases "next16 u src")
      (auto simp: utf8_of_Cons next16_ascii encode_len_ascii length_utf8_encode)
qed (simp add: utf8_of_def)

text \<open>
  The encoding loop in one formula: as many whole code points as leave room for the final zero.
\<close>

fun fitting :: "nat \<Rightarrow> u32 list \<Rightarrow> u8 list" where
  "fitting room [] = []"
| "fitting room (c # cs) =
     (if utf8_encode_len c < room then utf8_encode c @ fitting (room - utf8_encode_len c) cs
      else [])"

lemma length_fitting: "length (fitting room cs) \<le> room"
  by (induction room cs rule: fitting.induct) (auto simp: length_utf8_encode)

lemma blit_blit:
  "j + length xs \<le> length dest \<Longrightarrow> blit (blit dest j xs) (j + length xs) ys = blit dest j (xs @ ys)"
  by (simp add: blit_def add_ac)

lemma blit_single: "j < length dest \<Longrightarrow> dest[j := x] = blit dest j [x]"
  by (simp add: blit_def upd_conv_take_nth_drop)

lemma encode16_loop:
  "j \<le> length dest \<Longrightarrow> utf8_encode_buf16_loop dest j src =
    (let e = fitting (length dest - j) (utf16_points src)
     in (terminate (blit dest j e) (j + length e), j + length (utf8_of src)))"
proof (induction dest j src rule: utf8_encode_buf16_loop.induct)
  case (1 dest j)
  then show ?case by (simp add: utf8_of_def)
next
  case (2 dest j u src)
  obtain c src' where n: "next16 u src = (c, src')" by (cases "next16 u src")
  have ascii: "c = ucast u \<and> src' = src \<and> utf8_encode c = [ucast u] \<and> utf8_encode_len c = 1"
    if "u < 0x80"
    using that n next16_ascii[OF that, of src] encode_ascii[OF that] length_utf8_encode[of c]
    by simp
  have cnt: "count16 (u # src) = utf8_encode_len c + length (utf8_of src')"
    unfolding count16_eq utf8_of_Cons[OF n] by (simp add: length_utf8_encode)
  show ?case
  proof (cases "j + utf8_encode_len c \<ge> length dest")
    case True
    then have "fitting (length dest - j) (utf16_points (u # src)) = []" by (auto simp: n)
    with True ascii n show ?thesis
      by (auto simp: cnt utf8_of_Cons[OF n] length_utf8_encode simp del: count16.simps)
  next
    case False
    let ?d = "blit dest j (utf8_encode c)"
    have len: "length ?d = length dest" using False by (simp add: length_utf8_encode)
    have step: "utf8_encode_buf16_loop dest j (u # src)
        = utf8_encode_buf16_loop ?d (j + utf8_encode_len c) src'"
      using False ascii n by (auto simp: blit_single)
    have IH: "utf8_encode_buf16_loop ?d (j + utf8_encode_len c) src' =
        (let e = fitting (length ?d - (j + utf8_encode_len c)) (utf16_points src')
         in (terminate (blit ?d (j + utf8_encode_len c) e) (j + utf8_encode_len c + length e),
             j + utf8_encode_len c + length (utf8_of src')))"
    proof (cases "u < 0x80")
      case True
      from ascii[OF True] have a: "c = ucast u" "src' = src"
          "utf8_encode (ucast u) = [ucast u]" "utf8_encode_len (ucast u) = 1"
        by auto
      from False "2.IH"(1)[OF True] show ?thesis
        by (simp add: a blit_single)
    next
      case nu: False
      from "2.IH"(2)[OF nu n[symmetric]] False len show ?thesis by simp
    qed
    have f: "fitting (length dest - j) (utf16_points (u # src))
        = utf8_encode c @ fitting (length dest - (j + utf8_encode_len c)) (utf16_points src')"
      using False by (simp add: n less_diff_conv add.commute)
    show ?thesis
      unfolding step IH len f using False
      by (simp add: Let_def blit_blit[where xs = "utf8_encode c", unfolded length_utf8_encode]
          length_utf8_encode utf8_of_Cons[OF n] add.assoc)
  qed
qed

subsection \<open>Latin-1 to UTF-8 is the UTF-16 loop on bytes\<close>

lemma next16_byte: "next16 (ucast (b :: u8)) src = (ucast b, src)"
proof -
  have "ucast (ucast b :: u16) = (ucast b :: u32)"
    by (simp add: word_unat_eq_iff unat_ucast_mod)
  moreover have "\<not> 0xD800 \<le> unat b" using unat_lt_u8[of b] by linarith
  ultimately show ?thesis
    by (cases src) (simp_all add: is_hi_surrogate_iff)
qed

lemma count8_eq: "count8 src = count16 (map ucast src)"
proof (induction src)
  case (Cons b src)
  have "utf8_encode_len (ucast b) = (if b \<ge> 0x80 then 2 else 1)"
    using unat_lt_u8[of b] by (auto simp: utf8_encode_len_def byte_cmp)
  moreover have "(ucast b :: u16) < 0x80 \<longleftrightarrow> \<not> b \<ge> 0x80"
    by (simp add: byte_cmp unat_ucast_mod not_le)
  ultimately show ?case using Cons by (simp add: next16_byte)
qed simp

lemma encode8_loop:
  "utf8_encode_buf8_loop dest j src = utf8_encode_buf16_loop dest j (map ucast src)"
proof (induction dest j src rule: utf8_encode_buf8_loop.induct)
  case (2 dest j b src)
  have u16: "(ucast b :: u16) < 0x80 \<longleftrightarrow> (ucast b :: u32) < 0x80"
    by (simp add: byte_cmp unat_ucast_mod)
  have cnt: "count16 (ucast b # map ucast src) = count8 (b # src)"
    using count8_eq[of "b # src"] by simp
  show ?case
  proof (cases "(ucast b :: u32) < 0x80")
    case True
    have "ucast (ucast b :: u32) = (ucast (ucast b :: u16) :: u8)"
      by (simp add: word_unat_eq_iff unat_ucast_mod)
    with True "2.IH"(1)[OF refl True] u16 cnt show ?thesis
      by (simp add: Let_def del: count8.simps count16.simps)
  next
    case False
    then have e: "utf8_encode (ucast b) = [ucast (drop_bit 6 (ucast b :: u32) OR 0xC0),
        ucast (((ucast b :: u32) AND 0x3F) OR 0x80)]" "utf8_encode_len (ucast b) = 2"
      using unat_lt_u8[of b] by (simp_all add: utf8_encode_def utf8_encode_len_def byte_cmp)
    show ?thesis
    proof (cases "j + 2 \<ge> length dest")
      case True
      with False u16 cnt e show ?thesis
        by (simp add: Let_def next16_byte del: count8.simps count16.simps)
    next
      case room: False
      then have "dest[j := x, j + 1 := y] = blit dest j [x, y]" for x y
        by (simp add: blit_single) (simp add: blit_def)
      with False room u16 e "2.IH"(2)[OF refl False room] show ?thesis
        by (simp add: Let_def next16_byte del: count8.simps count16.simps)
    qed
  qed
qed simp

section \<open>Properties\<close>

text \<open>
  \<^bold>\<open>C3.\<close> \<open>utf8_scan\<close> never reads outside the buffer, its \<open>*plen\<close> is exactly the number of units
  \<open>utf8_decode_buf16\<close> stores for the same bytes, whatever the destination, and it sets
  \<open>UTF8_HAS_16BIT\<close> exactly when one of these units is above \<open>0xFF\<close>, so a destination sized by it
  receives the whole string.
\<close>

theorem utf8_scan_sizes_decode:
  "\<exists>kind len dest'. utf8_scan buf = Some (kind, len) \<and>
     utf8_decode_buf16 (replicate len 0) buf = Some (dest', len) \<and> length dest' = len \<and>
     (bit kind 1 \<longleftrightarrow> (\<exists>u \<in> set dest'. u > 0xFF)) \<and>
     (\<forall>dest. \<exists>d. utf8_decode_buf16 dest buf = Some (d, len))"
proof -
  from utf8_scan_eq[of buf] obtain kind where
    "utf8_scan buf = Some (kind, length (utf16_of buf))"
    "bit kind 1 \<longleftrightarrow> (\<exists>c \<in> set (utf8_points buf). c > 0xFF)"
    by blast
  then show ?thesis
    by (auto simp: utf8_decode_buf16_eq write_at_def utf16_of_wide)
qed

text \<open>
  \<^bold>\<open>C4.\<close> When \<open>utf8_scan\<close> reports neither wide units nor, hence, errors, the unchecked loop
  \<open>utf8_decode_buf8\<close> reads only the buffer and stores the same string as \<open>utf8_decode_buf16\<close>, one
  byte per unit, followed by a zero.
\<close>

theorem utf8_decode_buf8_agrees:
  assumes "utf8_scan buf = Some (kind, len)" and "\<not> bit kind 1" and "len < length dest"
  shows "\<exists>d8 d16. utf8_decode_buf8 dest buf = Some (d8, len) \<and>
    utf8_decode_buf16 (replicate len 0) buf = Some (d16, len) \<and>
    map ucast (take len d8) = d16 \<and> d8 ! len = 0"
proof -
  from utf8_scan_eq[of buf] assms(1,2) have len: "len = length (utf16_of buf)"
    and small: "\<forall>c \<in> set (utf8_points buf). \<not> c > 0xFF" by auto
  then have u: "utf16_of buf = map ucast (utf8_points buf)"
  proof -
    have "units16 c = [ucast c]" if "\<not> c > 0xFF" for c
      using that by (simp add: units16_def word_less_nat_alt)
    then have "map units16 (utf8_points buf) = map (\<lambda>c. [ucast c]) (utf8_points buf)"
      using small by simp
    then show ?thesis by (simp only: utf16_of_def concat_map_singleton)
  qed
  have "ucast (ucast c :: u8) = (ucast c :: u16)" if "\<not> c > 0xFF" for c :: u32
    using that by (simp add: word_unat_eq_iff unat_ucast_mod word_less_nat_alt)
  then have m: "map (\<lambda>c. ucast (ucast c :: u8)) (utf8_points buf)
      = (map ucast (utf8_points buf) :: u16 list)"
    using small by simp
  from assms(3) decode8_loop[OF small, of dest 0] show ?thesis
    by (auto simp: utf8_decode_buf8_def utf8_decode_buf16_eq len u write_at_def m comp_def)
qed

theorem utf8_decode_buf8_agrees_witness:
  "\<exists>d8 d16. utf8_decode_buf8 [9, 9, 9] [0x41, 0xC3, 0xA9] = Some (d8, 2) \<and>
    utf8_decode_buf16 (replicate 2 0) [0x41, 0xC3, 0xA9] = Some (d16, 2) \<and>
    map ucast (take 2 d8) = d16 \<and> d8 ! 2 = 0"
proof -
  have "utf8_scan [0x41, 0xC3, 0xA9] = Some (UTF8_NON_ASCII, 2)"
    by code_simp
  moreover have "\<not> bit UTF8_NON_ASCII 1" by (simp add: bit_flags)
  ultimately show ?thesis by (rule utf8_decode_buf8_agrees) simp
qed

lemma utf8_encode_buf16_eq:
  "utf8_encode_buf16 dest src =
     (let e = fitting (length dest) (utf16_points src)
      in (e @ (if length e < length dest then 0 # drop (Suc (length e)) dest else []),
          length (utf8_of src)))"
proof -
  let ?e = "fitting (length dest) (utf16_points src)"
  have "length ?e \<le> length dest" by (rule length_fitting)
  then have "terminate (blit dest 0 ?e) (length ?e)
      = ?e @ (if length ?e < length dest then 0 # drop (Suc (length ?e)) dest else [])"
    by (auto simp: terminate_def blit_def list_update_append drop_Suc tl_drop
        split: nat.splits) (metis Cons_nth_drop_Suc drop_Suc list_update_code(2) tl_drop)
  then show ?thesis
    by (simp add: utf8_encode_buf16_def encode16_loop Let_def)
qed

text \<open>
  \<^bold>\<open>C5.\<close> \<open>utf8_encode_buf16\<close> returns the length of the whole encoding whatever the room, like
  \<open>snprintf\<close>. It stores the longest run of whole code points that leaves room for a zero
  (\<open>fitting\<close>), then the zero if \<open>dest_len > 0\<close>, and changes nothing else.
\<close>

theorem utf8_encode_buf16_exact:
  "utf8_encode_buf16 dest src =
     (let e = fitting (length dest) (utf16_points src)
      in (e @ (if length e < length dest then 0 # drop (Suc (length e)) dest else []),
          length (utf8_of src)))"
  by (rule utf8_encode_buf16_eq)

text \<open>
  \<^bold>\<open>C6.\<close> Strings survive the trip through UTF-8: encoding any sequence of 16-bit units, lone
  surrogates included, into a buffer with room for it and decoding the stored bytes gives back
  the same units.
\<close>

theorem utf16_utf8_roundtrip:
  assumes "length (utf8_of src) < length dest" and "length src \<le> length dest16"
  shows "\<exists>dest' n d. utf8_encode_buf16 dest src = (dest', n) \<and>
    utf8_decode_buf16 dest16 (take n dest') = Some (d, length src) \<and> take (length src) d = src"
proof -
  have fit: "fitting room cs = concat (map utf8_encode cs)"
    if "length (concat (map utf8_encode cs)) < room" for room cs
    using that
  proof (induction cs arbitrary: room)
    case (Cons c cs)
    from Cons.prems show ?case
      using Cons.IH[of "room - utf8_encode_len c"] by (simp add: length_utf8_encode less_diff_conv)
  qed simp
  then have "fitting (length dest) (utf16_points src) = utf8_of src"
    using assms(1) by (simp add: utf8_of_def)
  with assms show ?thesis
    by (auto simp: utf8_encode_buf16_eq Let_def utf8_decode_buf16_eq utf16_of_utf8_of
        write_at_def)
qed

theorem utf16_utf8_roundtrip_witness:
  "\<exists>dest' n d. utf8_encode_buf16 (replicate 9 0) [0xD800, 0xD83D, 0xDE00] = (dest', n) \<and>
    utf8_decode_buf16 [0, 0, 0] (take n dest') = Some (d, 3) \<and>
    take 3 d = [0xD800, 0xD83D, 0xDE00]"
proof -
  have "length (utf8_of [0xD800, 0xD83D, 0xDE00]) < length (replicate 9 0 :: u8 list)"
    by code_simp
  from utf16_utf8_roundtrip[OF this, of "[0, 0, 0]"] show ?thesis
    by (simp add: numeral_3_eq_3)
qed

text \<open>
  \<^bold>\<open>C7.\<close> The Latin-1 encoder \<open>utf8_encode_buf8\<close> stores and returns exactly what the UTF-16
  encoder does on the same characters widened to 16 bits, for every destination, the
  truncating ones included.
\<close>

theorem utf8_encode_buf8_widen: "utf8_encode_buf8 dest src = utf8_encode_buf16 dest (map ucast src)"
  by (simp add: utf8_encode_buf8_def utf8_encode_buf16_def encode8_loop)

end
