(* ===== verification/Dyn_Buf.thy ===== *)
theory Dyn_Buf
  imports Cutils_Bits
begin

text \<open>
  The growable byte buffer of \<open>cutils.h\<close> (\<open>DynBuf\<close>). \<open>db_buf\<close> is the allocated memory,
  \<open>db_size\<close> bytes of it are the contents. The allocator is the buffer's own callback
  (\<open>realloc_func\<close> with its \<open>opaque\<close>): a function from the old block and the new size to the new
  block, or \<open>None\<close> for a null pointer; the law it must obey is the locale \<open>allocator\<close>. Sizes are
  \<open>size_t\<close>: naturals below \<open>2 ^ 64\<close>, wrapped where the code adds them. A result \<open>None\<close> of an
  operation is a \<open>memcpy\<close> outside the allocated block.
\<close>

type_synonym realloc_func = "u8 list \<Rightarrow> nat \<Rightarrow> u8 list option"

record dyn_buf =
  db_buf :: "u8 list"
  db_size :: nat
  db_alloc :: nat
  db_error :: bool
  db_realloc :: "realloc_func option"

abbreviation size_mod :: nat where "size_mod \<equiv> 18446744073709551616"

section \<open>Operations\<close>

text \<open>
  The C library's \<open>realloc\<close> in an address space with room for blocks of \<open>limit\<close> bytes: it keeps
  the old bytes; what the fresh ones hold is not specified and never read.
\<close>

definition libc_realloc :: "nat \<Rightarrow> realloc_func" where
  "libc_realloc limit ptr n =
     (if n \<le> limit then Some (take n ptr @ replicate (n - length ptr) 0) else None)"

definition dbuf_default_realloc :: "nat \<Rightarrow> realloc_func" where
  "dbuf_default_realloc limit ptr n = (if n = 0 then None else libc_realloc limit ptr n)"

definition dbuf_init2 :: "nat \<Rightarrow> realloc_func option \<Rightarrow> dyn_buf" where
  "dbuf_init2 limit realloc_func =
     \<lparr> db_buf = [], db_size = 0, db_alloc = 0, db_error = False,
       db_realloc = (case realloc_func of None \<Rightarrow> Some (dbuf_default_realloc limit)
                                        | Some f \<Rightarrow> Some f) \<rparr>"

definition dbuf_init :: "nat \<Rightarrow> dyn_buf" where
  "dbuf_init limit = dbuf_init2 limit None"

definition call_realloc :: "dyn_buf \<Rightarrow> nat \<Rightarrow> u8 list option" where
  "call_realloc s n = (case db_realloc s of None \<Rightarrow> None | Some f \<Rightarrow> f (db_buf s) n)"

definition dbuf_claim :: "dyn_buf \<Rightarrow> nat \<Rightarrow> int \<times> dyn_buf" where
  "dbuf_claim s len =
     (let new_size = (db_size s + len) mod size_mod in
      if new_size < len then (-1, s)
      else if new_size > db_alloc s then
        if db_error s then (-1, s)
        else
          (let size = (db_alloc s + db_alloc s div 2) mod size_mod;
               new_allocated_size =
                 (if size < new_size \<or> size < db_alloc s then new_size else size)
           in case call_realloc s new_allocated_size of
                None \<Rightarrow> (-1, s\<lparr>db_error := True\<rparr>)
              | Some new_buf \<Rightarrow>
                  (0, s\<lparr>db_buf := new_buf, db_alloc := new_allocated_size\<rparr>))
      else (0, s))"

text \<open>\<open>memcpy(s->buf + s->size, data, len); s->size += len;\<close>\<close>

definition dbuf_append :: "dyn_buf \<Rightarrow> u8 list \<Rightarrow> dyn_buf option" where
  "dbuf_append s data =
     (if data = [] then Some s
      else if db_size s + length data \<le> length (db_buf s)
      then Some (s\<lparr>db_buf := blit (db_buf s) (db_size s) data,
                   db_size := db_size s + length data\<rparr>)
      else None)"

definition dbuf_put :: "dyn_buf \<Rightarrow> u8 list \<Rightarrow> (int \<times> dyn_buf) option" where
  "dbuf_put s data =
     (let len = length data;
          (r, s) = (if (db_size s + len) mod size_mod > db_alloc s then dbuf_claim s len
                    else (0, s))
      in if r \<noteq> 0 then Some (-1, s) else map_option (Pair 0) (dbuf_append s data))"

definition dbuf_put_self :: "dyn_buf \<Rightarrow> nat \<Rightarrow> nat \<Rightarrow> (int \<times> dyn_buf) option" where
  "dbuf_put_self s offset len =
     (let (r, s) = (if (db_size s + len) mod size_mod > db_alloc s then dbuf_claim s len
                    else (0, s))
      in if r \<noteq> 0 then Some (-1, s)
         else if offset + len \<le> length (db_buf s)
         then map_option (Pair 0) (dbuf_append s (take len (drop offset (db_buf s))))
         else None)"

text \<open>The inlined stores of 1, 2, 4 and 8 bytes, each with its call for a full buffer.\<close>

definition dbuf_putc :: "dyn_buf \<Rightarrow> u8 \<Rightarrow> (int \<times> dyn_buf) option" where
  "dbuf_putc s c =
     (if db_alloc s - db_size s < 1 then dbuf_put s [c]
      else map_option (Pair 0) (dbuf_append s [c]))"

definition dbuf_put_u16 :: "bool \<Rightarrow> dyn_buf \<Rightarrow> u16 \<Rightarrow> (int \<times> dyn_buf) option" where
  "dbuf_put_u16 be s val =
     (if db_alloc s - db_size s < 2 then dbuf_put s (mem_bytes be 2 val)
      else map_option (Pair 0) (dbuf_append s (put_u16 be val)))"

definition dbuf_put_u32 :: "bool \<Rightarrow> dyn_buf \<Rightarrow> u32 \<Rightarrow> (int \<times> dyn_buf) option" where
  "dbuf_put_u32 be s val =
     (if db_alloc s - db_size s < 4 then dbuf_put s (mem_bytes be 4 val)
      else map_option (Pair 0) (dbuf_append s (put_u32 be val)))"

definition dbuf_put_u64 :: "bool \<Rightarrow> dyn_buf \<Rightarrow> u64 \<Rightarrow> (int \<times> dyn_buf) option" where
  "dbuf_put_u64 be s val =
     (if db_alloc s - db_size s < 8 then dbuf_put s (mem_bytes be 8 val)
      else map_option (Pair 0) (dbuf_append s (put_u64 be val)))"

text \<open>A C string is its bytes up to the first zero.\<close>

definition c_str :: "u8 list \<Rightarrow> u8 list" where
  "c_str s = takeWhile (\<lambda>c. c \<noteq> 0) s"

definition dbuf_putstr :: "dyn_buf \<Rightarrow> u8 list \<Rightarrow> (int \<times> dyn_buf) option" where
  "dbuf_putstr s str = dbuf_put s (c_str str)"

text \<open>
  \<open>dbuf_printf\<close> with the text that \<open>vsnprintf\<close> formats as its argument: short texts go through
  the 128-byte buffer, long ones are formatted in place with their terminating zero.
\<close>

definition dbuf_printf :: "dyn_buf \<Rightarrow> u8 list \<Rightarrow> (int \<times> dyn_buf) option" where
  "dbuf_printf s txt =
     (let len = length txt in
      if len < 128 then dbuf_put s txt
      else
        (let (r, s) = dbuf_claim s (len + 1)
         in if r \<noteq> 0 then Some (-1, s)
            else
              (let room = db_alloc s - db_size s;
                   out = (if room = 0 then [] else take (room - 1) txt @ [0])
               in if db_size s + length out \<le> length (db_buf s)
                  then Some (0, s\<lparr>db_buf := blit (db_buf s) (db_size s) out,
                                  db_size := db_size s + len\<rparr>)
                  else None)))"

definition dbuf_free :: "dyn_buf \<Rightarrow> dyn_buf" where
  "dbuf_free s =
     \<lparr> db_buf = [], db_size = 0, db_alloc = 0, db_error = False, db_realloc = None \<rparr>"

definition dbuf_set_error :: "dyn_buf \<Rightarrow> dyn_buf" where
  "dbuf_set_error s = s\<lparr>db_error := True\<rparr>"

section \<open>Invariant and contents\<close>

definition dbuf_inv :: "dyn_buf \<Rightarrow> bool" where
  "dbuf_inv s \<longleftrightarrow>
     length (db_buf s) = db_alloc s \<and> db_size s \<le> db_alloc s \<and> db_alloc s < size_mod"

definition contents :: "dyn_buf \<Rightarrow> u8 list" where
  "contents s = take (db_size s) (db_buf s)"

lemma length_contents: "dbuf_inv s \<Longrightarrow> length (contents s) = db_size s"
  by (simp add: dbuf_inv_def contents_def)

lemma dbuf_init2_inv: "dbuf_inv (dbuf_init2 limit f)" "contents (dbuf_init2 limit f) = []"
  by (simp_all add: dbuf_inv_def dbuf_init2_def contents_def)

lemma dbuf_append_inv:
  assumes "dbuf_inv s" and "db_size s + length data \<le> db_alloc s"
  obtains s' where "dbuf_append s data = Some s'" and "dbuf_inv s'"
    and "contents s' = contents s @ data" and "db_error s' = db_error s"
    and "db_realloc s' = db_realloc s" and "db_alloc s' = db_alloc s"
proof (cases "data = []")
  case True
  with assms that[of s] show ?thesis by (simp add: dbuf_append_def)
next
  case False
  let ?s = "s\<lparr>db_buf := blit (db_buf s) (db_size s) data, db_size := db_size s + length data\<rparr>"
  from False assms that[of ?s] show ?thesis
    by (simp add: dbuf_append_def dbuf_inv_def contents_def)
qed

text \<open>The fast paths of the fixed-size stores are \<open>dbuf_put\<close> of the same bytes.\<close>

lemma put_fast:
  assumes "dbuf_inv s" and "\<not> db_alloc s - db_size s < length data"
  shows "map_option (Pair 0) (dbuf_append s data) = dbuf_put s data"
proof -
  have "(db_size s + length data) mod size_mod \<le> db_alloc s"
    using assms by (auto simp: dbuf_inv_def)
  then show ?thesis by (simp add: dbuf_put_def)
qed

lemma dbuf_put_fixed:
  assumes "dbuf_inv s"
  shows "dbuf_putc s c = dbuf_put s [c]"
    and "dbuf_put_u16 be s v2 = dbuf_put s (put_u16 be v2)"
    and "dbuf_put_u32 be s v4 = dbuf_put s (put_u32 be v4)"
    and "dbuf_put_u64 be s v8 = dbuf_put s (put_u64 be v8)"
  using put_fast[OF assms]
  by (auto simp: dbuf_putc_def dbuf_put_u16_def dbuf_put_u32_def dbuf_put_u64_def
      put_u16_def put_u32_def put_u64_def)

section \<open>The interface to the allocator\<close>

locale allocator =
  fixes alloc :: realloc_func
  assumes alloc_length: "alloc old n = Some b \<Longrightarrow> length b = n"
    and alloc_keeps: "alloc old n = Some b \<Longrightarrow> length old \<le> n \<Longrightarrow> take (length old) b = old"
begin

lemma claim_cases:
  assumes "dbuf_inv s" and "db_realloc s = Some alloc" and "db_size s + len < size_mod"
  obtains s' where "dbuf_claim s len = (0, s')" and "dbuf_inv s'" and "contents s' = contents s"
      and "db_size s' = db_size s" and "db_size s + len \<le> db_alloc s'"
      and "db_error s' = db_error s" and "db_realloc s' = Some alloc"
      and "db_alloc s \<le> db_alloc s'"
  | s' where "dbuf_claim s len = (-1, s')" and "dbuf_inv s'" and "contents s' = contents s"
      and "db_error s'" and "db_realloc s' = Some alloc"
proof -
  define new where "new = (let size = (db_alloc s + db_alloc s div 2) mod size_mod in
     if size < db_size s + len \<or> size < db_alloc s then db_size s + len else size)"
  have new: "new < size_mod" "db_size s + len \<le> new"
    using assms(3) by (auto simp: new_def Let_def)
  have fits: "(db_size s + len) mod size_mod = db_size s + len" using assms(3) by simp
  have claim: "dbuf_claim s len =
     (if db_size s + len > db_alloc s then
        if db_error s then (-1, s)
        else (case alloc (db_buf s) new of
                None \<Rightarrow> (-1, s\<lparr>db_error := True\<rparr>)
              | Some b \<Rightarrow> (0, s\<lparr>db_buf := b, db_alloc := new\<rparr>))
      else (0, s))"
    unfolding dbuf_claim_def new_def call_realloc_def Let_def fits using assms(2) by simp
  consider (fits) "db_size s + len \<le> db_alloc s" | (err) "db_size s + len > db_alloc s" "db_error s"
    | (fail) "db_size s + len > db_alloc s" "\<not> db_error s" "alloc (db_buf s) new = None"
    | (grow) b where "db_size s + len > db_alloc s" "\<not> db_error s" "alloc (db_buf s) new = Some b"
    by (meson not_le option.exhaust)
  then show ?thesis
  proof cases
    case fits
    with claim assms that(1)[of s] show ?thesis by simp
  next
    case err
    with claim assms that(2)[of s] show ?thesis by simp
  next
    case fail
    with claim assms that(2)[of "s\<lparr>db_error := True\<rparr>"] show ?thesis
      by (simp add: dbuf_inv_def contents_def)
  next
    case grow
    have len: "length b = new" by (rule alloc_length[OF grow(3)])
    have old: "length (db_buf s) = db_alloc s" "db_size s \<le> db_alloc s"
      using assms(1) by (simp_all add: dbuf_inv_def)
    have "db_alloc s \<le> new" using grow new old by linarith
    then have keep: "take (db_alloc s) b = db_buf s"
      using alloc_keeps[OF grow(3)] old by simp
    have "take (db_size s) b = take (db_size s) (db_buf s)"
      unfolding keep[symmetric] using old by simp
    with claim grow new old len assms that(1)[of "s\<lparr>db_buf := b, db_alloc := new\<rparr>"]
      \<open>db_alloc s \<le> new\<close>
    show ?thesis by (simp add: dbuf_inv_def contents_def)
  qed
qed

lemma put_cases:
  assumes "dbuf_inv s" and "db_realloc s = Some alloc" and "db_size s + length data < size_mod"
  obtains s' where "dbuf_put s data = Some (0, s')" and "dbuf_inv s'"
      and "contents s' = contents s @ data" and "db_error s' = db_error s"
      and "db_realloc s' = Some alloc"
  | s' where "dbuf_put s data = Some (-1, s')" and "dbuf_inv s'" and "contents s' = contents s"
      and "db_error s'" and "db_realloc s' = Some alloc"
proof (cases "db_size s + length data > db_alloc s")
  case False
  from dbuf_append_inv[OF assms(1), of data] False obtain s' where
    "dbuf_append s data = Some s'" "dbuf_inv s'" "contents s' = contents s @ data"
    "db_error s' = db_error s" "db_realloc s' = db_realloc s" by auto
  with False assms that(1)[of s'] show ?thesis by (simp add: dbuf_put_def)
next
  case True
  show ?thesis
  proof (rule claim_cases[OF assms])
    fix s1
    assume c: "dbuf_claim s (length data) = (0, s1)" "dbuf_inv s1" "contents s1 = contents s"
      "db_size s1 = db_size s" "db_size s + length data \<le> db_alloc s1"
      "db_error s1 = db_error s" "db_realloc s1 = Some alloc"
    from dbuf_append_inv[OF c(2), of data] c obtain s' where
      "dbuf_append s1 data = Some s'" "dbuf_inv s'" "contents s' = contents s1 @ data"
      "db_error s' = db_error s1" "db_realloc s' = db_realloc s1" by auto
    with True c assms that(1)[of s'] show ?thesis by (simp add: dbuf_put_def)
  next
    fix s1
    assume "dbuf_claim s (length data) = (-1, s1)" "dbuf_inv s1" "contents s1 = contents s"
      "db_error s1" "db_realloc s1 = Some alloc"
    with True assms that(2)[of s1] show ?thesis by (simp add: dbuf_put_def)
  qed
qed

end

text \<open>
  Callers that emit many pieces ignore the results and test \<open>dbuf_error\<close> once at the end
  (\<open>unicode_normalize\<close>, the bytecode emitters): the sequence of their calls.
\<close>

fun put_all :: "dyn_buf \<Rightarrow> u8 list list \<Rightarrow> dyn_buf option" where
  "put_all s [] = Some s"
| "put_all s (d # ds) = (case dbuf_put s d of None \<Rightarrow> None | Some (r, s') \<Rightarrow> put_all s' ds)"

context allocator begin

lemma put_all_cases:
  assumes "dbuf_inv s" and "db_realloc s = Some alloc"
    and "db_size s + length (concat ds) < size_mod"
  shows "\<exists>s'. put_all s ds = Some s' \<and> dbuf_inv s' \<and> (db_error s \<longrightarrow> db_error s') \<and>
    (\<not> db_error s' \<longrightarrow> contents s' = contents s @ concat ds)"
  using assms
proof (induction ds arbitrary: s)
  case (Cons d ds)
  have sz: "db_size s + length d < size_mod" using Cons.prems(3) by simp
  show ?case
  proof (rule put_cases[OF Cons.prems(1,2) sz])
    fix s1
    assume p: "dbuf_put s d = Some (0, s1)" "dbuf_inv s1" "contents s1 = contents s @ d"
      "db_error s1 = db_error s" "db_realloc s1 = Some alloc"
    then have "db_size s1 = db_size s + length d"
      using length_contents[OF p(2)] length_contents[OF Cons.prems(1)] by simp
    with Cons.IH[OF p(2,5)] Cons.prems(3) p show ?case by auto
  next
    fix s1
    assume p: "dbuf_put s d = Some (-1, s1)" "dbuf_inv s1" "contents s1 = contents s"
      "db_error s1" "db_realloc s1 = Some alloc"
    then have "db_size s1 = db_size s"
      using length_contents[OF p(2)] length_contents[OF Cons.prems(1)] by simp
    with Cons.IH[OF p(2,5)] Cons.prems(3) p show ?case by auto
  qed
qed simp

end

text \<open>The default allocator of \<open>dbuf_init\<close> obeys the law.\<close>

interpretation default_alloc: allocator "dbuf_default_realloc limit" for limit
  by unfold_locales (auto simp: dbuf_default_realloc_def libc_realloc_def split: if_splits)

section \<open>Properties\<close>

text \<open>
  \<^bold>\<open>C8.\<close> With any allocator that returns blocks of the size asked for and keeps the old bytes,
  \<open>dbuf_put\<close> of data that fits the address space never copies outside the block and either
  returns 0 and has appended exactly the data, or returns -1, has set the error flag and has left
  the contents as they were; the buffer stays well formed in both cases.
\<close>

theorem dbuf_put_appends:
  assumes "allocator f" and "dbuf_inv s" and "db_realloc s = Some f"
    and "db_size s + length data < size_mod"
  shows "\<exists>r s'. dbuf_put s data = Some (r, s') \<and> dbuf_inv s' \<and>
    (r = 0 \<and> contents s' = contents s @ data \<and> db_error s' = db_error s \<or>
     r = -1 \<and> contents s' = contents s \<and> db_error s')"
  by (rule allocator.put_cases[OF assms]) auto

theorem dbuf_put_appends_witness:
  "\<exists>r s'. dbuf_put (dbuf_init 1000) [1, 2, 3] = Some (r, s') \<and> dbuf_inv s'"
proof -
  have "db_realloc (dbuf_init 1000) = Some (dbuf_default_realloc 1000)"
    by (simp add: dbuf_init_def dbuf_init2_def)
  moreover have "db_size (dbuf_init 1000) + length [1, 2, 3 :: u8] < size_mod"
    by (simp add: dbuf_init_def dbuf_init2_def)
  ultimately show ?thesis
    using dbuf_put_appends[OF default_alloc.allocator_axioms, of "dbuf_init 1000" 1000 "[1, 2, 3]"]
      dbuf_init2_inv(1)[of 1000 None]
    by (auto simp: dbuf_init_def)
qed

text \<open>
  \<^bold>\<open>C9.\<close> The error flag is sticky and complete: after any sequence of \<open>dbuf_put\<close> calls whose
  results are ignored, a clear flag at the end means that every one of them has appended its
  bytes, in order.
\<close>

theorem dbuf_error_sticky:
  assumes "allocator f" and "dbuf_inv s" and "db_realloc s = Some f"
    and "db_size s + length (concat ds) < size_mod"
  shows "\<exists>s'. put_all s ds = Some s' \<and> dbuf_inv s' \<and> (db_error s \<longrightarrow> db_error s') \<and>
    (\<not> db_error s' \<longrightarrow> contents s' = contents s @ concat ds)"
  using assms by (rule allocator.put_all_cases)

theorem dbuf_error_sticky_witness:
  "\<exists>s'. put_all (dbuf_init 1000) [[1], [2, 3]] = Some s' \<and>
    (\<not> db_error s' \<longrightarrow> contents s' = [1, 2, 3])"
proof -
  have "db_realloc (dbuf_init 1000) = Some (dbuf_default_realloc 1000)"
    and "db_size (dbuf_init 1000) + length (concat [[1], [2, 3 :: u8]]) < size_mod"
    by (simp_all add: dbuf_init_def dbuf_init2_def)
  from dbuf_error_sticky[OF default_alloc.allocator_axioms _ this]
  show ?thesis
    using dbuf_init2_inv[of 1000 None] by (auto simp: dbuf_init_def)
qed

end
