(* ===== verification/Limbs.thy ===== *)
theory Limbs
  imports Cutils_Bits
begin

text \<open>
  The multi-precision layer of BigInt in \<open>quickjs.c\<close> (\<open>js_mp_*\<close>). A number is an array of
  32-bit limbs, least significant first. A routine takes the slices of its operands of the length
  it is called with and returns the slice it stores and its result; loops that run downwards
  recurse before they use a limb. \<open>mp_val\<close> is the number a slice stands for.
\<close>

type_synonym js_limb_t = u32
type_synonym js_dlimb_t = u64

definition JS_LIMB_BITS :: nat where "JS_LIMB_BITS = 32"
definition JS_LIMB_DIGITS :: nat where "JS_LIMB_DIGITS = 9"
definition JS_BIGINT_MAX_SIZE :: nat where "JS_BIGINT_MAX_SIZE = (1024 * 1024) div JS_LIMB_BITS"

section \<open>Operations\<close>

definition ADDC :: "js_limb_t \<Rightarrow> js_limb_t \<Rightarrow> js_limb_t \<Rightarrow> js_limb_t \<times> js_limb_t" where
  "ADDC op1 op2 carry_in =
     (let v = op1; a = v + op2; k1 = a < v; k = carry_in; a = a + k
      in (a, of_bool (a < k) OR of_bool k1))"

definition js_limb_clz :: "js_limb_t \<Rightarrow> nat" where
  "js_limb_clz a = (if a = 0 then JS_LIMB_BITS else clz32 a)"

fun js_mp_add :: "js_limb_t list \<Rightarrow> js_limb_t list \<Rightarrow> js_limb_t \<Rightarrow> js_limb_t list \<times> js_limb_t" where
  "js_mp_add (x # op1) (y # op2) carry =
     (let (r, carry) = ADDC x y carry; (res, carry) = js_mp_add op1 op2 carry
      in (r # res, carry))"
| "js_mp_add _ _ carry = ([], carry)"

fun js_mp_sub :: "js_limb_t list \<Rightarrow> js_limb_t list \<Rightarrow> js_limb_t \<Rightarrow> js_limb_t list \<times> js_limb_t" where
  "js_mp_sub (x # op1) (y # op2) k =
     (let v = x; a = v - y; k1 = a > v; v = a - k; k = of_bool (v > a) OR of_bool k1;
          (res, k) = js_mp_sub op1 op2 k
      in (v # res, k))"
| "js_mp_sub _ _ k = ([], k)"

fun js_mp_neg_loop :: "js_limb_t list \<Rightarrow> js_limb_t \<Rightarrow> js_limb_t list \<times> js_limb_t" where
  "js_mp_neg_loop (x # op2) carry =
     (let v = NOT x + carry; carry = of_bool (v < carry);
          (res, carry) = js_mp_neg_loop op2 carry
      in (v # res, carry))"
| "js_mp_neg_loop [] carry = ([], carry)"

definition js_mp_neg :: "js_limb_t list \<Rightarrow> js_limb_t list \<times> js_limb_t" where
  "js_mp_neg op2 = js_mp_neg_loop op2 1"

fun js_mp_mul1 :: "js_limb_t list \<Rightarrow> js_limb_t \<Rightarrow> js_limb_t \<Rightarrow> js_limb_t list \<times> js_limb_t" where
  "js_mp_mul1 (x # taba) b l =
     (let t = (ucast x :: js_dlimb_t) * ucast b + ucast l;
          (res, l) = js_mp_mul1 taba b (ucast (drop_bit 32 t))
      in (ucast t # res, l))"
| "js_mp_mul1 [] b l = ([], l)"

fun js_mp_div1 :: "js_limb_t list \<Rightarrow> js_limb_t \<Rightarrow> js_limb_t \<Rightarrow> js_limb_t list \<times> js_limb_t" where
  "js_mp_div1 (x # taba) b r =
     (let (res, r) = js_mp_div1 taba b r;
          a1 = push_bit 32 (ucast r :: js_dlimb_t) OR ucast x
      in (ucast (a1 div ucast b) # res, ucast (a1 mod ucast b)))"
| "js_mp_div1 [] b r = ([], r)"

fun js_mp_add_mul1_loop ::
  "js_limb_t list \<Rightarrow> js_limb_t list \<Rightarrow> js_limb_t \<Rightarrow> js_limb_t \<Rightarrow> js_limb_t list \<times> js_limb_t"
where
  "js_mp_add_mul1_loop (z # tabr) (x # taba) b l =
     (let t = (ucast x :: js_dlimb_t) * ucast b + ucast l + ucast z;
          (res, l) = js_mp_add_mul1_loop tabr taba b (ucast (drop_bit 32 t))
      in (ucast t # res, l))"
| "js_mp_add_mul1_loop _ _ b l = ([], l)"

definition js_mp_add_mul1 ::
  "js_limb_t list \<Rightarrow> js_limb_t list \<Rightarrow> js_limb_t \<Rightarrow> js_limb_t list \<times> js_limb_t" where
  "js_mp_add_mul1 tabr taba b = js_mp_add_mul1_loop tabr taba b 0"

text \<open>\<open>result\<close> is the whole destination, of \<open>op1_size + op2_size\<close> limbs.\<close>

fun mul_rows :: "js_limb_t list \<Rightarrow> js_limb_t list \<Rightarrow> nat \<Rightarrow> js_limb_t list \<Rightarrow> js_limb_t list" where
  "mul_rows result op1 i (y # op2) =
     (let (seg, r) = js_mp_add_mul1 (take (length op1) (drop i result)) op1 y
      in mul_rows (blit result i (seg @ [r])) op1 (Suc i) op2)"
| "mul_rows result op1 i [] = result"

definition js_mp_mul_basecase ::
  "js_limb_t list \<Rightarrow> js_limb_t list \<Rightarrow> js_limb_t list \<Rightarrow> js_limb_t list" where
  "js_mp_mul_basecase result op1 op2 =
     (let (seg, h) = js_mp_mul1 op1 (op2 ! 0) 0
      in mul_rows (blit result 0 (seg @ [h])) op1 1 (tl op2))"

fun js_mp_sub_mul1_loop ::
  "js_limb_t list \<Rightarrow> js_limb_t list \<Rightarrow> js_limb_t \<Rightarrow> js_limb_t \<Rightarrow> js_limb_t list \<times> js_limb_t"
where
  "js_mp_sub_mul1_loop (z # tabr) (x # taba) b l =
     (let t = ucast z - (ucast x :: js_dlimb_t) * ucast b - ucast l;
          (res, l) = js_mp_sub_mul1_loop tabr taba b (ucast (- drop_bit 32 t))
      in (ucast t # res, l))"
| "js_mp_sub_mul1_loop _ _ b l = ([], l)"

definition js_mp_sub_mul1 ::
  "js_limb_t list \<Rightarrow> js_limb_t list \<Rightarrow> js_limb_t \<Rightarrow> js_limb_t list \<times> js_limb_t" where
  "js_mp_sub_mul1 tabr taba b = js_mp_sub_mul1_loop tabr taba b 0"

fun js_mp_shl_loop :: "js_limb_t list \<Rightarrow> nat \<Rightarrow> js_limb_t \<Rightarrow> js_limb_t list \<times> js_limb_t" where
  "js_mp_shl_loop (v # taba) shift l =
     (let (res, h) = js_mp_shl_loop taba shift (drop_bit (32 - shift) v)
      in ((push_bit shift v OR l) # res, h))"
| "js_mp_shl_loop [] shift l = ([], l)"

definition js_mp_shl :: "js_limb_t list \<Rightarrow> nat \<Rightarrow> js_limb_t list \<times> js_limb_t" where
  "js_mp_shl taba shift = js_mp_shl_loop taba shift 0"

fun js_mp_shr_loop :: "js_limb_t list \<Rightarrow> nat \<Rightarrow> js_limb_t \<Rightarrow> js_limb_t list \<times> js_limb_t" where
  "js_mp_shr_loop (a # tab) shift l =
     (let (res, l) = js_mp_shr_loop tab shift l
      in ((drop_bit shift a OR push_bit (32 - shift) l) # res, a))"
| "js_mp_shr_loop [] shift l = ([], l)"

definition js_mp_shr :: "js_limb_t list \<Rightarrow> nat \<Rightarrow> js_limb_t \<Rightarrow> js_limb_t list \<times> js_limb_t" where
  "js_mp_shr tab shift high =
     (let (res, l) = js_mp_shr_loop tab shift high in (res, l AND (push_bit shift 1 - 1)))"

section \<open>The number a slice stands for\<close>

abbreviation B32 :: nat where "B32 \<equiv> 4294967296"

fun mp_val :: "js_limb_t list \<Rightarrow> nat" where
  "mp_val [] = 0"
| "mp_val (x # xs) = unat x + B32 * mp_val xs"

lemma mp_val_append: "mp_val (xs @ ys) = mp_val xs + B32 ^ length xs * mp_val ys"
  by (induction xs) (simp_all add: algebra_simps)

lemma mp_val_snoc [simp]: "mp_val (xs @ [x]) = mp_val xs + B32 ^ length xs * unat x"
  by (simp add: mp_val_append)

lemma mp_val_replicate_0 [simp]: "mp_val (replicate n 0) = 0"
  by (induction n) simp_all

lemma mp_val_bound: "mp_val xs < B32 ^ length xs"
proof (induction xs)
  case (Cons x xs)
  have "unat x + B32 * mp_val xs < B32 + B32 * mp_val xs" by simp
  also have "\<dots> \<le> B32 * B32 ^ length xs" using Cons by (simp flip: mult_Suc_right)
  finally show ?case by simp
qed simp

lemma mp_val_eq_iff: "length xs = length ys \<Longrightarrow> mp_val xs = mp_val ys \<longleftrightarrow> xs = ys"
proof (induction xs ys rule: list_induct2)
  case (Cons x xs y ys)
  have "unat x = unat y \<and> mp_val xs = mp_val ys"
    if "unat x + B32 * mp_val xs = unat y + B32 * mp_val ys"
  proof -
    from that have "(unat x + B32 * mp_val xs) mod B32 = (unat y + B32 * mp_val ys) mod B32" by simp
    then have u: "unat x = unat y" by simp
    with that show ?thesis by simp
  qed
  with Cons show ?case by (auto simp: word_unat_eq_iff)
qed simp

lemma mp_val_0_iff: "mp_val xs = 0 \<longleftrightarrow> (\<forall>x \<in> set xs. x = 0)"
  by (induction xs) (simp_all add: unat_eq_zero)

lemma mp_val_take_drop: "k \<le> length xs \<Longrightarrow>
  mp_val xs = mp_val (take k xs) + B32 ^ k * mp_val (drop k xs)"
  using mp_val_append[of "take k xs" "drop k xs"] by simp

lemma mp_val_last:
  assumes "xs \<noteq> []"
  shows "mp_val xs = mp_val (butlast xs) + B32 ^ (length xs - 1) * unat (last xs)"
  using mp_val_snoc[of "butlast xs" "last xs"] assms by simp

section \<open>Single limb steps\<close>

lemma unat_less_B32 [simp]: "unat (x :: u32) < B32" by (rule unat_lt_u32)

lemma unat_le_u32 [simp]: "unat (x :: u32) \<le> 4294967295"
  using unat_less_B32[of x] by linarith

lemma ADDC_unat:
  assumes "ADDC a b c = (r, c')" and "unat c \<le> 1"
  shows "unat r + B32 * unat c' = unat a + unat b + unat c" and "unat c' \<le> 1"
proof -
  have less: "unat a < B32" "unat b < B32" by simp_all
  have r: "r = a + b + c" and c': "c' = of_bool (a + b + c < c) OR of_bool (a + b < a)"
    using assms(1) by (auto simp: ADDC_def Let_def)
  show "unat r + B32 * unat c' = unat a + unat b + unat c" "unat c' \<le> 1"
    using less assms(2)
    unfolding r c'
    by (auto simp: word_less_nat_alt unat_add_u32 simp del: unat_less_B32 unat_le_u32 unat_lt_u32 unat_u32_less
        split: if_splits)
qed

text \<open>\<open>borrow_step\<close> is one step of \<open>js_mp_sub\<close>.\<close>

lemma borrow_step:
  assumes "unat k \<le> 1" and "k' = of_bool (x - y - k > x - y) OR of_bool (x - y > (x :: u32))"
  shows "unat (x - y - k) + unat y + unat k = unat x + B32 * unat k'" and "unat k' \<le> 1"
proof -
  have less: "unat x < B32" "unat y < B32" by simp_all
  show "unat (x - y - k) + unat y + unat k = unat x + B32 * unat k'" "unat k' \<le> 1"
    using less assms(1)
    unfolding assms(2)
    by (auto simp: word_less_nat_alt unat_sub_u32 simp del: unat_less_B32 unat_le_u32 unat_lt_u32 unat_u32_less
        split: if_splits)
qed

lemma unat_NOT_u32: "unat (NOT x :: u32) = B32 - 1 - unat x"
proof -
  have "NOT x = -1 - x" by (simp add: not_eq_complement)
  moreover have "unat (-1 :: u32) = B32 - 1"
    by (simp add: unsigned_minus_1_eq_mask mask_eq_exp_minus_1)
  ultimately show ?thesis by (simp add: unat_sub_u32 less_Suc_eq_le[symmetric])
qed

text \<open>Double limbs: no product of two limbs with two more limbs added overflows 64 bits.\<close>

lemma unat_ucast_dlimb [simp]: "unat (ucast (x :: u32) :: u64) = unat x"
proof -
  have "unat x < 2 ^ LENGTH(64)" by simp
  then show ?thesis by (simp only: unat_ucast_mod mod_less)
qed

lemma limb_lo: "unat (ucast (t :: u64) :: u32) = unat t mod B32"
  by (simp add: unat_ucast_mod)

lemma limb_hi: "unat (ucast (drop_bit 32 (t :: u64)) :: u32) = unat t div B32"
proof -
  have "unat t div B32 < B32"
    using unat_lt_u64[of t] by (simp add: div_less_iff_less_mult)
  then show ?thesis by (simp add: unat_ucast_mod unat_drop_bit)
qed

lemma limb_split:
  "unat (ucast (t :: u64) :: u32) + B32 * unat (ucast (drop_bit 32 t) :: u32) = unat t"
  unfolding limb_hi by (simp only: limb_lo mod_mult_div_eq)

lemma limb_mult_bound: "unat (x :: u32) * unat (b :: u32) \<le> (B32 - 1) * (B32 - 1)"
  using unat_less_B32[of x] unat_less_B32[of b] by (intro mult_mono) simp_all

lemma unat_mac:
  "unat ((ucast (x :: u32) :: u64) * ucast (b :: u32) + ucast (l :: u32) + ucast (z :: u32))
     = unat x * unat b + unat l + unat z"
proof -
  have "unat x * unat b + unat l + unat z < 2 ^ LENGTH(64)"
    using limb_mult_bound[of x b] less_imp_le_nat[OF unat_less_B32[of l]] 
      less_imp_le_nat[OF unat_less_B32[of z]] unat_less_B32[of l] unat_less_B32[of z]
    by (simp del: unat_less_B32 unat_le_u32 unat_lt_u32 unat_u32_less)
  then show ?thesis
    by (simp add: unat_word_ariths mod_add_left_eq)
qed

lemma unat_mac1:
  "unat ((ucast (x :: u32) :: u64) * ucast (b :: u32) + ucast (l :: u32)) = unat x * unat b + unat l"
  using unat_mac[of x b l 0] by simp

lemma unat_join: "unat (push_bit 32 (ucast (h :: u32) :: u64) OR ucast (x :: u32)) = unat h * B32 + unat x"
proof -
  have "unat h * B32 + unat x < B32 * B32"
  proof -
    have "unat h * B32 + unat x < unat h * B32 + B32" by simp
    also have "\<dots> = Suc (unat h) * B32" by simp
    also have "\<dots> \<le> B32 * B32" using unat_less_B32[of h] by (intro mult_right_mono) simp_all
    finally show ?thesis .
  qed
  moreover have "unat h * B32 < 2 ^ LENGTH(64)"
    using unat_less_B32[of h] by simp
  ultimately show ?thesis
    using nat_or_add[of "unat x" 32 "unat h"] 
    by (simp add: unsigned_or_eq unat_push_bit)
qed

section \<open>What the routines compute\<close>

lemma js_mp_add_val:
  assumes "js_mp_add op1 op2 carry = (res, carry')" and "length op1 = length op2"
    and "unat carry \<le> 1"
  shows "mp_val res + B32 ^ length op1 * unat carry' = mp_val op1 + mp_val op2 + unat carry
    \<and> unat carry' \<le> 1 \<and> length res = length op1"
  using assms(2,1,3)
proof (induction op1 op2 arbitrary: carry res carry' rule: list_induct2)
  case (Cons x op1 y op2)
  obtain r c where rc: "ADDC x y carry = (r, c)" by fastforce
  obtain res1 c1 where r1: "js_mp_add op1 op2 c = (res1, c1)" by fastforce
  note A = ADDC_unat[OF rc Cons.prems(2)]
  from Cons.IH[OF r1 A(2)] A(1) Cons.prems(1) rc r1 show ?case
    by (auto simp: algebra_simps)
qed simp

lemma js_mp_sub_val:
  assumes "js_mp_sub op1 op2 k = (res, k')" and "length op1 = length op2" and "unat k \<le> 1"
  shows "mp_val res + mp_val op2 + unat k = mp_val op1 + B32 ^ length op1 * unat k'
    \<and> unat k' \<le> 1 \<and> length res = length op1"
  using assms(2,1,3)
proof (induction op1 op2 arbitrary: k res k' rule: list_induct2)
  case (Cons x op1 y op2)
  obtain kk :: u32 where kk: "kk = of_bool (x - y - k > x - y) OR of_bool (x - y > x)" by simp
  obtain res1 k1 where r1: "js_mp_sub op1 op2 kk = (res1, k1)" by fastforce
  note A = borrow_step[OF Cons.prems(2) kk]
  have r: "res = (x - y - k) # res1" "k' = k1"
    using Cons.prems(1) r1 by (simp_all add: Let_def kk)
  from Cons.IH[OF r1 A(2)]
  have IH: "mp_val res1 + mp_val op2 + unat kk = mp_val op1 + B32 ^ length op1 * unat k1"
    and k1: "unat k1 \<le> 1" "length res1 = length op1" by auto
  from arg_cong[OF IH, of "(*) B32"] A(1) k1 show ?case
    by (simp add: r distrib_left mult.assoc)
qed simp

lemma js_mp_neg_loop_val:
  assumes "js_mp_neg_loop op2 c = (res, c')" and "unat c \<le> 1"
  shows "mp_val res + mp_val op2 + 1 + B32 ^ length op2 * unat c' = B32 ^ length op2 + unat c
    \<and> unat c' \<le> 1 \<and> length res = length op2"
  using assms
proof (induction op2 arbitrary: c res c')
  case (Cons x op2)
  let ?c = "of_bool (NOT x + c < c) :: u32"
  obtain res1 c1 where r1: "js_mp_neg_loop op2 ?c = (res1, c1)" by fastforce
  have r: "res = (NOT x + c) # res1" and "c' = c1"
    using Cons.prems(1) r1 by (simp_all add: Let_def)
  have "unat (NOT x + c) + unat x + 1 + B32 * unat ?c = B32 + unat c"
    using Cons.prems(2) unat_less_B32[of x]
    by (auto simp: word_less_nat_alt unat_add_u32 unat_NOT_u32
        simp del: unat_less_B32 unat_le_u32 unat_lt_u32 unat_u32_less split: if_splits)
  moreover have "unat ?c \<le> 1" by simp
  ultimately show ?case
    using Cons.IH[OF r1] \<open>c' = c1\<close> by (simp add: r algebra_simps)
qed simp

lemma js_mp_neg_val:
  assumes "js_mp_neg op2 = (res, c')"
  shows "mp_val res = (B32 ^ length op2 - mp_val op2) mod B32 ^ length op2 \<and> length res = length op2"
proof -
  from js_mp_neg_loop_val[of op2 1 res c'] assms
  have *: "mp_val res + mp_val op2 + B32 ^ length op2 * unat c' = B32 ^ length op2"
    and l: "length res = length op2" "unat c' \<le> 1"
    by (auto simp: js_mp_neg_def)
  show ?thesis
  proof (cases "unat c' = 0")
    case True
    with * have "mp_val res = B32 ^ length op2 - mp_val op2" by simp
    with mp_val_bound[of res] l show ?thesis by simp
  next
    case False
    with l have "unat c' = 1" by simp
    with * l show ?thesis by simp
  qed
qed

lemma js_mp_mul1_val:
  assumes "js_mp_mul1 taba b l = (res, l')"
  shows "mp_val res + B32 ^ length taba * unat l' = mp_val taba * unat b + unat l
    \<and> length res = length taba"
  using assms
proof (induction taba arbitrary: l res l')
  case (Cons x taba)
  define t where "t = (ucast x :: u64) * ucast b + ucast l"
  obtain l1 :: u32 where l1: "l1 = ucast (drop_bit 32 t)" by simp
  obtain res1 l2 where r1: "js_mp_mul1 taba b l1 = (res1, l2)" by fastforce
  have r: "res = ucast t # res1" "l' = l2"
    using Cons.prems r1 by (simp_all add: Let_def l1 t_def)
  from Cons.IH[OF r1]
  have IH: "mp_val res1 + B32 ^ length taba * unat l2 = mp_val taba * unat b + unat l1"
    and k: "length res1 = length taba" by auto
  have "unat (ucast t :: u32) + B32 * unat l1 = unat x * unat b + unat l"
    unfolding l1 limb_split by (simp add: t_def unat_mac1)
  with arg_cong[OF IH, of "(*) B32"] k show ?case
    by (simp add: r distrib_left distrib_right mult.assoc)
qed simp

lemma js_mp_add_mul1_loop_val:
  assumes "js_mp_add_mul1_loop tabr taba b l = (res, l')" and "length tabr = length taba"
  shows "mp_val res + B32 ^ length taba * unat l' = mp_val tabr + mp_val taba * unat b + unat l
    \<and> length res = length taba"
  using assms(2,1)
proof (induction tabr taba arbitrary: l res l' rule: list_induct2)
  case (Cons z tabr x taba)
  define t where "t = (ucast x :: u64) * ucast b + ucast l + ucast z"
  obtain l1 :: u32 where l1: "l1 = ucast (drop_bit 32 t)" by simp
  obtain res1 l2 where r1: "js_mp_add_mul1_loop tabr taba b l1 = (res1, l2)" by fastforce
  have r: "res = ucast t # res1" "l' = l2"
    using Cons.prems r1 by (simp_all add: Let_def l1 t_def)
  from Cons.IH[OF r1]
  have IH: "mp_val res1 + B32 ^ length taba * unat l2 = mp_val tabr + mp_val taba * unat b + unat l1"
    and k: "length res1 = length taba" by auto
  have "unat (ucast t :: u32) + B32 * unat l1 = unat x * unat b + unat l + unat z"
    unfolding l1 limb_split by (simp only: t_def unat_mac)
  with arg_cong[OF IH, of "(*) B32"] k show ?case
    by (simp add: r distrib_left distrib_right mult.assoc)
qed simp

lemma js_mp_add_mul1_val:
  assumes "js_mp_add_mul1 tabr taba b = (res, l)" and "length tabr = length taba"
  shows "mp_val res + B32 ^ length taba * unat l = mp_val tabr + mp_val taba * unat b
    \<and> length res = length taba"
  using js_mp_add_mul1_loop_val[of tabr taba b 0 res l] assms by (simp add: js_mp_add_mul1_def)

lemma js_mp_div1_val:
  assumes "js_mp_div1 taba b r = (res, r')" and "r < b"
  shows "mp_val res * unat b + unat r' = mp_val taba + B32 ^ length taba * unat r
    \<and> r' < b \<and> length res = length taba"
  using assms
proof (induction taba arbitrary: res r')
  case (Cons x taba)
  obtain res1 r1 where r1: "js_mp_div1 taba b r = (res1, r1)" by fastforce
  define a1 where "a1 = (push_bit 32 (ucast r1 :: u64) OR ucast x)"
  have r: "res = ucast (a1 div ucast b) # res1" "r' = ucast (a1 mod ucast b)"
    using Cons.prems r1 by (simp_all add: Let_def a1_def)
  from Cons.IH[OF r1 Cons.prems(2)]
  have IH: "mp_val res1 * unat b + unat r1 = mp_val taba + B32 ^ length taba * unat r"
    and k: "length res1 = length taba" "unat r1 < unat b" by (auto simp: word_less_nat_alt)
  have a1: "unat a1 = unat r1 * B32 + unat x" by (simp add: a1_def unat_join)
  have "unat a1 < unat b * B32"
  proof -
    have "unat a1 < Suc (unat r1) * B32" by (simp add: a1)
    also have "\<dots> \<le> unat b * B32" using k(2) by (intro mult_right_mono) simp_all
    finally show ?thesis .
  qed
  then have "unat a1 div unat b < B32" using k(2) by (simp add: div_less_iff_less_mult mult.commute)
  then have q: "unat (ucast (a1 div ucast b) :: u32) = unat a1 div unat b"
    by (simp add: limb_lo unat_div_distrib)
  have "unat a1 mod unat b < unat b" using k(2) by simp
  then have m: "unat (ucast (a1 mod ucast b) :: u32) = unat a1 mod unat b"
    by (simp add: limb_lo unat_mod_distrib less_trans[OF _ unat_less_B32])
  have "unat a1 div unat b * unat b + unat a1 mod unat b = unat r1 * B32 + unat x"
    by (simp add: a1)
  with arg_cong[OF IH, of "(*) B32"] k m q \<open>unat a1 mod unat b < unat b\<close> show ?case
    by (simp add: r distrib_left distrib_right mult.assoc word_less_nat_alt mult.commute[of B32])
qed simp

lemma mul_rows_val:
  assumes "length op1 + i + length op2 \<le> length result"
  shows "mp_val (take (length op1 + i + length op2) (mul_rows result op1 i op2))
      = mp_val (take (length op1 + i) result) + B32 ^ i * (mp_val op1 * mp_val op2)
    \<and> length (mul_rows result op1 i op2) = length result"
  using assms
proof (induction op2 arbitrary: i result)
  case (Cons y op2)
  let ?n = "length op1"
  obtain seg r where sr: "js_mp_add_mul1 (take ?n (drop i result)) op1 y = (seg, r)" by fastforce
  have V: "mp_val seg + B32 ^ ?n * unat r
      = mp_val (take ?n (drop i result)) + mp_val op1 * unat y" "length seg = ?n"
    using js_mp_add_mul1_val[OF sr] Cons.prems by auto
  let ?r1 = "blit result i (seg @ [r])"
  have l: "length ?r1 = length result" using Cons.prems V by simp
  have "take (?n + Suc i) ?r1 = take i result @ seg @ [r]"
    using take_blit[of i "seg @ [r]" result] Cons.prems V(2) by (simp add: add.commute)
  then have "mp_val (take (?n + Suc i) ?r1)
      = mp_val (take i result) + B32 ^ i * (mp_val seg + B32 ^ ?n * unat r)"
    using Cons.prems V(2) by (simp add: mp_val_append)
  also have "\<dots> = mp_val (take (i + ?n) result) + B32 ^ i * (mp_val op1 * unat y)"
    using Cons.prems by (simp add: V take_add mp_val_append distrib_left)
  finally show ?case
    using Cons.IH[of "Suc i" ?r1] Cons.prems l sr
    by (simp add: algebra_simps)
qed simp

lemma js_mp_mul_basecase_val:
  assumes "length result = length op1 + length op2" and "op2 \<noteq> []"
  shows "mp_val (js_mp_mul_basecase result op1 op2) = mp_val op1 * mp_val op2
    \<and> length (js_mp_mul_basecase result op1 op2) = length result"
proof -
  obtain y ys where op2: "op2 = y # ys" using assms(2) by (cases op2) auto
  obtain seg h where m: "js_mp_mul1 op1 y 0 = (seg, h)" by fastforce
  note V = js_mp_mul1_val[OF m]
  let ?r = "blit result 0 (seg @ [h])"
  have l: "length ?r = length result" using V assms(1) op2 by simp
  have "take (length op1 + 1) ?r = seg @ [h]"
    using take_blit[of 0 "seg @ [h]" result] V assms(1) op2 by simp
  then have H: "mp_val (take (length op1 + 1) ?r) = mp_val op1 * unat y"
    using V by simp
  have "length op1 + 1 + length ys \<le> length ?r" using l assms(1) op2 by simp
  from mul_rows_val[OF this]
  have R: "mp_val (take (length op1 + 1 + length ys) (mul_rows ?r op1 1 ys))
      = mp_val (take (length op1 + 1) ?r) + B32 ^ 1 * (mp_val op1 * mp_val ys)"
    and L: "length (mul_rows ?r op1 1 ys) = length ?r" by blast+
  have T: "take (length op1 + 1 + length ys) (mul_rows ?r op1 1 ys) = mul_rows ?r op1 1 ys"
    using L l assms(1) op2 by (intro take_all) simp
  have "mp_val (mul_rows ?r op1 1 ys) = mp_val op1 * mp_val op2"
    using R unfolding T H by (simp add: op2 distrib_left mult.left_commute)
  with L l show ?thesis using op2 m by (simp add: js_mp_mul_basecase_def)
qed

lemma sub_mul1_arith:
  fixes z P t h m l :: nat
  assumes t: "t = (if P \<le> z then z - P else z + 18446744073709551616 - P)"
    and z: "z < B32" and P: "P \<le> 18446744069414584320"
    and th: "m + B32 * h = t" and m: "m < B32"
    and l: "l = (if h = 0 then 0 else B32 - h)"
  shows "m + P = z + B32 * l"
proof (cases "P \<le> z")
  case True
  then have "t < B32" using t z by simp
  then have "h = 0" using th by (cases h) simp_all
  with True t th l show ?thesis by simp
next
  case False
  then have e: "t + P = z + 18446744073709551616" using t P by simp
  then have "B32 \<le> t" using P by linarith
  then have h: "h \<noteq> 0" using th m by (cases h) simp_all
  have "t < 18446744073709551616" using e False by linarith
  then have "h < B32" using th by linarith
  then have "B32 * l + B32 * h = 18446744073709551616" using l h by simp
  with e th show ?thesis by linarith
qed

lemma sub_mul1_step:
  assumes t: "t = ucast (z :: u32) - (ucast (x :: u32) :: u64) * ucast (b :: u32) - ucast (l :: u32)"
    and l1: "l1 = (ucast (- drop_bit 32 t) :: u32)"
  shows "unat (ucast t :: u32) + (unat x * unat b + unat l) = unat z + B32 * unat l1"
proof (rule sub_mul1_arith)
  obtain w :: u64 where w: "w = ucast x * ucast b + ucast l" by simp
  have "t = ucast z - w" by (simp add: t w)
  moreover have "unat w = unat x * unat b + unat l" by (simp only: w unat_mac1)
  ultimately show "unat t = (if unat x * unat b + unat l \<le> unat z then unat z - (unat x * unat b + unat l)
      else unat z + 18446744073709551616 - (unat x * unat b + unat l))"
    by (simp add: unat_sub_if')
  show "unat (ucast t :: u32) + B32 * (unat t div B32) = unat t"
    by (simp only: limb_lo mod_mult_div_eq)
  show "unat x * unat b + unat l \<le> 18446744069414584320"
    using limb_mult_bound[of x b] unat_le_u32[of l] by (simp del: unat_le_u32)
  have hi: "unat (drop_bit 32 t) = unat t div B32" by (simp add: unat_drop_bit)
  have hB: "unat t div B32 < B32" using unat_lt_u64[of t] by (simp add: div_less_iff_less_mult)
  show "unat l1 = (if unat t div B32 = 0 then 0 else B32 - unat t div B32)"
  proof (cases "drop_bit 32 t = 0")
    case True
    then show ?thesis using hi by (simp add: l1)
  next
    case False
    then have h: "unat t div B32 \<noteq> 0" using hi by (metis unat_eq_zero)
    have "unat (- drop_bit 32 t) = 18446744073709551616 - unat t div B32"
      using unat_sub_if'[of 0 "drop_bit 32 t"] h unfolding hi by simp
    then have "unat l1 = (18446744073709551616 - unat t div B32) mod B32"
      by (simp only: l1 limb_lo)
    also have "18446744073709551616 - unat t div B32 = (B32 - unat t div B32) + 4294967295 * B32"
      using hB by simp
    also have "\<dots> mod B32 = B32 - unat t div B32"
      using h by (simp only: mod_mult_self1 mod_less diff_less)
    finally show ?thesis using h by simp
  qed
qed simp_all

lemma js_mp_sub_mul1_loop_val:
  assumes "js_mp_sub_mul1_loop tabr taba b l = (res, l')" and "length tabr = length taba"
  shows "mp_val res + mp_val taba * unat b + unat l = mp_val tabr + B32 ^ length taba * unat l'
    \<and> length res = length taba"
  using assms(2,1)
proof (induction tabr taba arbitrary: l res l' rule: list_induct2)
  case (Cons z tabr x taba)
  obtain t where t: "t = ucast z - (ucast x :: u64) * ucast b - ucast l" by simp
  obtain l1 :: u32 where l1: "l1 = ucast (- drop_bit 32 t)" by simp
  obtain res1 l2 where r1: "js_mp_sub_mul1_loop tabr taba b l1 = (res1, l2)" by fastforce
  have r: "res = ucast t # res1" "l' = l2"
    using Cons.prems r1 by (simp_all add: Let_def l1 t)
  from Cons.IH[OF r1]
  have IH: "mp_val res1 + mp_val taba * unat b + unat l1 = mp_val tabr + B32 ^ length taba * unat l2"
    and k: "length res1 = length taba" by auto
  from sub_mul1_step[OF t l1] arg_cong[OF IH, of "(*) B32"] k show ?case
    by (simp add: r distrib_left distrib_right mult.assoc)
qed simp

lemma js_mp_sub_mul1_val:
  assumes "js_mp_sub_mul1 tabr taba b = (res, l)" and "length tabr = length taba"
  shows "mp_val res + mp_val taba * unat b = mp_val tabr + B32 ^ length taba * unat l
    \<and> length res = length taba"
  using js_mp_sub_mul1_loop_val[of tabr taba b 0 res l] assms by (simp add: js_mp_sub_mul1_def)

lemma pow32_split: "s \<le> 32 \<Longrightarrow> 2 ^ (32 - s) * 2 ^ s = (B32 :: nat)"
  by (simp flip: power_add)

lemma unat_push_bit_u32: "unat (push_bit n w :: u32) = unat w * 2 ^ n mod B32"
  by (simp add: unat_push_bit)

lemma pow32_mod: "s \<le> 32 \<Longrightarrow> n * 2 ^ (32 - s) mod B32 = (n mod 2 ^ s) * 2 ^ (32 - s)" for n :: nat
  using mod_mult_mult2[of n "2 ^ (32 - s)" "2 ^ s"] pow32_split[of s]
  by (simp only: mult.commute[of "2 ^ s"])

lemma shl_step:
  assumes s: "s < 32" and l: "unat (l :: u32) < 2 ^ s"
  shows "unat (push_bit s v OR l) + B32 * unat (drop_bit (32 - s) v) = unat v * 2 ^ s + unat l"
    and "unat (drop_bit (32 - s) v :: u32) < 2 ^ s"
proof -
  let ?m = "unat v mod 2 ^ (32 - s)" and ?d = "unat v div 2 ^ (32 - s)"
  have "unat (push_bit s v) = ?m * 2 ^ s"
    using pow32_mod[of "32 - s" "unat v"] s by (simp add: unat_push_bit_u32)
  then have "unat (push_bit s v OR l) = ?m * 2 ^ s + unat l"
    using nat_or_add[OF l, of ?m] by (simp add: unsigned_or_eq)
  moreover have "?m * 2 ^ s + B32 * ?d = unat v * 2 ^ s"
  proof -
    have "?m * 2 ^ s + B32 * ?d = (?m + 2 ^ (32 - s) * ?d) * 2 ^ s"
    proof -
      have "B32 * ?d = 2 ^ (32 - s) * ?d * 2 ^ s"
        using s by (subst pow32_split[of s, symmetric]) (simp_all only: ac_simps less_imp_le_nat)
      then show ?thesis by (simp only: distrib_right)
    qed
    then show ?thesis by (simp only: mod_mult_div_eq)
  qed
  ultimately show "unat (push_bit s v OR l) + B32 * unat (drop_bit (32 - s) v) = unat v * 2 ^ s + unat l"
    by (simp add: unat_drop_bit)
  have "unat v < 2 ^ s * 2 ^ (32 - s)"
    using pow32_split[of s] s by (simp add: mult.commute)
  then show "unat (drop_bit (32 - s) v :: u32) < 2 ^ s"
    by (simp only: unat_drop_bit div_less_iff_less_mult zero_less_power zero_less_numeral)
qed

lemma js_mp_shl_loop_val:
  assumes "js_mp_shl_loop taba s l = (res, h)" and "s < 32" and "unat l < 2 ^ s"
  shows "mp_val res + B32 ^ length taba * unat h = mp_val taba * 2 ^ s + unat l
    \<and> length res = length taba \<and> unat h < 2 ^ s"
  using assms
proof (induction taba arbitrary: l res h)
  case (Cons v taba)
  obtain l1 where l1: "l1 = drop_bit (32 - s) v" by simp
  obtain res1 h1 where r1: "js_mp_shl_loop taba s l1 = (res1, h1)" by fastforce
  have r: "res = (push_bit s v OR l) # res1" "h = h1"
    using Cons.prems(1) r1 by (simp_all add: l1)
  note A = shl_step[OF Cons.prems(2,3), of v, folded l1]
  from Cons.IH[OF r1 Cons.prems(2) A(2)]
  have IH: "mp_val res1 + B32 ^ length taba * unat h1 = mp_val taba * 2 ^ s + unat l1"
    and k: "length res1 = length taba" "unat h1 < 2 ^ s" by auto
  from arg_cong[OF IH, of "(*) B32"] A(1) k show ?case
    by (simp add: r distrib_left distrib_right mult.assoc)
qed simp

lemma js_mp_shl_val:
  assumes "js_mp_shl taba s = (res, h)" and "s < 32"
  shows "mp_val res + B32 ^ length taba * unat h = mp_val taba * 2 ^ s
    \<and> length res = length taba \<and> unat h < 2 ^ s"
  using js_mp_shl_loop_val[of taba s 0 res h] assms by (simp add: js_mp_shl_def)

lemma shr_step:
  assumes s: "1 \<le> s" "s < 32"
  shows "unat (drop_bit s a OR push_bit (32 - s) (l :: u32)) * 2 ^ s + unat a mod 2 ^ s
    = unat a + B32 * (unat l mod 2 ^ s)"
proof -
  have "unat a div 2 ^ s < 2 ^ (32 - s)"
    using pow32_split[of s] s by (simp add: div_less_iff_less_mult)
  moreover have "unat (push_bit (32 - s) l) = (unat l mod 2 ^ s) * 2 ^ (32 - s)"
    unfolding unat_push_bit_u32 by (rule pow32_mod) (use s in simp_all)
  ultimately have "unat (drop_bit s a OR push_bit (32 - s) l)
      = (unat l mod 2 ^ s) * 2 ^ (32 - s) + unat a div 2 ^ s"
    using nat_or_add[of "unat a div 2 ^ s" "32 - s" "unat l mod 2 ^ s"]
    by (simp add: unsigned_or_eq unat_drop_bit or.commute)
  moreover have "(unat l mod 2 ^ s) * 2 ^ (32 - s) * 2 ^ s = B32 * (unat l mod 2 ^ s)"
    using pow32_split[of s] s by (simp add: mult.assoc)
  moreover have "unat a div 2 ^ s * 2 ^ s + unat a mod 2 ^ s = unat a"
    by (rule div_mult_mod_eq)
  ultimately show ?thesis
    by (simp only: distrib_right)
qed

lemma js_mp_shr_loop_val:
  assumes "js_mp_shr_loop tab s high = (res, l)" and "1 \<le> s" "s < 32"
  shows "mp_val res * 2 ^ s + unat l mod 2 ^ s = mp_val tab + B32 ^ length tab * (unat high mod 2 ^ s)
    \<and> length res = length tab"
  using assms
proof (induction tab arbitrary: res l)
  case (Cons a tab)
  obtain res1 l1 where r1: "js_mp_shr_loop tab s high = (res1, l1)" by fastforce
  have r: "res = (drop_bit s a OR push_bit (32 - s) l1) # res1" "l = a"
    using Cons.prems(1) r1 by auto
  from Cons.IH[OF r1 Cons.prems(2,3)]
  have IH: "mp_val res1 * 2 ^ s + unat l1 mod 2 ^ s
      = mp_val tab + B32 ^ length tab * (unat high mod 2 ^ s)"
    and k: "length res1 = length tab" by auto
  from arg_cong[OF IH, of "(*) B32"] shr_step[OF Cons.prems(2,3), of a l1] k show ?case
    by (simp add: r distrib_left distrib_right mult.assoc)
qed simp

lemma js_mp_shr_val:
  assumes "js_mp_shr tab s high = (res, r)" and "1 \<le> s" "s < 32"
  shows "mp_val res * 2 ^ s + unat r = mp_val tab + B32 ^ length tab * (unat high mod 2 ^ s)
    \<and> length res = length tab \<and> unat r < 2 ^ s"
proof -
  obtain l where l: "js_mp_shr_loop tab s high = (res, l)" and r: "r = l AND (push_bit s 1 - 1)"
    using assms(1) by (auto simp: js_mp_shr_def split: prod.splits)
  have "r = l AND mask s" by (simp add: r mask_eq_exp_minus_1 push_bit_eq_mult)
  then have "r = take_bit s l" by (simp add: take_bit_eq_mask)
  then have "unat r = unat l mod 2 ^ s" by (simp only: unsigned_take_bit_eq) (simp add: take_bit_eq_mod)
  with js_mp_shr_loop_val[OF l assms(2,3)] show ?thesis by simp
qed

end
