(* ===== verification/Limb_Div.thy ===== *)
theory Limb_Div
  imports Limbs
begin

text \<open>
  Division of limb arrays (\<open>js_udiv1norm_init\<close>, \<open>js_udiv1norm\<close>, \<open>js_mp_div1norm\<close>,
  \<open>js_mp_divnorm\<close> of \<open>quickjs.c\<close>): one limb by multiplication with a precomputed inverse, and
  schoolbook long division with a quotient digit estimated from the top limbs and corrected by
  adding the divisor back. The correction loop is a \<open>for(;;)\<close> of the C code; it is
  \<open>add_back\<close>, where \<open>None\<close> is a loop that does not end.
\<close>

section \<open>One limb\<close>

definition js_udiv1norm_init :: "js_limb_t \<Rightarrow> js_limb_t" where
  "js_udiv1norm_init d =
     (let a1 = - d - 1; a0 = - 1 :: js_limb_t
      in ucast ((push_bit 32 (ucast a1 :: js_dlimb_t) OR ucast a0) div ucast d))"

definition js_udiv1norm ::
  "js_limb_t \<Rightarrow> js_limb_t \<Rightarrow> js_limb_t \<Rightarrow> js_limb_t \<Rightarrow> js_limb_t \<times> js_limb_t" where
  "js_udiv1norm a1 a0 d d_inv =
     (let n1m = signed_drop_bit 31 a0;
          n_adj = a0 + (n1m AND d);
          a = (ucast d_inv :: js_dlimb_t) * ucast (a1 - n1m) + ucast n_adj;
          q = ucast (drop_bit 32 a + ucast a1) :: js_limb_t;
          a = push_bit 32 (ucast a1 :: js_dlimb_t) OR ucast a0;
          a = a - (ucast q :: js_dlimb_t) * ucast d - ucast d;
          ah = ucast (drop_bit 32 a) :: js_limb_t;
          q = q + (1 + ah);
          r = ucast a + (ah AND d)
      in (q, r))"

lemma udiv1norm_init_arith:
  fixes d :: nat
  assumes "B32 \<le> 2 * d" "d < B32"
  shows "((B32 - 1 - d) * B32 + 4294967295) div d + B32 = 18446744073709551615 div d"
proof -
  have e: "(B32 - 1 - d) * B32 + 4294967295 + B32 * d = 18446744073709551615"
    using assms by (simp add: diff_mult_distrib)
  have "d \<noteq> 0" using assms by auto
  then have "((B32 - 1 - d) * B32 + 4294967295 + B32 * d) div d
      = B32 + ((B32 - 1 - d) * B32 + 4294967295) div d" by (rule div_mult_self1)
  then show ?thesis unfolding e by (simp only: add.commute)
qed

lemma udiv_estimate_int:
  fixes B d a1 a0 m q s :: int
  assumes d: "B \<le> 2 * d" "d < B" and a: "0 \<le> a1" "a1 < d" "0 \<le> a0" "a0 < B"
    and m: "(m + B) * d < B * B" "B * B \<le> (m + B) * d + d"
    and lo: "2 * a0 < B \<Longrightarrow> q * B \<le> a1 * B + m * a1 + a0 \<and> a1 * B + m * a1 + a0 < (q + 1) * B"
    and hi: "B \<le> 2 * a0 \<Longrightarrow> q * B \<le> a1 * B + m * (a1 + 1) + (a0 + d - B)
      \<and> a1 * B + m * (a1 + 1) + (a0 + d - B) < (q + 1) * B"
  shows "q * d \<le> a1 * B + a0" and "a1 * B + a0 < q * d + 2 * d"
proof -
  define k where "k = B * B - (m + B) * d"
  have k: "1 \<le> k" "k \<le> d" and md: "(m + B) * d = B * B - k" using m by (auto simp: k_def)
  have d0: "0 < d" "0 < B" using a d by auto
  have "q * d * B \<le> (a1 * B + a0) * B \<and> (a1 * B + a0) * B < (q * d + 2 * d) * B"
  proof (cases "2 * a0 < B")
    case True
    note lo = lo[OF this]
    have "q * B * d \<le> (a1 * B + m * a1 + a0) * d" using lo d0 by (intro mult_right_mono) auto
    also have "\<dots> = a1 * ((m + B) * d) + a0 * d" by (simp add: algebra_simps)
    also have "\<dots> = a1 * B * B - a1 * k + a0 * d" by (simp only: md) (simp add: algebra_simps)
    also have "\<dots> \<le> a1 * B * B + a0 * B"
    proof -
      have "0 \<le> a1 * k" "a0 * d \<le> a0 * B" using a k d by (auto intro: mult_left_mono)
      then show ?thesis by linarith
    qed
    finally have 1: "q * d * B \<le> (a1 * B + a0) * B" by (simp add: algebra_simps)
    have "(a1 * B + m * a1 + a0) * d < (q + 1) * B * d" using lo d0 by (intro mult_strict_right_mono) auto
    moreover have "(a1 * B + m * a1 + a0) * d = a1 * B * B - a1 * k + a0 * d"
    proof -
      have "(a1 * B + m * a1 + a0) * d = a1 * ((m + B) * d) + a0 * d" by (simp add: algebra_simps)
      then show ?thesis by (simp only: md) (simp add: algebra_simps)
    qed
    moreover have "a0 * (B - d) \<le> d * (B - d)" using True d a by (intro mult_right_mono) auto
    moreover have "a1 * k \<le> (d - 1) * d" using a k by (intro mult_mono) auto
    ultimately have "(a1 * B + a0) * B < (q * d + 2 * d) * B"
      using d0 by (simp add: algebra_simps)
    with 1 show ?thesis ..
  next
    case False
    then have False: "B \<le> 2 * a0" by simp
    note hi = hi[OF this]
    have E: "(a1 * B + m * (a1 + 1) + (a0 + d - B)) * d
        = (a1 + 1) * B * B - (a1 + 1) * k + a0 * d + d * d - 2 * B * d"
    proof -
      have "(a1 * B + m * (a1 + 1) + (a0 + d - B)) * d
          = (a1 + 1) * ((m + B) * d) + a0 * d + d * d - 2 * B * d" by (simp add: algebra_simps)
      then show ?thesis by (simp only: md) (simp add: algebra_simps)
    qed
    have "q * B * d \<le> (a1 * B + m * (a1 + 1) + (a0 + d - B)) * d"
      using hi d0 by (intro mult_right_mono) auto
    moreover have "(B - d) * (B - d) \<le> a0 * (B - d)" using False d by (intro mult_right_mono) auto
    moreover have "0 \<le> (a1 + 1) * k" using a k by simp
    ultimately have 1: "q * d * B \<le> (a1 * B + a0) * B"
      unfolding E by (simp add: algebra_simps)
    have "(a1 * B + m * (a1 + 1) + (a0 + d - B)) * d < (q + 1) * B * d"
      using hi d0 by (intro mult_strict_right_mono) auto
    moreover have "(a1 + 1) * k \<le> d * d" using a k by (intro mult_mono) auto
    moreover have "a0 * (B - d) \<le> (B - 1) * (B - d)" using a d by (intro mult_right_mono) auto
    ultimately have "(a1 * B + a0) * B < (q * d + 2 * d) * B"
      unfolding E using d0 d by (simp add: algebra_simps)
    with 1 show ?thesis ..
  qed
  with d0 show "q * d \<le> a1 * B + a0" "a1 * B + a0 < q * d + 2 * d" by simp_all
qed

lemma udiv_estimate:
  fixes B d a1 a0 m q s :: nat
  assumes d: "B \<le> 2 * d" "d < B" and a: "a1 < d" "a0 < B"
    and m: "(m + B) * d < B * B" "B * B \<le> (m + B) * d + d"
    and lo: "2 * a0 < B \<Longrightarrow> q * B \<le> a1 * B + m * a1 + a0 \<and> a1 * B + m * a1 + a0 < (q + 1) * B"
    and hi: "B \<le> 2 * a0 \<Longrightarrow> (q + 1) * B \<le> a1 * B + m * (a1 + 1) + (a0 + d)
      \<and> a1 * B + m * (a1 + 1) + (a0 + d) < (q + 2) * B"
  shows "q * d \<le> a1 * B + a0 \<and> a1 * B + a0 < q * d + 2 * d"
proof -
  have m': "(int m + int B) * int d < int B * int B" "int B * int B \<le> (int m + int B) * int d + int d"
    using m by (simp_all flip: of_nat_mult of_nat_add)
  have lo': "int q * int B \<le> int a1 * int B + int m * int a1 + int a0 \<and>
      int a1 * int B + int m * int a1 + int a0 < (int q + 1) * int B" if "2 * int a0 < int B"
  proof -
    have "2 * a0 < B" using that by linarith
    note h = lo[OF this]
    have "int (q * B) \<le> int (a1 * B + m * a1 + a0)" "int (a1 * B + m * a1 + a0) < int ((q + 1) * B)"
      using h by (simp_all only: of_nat_le_iff of_nat_less_iff)
    then show ?thesis by (simp add: algebra_simps)
  qed
  have hi': "int q * int B \<le> int a1 * int B + int m * (int a1 + 1) + (int a0 + int d - int B) \<and>
      int a1 * int B + int m * (int a1 + 1) + (int a0 + int d - int B) < (int q + 1) * int B"
    if "int B \<le> 2 * int a0"
  proof -
    have "B \<le> 2 * a0" using that by linarith
    note h = hi[OF this]
    have "int ((q + 1) * B) \<le> int (a1 * B + m * (a1 + 1) + (a0 + d))"
      "int (a1 * B + m * (a1 + 1) + (a0 + d)) < int ((q + 2) * B)"
      using h by (simp_all only: of_nat_le_iff of_nat_less_iff)
    then show ?thesis by (simp add: algebra_simps)
  qed
  have "int q * int d \<le> int a1 * int B + int a0" "int a1 * int B + int a0 < int q * int d + 2 * int d"
    using udiv_estimate_int[OF _ _ _ _ _ _ m' lo' hi'] d a by simp_all
  then have "int (q * d) \<le> int (a1 * B + a0)" "int (a1 * B + a0) < int (q * d + 2 * d)"
    by simp_all
  then show ?thesis by (simp only: of_nat_le_iff of_nat_less_iff)
qed

lemma js_udiv1norm_init_unat:
  assumes d: "B32 \<le> 2 * unat d"
  shows "unat (js_udiv1norm_init d) + B32 = 18446744073709551615 div unat d"
proof -
  have a1: "- d - 1 = NOT d" by (simp add: not_eq_complement)
  have m1: "unat (- 1 :: u32) = 4294967295"
    by (simp add: unsigned_minus_1_eq_mask mask_eq_exp_minus_1)
  let ?n = "push_bit 32 (ucast (NOT d) :: u64) OR ucast (- 1 :: u32)"
  have n: "unat ?n = (B32 - 1 - unat d) * B32 + 4294967295"
    unfolding unat_join unat_NOT_u32 m1 ..
  have "18446744073709551615 div unat d < 2 * B32"
    using d by (subst div_less_iff_less_mult) auto
  then have "unat ?n div unat d < B32"
    using udiv1norm_init_arith[OF d unat_less_B32] unfolding n by linarith
  then have "unat (ucast (?n div ucast d) :: u32) = unat ?n div unat d"
    by (simp only: limb_lo unat_div_distrib unat_ucast_dlimb mod_less)
  then have "unat (js_udiv1norm_init d) = unat ?n div unat d"
    by (simp only: js_udiv1norm_init_def Let_def a1)
  then show ?thesis
    using udiv1norm_init_arith[OF d unat_less_B32] unfolding n by simp
qed

lemma bit_31_iff: "bit (a :: u32) 31 \<longleftrightarrow> B32 \<le> 2 * unat a"
proof -
  have "bit a 31 \<longleftrightarrow> odd (unat a div 2 ^ 31)"
    using bit_iff_odd[of "unat a" 31] by (simp add: bit_unsigned_iff del: bit_iff_odd)
  moreover have "unat a div 2 ^ 31 < 2"
    by (simp add: div_less_iff_less_mult)
  moreover have "odd n \<longleftrightarrow> 1 \<le> n" if "n < 2" for n :: nat
    using that by (auto simp: less_2_cases_iff)
  ultimately have "bit a 31 \<longleftrightarrow> 1 \<le> unat a div 2 ^ 31" by simp
  then show ?thesis
    by (auto simp: less_eq_div_iff_mult_less_eq)
qed

lemma sign_mask_u32:
  "signed_drop_bit 31 (a :: u32) = (if B32 \<le> 2 * unat a then - 1 else 0)"
  by (rule bit_word_eqI) (auto simp: bit_signed_drop_bit_iff bit_31_iff[symmetric] Suc_le_eq)

lemma udiv1norm_fix:
  fixes a1 a0 d q :: u32
  assumes q: "unat q * unat d \<le> unat a1 * B32 + unat a0"
      "unat a1 * B32 + unat a0 < unat q * unat d + 2 * unat d"
    and n: "n = (push_bit 32 (ucast a1 :: u64) OR ucast a0) - (ucast q :: u64) * ucast d - ucast d"
    and ah: "ah = (ucast (drop_bit 32 n) :: u32)"
    and q': "q' = q + (1 + ah)" and r': "r' = ucast n + (ah AND d :: u32)"
    and a1: "unat a1 < unat d"
  shows "unat q' = (unat a1 * B32 + unat a0) div unat d
    \<and> unat r' = (unat a1 * B32 + unat a0) mod unat d"
proof -
  obtain N where N: "N = unat a1 * B32 + unat a0" by simp
  obtain w :: u64 where w: "w = ucast q * ucast d + ucast d" by simp
  have "n = (push_bit 32 (ucast a1 :: u64) OR ucast a0) - w" by (simp add: n w)
  moreover have "unat w = unat q * unat d + unat d" by (simp only: w unat_mac1)
  ultimately have un: "unat n = (if unat q * unat d + unat d \<le> N then N - (unat q * unat d + unat d)
      else N + 18446744073709551616 - (unat q * unat d + unat d))"
    by (simp add: unat_sub_if' unat_join N)
  have NB: "N < unat d * B32"
  proof -
    have "N < Suc (unat a1) * B32" by (simp add: N)
    also have "\<dots> \<le> unat d * B32" using a1 by (intro mult_right_mono) simp_all
    finally show ?thesis .
  qed
  note hi = limb_hi[of n, folded ah]
  have dB: "unat d < B32" by simp
  have goal: "unat q' * unat d + unat r' = N \<and> unat r' < unat d"
  proof (cases "unat q * unat d + unat d \<le> N")
    case True
    then have n1: "unat n = N - (unat q * unat d + unat d)" using un by simp
    then have nd: "unat n < unat d" using q True unfolding N[symmetric] by linarith
    then have "unat n < B32" using dB by linarith
    then have "unat ah = 0" unfolding hi by simp
    then have "ah = 0" by (simp add: unat_eq_zero)
    moreover have "unat q + 1 < B32"
    proof -
      have "unat q * unat d + unat d < B32 * unat d" using True NB by (simp only: mult.commute[of B32])
      then have "(unat q + 1) * unat d < B32 * unat d" by (simp only: distrib_right mult_1)
      then show ?thesis by (metis mult_less_cancel2)
    qed
    ultimately have "unat q' = unat q + 1" "unat r' = unat n"
      using \<open>unat n < B32\<close> by (simp_all add: q' r' unat_add_u32 limb_lo)
    then show ?thesis using n1 True nd by simp
  next
    case False
    obtain e where e_def: "e = unat q * unat d + unat d - N" by simp
    have n1: "unat n = 18446744073709551616 - e" using un False by (simp add: e_def)
    have e: "1 \<le> e" "e \<le> unat d" and eN: "N + e = unat q * unat d + unat d"
      using False q(1) unfolding N[symmetric] e_def by linarith+
    have n2: "unat n = (B32 - e) + 4294967295 * B32"
      using n1 le_trans[OF e(2) unat_le_u32] by simp
    have "unat n div B32 = 4294967295"
      unfolding n2 by (subst div_mult_self1) (use e in simp_all)
    then have "unat ah = unat (- 1 :: u32)"
      unfolding hi by (simp add: unsigned_minus_1_eq_mask mask_eq_exp_minus_1)
    then have "ah = - 1" by (simp only: word_unat_eq_iff)
    have "unat n mod B32 = B32 - e"
      unfolding n2 using e by (simp only: mod_mult_self1) simp
    then have "unat r' = unat d - e"
      using e dB by (simp add: r' \<open>ah = - 1\<close> unat_add_u32 limb_lo del: unat_less_B32 unat_lt_u32 unat_u32_less)
    moreover have "q' = q" by (simp add: q' \<open>ah = - 1\<close>)
    ultimately show ?thesis using e eN by simp
  qed
  then have eq: "N = unat r' + unat q' * unat d" and lt: "unat r' < unat d" by simp_all
  have "N div unat d = unat q'" "N mod unat d = unat r'" unfolding eq using lt by simp_all
  then show ?thesis unfolding N by simp
qed

lemma js_udiv1norm_val:
  assumes "js_udiv1norm a1 a0 d (js_udiv1norm_init d) = (q', r')"
    and d: "B32 \<le> 2 * unat d" and a1: "a1 < d"
  shows "unat q' = (unat a1 * B32 + unat a0) div unat d
    \<and> unat r' = (unat a1 * B32 + unat a0) mod unat d"
proof -
  let ?m = "unat (js_udiv1norm_init d)"
  define n1m where "n1m = signed_drop_bit 31 a0"
  define n_adj where "n_adj = a0 + (n1m AND d)"
  define a where "a = (ucast (js_udiv1norm_init d) :: u64) * ucast (a1 - n1m) + ucast n_adj"
  define q where "q = (ucast (drop_bit 32 a + ucast a1) :: u32)"
  have a1: "unat a1 < unat d" using a1 by (simp add: word_less_nat_alt)
  have m: "(?m + B32) * unat d < B32 * B32" "B32 * B32 \<le> (?m + B32) * unat d + unat d"
  proof -
    have "18446744073709551615 div unat d * unat d \<le> 18446744073709551615"
      by (rule div_times_less_eq_dividend)
    then show "(?m + B32) * unat d < B32 * B32" unfolding js_udiv1norm_init_unat[OF d] by linarith
    have "18446744073709551615 < unat d + 18446744073709551615 div unat d * unat d"
      using a1 by (intro dividend_less_div_times) simp
    then show "B32 * B32 \<le> (?m + B32) * unat d + unat d"
      unfolding js_udiv1norm_init_unat[OF d] by simp
  qed
  have ua: "unat a = (if B32 \<le> 2 * unat a0 then ?m * (unat a1 + 1) + (unat a0 + unat d - B32)
      else ?m * unat a1 + unat a0)"
  proof (cases "B32 \<le> 2 * unat a0")
    case True
    have "unat (a1 - n1m) = unat a1 + 1"
      using True a1 less_le_trans[OF a1 unat_le_u32]
      by (simp add: n1m_def sign_mask_u32 unat_add_u32)
    moreover have "unat n_adj = unat a0 + unat d - B32"
      using True d by (simp add: n_adj_def n1m_def sign_mask_u32 unat_add_u32)
    ultimately show ?thesis using True by (simp add: a_def unat_mac1)
  next
    case False
    then show ?thesis by (simp add: a_def n_adj_def n1m_def sign_mask_u32 unat_mac1)
  qed
  let ?q = "unat a div B32 + unat a1"
  have qb: "?q * B32 \<le> unat a + unat a1 * B32" "unat a + unat a1 * B32 < (?q + 1) * B32"
    using div_mult_mod_eq[of "unat a" B32] mod_less_divisor[of B32 "unat a"]
    by (simp_all add: distrib_right)
  have "?q * unat d \<le> unat a1 * B32 + unat a0 \<and>
      unat a1 * B32 + unat a0 < ?q * unat d + 2 * unat d"
  proof (rule udiv_estimate[OF d unat_less_B32 a1 unat_less_B32 m])
    assume "2 * unat a0 < B32"
    with ua have "unat a = ?m * unat a1 + unat a0" by simp
    with qb show "?q * B32 \<le> unat a1 * B32 + ?m * unat a1 + unat a0 \<and>
      unat a1 * B32 + ?m * unat a1 + unat a0 < (?q + 1) * B32" by linarith
  next
    assume "B32 \<le> 2 * unat a0"
    with ua d have "unat a + B32 = ?m * (unat a1 + 1) + (unat a0 + unat d)" by simp
    from this[unfolded distrib_left] qb[unfolded distrib_right] show "(?q + 1) * B32 \<le> unat a1 * B32 + ?m * (unat a1 + 1) + (unat a0 + unat d) \<and>
      unat a1 * B32 + ?m * (unat a1 + 1) + (unat a0 + unat d) < (?q + 2) * B32"
      unfolding distrib_left distrib_right by (intro conjI; simp)
  qed
  then have est: "?q * unat d \<le> unat a1 * B32 + unat a0"
    "unat a1 * B32 + unat a0 < ?q * unat d + 2 * unat d" by blast+
  have "unat a1 * B32 + unat a0 < Suc (unat a1) * B32" by simp
  also have "\<dots> \<le> unat d * B32" using a1 by (intro mult_right_mono) simp_all
  finally have "?q * unat d < B32 * unat d" using est(1) by (simp only: mult.commute)
  then have "?q < B32" by (metis mult_less_cancel2)
  then have uq: "unat q = ?q"
    by (simp add: q_def limb_lo unat_word_ariths unat_drop_bit)
  have "js_udiv1norm a1 a0 d (js_udiv1norm_init d)
    = (let n = (push_bit 32 (ucast a1 :: u64) OR ucast a0) - (ucast q :: u64) * ucast d - ucast d;
           ah = (ucast (drop_bit 32 n) :: u32)
       in (q + (1 + ah), ucast n + (ah AND d)))"
    by (simp only: js_udiv1norm_def Let_def n1m_def[symmetric] n_adj_def[symmetric] a_def[symmetric] q_def[symmetric])
  with assms(1) show ?thesis
    using udiv1norm_fix[of q d a1 a0, unfolded uq, OF est refl refl refl refl a1]
    by (simp add: Let_def)
qed

section \<open>Several limbs\<close>

definition UDIV1NORM_THRESHOLD :: nat where "UDIV1NORM_THRESHOLD = 3"

fun div1norm_inv_loop ::
  "js_limb_t list \<Rightarrow> js_limb_t \<Rightarrow> js_limb_t \<Rightarrow> js_limb_t \<Rightarrow> js_limb_t list \<times> js_limb_t" where
  "div1norm_inv_loop (x # taba) b b_inv r =
     (let (res, r) = div1norm_inv_loop taba b b_inv r; (q, r) = js_udiv1norm r x b b_inv
      in (q # res, r))"
| "div1norm_inv_loop [] b b_inv r = ([], r)"

text \<open>The short case is the loop of \<open>js_mp_div1\<close>.\<close>

definition js_mp_div1norm ::
  "js_limb_t list \<Rightarrow> js_limb_t \<Rightarrow> js_limb_t \<Rightarrow> js_limb_t list \<times> js_limb_t" where
  "js_mp_div1norm taba b r =
     (if length taba \<ge> UDIV1NORM_THRESHOLD
      then div1norm_inv_loop taba b (js_udiv1norm_init b) r
      else js_mp_div1 taba b r)"

text \<open>The first quotient digit, from the operands with their most significant limbs first.\<close>

fun first_quotient :: "js_limb_t list \<Rightarrow> js_limb_t list \<Rightarrow> js_limb_t" where
  "first_quotient (x # xs) (y # ys) =
     (if x \<noteq> y then (if x < y then 0 else 1) else first_quotient xs ys)"
| "first_quotient _ _ = 1"

definition estimate_quotient ::
  "js_limb_t \<Rightarrow> js_limb_t \<Rightarrow> js_limb_t \<Rightarrow> js_limb_t \<Rightarrow> js_limb_t" where
  "estimate_quotient hi next b1 b1_inv =
     (if hi \<ge> b1 then - 1
      else if b1_inv \<noteq> 0 then fst (js_udiv1norm hi next b1 b1_inv)
      else ucast ((push_bit 32 (ucast hi :: js_dlimb_t) OR ucast next) div ucast b1))"

partial_function (option) add_back ::
  "js_limb_t list \<Rightarrow> js_limb_t list \<Rightarrow> js_limb_t \<Rightarrow> js_limb_t
    \<Rightarrow> (js_limb_t list \<times> js_limb_t \<times> js_limb_t) option" where
  "add_back seg tabb hi q =
     (let q = q - 1; (seg, c) = js_mp_add seg tabb 0
      in if c \<noteq> 0 then
           (let hi = hi + 1
            in if hi = 0 then Some (seg, hi, q) else add_back seg tabb hi q)
         else add_back seg tabb hi q)"

declare add_back.simps [code]

text \<open>One quotient digit at position \<open>i\<close>.\<close>

definition divnorm_step ::
  "nat \<Rightarrow> js_limb_t list \<Rightarrow> js_limb_t list \<Rightarrow> js_limb_t \<Rightarrow> js_limb_t
    \<Rightarrow> (js_limb_t \<times> js_limb_t list) option" where
  "divnorm_step i taba tabb b1 b1_inv =
     (let nb = length tabb;
          q = estimate_quotient (taba ! (i + nb)) (taba ! (i + nb - 1)) b1 b1_inv;
          (seg, r) = js_mp_sub_mul1 (take nb (drop i taba)) tabb q;
          v = taba ! (i + nb); a = v - r; c = (a > v)
      in do { (seg, a, q) \<leftarrow> (if c then add_back seg tabb a q else Some (seg, a, q));
              Some (q, blit taba i (seg @ [a])) })"

fun divnorm_loop ::
  "nat \<Rightarrow> js_limb_t list \<Rightarrow> js_limb_t list \<Rightarrow> js_limb_t \<Rightarrow> js_limb_t \<Rightarrow> js_limb_t list
    \<Rightarrow> (js_limb_t list \<times> js_limb_t list) option" where
  "divnorm_loop (Suc i) taba tabb b1 b1_inv tabq =
     do { (q, taba) \<leftarrow> divnorm_step i taba tabb b1 b1_inv;
          divnorm_loop i taba tabb b1 b1_inv (q # tabq) }"
| "divnorm_loop 0 taba tabb b1 b1_inv tabq = Some (tabq, taba)"

definition js_mp_divnorm ::
  "js_limb_t list \<Rightarrow> js_limb_t list \<Rightarrow> (js_limb_t list \<times> js_limb_t list) option" where
  "js_mp_divnorm taba tabb =
     (let nb = length tabb; b1 = tabb ! (nb - 1)
      in if nb = 1 then
           (let (tabq, r) = js_mp_div1norm taba b1 0 in Some (tabq, taba[0 := r]))
         else
           (let n = length taba - nb;
                b1_inv = (if n \<ge> UDIV1NORM_THRESHOLD then js_udiv1norm_init b1 else 0);
                q = first_quotient (rev (take nb (drop n taba))) (rev tabb);
                taba = (if q \<noteq> 0 then blit taba n (fst (js_mp_sub (take nb (drop n taba)) tabb 0))
                        else taba)
            in divnorm_loop n taba tabb b1 b1_inv [q]))"


lemma div1norm_inv_loop_val:
  assumes "div1norm_inv_loop taba b (js_udiv1norm_init b) r = (res, r')" and "r < b"
    and d: "B32 \<le> 2 * unat b"
  shows "mp_val res * unat b + unat r' = mp_val taba + B32 ^ length taba * unat r
    \<and> r' < b \<and> length res = length taba"
  using assms(1,2)
proof (induction taba arbitrary: res r')
  case (Cons x taba)
  obtain res1 r1 where r1: "div1norm_inv_loop taba b (js_udiv1norm_init b) r = (res1, r1)" by fastforce
  obtain q r2 where q: "js_udiv1norm r1 x b (js_udiv1norm_init b) = (q, r2)" by fastforce
  have r: "res = q # res1" "r' = r2" using Cons.prems r1 q by simp_all
  from Cons.IH[OF r1 Cons.prems(2)]
  have IH: "mp_val res1 * unat b + unat r1 = mp_val taba + B32 ^ length taba * unat r"
    and k: "length res1 = length taba" "r1 < b" by auto
  from js_udiv1norm_val[OF q d k(2)]
  have "unat q * unat b + unat r2 = unat r1 * B32 + unat x" by simp
  moreover have "r2 < b"
    using js_udiv1norm_val[OF q d k(2)] k(2) by (simp add: word_less_nat_alt)
  ultimately show ?case
    using arg_cong[OF IH, of "(*) B32"] k
    by (simp add: r distrib_left distrib_right mult.assoc mult.commute[of B32])
qed simp

lemma js_mp_div1norm_val:
  assumes "js_mp_div1norm taba b r = (res, r')" and "r < b" and "B32 \<le> 2 * unat b"
  shows "mp_val res * unat b + unat r' = mp_val taba + B32 ^ length taba * unat r
    \<and> r' < b \<and> length res = length taba"
  using assms div1norm_inv_loop_val[of taba b r res r'] js_mp_div1_val[of taba b r res r']
  by (auto simp: js_mp_div1norm_def split: if_splits)

text \<open>Comparing from the most significant limb compares the numbers.\<close>

lemma mp_val_snoc_less:
  assumes "length xs = length ys" and "x < (y :: u32)"
  shows "mp_val (xs @ [x]) < mp_val (ys @ [y])"
proof -
  have "mp_val (xs @ [x]) < B32 ^ length xs + B32 ^ length xs * unat x"
    using mp_val_bound[of xs] by simp
  also have "\<dots> = B32 ^ length xs * Suc (unat x)" by simp
  also have "\<dots> \<le> B32 ^ length xs * unat y"
    using assms(2) by (intro mult_left_mono) (simp_all add: word_less_nat_alt)
  also have "\<dots> \<le> mp_val (ys @ [y])" using assms(1) by simp
  finally show ?thesis .
qed

lemma first_quotient_rev:
  assumes "length xs = length ys"
  shows "first_quotient (rev xs) (rev ys) = (if mp_val xs < mp_val ys then 0 else 1)"
  using assms
proof (induction xs arbitrary: ys rule: rev_induct)
  case (snoc x xs)
  then obtain y ys1 where ys: "ys = ys1 @ [y]" "length ys1 = length xs"
    by (cases ys rule: rev_cases) auto
  consider "x < y" | "y < x" | "x = y" by fastforce
  then show ?case
  proof cases
    case 1
    with ys mp_val_snoc_less[of xs ys1 x y] show ?thesis by auto
  next
    case 2
    with ys mp_val_snoc_less[of ys1 xs y x] show ?thesis by auto
  next
    case 3
    with ys snoc.IH[of ys1] show ?thesis by simp
  qed
qed simp

text \<open>
  The state of \<open>add_back\<close> holds \<open>W - q * b\<close> modulo \<open>B32 ^ (nb + 1)\<close>: the loop ends when the
  sum passes zero, with the quotient and the remainder of \<open>W\<close> by \<open>b\<close>.
\<close>

lemma add_back_val:
  assumes "mp_val seg + B32 ^ length tabb * unat hi + unat q * mp_val tabb
      = W + B32 ^ Suc (length tabb)"
    and "length seg = length tabb" and "W div mp_val tabb < unat q" and "0 < mp_val tabb"
  shows "\<exists>seg' q'. add_back seg tabb hi q = Some (seg', 0, q') \<and> unat q' = W div mp_val tabb
    \<and> mp_val seg' = W mod mp_val tabb \<and> length seg' = length tabb"
  using assms(1-3)
proof (induction "unat q" arbitrary: q seg hi rule: less_induct)
  case less
  let ?n = "length tabb" and ?b = "mp_val tabb"
  have q0: "q \<noteq> 0" using less.prems(3) by auto
  then have q1: "unat (q - 1) = unat q - 1" "1 \<le> unat q"
    by (auto simp: unat_sub_u32 unat_eq_zero Suc_le_eq unat_gt_0)
  obtain seg1 c where s: "js_mp_add seg tabb 0 = (seg1, c)" by fastforce
  note A = js_mp_add_val[OF s less.prems(2)]
  have A1: "mp_val seg1 + B32 ^ ?n * unat c = mp_val seg + ?b" and c1: "unat c \<le> 1"
    and l1: "length seg1 = ?n" using A less.prems(2) by auto
  have hiB: "unat hi < B32" by simp
  let ?h = "unat hi + unat c"
  have qb: "unat q * ?b = (unat q - 1) * ?b + ?b" using q1 by (cases "unat q") simp_all
  have T: "mp_val seg1 + B32 ^ ?n * ?h + (unat q - 1) * ?b = W + B32 ^ Suc ?n"
    using A1 less.prems(1) qb by (simp add: distrib_left)
  show ?case
  proof (cases "?h = B32")
    case True
    then have "unat c = 1" "unat hi + 1 = B32" using c1 hiB by linarith+
    then have c: "c = 1" "hi + 1 = 0" by (simp_all add: word_unat_eq_iff unat_add_u32)
    have e: "mp_val seg1 + (unat q - 1) * ?b = W" using T True by simp
    have "mp_val seg1 < ?b"
    proof -
      have "mp_val seg < B32 ^ ?n" using mp_val_bound[of seg] less.prems(2) by simp
      moreover have "unat c = 1" using c by simp
      ultimately show ?thesis using A1 by simp
    qed
    then have "W div ?b = unat q - 1" "W mod ?b = mp_val seg1" unfolding e[symmetric] by simp_all
    then show ?thesis
      using c s l1 q1 by (subst add_back.simps) simp
  next
    case False
    then have h: "?h < B32" using hiB c1 by linarith
    have uh: "unat (hi + c) = ?h" using h by (simp add: unat_add_u32)
    have lt: "W < (unat q - 1) * ?b"
    proof -
      have "mp_val seg1 + B32 ^ ?n * ?h < B32 ^ ?n + B32 ^ ?n * ?h"
        using mp_val_bound[of seg1] l1 by simp
      also have "\<dots> = B32 ^ ?n * Suc ?h" by simp
      also have "\<dots> \<le> B32 ^ ?n * B32" using h by (intro mult_left_mono) simp_all
      finally show ?thesis using T by simp
    qed
    then have "W div ?b < unat q - 1" using assms(4) by (simp add: div_less_iff_less_mult)
    moreover have "mp_val seg1 + B32 ^ ?n * unat (hi + c) + unat (q - 1) * ?b = W + B32 ^ Suc ?n"
      using T by (simp only: uh q1)
    moreover have "unat (q - 1) < unat q" using q1 by simp
    ultimately obtain seg' q' where R: "add_back seg1 tabb (hi + c) (q - 1) = Some (seg', 0, q')"
      "unat q' = W div ?b" "mp_val seg' = W mod ?b" "length seg' = ?n"
      using less.hyps[of "q - 1" seg1 "hi + c"] l1 q1 by auto
    have "add_back seg tabb hi q = add_back seg1 tabb (hi + c) (q - 1)"
    proof (cases "c = 0")
      case True
      then show ?thesis using s by (subst add_back.simps) simp
    next
      case False
      then have "c = 1" using c1 by (auto simp: word_unat_eq_iff le_Suc_eq)
      moreover have "hi + 1 \<noteq> 0"
      proof -
        have "unat (hi + 1) = unat hi + 1" using h \<open>c = 1\<close> by (simp add: unat_add_u32)
        then show ?thesis by (metis add_is_0 one_neq_zero unat_0)
      qed
      ultimately show ?thesis using s by (subst add_back.simps) simp
    qed
    with R show ?thesis by auto
  qed
qed

lemma estimate_quotient_ge:
  assumes W: "W < (unat hi * B32 + unat next + 1) * B32 ^ n"
    and b: "unat b1 * B32 ^ n \<le> b" and Wb: "W < b * B32"
    and b1: "B32 \<le> 2 * unat b1" and inv: "b1_inv = 0 \<or> b1_inv = js_udiv1norm_init b1"
  shows "W div b \<le> unat (estimate_quotient hi next b1 b1_inv)"
proof (cases "b1 \<le> hi")
  case True
  have "W div b < B32" using Wb by (simp add: less_mult_imp_div_less mult.commute)
  moreover have "unat (- 1 :: u32) = 4294967295"
    by (simp add: unsigned_minus_1_eq_mask mask_eq_exp_minus_1)
  ultimately show ?thesis using True by (simp add: estimate_quotient_def)
next
  case False
  let ?N = "unat hi * B32 + unat next"
  have lt: "hi < b1" using False by simp
  have "unat (estimate_quotient hi next b1 b1_inv) = ?N div unat b1"
  proof (cases "b1_inv = 0")
    case True
    have "?N < Suc (unat hi) * B32" by simp
    also have "\<dots> \<le> unat b1 * B32"
      using lt by (intro mult_right_mono) (simp_all add: word_less_nat_alt)
    finally have "?N div unat b1 < B32" by (simp add: less_mult_imp_div_less mult.commute)
    with False True show ?thesis
      by (simp add: estimate_quotient_def limb_lo unat_div_distrib unat_join)
  next
    case F: False
    obtain q' r' where q: "js_udiv1norm hi next b1 (js_udiv1norm_init b1) = (q', r')" by fastforce
    with js_udiv1norm_val[OF q b1 lt] False F inv show ?thesis
      by (simp add: estimate_quotient_def)
  qed
  moreover have "W div b \<le> ?N div unat b1"
  proof -
    have b0: "0 < unat b1" using b1 by simp
    have "W div b \<le> W div (unat b1 * B32 ^ n)" using b b0 by (intro div_le_mono2) simp_all
    also have "\<dots> = W div B32 ^ n div unat b1"
      by (subst mult.commute) (rule div_mult2_eq)
    also have "\<dots> \<le> ?N div unat b1"
    proof (rule div_le_mono)
      have "W div B32 ^ n < ?N + 1" using W by (simp add: less_mult_imp_div_less)
      then show "W div B32 ^ n \<le> ?N" by simp
    qed
    finally show ?thesis .
  qed
  ultimately show ?thesis by simp
qed

lemma take_Suc_drop: "i + n < length xs \<Longrightarrow> take (Suc n) (drop i xs) = take n (drop i xs) @ [xs ! (i + n)]"
  by (simp add: take_Suc_conv_app_nth)

lemma mp_val_high_limb:
  "2 \<le> length xs \<Longrightarrow>
    mp_val xs < (unat (xs ! (length xs - 1)) * B32 + unat (xs ! (length xs - 2)) + 1) * B32 ^ (length xs - 2)"
proof -
  assume l: "2 \<le> length xs"
  then obtain zs x where zs: "xs = zs @ [x]" by (cases xs rule: rev_cases) auto
  with l obtain ys y where "zs = ys @ [y]" by (cases zs rule: rev_cases) auto
  with zs have xs: "xs = ys @ [y, x]" by simp
  have "mp_val xs = mp_val ys + B32 ^ length ys * (unat y + B32 * unat x)"
    by (simp add: xs mp_val_append)
  also have "\<dots> < B32 ^ length ys + B32 ^ length ys * (unat y + B32 * unat x)"
    using mp_val_bound[of ys] by simp
  finally show ?thesis by (simp add: xs nth_append algebra_simps)
qed

text \<open>What the loops know about the divisor: at least two limbs, the top one normalised.\<close>

definition norm_divisor :: "js_limb_t list \<Rightarrow> js_limb_t \<Rightarrow> js_limb_t \<Rightarrow> bool" where
  "norm_divisor tabb b1 b1_inv \<longleftrightarrow> 2 \<le> length tabb \<and> b1 = tabb ! (length tabb - 1) \<and>
     B32 \<le> 2 * unat b1 \<and> (b1_inv = 0 \<or> b1_inv = js_udiv1norm_init b1)"

lemma norm_divisor_bounds:
  assumes "norm_divisor tabb b1 b1_inv"
  shows "unat b1 * B32 ^ (length tabb - 1) \<le> mp_val tabb" and "0 < mp_val tabb"
    and "B32 ^ length tabb \<le> 2 * mp_val tabb"
proof -
  obtain ys where ys: "tabb = ys @ [b1]"
    using assms by (cases tabb rule: rev_cases) (auto simp: norm_divisor_def)
  then show 1: "unat b1 * B32 ^ (length tabb - 1) \<le> mp_val tabb" by simp
  have "B32 * B32 ^ length ys \<le> (2 * unat b1) * B32 ^ length ys"
    using assms by (intro mult_right_mono) (auto simp: norm_divisor_def)
  then have "B32 ^ length tabb \<le> 2 * (B32 ^ length ys * unat b1)" using ys by (simp only: ac_simps power_Suc length_append_singleton)
  moreover have "mp_val tabb = mp_val ys + B32 ^ length ys * unat b1" by (simp add: ys)
  ultimately show 3: "B32 ^ length tabb \<le> 2 * mp_val tabb" by linarith
  have "0 < B32 ^ length tabb" by simp
  with 3 show "0 < mp_val tabb" by linarith
qed

lemma divnorm_step_val:
  assumes nd: "norm_divisor tabb b1 b1_inv" and i: "i + length tabb < length taba"
    and W: "W = mp_val (take (Suc (length tabb)) (drop i taba))"
    and high: "mp_val (take (length tabb) (drop (Suc i) taba)) < mp_val tabb"
  shows "\<exists>q seg. divnorm_step i taba tabb b1 b1_inv = Some (q, blit taba i (seg @ [0])) \<and>
    unat q = W div mp_val tabb \<and> mp_val seg = W mod mp_val tabb \<and> length seg = length tabb"
proof -
  let ?n = "length tabb" and ?b = "mp_val tabb"
  let ?hi = "taba ! (i + ?n)" and ?next = "taba ! (i + ?n - 1)"
  have n2: "2 \<le> ?n" using nd by (simp add: norm_divisor_def)
  have b0: "0 < ?b" using norm_divisor_bounds[OF nd] by simp
  have l: "length (take ?n (drop i taba)) = ?n" using i by simp
  define w where "w = take (Suc ?n) (drop i taba)"
  have lw: "length w = Suc ?n" using i by (simp add: w_def)
  have ws: "w = take ?n (drop i taba) @ [?hi]" using i unfolding w_def by (rule take_Suc_drop)
  have Wb: "W < ?b * B32"
  proof -
    have "take (Suc ?n) (drop i taba) = taba ! i # take ?n (drop (Suc i) taba)"
      using i by (metis Cons_nth_drop_Suc add_lessD1 take_Suc_Cons)
    then have "W < B32 * Suc (mp_val (take ?n (drop (Suc i) taba)))" by (simp add: W)
    also have "\<dots> \<le> B32 * ?b" using high by (intro mult_left_mono) simp_all
    finally show ?thesis by (simp add: mult.commute)
  qed
  have "w ! (length w - 1) = ?hi" "w ! (length w - 2) = ?next"
    using lw n2 i by (simp_all add: w_def)
  then have "W < (unat ?hi * B32 + unat ?next + 1) * B32 ^ (?n - 1)"
    using mp_val_high_limb[of w] lw n2 by (simp add: W w_def[symmetric])
  then have ge: "W div ?b \<le> unat (estimate_quotient ?hi ?next b1 b1_inv)"
    using norm_divisor_bounds(1)[OF nd] Wb nd
    by (intro estimate_quotient_ge) (auto simp: norm_divisor_def)
  define q where "q = estimate_quotient ?hi ?next b1 b1_inv"
  obtain seg r where s: "js_mp_sub_mul1 (take ?n (drop i taba)) tabb q = (seg, r)" by fastforce
  have S: "mp_val seg + ?b * unat q = mp_val (take ?n (drop i taba)) + B32 ^ ?n * unat r"
    and ls: "length seg = ?n" using js_mp_sub_mul1_val[OF s l] by auto
  have Ws: "W = mp_val (take ?n (drop i taba)) + B32 ^ ?n * unat ?hi"
    using l by (simp add: W w_def[symmetric] ws)
  have step: "divnorm_step i taba tabb b1 b1_inv =
    (if ?hi - r > ?hi then Option.bind (add_back seg tabb (?hi - r) q)
        (\<lambda>(seg, a, q). Some (q, blit taba i (seg @ [a])))
     else Some (q, blit taba i (seg @ [?hi - r])))"
    using s by (simp add: divnorm_step_def Let_def q_def)
  show ?thesis
  proof (cases "unat r \<le> unat ?hi")
    case True
    have u: "unat (?hi - r) = unat ?hi - unat r" using True by (simp add: unat_sub_u32)
    have e: "mp_val seg + B32 ^ ?n * unat (?hi - r) + ?b * unat q = W"
    proof -
      have "B32 ^ ?n * unat (?hi - r) + B32 ^ ?n * unat r = B32 ^ ?n * unat ?hi"
        using True unfolding u by (simp flip: distrib_left)
      with S show ?thesis unfolding Ws by linarith
    qed
    then have "?b * unat q \<le> W" by simp
    then have "unat q \<le> W div ?b" using b0 by (simp add: less_eq_div_iff_mult_less_eq mult.commute)
    with ge have q: "unat q = W div ?b" by (simp add: q_def)
    have "mp_val seg + B32 ^ ?n * unat (?hi - r) = W mod ?b"
      using e mult_div_mod_eq[of ?b W] unfolding q by linarith
    moreover have "W mod ?b < B32 ^ ?n"
      using mod_less_divisor[OF b0, of W] mp_val_bound[of tabb] by linarith
    ultimately have "unat (?hi - r) = 0"
    proof -
      assume e: "mp_val seg + B32 ^ ?n * unat (?hi - r) = W mod ?b" and "W mod ?b < B32 ^ ?n"
      then have "B32 ^ ?n * unat (?hi - r) < B32 ^ ?n * 1" by linarith
      then show ?thesis by simp
    qed
    then have "?hi - r = 0" by (simp add: unat_eq_zero)
    moreover have "\<not> ?hi - r > ?hi" using \<open>unat (?hi - r) = 0\<close> by (simp add: word_less_nat_alt)
    ultimately show ?thesis
      using step q ls \<open>mp_val seg + B32 ^ ?n * unat (?hi - r) = W mod ?b\<close>
      by (intro exI[of _ q] exI[of _ seg]) simp
  next
    case False
    have rB: "unat r \<le> unat ?hi + B32" using unat_less_B32[of r] by linarith
    then have u: "unat (?hi - r) + unat r = unat ?hi + B32"
      unfolding unat_sub_u32 using False by simp
    have "unat ?hi < unat (?hi - r)" using u unat_less_B32[of r] by linarith
    then have lt: "?hi - r > ?hi" by (simp only: word_less_nat_alt)
    have "B32 ^ ?n * unat (?hi - r) + B32 ^ ?n * unat r = B32 ^ ?n * unat ?hi + B32 ^ Suc ?n"
      unfolding distrib_left[symmetric] u by (simp only: distrib_left power_Suc2)
    then have e: "mp_val seg + B32 ^ ?n * unat (?hi - r) + unat q * ?b = W + B32 ^ Suc ?n"
      using S by (simp add: Ws mult.commute[of "unat q"])
    have "W < ?b * unat q"
    proof -
      have "mp_val seg + B32 ^ ?n * unat (?hi - r) < B32 ^ ?n + B32 ^ ?n * unat (?hi - r)"
        using mp_val_bound[of seg] ls by simp
      also have "\<dots> = B32 ^ ?n * Suc (unat (?hi - r))" by simp
      also have "\<dots> \<le> B32 ^ ?n * B32" by (intro mult_left_mono) (simp_all add: Suc_le_eq)
      finally show ?thesis using e by (simp add: mult.commute)
    qed
    then have "W div ?b < unat q" using b0 by (simp add: div_less_iff_less_mult mult.commute)
    from add_back_val[OF e ls this b0] step lt show ?thesis by auto
  qed
qed

lemma divnorm_loop_val:
  assumes nd: "norm_divisor tabb b1 b1_inv" and "i + length tabb \<le> length taba"
    and "mp_val (take (length tabb) (drop i taba)) < mp_val tabb"
  shows "\<exists>qs taba'. divnorm_loop i taba tabb b1 b1_inv tabq = Some (qs @ tabq, taba') \<and>
    length qs = i \<and> length taba' = length taba \<and>
    mp_val qs = mp_val (take (i + length tabb) taba) div mp_val tabb \<and>
    mp_val (take (length tabb) taba') = mp_val (take (i + length tabb) taba) mod mp_val tabb"
  using assms(2,3)
proof (induction i arbitrary: taba tabq)
  case 0
  then show ?case by simp
next
  case (Suc i)
  let ?n = "length tabb" and ?b = "mp_val tabb"
  have b0: "0 < ?b" using norm_divisor_bounds[OF nd] by simp
  define W where "W = mp_val (take (Suc ?n) (drop i taba))"
  have i: "i + ?n < length taba" using Suc.prems(1) by simp
  from divnorm_step_val[OF nd i W_def Suc.prems(2)] obtain q seg where
    st: "divnorm_step i taba tabb b1 b1_inv = Some (q, blit taba i (seg @ [0]))"
    and q: "unat q = W div ?b" and seg: "mp_val seg = W mod ?b" and ls: "length seg = ?n" by blast
  let ?t = "blit taba i (seg @ [0])"
  have lt: "length ?t = length taba" using i ls by simp
  have tk: "take (i + ?n) ?t = take i taba @ seg"
  proof -
    have "take (i + ?n) ?t = take (i + ?n) (take (i + length (seg @ [0])) ?t)"
      using ls by simp
    also have "\<dots> = take (i + ?n) (take i taba @ seg @ [0])"
      using i ls by (subst take_blit) simp_all
    finally show ?thesis using i ls by simp
  qed
  have "take ?n (drop i ?t) = seg"
    using arg_cong[OF tk, of "drop i"] i by (simp add: drop_take)
  then have "mp_val (take ?n (drop i ?t)) < ?b" using seg b0 by simp
  with Suc.IH[of ?t "q # tabq"] lt i obtain qs taba' where
    R: "divnorm_loop i ?t tabb b1 b1_inv (q # tabq) = Some (qs @ q # tabq, taba')"
    "length qs = i" "length taba' = length ?t"
    "mp_val qs = mp_val (take (i + ?n) ?t) div ?b"
    "mp_val (take ?n taba') = mp_val (take (i + ?n) ?t) mod ?b" by auto
  have N: "mp_val (take (Suc i + ?n) taba) = mp_val (take (i + ?n) ?t) + B32 ^ i * unat q * ?b"
  proof -
    have "take (Suc i + ?n) taba = take i taba @ take (Suc ?n) (drop i taba)"
      using take_add[of i "Suc ?n" taba] by simp
    then have "mp_val (take (Suc i + ?n) taba) = mp_val (take i taba) + B32 ^ i * W"
      using i by (simp add: mp_val_append W_def)
    also have "W = mp_val seg + unat q * ?b" unfolding q seg by simp
    finally show ?thesis using i by (simp add: tk mp_val_append distrib_left mult.assoc)
  qed
  have "mp_val (qs @ [q]) = mp_val (take (Suc i + ?n) taba) div ?b"
    unfolding N using b0 R(2,4) by (simp add: add.commute)
  moreover have "mp_val (take ?n taba') = mp_val (take (Suc i + ?n) taba) mod ?b"
    unfolding N using R(5) by simp
  ultimately show ?case
    using st R lt by (intro exI[of _ "qs @ [q]"] exI[of _ taba']) simp
qed

lemma js_mp_divnorm_val:
  assumes nb: "tabb \<noteq> []" "length tabb \<le> length taba" and norm: "B32 \<le> 2 * unat (last tabb)"
  shows "\<exists>tabq taba'. js_mp_divnorm taba tabb = Some (tabq, taba') \<and>
    length tabq = length taba - length tabb + 1 \<and> length taba' = length taba \<and>
    mp_val tabq = mp_val taba div mp_val tabb \<and>
    mp_val (take (length tabb) taba') = mp_val taba mod mp_val tabb"
proof (cases "length tabb = 1")
  case True
  then obtain b where b: "tabb = [b]" by (cases tabb) auto
  obtain tabq r where d: "js_mp_div1norm taba b 0 = (tabq, r)" by fastforce
  from norm b have "0 < b" by (simp add: word_less_nat_alt)
  from js_mp_div1norm_val[OF d this] norm b
  have *: "mp_val tabq * unat b + unat r = mp_val taba" "unat r < unat b" "length tabq = length taba"
    by (auto simp: word_less_nat_alt)
  have "mp_val tabq = mp_val taba div unat b" "unat r = mp_val taba mod unat b"
    unfolding *(1)[symmetric] using *(2) by simp_all
  moreover have "take 1 (taba[0 := r]) = [r]" using nb b by (cases taba) auto
  ultimately show ?thesis using d b * nb by (simp add: js_mp_divnorm_def)
next
  case False
  let ?nb = "length tabb" and ?b = "mp_val tabb"
  define n where "n = length taba - ?nb"
  define b1_inv where "b1_inv = (if n \<ge> UDIV1NORM_THRESHOLD then js_udiv1norm_init (last tabb) else 0)"
  have n2: "2 \<le> ?nb" using False nb by (cases tabb) (auto simp: Suc_le_eq)
  have nd: "norm_divisor tabb (last tabb) b1_inv"
    using n2 nb norm by (auto simp: norm_divisor_def b1_inv_def last_conv_nth)
  have b0: "0 < ?b" using norm_divisor_bounds[OF nd] by simp
  let ?T = "take ?nb (drop n taba)"
  have lT: "length ?T = ?nb" using nb by (simp add: n_def)
  define q where "q = first_quotient (rev ?T) (rev tabb)"
  have q: "q = (if mp_val ?T < ?b then 0 else 1)" using first_quotient_rev[OF lT] by (simp add: q_def)
  define t1 where "t1 = (if q \<noteq> 0 then blit taba n (fst (js_mp_sub ?T tabb 0)) else taba)"
  have Tb: "mp_val ?T < 2 * ?b"
    using mp_val_bound[of ?T] norm_divisor_bounds(3)[OF nd] lT by simp
  have all: "length taba = n + ?nb" using nb by (simp add: n_def)
  have N: "mp_val taba = mp_val (take n taba) + B32 ^ n * mp_val ?T"
    using mp_val_take_drop[of n taba] all by simp
  have t1: "length t1 = length taba \<and> take n t1 = take n taba \<and>
    mp_val (take ?nb (drop n t1)) + unat q * ?b = mp_val ?T"
  proof (cases "mp_val ?T < ?b")
    case True
    then show ?thesis by (simp add: t1_def q)
  next
    case F: False
    obtain s k where s: "js_mp_sub ?T tabb 0 = (s, k)" by fastforce
    note S = js_mp_sub_val[OF s lT]
    have ls: "length s = ?nb" using S lT by simp
    have "unat k = 0"
    proof (rule ccontr)
      assume "unat k \<noteq> 0"
      then have "unat k = 1" using S by simp
      then have "mp_val s + ?b = mp_val ?T + B32 ^ ?nb" using S lT by simp
      moreover have "mp_val s < B32 ^ ?nb" using mp_val_bound[of s] ls by simp
      ultimately show False using F by linarith
    qed
    then have "mp_val s + ?b = mp_val ?T" using S lT by simp
    moreover have "take ?nb (drop n (blit taba n s)) = s"
      using ls all by (simp add: blit_def)
    ultimately show ?thesis using F s ls all by (simp add: t1_def q)
  qed
  have "mp_val (take ?nb (drop n t1)) < ?b" using t1 Tb q by (auto split: if_splits)
  with divnorm_loop_val[OF nd, of n t1 "[q]"] t1 all obtain qs taba' where
    R: "divnorm_loop n t1 tabb (last tabb) b1_inv [q] = Some (qs @ [q], taba')"
    "length qs = n" "length taba' = length taba" "mp_val qs = mp_val t1 div ?b"
    "mp_val (take ?nb taba') = mp_val t1 mod ?b" by auto
  have "mp_val t1 = mp_val (take n taba) + B32 ^ n * mp_val (take ?nb (drop n t1))"
    using mp_val_take_drop[of n t1] t1 all by simp
  then have M: "mp_val taba = mp_val t1 + B32 ^ n * unat q * ?b"
    using N t1 by (metis (no_types, lifting) add.assoc distrib_left mult.assoc)
  have "mp_val (qs @ [q]) = mp_val taba div ?b" unfolding M using b0 R(2,4) by (simp add: add.commute)
  moreover have "mp_val (take ?nb taba') = mp_val taba mod ?b" unfolding M using R(5) by simp
  moreover have "js_mp_divnorm taba tabb = Some (qs @ [q], taba')"
  proof -
    have "tabb ! (?nb - 1) = last tabb" using nb by (simp add: last_conv_nth)
    then have "js_mp_divnorm taba tabb = divnorm_loop n t1 tabb (last tabb) b1_inv [q]"
      by (simp only: js_mp_divnorm_def Let_def n_def[symmetric] q_def[symmetric]
          b1_inv_def[symmetric] t1_def[symmetric] False if_False)
    with R(1) show ?thesis by simp
  qed
  ultimately show ?thesis using R all by simp
qed

end
