(* ===== verification/Big_Int.thy ===== *)
theory Big_Int
  imports Limb_Div "HOL-Library.Signed_Division"
begin

text \<open>
  \<open>JSBigInt\<close> of \<open>quickjs.c\<close>: allocation, normalisation and the arithmetic \<open>js_bigint_*\<close>.
  A \<open>JSBigInt\<close> is its limb array \<open>tab\<close>, in two's complement and least significant limb first;
  \<open>len\<close> is the length of the list and the reference count of the header is left out. \<open>big_val\<close>
  is the integer it stands for and \<open>big_ok\<close> says that it has the least possible length.
  A function that returns \<open>NULL\<close> with a pending exception returns \<open>Inl\<close> of that exception.
\<close>

section \<open>Allocation\<close>

datatype js_error = RangeError string | OutOfMemory

text \<open>
  The context decides which requests \<open>js_malloc\<close> and \<open>js_realloc\<close> can serve and what an
  uninitialised block holds.
\<close>

record js_ctx =
  can_alloc :: "nat \<Rightarrow> bool"
  garbage :: "nat \<Rightarrow> js_limb_t"

type_synonym js_bigint = "js_limb_t list"
type_synonym js_result = "js_error + js_bigint"

definition bind_err :: "'e + 'a \<Rightarrow> ('a \<Rightarrow> 'e + 'b) \<Rightarrow> 'e + 'b" where
  "bind_err m f = (case m of Inl e \<Rightarrow> Inl e | Inr x \<Rightarrow> f x)"

lemma bind_err_simps [simp]: "bind_err (Inl e) f = Inl e" "bind_err (Inr x) f = f x"
  by (simp_all add: bind_err_def)

definition sizeof_JSBigInt :: nat where "sizeof_JSBigInt = 8"

definition js_malloc :: "js_ctx \<Rightarrow> nat \<Rightarrow> nat \<Rightarrow> js_error + js_limb_t list" where
  "js_malloc ctx n limbs =
     (if can_alloc ctx n then Inr (map (garbage ctx) [0..<limbs]) else Inl OutOfMemory)"

definition js_bigint_new :: "js_ctx \<Rightarrow> nat \<Rightarrow> js_result" where
  "js_bigint_new ctx len =
     (if len > JS_BIGINT_MAX_SIZE then Inl (RangeError ''BigInt is too large to allocate'')
      else js_malloc ctx (sizeof_JSBigInt + len * 4) len)"

section \<open>Small values\<close>

text \<open>\<open>js_slimb_t\<close> and \<open>int64_t\<close> arguments are words; \<open>signed_drop_bit\<close> is their \<open>>>\<close>.\<close>

definition js_bigint_set_si :: "js_limb_t \<Rightarrow> js_bigint" where
  "js_bigint_set_si a = [a]"

definition js_bigint_set_si64 :: "u64 \<Rightarrow> js_bigint" where
  "js_bigint_set_si64 a =
     (if sint a \<ge> - 2147483648 \<and> sint a \<le> 2147483647 then [ucast a]
      else [ucast a, ucast (signed_drop_bit 32 a)])"

definition js_bigint_new_si :: "js_ctx \<Rightarrow> js_limb_t \<Rightarrow> js_result" where
  "js_bigint_new_si ctx a = bind_err (js_bigint_new ctx 1) (\<lambda>r. Inr (r[0 := a]))"

definition js_bigint_new_si64 :: "js_ctx \<Rightarrow> u64 \<Rightarrow> js_result" where
  "js_bigint_new_si64 ctx a =
     (if sint a \<ge> - 2147483648 \<and> sint a \<le> 2147483647 then js_bigint_new_si ctx (ucast a)
      else bind_err (js_bigint_new ctx 2)
        (\<lambda>r. Inr (r[0 := ucast a, 1 := ucast (signed_drop_bit 32 a)])))"

definition js_bigint_new_ui64 :: "js_ctx \<Rightarrow> u64 \<Rightarrow> js_result" where
  "js_bigint_new_ui64 ctx a =
     (if unat a \<le> 9223372036854775807 then js_bigint_new_si64 ctx a
      else bind_err (js_bigint_new ctx ((65 + JS_LIMB_BITS - 1) div JS_LIMB_BITS))
        (\<lambda>r. Inr (r[0 := ucast a, 1 := ucast (drop_bit 32 a), 2 := 0])))"

definition js_bigint_new_di :: "js_ctx \<Rightarrow> u64 \<Rightarrow> js_result" where
  "js_bigint_new_di ctx a =
     (if sint a = sint (ucast a :: js_limb_t) then bind_err (js_bigint_new ctx 1) (\<lambda>r. Inr (r[0 := ucast a]))
      else bind_err (js_bigint_new ctx 2)
        (\<lambda>r. Inr (r[0 := ucast a, 1 := ucast (signed_drop_bit 32 a)])))"

section \<open>Normalisation\<close>

fun normalize_len :: "js_bigint \<Rightarrow> nat \<Rightarrow> nat" where
  "normalize_len tab (Suc (Suc l)) =
     (let v = tab ! Suc l
      in if (v \<noteq> 0 \<and> v \<noteq> - 1) \<or> v AND 1 \<noteq> drop_bit 31 (tab ! l) then Suc (Suc l)
         else normalize_len tab (Suc l))"
| "normalize_len tab l = l"

text \<open>A block that cannot be reallocated to the smaller size is kept, with the smaller \<open>len\<close>.\<close>

definition js_bigint_normalize1 :: "js_bigint \<Rightarrow> nat \<Rightarrow> js_bigint" where
  "js_bigint_normalize1 a l = take (normalize_len a l) a"

definition js_bigint_normalize :: "js_bigint \<Rightarrow> js_bigint" where
  "js_bigint_normalize a = js_bigint_normalize1 a (length a)"

definition js_bigint_sign :: "js_bigint \<Rightarrow> js_limb_t" where
  "js_bigint_sign a = drop_bit 31 (a ! (length a - 1))"

definition js_bigint_get_si_sat :: "js_bigint \<Rightarrow> int" where
  "js_bigint_get_si_sat a =
     (if length a = 1 then sint (a ! 0)
      else if js_bigint_sign a \<noteq> 0 then - 2147483648 else 2147483647)"

definition js_bigint_extend :: "js_ctx \<Rightarrow> js_bigint \<Rightarrow> js_limb_t \<Rightarrow> js_result" where
  "js_bigint_extend ctx r op1 =
     (let n2 = length r
      in if (op1 \<noteq> 0 \<and> op1 \<noteq> - 1) \<or> op1 AND 1 \<noteq> drop_bit 31 (r ! (n2 - 1)) then
           (if can_alloc ctx (sizeof_JSBigInt + (n2 + 1) * 4) then Inr (r @ [op1])
            else Inl OutOfMemory)
         else Inr (js_bigint_normalize r))"

section \<open>Addition, negation, multiplication\<close>

fun addc_loop :: "(js_limb_t \<times> js_limb_t) list \<Rightarrow> js_limb_t \<Rightarrow> js_limb_t list \<times> js_limb_t" where
  "addc_loop ((op1, op2) # ops) carry =
     (let (r, carry) = ADDC op1 op2 carry; (rs, carry) = addc_loop ops carry in (r # rs, carry))"
| "addc_loop [] carry = ([], carry)"

definition js_bigint_add :: "js_ctx \<Rightarrow> js_bigint \<Rightarrow> js_bigint \<Rightarrow> bool \<Rightarrow> js_result" where
  "js_bigint_add ctx a b b_neg =
     (let n2 = nat (max_int (int (length a)) (int (length b)));
          n1 = nat (min_int (int (length a)) (int (length b)));
          m = - of_bool b_neg :: js_limb_t
      in bind_err (js_bigint_new ctx n2) (\<lambda>r.
        let (seg, carry) = addc_loop (map (\<lambda>i. (a ! i, b ! i XOR m)) [0..<n1]) (of_bool b_neg);
            r = blit r 0 seg;
            a_sign = - js_bigint_sign a;
            b_sign = (- js_bigint_sign b) XOR m;
            (seg, carry) =
              (if length a > length b then addc_loop (map (\<lambda>i. (a ! i, b_sign)) [n1..<n2]) carry
               else if length a < length b
                 then addc_loop (map (\<lambda>i. (a_sign, b ! i XOR m)) [n1..<n2]) carry
               else ([], carry));
            r = blit r n1 seg
        in js_bigint_extend ctx r (a_sign + b_sign + carry)))"

definition js_bigint_neg :: "js_ctx \<Rightarrow> js_bigint \<Rightarrow> js_result" where
  "js_bigint_neg ctx a = js_bigint_add ctx (js_bigint_set_si 0) a True"

definition js_bigint_mul :: "js_ctx \<Rightarrow> js_bigint \<Rightarrow> js_bigint \<Rightarrow> js_result" where
  "js_bigint_mul ctx a b =
     bind_err (js_bigint_new ctx (length a + length b)) (\<lambda>r.
       let r = js_mp_mul_basecase r a b;
           r = (if js_bigint_sign a \<noteq> 0
                then blit r (length a) (fst (js_mp_sub (drop (length a) r) b 0)) else r);
           r = (if js_bigint_sign b \<noteq> 0
                then blit r (length b) (fst (js_mp_sub (drop (length b) r) a 0)) else r)
       in Inr (js_bigint_normalize r))"

section \<open>Division\<close>

fun drop_zero_limbs :: "js_limb_t list \<Rightarrow> nat \<Rightarrow> nat" where
  "drop_zero_limbs tab (Suc (Suc n)) =
     (if tab ! Suc n = 0 then drop_zero_limbs tab (Suc n) else Suc (Suc n))"
| "drop_zero_limbs tab n = n"

text \<open>\<open>None\<close> is a division that does not return; \<open>js_bigint_divrem_val\<close> excludes it.\<close>

definition js_bigint_divrem ::
  "js_ctx \<Rightarrow> js_bigint \<Rightarrow> js_bigint \<Rightarrow> bool \<Rightarrow> js_result option" where
  "js_bigint_divrem ctx a b is_rem =
     (if length b = 1 \<and> b ! 0 = 0 then Some (Inl (RangeError ''BigInt division by zero''))
      else
        (let a_sign = js_bigint_sign a; b_sign = js_bigint_sign b; na = length a; nb = length b
         in (case js_bigint_new ctx (na + 2) of Inl e \<Rightarrow> Some (Inl e) | Inr r \<Rightarrow>
          (let r = blit r 0 (if a_sign \<noteq> 0 then fst (js_mp_neg a) else a);
               na = drop_zero_limbs r na
           in (case js_malloc ctx (nb * 4) nb of Inl e \<Rightarrow> Some (Inl e) | Inr _ \<Rightarrow>
            (let tabb = (if b_sign \<noteq> 0 then fst (js_mp_neg b) else b);
                 nb = drop_zero_limbs tabb nb
             in if na < nb then
                  (if is_rem
                   then Some (bind_err (js_bigint_new ctx (length a)) (\<lambda>r. Inr (blit r 0 a)))
                   else Some (js_bigint_new_si ctx 0))
                else
                  (let shift = js_limb_clz (tabb ! (nb - 1));
                       (tabb, r, na) =
                         (if shift \<noteq> 0 then
                            (let tabb = fst (js_mp_shl (take nb tabb) shift);
                                 (seg, h) = js_mp_shl (take na r) shift;
                                 r = blit r 0 seg
                             in if h \<noteq> 0 then (tabb, r[na := h], na + 1) else (tabb, r, na))
                          else (take nb tabb, r, na))
                   in (case js_bigint_new ctx (na - nb + 2) of Inl e \<Rightarrow> Some (Inl e) | Inr q \<Rightarrow>
                    (case js_mp_divnorm (take na r) tabb of None \<Rightarrow> None | Some (tabq, rem) \<Rightarrow>
                      (let q = blit q 0 tabq; r = blit r 0 rem
                       in if is_rem then
                            (let r = (if shift \<noteq> 0
                                      then blit r 0 (fst (js_mp_shr (take nb r) shift 0)) else r);
                                 r = r[nb := 0]; nb = nb + 1;
                                 r = (if a_sign \<noteq> 0 then blit r 0 (fst (js_mp_neg (take nb r))) else r)
                             in Some (Inr (js_bigint_normalize1 r nb)))
                          else
                            (let q = q[na - nb + 1 := 0];
                                 q = (if a_sign XOR b_sign \<noteq> 0 then fst (js_mp_neg q) else q)
                             in Some (Inr (js_bigint_normalize q)))))))))))))"

section \<open>Bitwise operations and shifts\<close>

datatype logic_op = OP_or | OP_and | OP_xor

fun limb_op :: "logic_op \<Rightarrow> js_limb_t \<Rightarrow> js_limb_t \<Rightarrow> js_limb_t" where
  "limb_op OP_or x y = x OR y"
| "limb_op OP_and x y = x AND y"
| "limb_op OP_xor x y = x XOR y"

definition js_bigint_logic :: "js_ctx \<Rightarrow> js_bigint \<Rightarrow> js_bigint \<Rightarrow> logic_op \<Rightarrow> js_result" where
  "js_bigint_logic ctx a b op =
     (let (a, b) = (if length a < length b then (b, a) else (a, b));
          a_len = length a; b_len = length b;
          b_sign = - js_bigint_sign b
      in bind_err (js_bigint_new ctx a_len) (\<lambda>r.
           let r = blit r 0 (map (\<lambda>i. limb_op op (a ! i) (b ! i)) [0..<b_len]);
               r = blit r b_len (map (\<lambda>i. limb_op op (a ! i) b_sign) [b_len..<a_len])
           in Inr (js_bigint_normalize r)))"

definition js_bigint_not :: "js_ctx \<Rightarrow> js_bigint \<Rightarrow> js_result" where
  "js_bigint_not ctx a =
     bind_err (js_bigint_new ctx (length a)) (\<lambda>r. Inr (blit r 0 (map (\<lambda>x. NOT x) a)))"

definition js_bigint_shl :: "js_ctx \<Rightarrow> js_bigint \<Rightarrow> nat \<Rightarrow> js_result" where
  "js_bigint_shl ctx a shift1 =
     (if length a = 1 \<and> a ! 0 = 0 then js_bigint_new_si ctx 0
      else
        (let d = shift1 div JS_LIMB_BITS; shift = shift1 mod JS_LIMB_BITS
         in bind_err (js_bigint_new ctx (length a + d)) (\<lambda>r.
              let r = blit r 0 (replicate d 0)
              in if shift = 0 then Inr (blit r d a)
                 else
                   (let (seg, l) = js_mp_shl a shift;
                        r = blit r d seg;
                        l = (if js_bigint_sign a \<noteq> 0 then l OR push_bit shift (- 1) else l)
                    in js_bigint_extend ctx r l))))"

definition js_bigint_shr :: "js_ctx \<Rightarrow> js_bigint \<Rightarrow> nat \<Rightarrow> js_result" where
  "js_bigint_shr ctx a shift1 =
     (let d = shift1 div JS_LIMB_BITS; shift = shift1 mod JS_LIMB_BITS;
          a_sign = js_bigint_sign a
      in if d \<ge> length a then js_bigint_new_si ctx (- a_sign)
         else
           (let n1 = length a - d
            in bind_err (js_bigint_new ctx n1) (\<lambda>r.
                 if shift = 0 then Inr (blit r 0 (drop d a))
                 else Inr (js_bigint_normalize (blit r 0 (fst (js_mp_shr (drop d a) shift (- a_sign))))))))"

section \<open>Powers\<close>

text \<open>The \<open>for\<close> loop of \<open>js_bigint_pow\<close> with \<open>i\<close> exponent bits left.\<close>

fun pow_loop :: "js_ctx \<Rightarrow> js_bigint \<Rightarrow> js_limb_t \<Rightarrow> nat \<Rightarrow> js_bigint \<Rightarrow> js_result" where
  "pow_loop ctx a e (Suc i) r =
     bind_err (js_bigint_mul ctx r r) (\<lambda>r.
       if drop_bit i e AND 1 \<noteq> 0
       then bind_err (js_bigint_mul ctx r a) (\<lambda>r. pow_loop ctx a e i r)
       else pow_loop ctx a e i r)"
| "pow_loop ctx a e 0 r = Inr r"

definition pow_overflow :: js_result where
  "pow_overflow = Inl (RangeError ''BigInt is too large'')"

text \<open>\<open>a\<close> is plus or minus \<open>v\<close>, a power of two.\<close>

definition pow_two :: "js_ctx \<Rightarrow> js_limb_t \<Rightarrow> bool \<Rightarrow> js_bigint \<Rightarrow> js_result" where
  "pow_two ctx v is_neg b =
     (let n = JS_LIMB_BITS - 1 - js_limb_clz v
      in if length b > 1 then pow_overflow
         else if unat (b ! 0) > 2147483647 then pow_overflow
         else
           (let e1 = unat (b ! 0) * n
            in if e1 > JS_BIGINT_MAX_SIZE * JS_LIMB_BITS then pow_overflow
               else
                 (let e = e1;
                      is_neg = (if is_neg then b ! 0 AND 1 \<noteq> 0 else is_neg)
                  in bind_err (js_bigint_new ctx ((e + JS_LIMB_BITS + 1 - of_bool is_neg) div JS_LIMB_BITS))
                       (\<lambda>r. let r = replicate (length r) 0
                            in Inr (r[e div JS_LIMB_BITS :=
                                      push_bit (e mod JS_LIMB_BITS) (1 - 2 * of_bool is_neg)])))))"

definition pow_general :: "js_ctx \<Rightarrow> js_bigint \<Rightarrow> js_bigint \<Rightarrow> js_result" where
  "pow_general ctx a b =
     (if length b > 1 then pow_overflow
      else if unat (b ! 0) > 2147483647 then pow_overflow
      else
        (let e = b ! 0; n_bits = 32 - clz32 e
         in bind_err (js_bigint_new ctx (length a)) (\<lambda>r.
              pow_loop ctx a e (n_bits - 1) (blit r 0 a))))"

definition js_bigint_pow :: "js_ctx \<Rightarrow> js_bigint \<Rightarrow> js_bigint \<Rightarrow> js_result" where
  "js_bigint_pow ctx a b =
     (if js_bigint_sign b \<noteq> 0 then Inl (RangeError ''BigInt negative exponent'')
      else if length b = 1 \<and> b ! 0 = 0 then js_bigint_new_si ctx 1
      else if length a = 1 then
        (let v = a ! 0
         in if v \<le> 1 then js_bigint_new_si ctx v
            else if v = - 1 then js_bigint_new_si ctx (1 - 2 * (b ! 0 AND 1))
            else
              (let is_neg = sint v < 0;
                   v = (if is_neg then - v else v)
               in if v AND (v - 1) = 0 then pow_two ctx v is_neg b
                  else pow_general ctx a b))
      else pow_general ctx a b)"

section \<open>Comparison\<close>

fun cmp_limbs :: "js_limb_t list \<Rightarrow> js_limb_t list \<Rightarrow> int" where
  "cmp_limbs (x # xs) (y # ys) =
     (if x \<noteq> y then (if x < y then - 1 else 1) else cmp_limbs xs ys)"
| "cmp_limbs _ _ = 0"

definition js_bigint_cmp :: "js_bigint \<Rightarrow> js_bigint \<Rightarrow> int" where
  "js_bigint_cmp a b =
     (let a_sign = uint (js_bigint_sign a); b_sign = uint (js_bigint_sign b)
      in if a_sign \<noteq> b_sign then 1 - 2 * a_sign
         else if length a \<noteq> length b then
           (if length a < length b then 2 * a_sign - 1 else 1 - 2 * a_sign)
         else cmp_limbs (rev a) (rev b))"

section \<open>The integer an array stands for\<close>

definition mp_mod :: "nat \<Rightarrow> int" where
  "mp_mod n = 2 ^ (32 * n)"

definition big_val :: "js_bigint \<Rightarrow> int" where
  "big_val a = int (mp_val a) - (if js_bigint_sign a \<noteq> 0 then mp_mod (length a) else 0)"

definition big_ok :: "js_bigint \<Rightarrow> bool" where
  "big_ok a \<longleftrightarrow> a \<noteq> [] \<and> normalize_len a (length a) = length a"

lemma mp_mod_pos [simp]: "0 < mp_mod n"
  by (simp add: mp_mod_def)

lemma mp_mod_nonneg [simp]: "0 \<le> mp_mod n"
  by (simp add: mp_mod_def)

lemma mp_mod_0 [simp]: "mp_mod 0 = 1"
  by (simp add: mp_mod_def)

lemma mp_mod_Suc: "mp_mod (Suc n) = 4294967296 * mp_mod n"
  by (simp add: mp_mod_def power_add)

lemma mp_mod_add: "mp_mod (m + n) = mp_mod m * mp_mod n"
  by (simp add: mp_mod_def power_add distrib_left)

lemma int_B32_pow: "int (B32 ^ n) = mp_mod n"
  by (induction n) (simp_all add: mp_mod_Suc)

lemma mp_val_less_mod: "int (mp_val a) < mp_mod (length a)"
  using mp_val_bound[of a] unfolding int_B32_pow[symmetric] of_nat_less_iff .

lemma drop_bit_31_cases: "drop_bit 31 (x :: u32) = (if B32 \<le> 2 * unat x then 1 else 0)"
proof -
  have "unat (drop_bit 31 x) = unat x div 2147483648" by (simp add: unat_drop_bit)
  also have "\<dots> = (if B32 \<le> 2 * unat x then 1 else 0)"
    by (auto simp: nat_div_eq_iff)
  finally show ?thesis by (auto simp: word_unat_eq_iff split: if_splits)
qed

lemma js_bigint_sign_snoc: "js_bigint_sign (xs @ [x]) = drop_bit 31 x"
  by (simp add: js_bigint_sign_def)

lemma js_bigint_sign_cases:
  assumes "a \<noteq> []"
  shows "js_bigint_sign a = (if mp_mod (length a) \<le> 2 * int (mp_val a) then 1 else 0)"
proof -
  obtain xs x where a: "a = xs @ [x]" using assms by (cases a rule: rev_cases) auto
  have "B32 \<le> 2 * unat x \<longleftrightarrow> B32 * B32 ^ length xs \<le> 2 * (mp_val xs + B32 ^ length xs * unat x)"
  proof
    assume "B32 \<le> 2 * unat x"
    then have "B32 * B32 ^ length xs \<le> 2 * unat x * B32 ^ length xs" by (rule mult_right_mono) simp
    also have "\<dots> = 2 * (B32 ^ length xs * unat x)" by simp
    finally show "B32 * B32 ^ length xs \<le> 2 * (mp_val xs + B32 ^ length xs * unat x)"
      unfolding distrib_left by (rule trans_le_add2)
  next
    assume A: "B32 * B32 ^ length xs \<le> 2 * (mp_val xs + B32 ^ length xs * unat x)"
    have "2 * (mp_val xs + B32 ^ length xs * unat x) < 2 * (B32 ^ length xs * (unat x + 1))"
      using mp_val_bound[of xs] by simp
    moreover have "2 * (B32 ^ length xs * (unat x + 1)) = B32 ^ length xs * (2 * (unat x + 1))"
      by (rule mult.left_commute)
    ultimately have "B32 ^ length xs * B32 < B32 ^ length xs * (2 * (unat x + 1))"
      using A by (simp only: mult.commute[of "B32 ^ length xs" B32])
    then have "B32 < 2 * (unat x + 1)" by (simp only: mult_less_cancel1)
    then show "B32 \<le> 2 * unat x" by simp
  qed
  also have "\<dots> \<longleftrightarrow> int (B32 ^ length a) \<le> int (2 * mp_val a)"
    unfolding of_nat_le_iff by (simp add: a)
  also have "\<dots> \<longleftrightarrow> mp_mod (length a) \<le> 2 * int (mp_val a)"
    unfolding int_B32_pow by simp
  finally have "B32 \<le> 2 * unat x \<longleftrightarrow> mp_mod (length a) \<le> 2 * int (mp_val a)" .
  then show ?thesis unfolding a js_bigint_sign_snoc drop_bit_31_cases by simp
qed

lemma big_val_cases:
  assumes "a \<noteq> []"
  shows "big_val a = int (mp_val a) -
    (if mp_mod (length a) \<le> 2 * int (mp_val a) then mp_mod (length a) else 0)"
  using js_bigint_sign_cases[OF assms] by (simp add: big_val_def)

lemma big_val_bounds:
  assumes "a \<noteq> []"
  shows "- mp_mod (length a) \<le> 2 * big_val a" "2 * big_val a < mp_mod (length a)"
proof -
  have "0 \<le> int (mp_val a)" by simp
  with mp_val_less_mod[of a]
  have "- mp_mod (length a) \<le> 2 * big_val a \<and> 2 * big_val a < mp_mod (length a)"
    by (cases "mp_mod (length a) \<le> 2 * int (mp_val a)") (simp_all add: big_val_cases[OF assms])
  then show "- mp_mod (length a) \<le> 2 * big_val a" "2 * big_val a < mp_mod (length a)" by blast+
qed

lemma big_val_mod: "big_val a mod mp_mod (length a) = int (mp_val a)"
proof -
  have "int (mp_val a) mod mp_mod (length a) = int (mp_val a)"
    using mp_val_less_mod[of a] by (simp add: mod_pos_pos_trivial)
  then show ?thesis by (simp add: big_val_def)
qed

lemma mp_mod_unique:
  fixes v w :: int
  assumes "v mod m = w mod m" and "- m \<le> 2 * v" "2 * v < m" and "- m \<le> 2 * w" "2 * w < m"
  shows "v = w"
proof -
  have d: "m dvd v - w" using assms(1) unfolding mod_eq_dvd_iff .
  have "\<bar>v - w\<bar> < m" using assms(2-) by linarith
  moreover have "\<bar>m\<bar> \<le> \<bar>v - w\<bar>" if "v - w \<noteq> 0" using dvd_imp_le_int[OF that d] .
  ultimately show ?thesis by force
qed

lemma big_val_eqI:
  assumes "a \<noteq> []" and "int (mp_val a) = v mod mp_mod (length a)"
    and "- mp_mod (length a) \<le> 2 * v" "2 * v < mp_mod (length a)"
  shows "big_val a = v"
  by (rule mp_mod_unique[OF trans[OF big_val_mod assms(2)] big_val_bounds[OF assms(1)] assms(3,4)])

lemma big_val_inj:
  assumes "big_val a = big_val b" and "length a = length b"
  shows "a = b"
proof -
  have "int (mp_val a) = int (mp_val b)"
    using big_val_mod[of a] big_val_mod[of b] assms by simp
  then show ?thesis using assms(2) by (simp add: mp_val_eq_iff)
qed

lemma sign_big_val: "a \<noteq> [] \<Longrightarrow> js_bigint_sign a = (if big_val a < 0 then 1 else 0)"
  using mp_val_less_mod[of a]
  by (cases "mp_mod (length a) \<le> 2 * int (mp_val a)") (simp_all add: js_bigint_sign_cases big_val_cases)

lemma int_unat_minus_1: "int (unat (- 1 :: u32)) = 4294967295"
  by (simp add: unsigned_minus_1_eq_mask mask_eq_exp_minus_1)

lemma sign_0_or_1: "js_bigint_sign a = 0 \<or> js_bigint_sign a = 1"
  by (simp add: js_bigint_sign_def drop_bit_31_cases)

lemma int_mp_val_snoc: "int (mp_val (xs @ [x])) = int (mp_val xs) + mp_mod (length xs) * int (unat x)"
  unfolding mp_val_snoc of_nat_add of_nat_mult int_B32_pow ..

section \<open>Normal forms\<close>

text \<open>A top limb is redundant when it repeats the sign of the limbs below it.\<close>

lemma redundant_limb_iff:
  assumes "xs \<noteq> []"
  shows "(x \<noteq> 0 \<and> x \<noteq> - 1) \<or> x AND 1 \<noteq> drop_bit 31 (xs ! (length xs - 1)) \<longleftrightarrow> x \<noteq> - js_bigint_sign xs"
  using sign_0_or_1[of xs] by (auto simp: js_bigint_sign_def)

lemma sign_sign_ext: "js_bigint_sign (xs @ [- js_bigint_sign xs]) = js_bigint_sign xs"
  using sign_0_or_1[of xs] by (auto simp: js_bigint_sign_snoc drop_bit_31_cases
      unsigned_minus_1_eq_mask mask_eq_exp_minus_1)

lemma big_val_sign_ext:
  assumes "xs \<noteq> []"
  shows "big_val (xs @ [- js_bigint_sign xs]) = big_val xs"
proof -
  note s = sign_sign_ext[of xs]
  show ?thesis
  proof (cases "js_bigint_sign xs = 0")
    case True
    then show ?thesis unfolding big_val_def s int_mp_val_snoc by simp
  next
    case False
    then have 1: "js_bigint_sign xs = 1" using sign_0_or_1[of xs] by simp
    have "big_val (xs @ [- 1]) = int (mp_val xs) + mp_mod (length xs) * 4294967295 - mp_mod (Suc (length xs))"
      using s 1 by (simp only: big_val_def int_mp_val_snoc int_unat_minus_1) simp
    then show ?thesis using 1 by (simp add: big_val_def mp_mod_Suc)
  qed
qed

lemma big_val_snoc_mod: "big_val (xs @ [x]) mod mp_mod (length xs) = int (mp_val xs)"
proof -
  have "big_val (xs @ [x]) = int (mp_val xs) + mp_mod (length xs) *
      (int (unat x) - (if js_bigint_sign (xs @ [x]) \<noteq> 0 then 4294967296 else 0))"
    by (simp only: big_val_def int_mp_val_snoc length_append_singleton mp_mod_Suc)
      (simp add: algebra_simps)
  moreover have "int (mp_val xs) mod mp_mod (length xs) = int (mp_val xs)"
    using mp_val_less_mod[of xs] by (simp add: mod_pos_pos_trivial)
  ultimately show ?thesis by simp
qed

lemma redundant_if_fits:
  assumes "xs \<noteq> []" and "- mp_mod (length xs) \<le> 2 * big_val (xs @ [x])"
    and "2 * big_val (xs @ [x]) < mp_mod (length xs)"
  shows "x = - js_bigint_sign xs"
proof -
  have "big_val xs = big_val (xs @ [x])"
    by (rule big_val_eqI[OF assms(1) _ assms(2,3)]) (simp only: big_val_snoc_mod)
  then have "xs @ [x] = xs @ [- js_bigint_sign xs]"
    using big_val_sign_ext[OF assms(1)] by (intro big_val_inj) simp_all
  then show ?thesis by simp
qed

lemma normalize_len_props:
  assumes "1 \<le> l" "l \<le> length a"
  shows "1 \<le> normalize_len a l \<and> normalize_len a l \<le> l \<and>
    big_val (take (normalize_len a l) a) = big_val (take l a) \<and> big_ok (take (normalize_len a l) a)"
  using assms
proof (induction a l rule: normalize_len.induct)
  case (1 tab l)
  let ?xs = "take (Suc l) tab" and ?x = "tab ! Suc l"
  have tk: "take (Suc (Suc l)) tab = ?xs @ [?x]" "?xs \<noteq> []" "length ?xs = Suc l"
    using 1(3) by (auto simp: take_Suc_conv_app_nth)
  have top: "?xs ! (length ?xs - 1) = tab ! l" using 1(3) by simp
  note iff = redundant_limb_iff[OF tk(2), of ?x, unfolded top]
  show ?case
  proof (cases "?x = - js_bigint_sign ?xs")
    case True
    then have "normalize_len tab (Suc (Suc l)) = normalize_len tab (Suc l)" using iff by auto
    with 1(1)[OF refl] iff True 1(3) show ?thesis
      using big_val_sign_ext[OF tk(2)] unfolding tk(1) by auto
  next
    case False
    then have n: "normalize_len tab (Suc (Suc l)) = Suc (Suc l)" using iff by auto
    let ?t = "?xs @ [?x]"
    have "normalize_len ?t (Suc (Suc l)) = Suc (Suc l)"
      using False iff tk(3) top 1(3) by (auto simp: nth_append)
    then have "big_ok ?t" using tk(3) by (simp add: big_ok_def)
    then show ?thesis unfolding n tk(1) using 1(3) by simp
  qed
qed (auto simp: big_ok_def)

lemma big_ok_not_Nil: "big_ok a \<Longrightarrow> a \<noteq> []"
  by (simp add: big_ok_def)

lemma normalize1_val:
  assumes "1 \<le> l" "l \<le> length a"
  shows "big_ok (js_bigint_normalize1 a l) \<and> big_val (js_bigint_normalize1 a l) = big_val (take l a)
    \<and> length (js_bigint_normalize1 a l) \<le> l"
  using normalize_len_props[OF assms] by (auto simp: js_bigint_normalize1_def)

lemma normalize_val:
  assumes "a \<noteq> []"
  shows "big_ok (js_bigint_normalize a) \<and> big_val (js_bigint_normalize a) = big_val a
    \<and> length (js_bigint_normalize a) \<le> length a"
  using normalize1_val[of "length a" a] assms by (simp add: js_bigint_normalize_def Suc_le_eq)

lemma big_ok_snoc_iff:
  assumes "xs \<noteq> []"
  shows "big_ok (xs @ [x]) \<longleftrightarrow> x \<noteq> - js_bigint_sign xs"
proof -
  obtain l where l: "length xs = Suc l" using assms by (cases xs) auto
  have "normalize_len (xs @ [x]) (length (xs @ [x])) =
      (if x \<noteq> - js_bigint_sign xs then Suc (Suc l) else normalize_len (xs @ [x]) (Suc l))"
    using redundant_limb_iff[OF assms, of x] l by (auto simp: nth_append)
  moreover have "normalize_len (xs @ [x]) (Suc l) \<le> Suc l"
    using normalize_len_props[of "Suc l" "xs @ [x]"] l by simp
  ultimately show ?thesis using l by (auto simp: big_ok_def)
qed

text \<open>A normalised number of more than one limb does not fit in one limb less.\<close>

lemma big_ok_large:
  assumes "big_ok a" and "length a = Suc n" "1 \<le> n"
  shows "\<not> (- mp_mod n \<le> 2 * big_val a \<and> 2 * big_val a < mp_mod n)"
proof -
  obtain xs x where a: "a = xs @ [x]" using assms(2) by (cases a rule: rev_cases) auto
  then have xs: "length xs = n" "xs \<noteq> []" using assms by auto
  show ?thesis using redundant_if_fits[OF xs(2), of x] assms(1) xs a by (auto simp: big_ok_snoc_iff)
qed

lemma mp_mod_mono: "m \<le> n \<Longrightarrow> mp_mod m \<le> mp_mod n"
  by (simp add: mp_mod_def)

lemma big_ok_length_le:
  assumes "big_ok a" "b \<noteq> []" "big_val a = big_val b"
  shows "length a \<le> length b"
proof (rule ccontr)
  assume "\<not> length a \<le> length b"
  then obtain n where n: "length a = Suc n" "length b \<le> n" by (cases "length a") auto
  then have "1 \<le> n" using assms(2) by (cases b) auto
  from big_ok_large[OF assms(1) n(1) this] big_val_bounds[OF assms(2)] mp_mod_mono[OF n(2)]
  show False unfolding assms(3) by linarith
qed

lemma big_ok_unique:
  assumes "big_ok a" "big_ok b" "big_val a = big_val b"
  shows "a = b"
  using assms big_ok_length_le[of a b] big_ok_length_le[of b a]
  by (intro big_val_inj) (simp_all add: big_ok_not_Nil)

end
