(* ===== verification/Big_Arith.thy ===== *)
theory Big_Arith
  imports Big_Int
begin

text \<open>
  What the \<open>js_bigint_*\<close> operations compute. Each one either returns a normalised array whose
  value is that of the integer operation, or fails: with \<open>RangeError\<close> exactly when it asks for more
  than \<open>JS_BIGINT_MAX_SIZE\<close> limbs, and with \<open>OutOfMemory\<close> only if the context refuses some
  allocation (\<open>yields\<close>). The contents of fresh blocks are arbitrary throughout.
\<close>

section \<open>Results\<close>

definition yields :: "js_ctx \<Rightarrow> nat \<Rightarrow> js_result \<Rightarrow> int \<Rightarrow> bool" where
  "yields ctx n r v \<longleftrightarrow>
     (if n > JS_BIGINT_MAX_SIZE then r = Inl (RangeError ''BigInt is too large to allocate'')
      else (\<exists>x. r = Inr x \<and> big_ok x \<and> big_val x = v) \<or>
        r = Inl OutOfMemory \<and> (\<exists>k. \<not> can_alloc ctx k))"

lemma js_bigint_new_yields:
  assumes "\<And>r. length r = n \<Longrightarrow> n \<le> JS_BIGINT_MAX_SIZE \<Longrightarrow> yields ctx n (f r) v"
  shows "yields ctx n (bind_err (js_bigint_new ctx n) f) v"
  using assms by (auto simp: js_bigint_new_def js_malloc_def yields_def not_le)

lemma yields_Inr:
  "n \<le> JS_BIGINT_MAX_SIZE \<Longrightarrow> big_ok x \<Longrightarrow> big_val x = v \<Longrightarrow> yields ctx n (Inr x) v"
  by (simp add: yields_def)

lemma js_bigint_extend_yields:
  assumes "r \<noteq> []" and "n \<le> JS_BIGINT_MAX_SIZE" and "big_val (r @ [t]) = v"
  shows "yields ctx n (js_bigint_extend ctx r t) v"
proof -
  note iff = redundant_limb_iff[OF assms(1), of t]
  show ?thesis
  proof (cases "t = - js_bigint_sign r")
    case True
    then have "js_bigint_extend ctx r t = Inr (js_bigint_normalize r)"
      using iff by (auto simp: js_bigint_extend_def Let_def)
    then show ?thesis
      using normalize_val[OF assms(1)] big_val_sign_ext[OF assms(1)] True assms(2,3)
      by (simp add: yields_Inr)
  next
    case False
    then have "js_bigint_extend ctx r t =
        (if can_alloc ctx (sizeof_JSBigInt + (length r + 1) * 4) then Inr (r @ [t]) else Inl OutOfMemory)"
      using iff by (auto simp: js_bigint_extend_def Let_def)
    then show ?thesis
      using False assms big_ok_snoc_iff[OF assms(1), of t] by (auto simp: yields_def)
  qed
qed

subsection \<open>Sign extension and complement\<close>

definition sext :: "nat \<Rightarrow> js_bigint \<Rightarrow> js_bigint" where
  "sext n a = a @ replicate (n - length a) (- js_bigint_sign a)"

lemma length_sext [simp]: "length a \<le> n \<Longrightarrow> length (sext n a) = n"
  by (simp add: sext_def)

lemma sext_nth: "i < n \<Longrightarrow> sext n a ! i = (if i < length a then a ! i else - js_bigint_sign a)"
  by (simp add: sext_def nth_append)

lemma big_val_replicate_sign:
  assumes "a \<noteq> []"
  shows "big_val (a @ replicate k (- js_bigint_sign a)) = big_val a \<and>
    js_bigint_sign (a @ replicate k (- js_bigint_sign a)) = js_bigint_sign a"
proof (induction k)
  case (Suc k)
  let ?b = "a @ replicate k (- js_bigint_sign a)"
  have e: "a @ replicate (Suc k) (- js_bigint_sign a) = ?b @ [- js_bigint_sign ?b]"
    using Suc by (simp only: append_assoc replicate_Suc append_Cons replicate_append_same)
  have "?b \<noteq> []" using assms by simp
  from big_val_sign_ext[OF this] Suc show ?case unfolding e sign_sign_ext by metis
qed simp

lemma big_val_sext: "a \<noteq> [] \<Longrightarrow> big_val (sext n a) = big_val a"
  and sign_sext: "a \<noteq> [] \<Longrightarrow> js_bigint_sign (sext n a) = js_bigint_sign a"
  using big_val_replicate_sign by (simp_all add: sext_def)

lemma mp_val_map_NOT: "int (mp_val (map (\<lambda>x. NOT x) b)) = mp_mod (length b) - 1 - int (mp_val b)"
proof (induction b)
  case (Cons x b)
  have "int (unat (NOT x)) = 4294967295 - int (unat x)"
    by (simp add: unat_NOT_u32 of_nat_diff)
  with Cons show ?case by (simp add: mp_mod_Suc)
qed simp

lemma mp_mod_even: "1 \<le> n \<Longrightarrow> even (mp_mod n)"
  by (cases n) (simp_all add: mp_mod_Suc)

lemma big_val_map_NOT:
  assumes "b \<noteq> []"
  shows "big_val (map (\<lambda>x. NOT x) b) = - big_val b - 1"
proof (rule big_val_eqI)
  have "- big_val b - 1 = (mp_mod (length b) - 1 - int (mp_val b)) +
      mp_mod (length b) * (if js_bigint_sign b \<noteq> 0 then 0 else - 1)"
    by (simp add: big_val_def)
  moreover have "(mp_mod (length b) - 1 - int (mp_val b)) mod mp_mod (length b)
      = mp_mod (length b) - 1 - int (mp_val b)"
    using mp_val_less_mod[of b] by (intro mod_pos_pos_trivial) simp_all
  ultimately show "int (mp_val (map (\<lambda>x. NOT x) b)) = (- big_val b - 1) mod mp_mod (length (map (\<lambda>x. NOT x) b))"
    by (simp only: mp_val_map_NOT length_map mod_mult_self2)
  obtain k where k: "mp_mod (length b) = 2 * k"
    using mp_mod_even[of "length b"] assms by (auto elim: evenE simp: Suc_le_eq)
  show "- mp_mod (length (map (\<lambda>x. NOT x) b)) \<le> 2 * (- big_val b - 1)"
    "2 * (- big_val b - 1) < mp_mod (length (map (\<lambda>x. NOT x) b))"
    using big_val_bounds[OF assms] k by simp_all
qed (use assms in simp)

lemma minus_1_XOR: "- 1 XOR x = NOT (x :: u32)" "x XOR - 1 = NOT x"
  by simp_all

text \<open>The second operand of an addition or subtraction.\<close>

lemma addend:
  fixes neg :: bool
  assumes "b \<noteq> []"
  defines "bx \<equiv> map (\<lambda>x. x XOR (- of_bool neg)) b"
  shows "big_val bx + of_bool neg = (if neg then - big_val b else big_val b)" and "length bx = length b"
    and "- js_bigint_sign bx = (- js_bigint_sign b) XOR (- of_bool neg)" and "bx \<noteq> []"
proof -
  show "bx \<noteq> []" "length bx = length b" using assms by (simp_all add: bx_def)
  have v: "big_val bx = (if neg then - big_val b - 1 else big_val b)"
    using big_val_map_NOT[OF assms(1)] by (simp add: bx_def)
  then show "big_val bx + of_bool neg = (if neg then - big_val b else big_val b)" by simp
  show "- js_bigint_sign bx = (- js_bigint_sign b) XOR (- of_bool neg)"
    using v sign_big_val[OF \<open>bx \<noteq> []\<close>] sign_big_val[OF assms(1)] by auto
qed

section \<open>Addition\<close>

lemma addc_loop_mp_add: "addc_loop ops c = js_mp_add (map fst ops) (map snd ops) c"
  by (induction ops c rule: addc_loop.induct) (simp_all split: prod.splits)

lemma addc_loop_append:
  "addc_loop (xs @ ys) c = (let (r1, c1) = addc_loop xs c; (r2, c2) = addc_loop ys c1 in (r1 @ r2, c2))"
  by (induction xs c rule: addc_loop.induct) (simp_all split: prod.splits)

lemma length_addc_loop: "length (fst (addc_loop ops c)) = length ops"
  by (induction ops arbitrary: c) (auto simp: case_prod_beta Let_def)

lemma mod_sum_eq: "(x mod m + y mod m + c + m * k) mod m = (x + y + c) mod m" for m :: int
proof -
  have "x mod m + y mod m + c + m * k = x + y + c + m * (k - x div m - y div m)"
    using mult_div_mod_eq[of m x] mult_div_mod_eq[of m y] unfolding right_diff_distrib by linarith
  then show ?thesis by (simp only: mod_mult_self2)
qed

lemma sum_bounds:
  assumes c: "(c::int) \<le> 1" "0 \<le> c" and M: "1 \<le> M" and A: "-M \<le> 2*A" "2*A<M" and B: "-M\<le>2*B" "2*B<M" and K: "4 * M \<le> K"
  shows "-K \<le> 2*(A+B+c)" "2*(A+B+c) < K"
proof -
  have e: "2*(A+B+c) = 2*A + 2*B + 2*c" by simp
  have "-M + -M + 0 \<le> 2*A + 2*B + 2*c" using A B c by (intro add_mono) auto
  moreover have "- K \<le> - M + -M + 0" using M K by linarith
  ultimately show "-K \<le> 2*(A+B+c)" unfolding e by (rule order_trans[rotated])
  have "2*A + 2*B + 2*c < M + M + 2" using A B c by (intro add_less_le_mono add_strict_mono) auto
  moreover have "M + M + 2 \<le> K" using M K by linarith
  ultimately show "2*(A+B+c) < K" unfolding e by (rule less_le_trans)
qed

text \<open>Two sign-extended operands and a carry: the sum with one more limb on top.\<close>

lemma big_val_sum:
  assumes "a \<noteq> []" "b \<noteq> []" "length a = length b" and "unat c \<le> 1"
    and add: "js_mp_add a b c = (r, c')"
  shows "big_val (r @ [- js_bigint_sign a + - js_bigint_sign b + c']) = big_val a + big_val b + int (unat c)"
    and "r \<noteq> []"
proof -
  let ?n = "length a" and ?sa = "- js_bigint_sign a" and ?sb = "- js_bigint_sign b"
  note A = js_mp_add_val[OF add assms(3,4)]
  have lr: "length r = ?n" using A by simp
  then show "r \<noteq> []" using assms(1) by (cases r) auto
  let ?t = "?sa + ?sb + c'"
  let ?S = "unat ?sa + unat ?sb + unat c'"
  have ut: "int (unat ?t) = int ?S - 4294967296 * int (?S div B32)"
  proof -
    have "unat ?t = ?S mod B32" by (simp only: unat_word_ariths(1) mod_add_left_eq) simp
    then have "unat ?t + B32 * (?S div B32) = ?S" by (simp only: mod_mult_div_eq)
    then show ?thesis by linarith
  qed
  have V: "int (mp_val r) + mp_mod ?n * int (unat c') = int (mp_val a) + int (mp_val b) + int (unat c)"
    using A by (simp only: int_B32_pow[symmetric] of_nat_add[symmetric] of_nat_mult[symmetric] of_nat_eq_iff)
  have as: "int (mp_val a) + mp_mod ?n * int (unat ?sa) = big_val a mod mp_mod (Suc ?n)"
    using big_val_mod[of "a @ [?sa]"] big_val_sign_ext[OF assms(1)]
    by (simp only: length_append_singleton int_mp_val_snoc)
  have bs: "int (mp_val b) + mp_mod ?n * int (unat ?sb) = big_val b mod mp_mod (Suc ?n)"
    using big_val_mod[of "b @ [?sb]"] big_val_sign_ext[OF assms(2)] assms(3)
    by (simp only: length_append_singleton int_mp_val_snoc)
  have "mp_mod ?n * int (unat ?t) = mp_mod ?n * int ?S - mp_mod (Suc ?n) * int (?S div B32)"
    unfolding ut mp_mod_Suc right_diff_distrib by (simp only: ac_simps)
  moreover have "mp_mod ?n * int ?S =
      mp_mod ?n * int (unat ?sa) + mp_mod ?n * int (unat ?sb) + mp_mod ?n * int (unat c')"
    by (simp only: of_nat_add distrib_left)
  ultimately have "int (mp_val (r @ [?t])) = (big_val a mod mp_mod (Suc ?n) + big_val b mod mp_mod (Suc ?n) + int (unat c))
      + mp_mod (Suc ?n) * (- int (?S div B32))"
    using V as bs unfolding int_mp_val_snoc lr mult_minus_right by linarith
  then have "int (mp_val (r @ [?t])) mod mp_mod (Suc ?n) = (big_val a + big_val b + int (unat c)) mod mp_mod (Suc ?n)"
    by (simp only: mod_sum_eq)
  moreover have "int (mp_val (r @ [?t])) mod mp_mod (Suc ?n) = int (mp_val (r @ [?t]))"
    using mp_val_less_mod[of "r @ [?t]"] lr by (intro mod_pos_pos_trivial) simp_all
  ultimately have "int (mp_val (r @ [?t])) = (big_val a + big_val b + int (unat c)) mod mp_mod (length (r @ [?t]))"
    using lr by simp
  then show "big_val (r @ [?t]) = big_val a + big_val b + int (unat c)"
  proof (rule big_val_eqI[rotated])
    have c: "int (unat c) \<le> 1" "0 \<le> int (unat c)" using assms(4) by linarith+
    have L: "mp_mod (length (r @ [?t])) = 4294967296 * mp_mod ?n" using lr by (simp add: mp_mod_Suc)
    have M: "1 \<le> mp_mod ?n" using mp_mod_pos[of ?n] by linarith
    have K: "4 * mp_mod ?n \<le> 4294967296 * mp_mod ?n" by simp
    note * = sum_bounds[OF c M big_val_bounds[OF assms(1)] big_val_bounds[OF assms(2), folded assms(3)] K]
    show "- mp_mod (length (r @ [?t])) \<le> 2 * (big_val a + big_val b + int (unat c))"
      "2 * (big_val a + big_val b + int (unat c)) < mp_mod (length (r @ [?t]))"
      unfolding L by (fact *)+
  qed simp
qed

lemma js_bigint_add_yields:
  assumes "big_ok a" "big_ok b"
  shows "yields ctx (max (length a) (length b)) (js_bigint_add ctx a b neg)
    (if neg then big_val a - big_val b else big_val a + big_val b)"
proof -
  let ?n1 = "min (length a) (length b)" and ?n2 = "max (length a) (length b)"
  define m :: u32 where "m = - of_bool neg"
  define bx where "bx = map (\<lambda>x. x XOR m) b"
  have ne: "a \<noteq> []" "b \<noteq> []" using assms by (simp_all add: big_ok_not_Nil)
  note bx = addend[OF ne(2), of neg, folded m_def, folded bx_def]
  let ?A = "sext ?n2 a" and ?B = "sext ?n2 bx"
  let ?as = "- js_bigint_sign a" and ?bs = "(- js_bigint_sign b) XOR m"
  define hi where "hi = (if length a > length b then map (\<lambda>i. (a ! i, ?bs)) [?n1..<?n2]
    else if length a < length b then map (\<lambda>i. (?as, b ! i XOR m)) [?n1..<?n2] else [])"
  define lo where "lo = map (\<lambda>i. (a ! i, b ! i XOR m)) [0..<?n1]"
  have ops: "lo @ hi = map (\<lambda>i. (?A ! i, ?B ! i)) [0..<?n2]"
  proof (rule nth_equalityI)
    show "length (lo @ hi) = length (map (\<lambda>i. (?A ! i, ?B ! i)) [0..<?n2])"
      by (auto simp: lo_def hi_def)
    fix i assume "i < length (lo @ hi)"
    then show "(lo @ hi) ! i = map (\<lambda>i. (?A ! i, ?B ! i)) [0..<?n2] ! i"
      using bx(2,3) by (auto simp: lo_def hi_def nth_append sext_nth bx_def split: if_splits)
  qed
  have fs: "map fst (lo @ hi) = ?A" "map snd (lo @ hi) = ?B"
    unfolding ops using bx(2) by (auto intro!: nth_equalityI simp: comp_def)
  obtain r1 c1 where r1: "addc_loop lo (of_bool neg) = (r1, c1)" by fastforce
  obtain r2 c2 where r2: "addc_loop hi c1 = (r2, c2)" by fastforce
  have l1: "length r1 = ?n1" using length_addc_loop[of lo "of_bool neg"] r1 by (simp add: lo_def)
  have l2: "length r2 = ?n2 - ?n1" using length_addc_loop[of hi c1] r2 by (auto simp: hi_def)
  have "js_mp_add ?A ?B (of_bool neg) = (r1 @ r2, c2)"
    using addc_loop_append[of lo hi "of_bool neg"] r1 r2
    by (simp add: addc_loop_mp_add fs flip: map_append)
  then have sum: "big_val ((r1 @ r2) @ [?as + ?bs + c2]) = big_val a + (big_val bx + of_bool neg)"
    and ne12: "r1 @ r2 \<noteq> []"
  proof -
    assume add: "js_mp_add ?A ?B (of_bool neg) = (r1 @ r2, c2)"
    have n: "?A \<noteq> []" "?B \<noteq> []" using ne bx(4) by (simp_all add: sext_def)
    have l: "length ?A = length ?B" using bx(2) by simp
    have c: "unat (of_bool neg :: u32) \<le> 1" by simp
    note S = big_val_sum[OF n l c add]
    show "r1 @ r2 \<noteq> []" by (rule S(2))
    show "big_val ((r1 @ r2) @ [?as + ?bs + c2]) = big_val a + (big_val bx + of_bool neg)"
      using S(1) unfolding big_val_sext[OF ne(1)] big_val_sext[OF bx(4)] sign_sext[OF ne(1)]
        sign_sext[OF bx(4)] bx(3) by simp
  qed
  let ?v = "if neg then big_val a - big_val b else big_val a + big_val b"
  have "js_bigint_add ctx a b neg = bind_err (js_bigint_new ctx ?n2)
      (\<lambda>r. js_bigint_extend ctx (blit (blit r 0 r1) ?n1 r2) (?as + ?bs + c2))"
  proof -
    have hi: "(if length a > length b then addc_loop (map (\<lambda>i. (a ! i, ?bs)) [?n1..<?n2]) c
        else if length a < length b then addc_loop (map (\<lambda>i. (?as, b ! i XOR m)) [?n1..<?n2]) c
        else ([], c)) = addc_loop hi c" for c
      by (simp add: hi_def)
    show ?thesis
      unfolding js_bigint_add_def m_def[symmetric] max_int_eq min_int_eq of_nat_max[symmetric]
        of_nat_min[symmetric] nat_int Let_def lo_def[symmetric] hi r1 r2 prod.case ..
  qed
  also have "yields ctx ?n2 \<dots> ?v"
  proof (rule js_bigint_new_yields)
    fix r :: js_bigint assume r: "length r = ?n2" "?n2 \<le> JS_BIGINT_MAX_SIZE"
    have "blit (blit r 0 r1) ?n1 r2 = r1 @ r2" using r(1) l1 l2 by (simp add: blit_def)
    then show "yields ctx ?n2 (js_bigint_extend ctx (blit (blit r 0 r1) ?n1 r2) (?as + ?bs + c2)) ?v"
      using js_bigint_extend_yields[OF ne12 r(2), of "?as + ?bs + c2"] sum bx(1) by simp
  qed
  finally show ?thesis .
qed

lemma js_bigint_neg_yields:
  assumes "big_ok a"
  shows "yields ctx (length a) (js_bigint_neg ctx a) (- big_val a)"
proof -
  have "big_ok [0]" "big_val [0] = 0" by (simp_all add: big_ok_def big_val_def js_bigint_sign_def)
  moreover have "max 1 (length a) = length a" using big_ok_not_Nil[OF assms] by (cases a) auto
  ultimately show ?thesis
    using js_bigint_add_yields[of "[0]" a ctx True] assms
    by (simp add: js_bigint_neg_def js_bigint_set_si_def)
qed

section \<open>Complement and bitwise operations\<close>

lemma js_bigint_not_yields:
  assumes "big_ok a"
  shows "yields ctx (length a) (js_bigint_not ctx a) (NOT (big_val a))"
  unfolding js_bigint_not_def
proof (rule js_bigint_new_yields)
  fix r :: js_bigint assume r: "length r = length a" "length a \<le> JS_BIGINT_MAX_SIZE"
  let ?n = "map (\<lambda>x. NOT x) a"
  have ne: "a \<noteq> []" using assms by (rule big_ok_not_Nil)
  have v: "big_val ?n = NOT (big_val a)"
    using big_val_map_NOT[OF ne] by (simp add: not_int_def)
  have "big_ok ?n"
  proof (cases "length a = 1")
    case True
    then show ?thesis by (cases a) (auto simp: big_ok_def)
  next
    case False
    then obtain xs x where a: "a = xs @ [x]" "xs \<noteq> []"
      using ne by (cases a rule: rev_cases) auto
    have "x \<noteq> - js_bigint_sign xs" using assms a by (simp add: big_ok_snoc_iff)
    moreover have "- js_bigint_sign (map (\<lambda>x. NOT x) xs) = NOT (- js_bigint_sign xs)"
      using addend(3)[OF a(2), of True] by simp
    ultimately have "NOT x \<noteq> - js_bigint_sign (map (\<lambda>x. NOT x) xs)" by simp
    then show ?thesis using a by (simp add: big_ok_snoc_iff)
  qed
  moreover have "blit r 0 ?n = ?n" using r by (simp add: blit_def)
  ultimately show "yields ctx (length a) (Inr (blit r 0 ?n)) (NOT (big_val a))"
    using v r by (simp add: yields_Inr)
qed

text \<open>The bits of the integer, the sign repeated for ever.\<close>

lemma bit_mp_val: "bit (mp_val a) i = (i < 32 * length a \<and> bit (a ! (i div 32)) (i mod 32))"
proof (induction a arbitrary: i)
  case (Cons x a)
  let ?n = "unat x + B32 * mp_val a"
  have tb: "take_bit 32 ?n = unat x" by (simp add: take_bit_eq_mod)
  have db: "drop_bit 32 ?n = mp_val a" by (simp add: drop_bit_eq_div)
  show ?case
  proof (cases "i < 32")
    case True
    then have "bit ?n i = bit (take_bit 32 ?n) i" by (simp add: bit_take_bit_iff)
    also have "\<dots> = bit x i" unfolding tb using True by (simp add: bit_unsigned_iff)
    finally show ?thesis using True by simp
  next
    case False
    then have "bit ?n i = bit (drop_bit 32 ?n) (i - 32)" by (simp add: bit_drop_bit_eq)
    also have "\<dots> = bit (mp_val a) (i - 32)" unfolding db ..
    finally show ?thesis using False Cons[of "i - 32"] by (simp add: le_div_geq le_mod_geq) linarith
  qed
qed simp

lemma bit_big_val:
  assumes "a \<noteq> []"
  shows "bit (big_val a) i =
    (if i < 32 * length a then bit (a ! (i div 32)) (i mod 32) else js_bigint_sign a \<noteq> 0)"
proof (cases "i < 32 * length a")
  case True
  have "take_bit (32 * length a) (big_val a) = int (mp_val a)"
    using big_val_mod[of a] by (simp add: take_bit_eq_mod mp_mod_def)
  then have "bit (big_val a) i = bit (int (mp_val a)) i"
    using True by (metis bit_take_bit_iff)
  then show ?thesis using True by (simp add: bit_mp_val bit_of_nat_iff_bit)
next
  case False
  then have m: "mp_mod (length a) \<le> 2 ^ i" by (simp add: mp_mod_def)
  have "bit (big_val a) i = odd (big_val a div 2 ^ i)" by (rule bit_iff_odd)
  moreover have "big_val a div 2 ^ i = (if big_val a < 0 then - 1 else 0)"
  proof (cases "big_val a < 0")
    case True
    have "0 \<le> big_val a + 2 ^ i" using big_val_bounds(1)[OF assms] m True by linarith
    then show ?thesis using True int_div_pos_eq[of "big_val a" "2 ^ i" "- 1" "big_val a + 2 ^ i"] by simp
  next
    case F: False
    have "big_val a < 2 ^ i" using big_val_bounds(2)[OF assms] m F by linarith
    then show ?thesis using F by (simp add: div_pos_pos_trivial)
  qed
  ultimately show ?thesis using False sign_big_val[OF assms] by simp
qed

fun int_op :: "logic_op \<Rightarrow> int \<Rightarrow> int \<Rightarrow> int" where
  "int_op OP_or x y = x OR y"
| "int_op OP_and x y = x AND y"
| "int_op OP_xor x y = x XOR y"

lemma bit_ops_agree:
  assumes "\<And>i. bit (u :: int) i = bit (int_op op x y) i"
  shows "u = int_op op x y"
  using assms by (simp add: bit_eq_iff)

lemma int_op_commute: "int_op op x y = int_op op y x"
  by (cases op) (simp_all add: or.commute and.commute xor.commute)

lemma limb_op_commute: "limb_op op x y = limb_op op y x"
  by (cases op) (simp_all add: or.commute and.commute xor.commute)

lemma sign_mask_bit: "i < 32 \<Longrightarrow> bit (- js_bigint_sign a) i = (js_bigint_sign a \<noteq> 0)"
  using sign_0_or_1[of a] by auto

lemma big_val_limb_op:
  assumes "length b \<le> length a" and "b \<noteq> []"
    and c: "c = map (\<lambda>i. limb_op op (a ! i) (if i < length b then b ! i else - js_bigint_sign b)) [0..<length a]"
  shows "big_val c = int_op op (big_val a) (big_val b)"
proof (rule bit_ops_agree)
  have ne: "a \<noteq> []" "c \<noteq> []" and lc: "length c = length a" using assms by auto
  let ?B = "sext (length a) b"
  have B: "big_val ?B = big_val b" "?B \<noteq> []" "length ?B = length a"
    using assms(1,2) by (simp_all add: big_val_sext) (simp add: sext_def)
  have cn: "c ! i = limb_op op (a ! i) (?B ! i)" if "i < length a" for i
    using that assms(1) by (simp add: c sext_nth)
  have bit_op: "bit (limb_op op x y) j = bit (int_op op u v) k"
    if "bit x j = bit u k" "bit y j = bit v k" "j < 32" for x y j u v k
    using that by (cases op) (simp_all add: bit_or_iff bit_and_iff bit_xor_iff)
  have top: "(js_bigint_sign z \<noteq> 0) = bit (z ! (length z - 1)) 31" if "z \<noteq> []" for z
    by (simp add: js_bigint_sign_def drop_bit_31_cases bit_31_iff)
  fix i
  show "bit (big_val c) i = bit (int_op op (big_val a) (big_val b)) i"
  proof (cases "i < 32 * length a")
    case True
    then have "i div 32 < length a" by (simp add: div_less_iff_less_mult mult.commute)
    then show ?thesis
      using True bit_big_val[OF ne(1), of i] bit_big_val[OF ne(2), of i] bit_big_val[OF B(2), of i] lc B(1,3)
      by (simp add: cn bit_op)
  next
    case False
    have "bit (c ! (length a - 1)) 31 = bit (int_op op (big_val a) (big_val b)) i"
      using ne cn[of "length a - 1"] top[OF ne(1)] top[OF B(2)] False
        bit_big_val[OF ne(1), of i] bit_big_val[OF B(2), of i] B(1,3)
      by (simp add: bit_op)
    then show ?thesis using top[OF ne(2)] bit_big_val[OF ne(2), of i] False lc by simp
  qed
qed

lemma js_bigint_logic_yields:
  assumes "big_ok a" "big_ok b"
  shows "yields ctx (max (length a) (length b)) (js_bigint_logic ctx a b op)
    (int_op op (big_val a) (big_val b))"
proof -
  have main: "yields ctx (length a) (js_bigint_logic ctx a b op) (int_op op (big_val a) (big_val b))"
    if le: "length b \<le> length a" and ok: "big_ok a" "big_ok b" for a b
  proof -
    let ?lo = "map (\<lambda>i. limb_op op (a ! i) (b ! i)) [0..<length b]"
    let ?hi = "map (\<lambda>i. limb_op op (a ! i) (- js_bigint_sign b)) [length b..<length a]"
    have ne: "a \<noteq> []" "b \<noteq> []" using ok by (simp_all add: big_ok_not_Nil)
    have c: "?lo @ ?hi = map (\<lambda>i. limb_op op (a ! i) (if i < length b then b ! i else - js_bigint_sign b)) [0..<length a]"
      using le by (auto intro!: nth_equalityI simp: nth_append)
    have "js_bigint_logic ctx a b op = bind_err (js_bigint_new ctx (length a))
        (\<lambda>r. Inr (js_bigint_normalize (blit (blit r 0 ?lo) (length b) ?hi)))"
      using le by (simp add: js_bigint_logic_def Let_def)
    also have "yields ctx (length a) \<dots> (int_op op (big_val a) (big_val b))"
    proof (rule js_bigint_new_yields)
      fix r :: js_bigint assume r: "length r = length a" "length a \<le> JS_BIGINT_MAX_SIZE"
      have "blit (blit r 0 ?lo) (length b) ?hi = ?lo @ ?hi" using r le by (simp add: blit_def)
      moreover have "?lo @ ?hi \<noteq> []" using ne by simp
      ultimately show "yields ctx (length a)
          (Inr (js_bigint_normalize (blit (blit r 0 ?lo) (length b) ?hi))) (int_op op (big_val a) (big_val b))"
        using normalize_val[of "?lo @ ?hi"] big_val_limb_op[OF le ne(2) c] r(2)
        by (simp add: yields_Inr)
    qed
    finally show ?thesis .
  qed
  show ?thesis
  proof (cases "length a < length b")
    case True
    have "js_bigint_logic ctx a b op = js_bigint_logic ctx b a op"
      using True by (simp add: js_bigint_logic_def)
    then show ?thesis using main[of a b] True assms int_op_commute[of op] by (simp add: max_def)
  next
    case False
    then show ?thesis using main[of b a] assms by (simp add: max_def)
  qed
qed

section \<open>Multiplication\<close>

lemma sub_high_limbs:
  assumes "length r = k + length b"
  defines "r' \<equiv> blit r k (fst (js_mp_sub (drop k r) b 0))"
  shows "length r' = length r"
    and "int (mp_val r') mod mp_mod (length r) = (int (mp_val r) - mp_mod k * int (mp_val b)) mod mp_mod (length r)"
proof -
  obtain s c where s: "js_mp_sub (drop k r) b 0 = (s, c)" by fastforce
  have l: "length (drop k r) = length b" using assms(1) by simp
  note S = js_mp_sub_val[OF s l]
  have ls: "length s = length b" using S l by simp
  show "length r' = length r" using ls assms(1) s by (simp add: r'_def)
  have "mp_val s + mp_val b = mp_val (drop k r) + B32 ^ length b * unat c" using S l by simp
  then have V: "int (mp_val s) = int (mp_val (drop k r)) + mp_mod (length b) * int (unat c) - int (mp_val b)"
    by (simp only: int_B32_pow[symmetric] of_nat_add[symmetric] of_nat_mult[symmetric])
  have r: "int (mp_val r) = int (mp_val (take k r)) + mp_mod k * int (mp_val (drop k r))"
    using mp_val_take_drop[of k r] assms(1)
    by (simp only: int_B32_pow[symmetric] of_nat_add[symmetric] of_nat_mult[symmetric] le_add1)
  have "r' = take k r @ s" using s ls assms(1) by (simp add: r'_def blit_def)
  then have "int (mp_val r') = int (mp_val (take k r)) + mp_mod k * int (mp_val s)"
    using assms(1) by (simp only: mp_val_append int_B32_pow of_nat_add of_nat_mult length_take) simp
  also have "\<dots> = (int (mp_val r) - mp_mod k * int (mp_val b)) + mp_mod (length r) * int (unat c)"
    unfolding V r assms(1) mp_mod_add by (simp only: right_diff_distrib distrib_left mult.assoc)
  finally show "int (mp_val r') mod mp_mod (length r) = (int (mp_val r) - mp_mod k * int (mp_val b)) mod mp_mod (length r)"
    by (simp only: mod_mult_self2)
qed

lemma big_val_mult_bounds:
  assumes "a \<noteq> []" "b \<noteq> []"
  shows "- mp_mod (length a + length b) \<le> 2 * (big_val a * big_val b)"
    "2 * (big_val a * big_val b) < mp_mod (length a + length b)"
proof -
  have "\<bar>2 * big_val a\<bar> \<le> mp_mod (length a)" "\<bar>2 * big_val b\<bar> \<le> mp_mod (length b)"
    using big_val_bounds[OF assms(1)] big_val_bounds[OF assms(2)] by linarith+
  then have "\<bar>2 * big_val a\<bar> * \<bar>2 * big_val b\<bar> \<le> mp_mod (length a) * mp_mod (length b)"
    by (intro mult_mono) simp_all
  then have "2 * \<bar>2 * (big_val a * big_val b)\<bar> \<le> mp_mod (length a + length b)"
    by (simp add: mp_mod_add abs_mult)
  moreover have "0 < mp_mod (length a + length b)" by simp
  ultimately show "- mp_mod (length a + length b) \<le> 2 * (big_val a * big_val b)"
    "2 * (big_val a * big_val b) < mp_mod (length a + length b)" by linarith+
qed

lemma big_val_eq_sub:
  "big_val a = int (mp_val a) - mp_mod (length a) * int (unat (js_bigint_sign a))"
  using sign_0_or_1[of a] by (auto simp: big_val_def)

lemma js_bigint_mul_yields:
  assumes "big_ok a" "big_ok b"
  shows "yields ctx (length a + length b) (js_bigint_mul ctx a b) (big_val a * big_val b)"
  unfolding js_bigint_mul_def
proof (rule js_bigint_new_yields)
  let ?na = "length a" and ?nb = "length b"
  let ?M = "mp_mod (?na + ?nb)"
  fix r :: js_bigint assume r: "length r = ?na + ?nb" "?na + ?nb \<le> JS_BIGINT_MAX_SIZE"
  have ne: "a \<noteq> []" "b \<noteq> []" using assms by (simp_all add: big_ok_not_Nil)
  define r1 where "r1 = js_mp_mul_basecase r a b"
  define r2 where "r2 = (if js_bigint_sign a \<noteq> 0
    then blit r1 ?na (fst (js_mp_sub (drop ?na r1) b 0)) else r1)"
  define r3 where "r3 = (if js_bigint_sign b \<noteq> 0
    then blit r2 ?nb (fst (js_mp_sub (drop ?nb r2) a 0)) else r2)"
  have r1: "mp_val r1 = mp_val a * mp_val b" "length r1 = ?na + ?nb"
    using js_mp_mul_basecase_val[OF r(1) ne(2)] r(1) by (simp_all add: r1_def)
  let ?ua = "int (mp_val a)" and ?ub = "int (mp_val b)"
  let ?sa = "int (unat (js_bigint_sign a))" and ?sb = "int (unat (js_bigint_sign b))"
  have s1: "x \<noteq> 0 \<Longrightarrow> x = js_bigint_sign y \<Longrightarrow> int (unat x) = 1" for x y
    using sign_0_or_1[of y] by auto
  have r2: "int (mp_val r2) mod ?M = (?ua * ?ub - mp_mod ?na * ?ub * ?sa) mod ?M" "length r2 = ?na + ?nb"
    using sub_high_limbs[of r1 ?na b] r1 s1[of "js_bigint_sign a" a] by (auto simp: r2_def)
  have r3: "int (mp_val r3) mod ?M = (int (mp_val r2) - mp_mod ?nb * ?ua * ?sb) mod ?M" "length r3 = ?na + ?nb"
    using sub_high_limbs[of r2 ?nb a] r2(2) s1[of "js_bigint_sign b" b] by (auto simp: r3_def add.commute)
  have "int (mp_val r3) = int (mp_val r3) mod ?M"
    using mp_val_less_mod[of r3] r3(2) by (simp add: mod_pos_pos_trivial)
  also have "\<dots> = (?ua * ?ub - mp_mod ?na * ?ub * ?sa - mp_mod ?nb * ?ua * ?sb) mod ?M"
    unfolding r3(1) by (rule mod_diff_cong[OF r2(1) refl])
  also have "?ua * ?ub - mp_mod ?na * ?ub * ?sa - mp_mod ?nb * ?ua * ?sb
      = big_val a * big_val b + ?M * (- ?sa * ?sb)"
    unfolding big_val_eq_sub mp_mod_add by (simp add: algebra_simps)
  also have "\<dots> mod ?M = (big_val a * big_val b) mod ?M" by (rule mod_mult_self2)
  finally have "big_val r3 = big_val a * big_val b"
    using big_val_mult_bounds[OF ne] r3(2) ne by (intro big_val_eqI) auto
  moreover have n3: "r3 \<noteq> []" using r3(2) ne by auto
  ultimately show "yields ctx (?na + ?nb) (let r = js_mp_mul_basecase r a b;
      r = (if js_bigint_sign a \<noteq> 0 then blit r (length a) (fst (js_mp_sub (drop (length a) r) b 0)) else r);
      r = (if js_bigint_sign b \<noteq> 0 then blit r (length b) (fst (js_mp_sub (drop (length b) r) a 0)) else r)
    in Inr (js_bigint_normalize r)) (big_val a * big_val b)"
    using normalize_val[OF n3] r(2)
    by (simp only: Let_def r1_def[symmetric] r2_def[symmetric] r3_def[symmetric] yields_Inr)
qed

section \<open>Shifts\<close>

lemma mp_mod_nonzero: "mp_mod n \<noteq> 0"
  using mp_mod_pos[of n] by linarith

lemma sign_append: "ys \<noteq> [] \<Longrightarrow> js_bigint_sign (xs @ ys) = js_bigint_sign ys"
  by (cases ys rule: rev_cases) (simp_all add: js_bigint_sign_def nth_append)

lemma big_val_append:
  assumes "ys \<noteq> []"
  shows "big_val (xs @ ys) = int (mp_val xs) + mp_mod (length xs) * big_val ys"
  unfolding big_val_eq_sub sign_append[OF assms] mp_val_append length_append mp_mod_add
    of_nat_add of_nat_mult int_B32_pow by (simp add: algebra_simps)

lemma big_val_drop:
  assumes "d < length a"
  shows "big_val (drop d a) = big_val a div mp_mod d" and "js_bigint_sign (drop d a) = js_bigint_sign a"
proof -
  have ne: "drop d a \<noteq> []" using assms by simp
  have l: "length (take d a) = d" using assms by simp
  have "big_val a = int (mp_val (take d a)) + mp_mod d * big_val (drop d a)"
    using big_val_append[OF ne, of "take d a"] l by simp
  moreover have "int (mp_val (take d a)) div mp_mod d = 0"
    using mp_val_less_mod[of "take d a"] l by (simp add: div_pos_pos_trivial)
  ultimately show "big_val (drop d a) = big_val a div mp_mod d"
    using div_mult_self2[OF mp_mod_nonzero[of d], of "int (mp_val (take d a))" "big_val (drop d a)"] by simp
  show "js_bigint_sign (drop d a) = js_bigint_sign a"
    using sign_append[OF ne, of "take d a"] by simp
qed

lemma big_ok_append_zeros:
  assumes "big_ok a" "big_val a \<noteq> 0"
  shows "big_ok (replicate d 0 @ a)"
proof -
  obtain xs x where a: "a = xs @ [x]" using big_ok_not_Nil[OF assms(1)] by (cases a rule: rev_cases) auto
  show ?thesis
  proof (cases "xs = []")
    case True
    have "x \<noteq> 0" using assms(2) a True by (auto simp: big_val_def js_bigint_sign_def)
    moreover have "js_bigint_sign (replicate d 0) = 0" if "d \<noteq> 0"
      using that by (simp add: js_bigint_sign_def)
    ultimately show ?thesis
      using assms(1) a True big_ok_snoc_iff[of "replicate d 0" x] by (cases "d = 0") auto
  next
    case False
    then have "x \<noteq> - js_bigint_sign (replicate d 0 @ xs)"
      using assms(1) a big_ok_snoc_iff[OF False, of x] by (simp add: sign_append)
    then show ?thesis using big_ok_snoc_iff[of "replicate d 0 @ xs" x] False a by simp
  qed
qed

lemma big_ok_drop:
  assumes "big_ok a" "d < length a"
  shows "big_ok (drop d a)"
proof -
  obtain xs x where a: "a = xs @ [x]" using big_ok_not_Nil[OF assms(1)] by (cases a rule: rev_cases) auto
  show ?thesis
  proof (cases "d < length xs")
    case False
    then have "drop d a = [x]" using a assms(2) by simp
    then show ?thesis by (simp add: big_ok_def)
  next
    case True
    then have "js_bigint_sign (drop d xs) = js_bigint_sign xs" by (rule big_val_drop(2))
    moreover have "xs \<noteq> []" "drop d xs \<noteq> []" using True by auto
    ultimately show ?thesis
      using assms(1) a True big_ok_snoc_iff[of xs x] big_ok_snoc_iff[of "drop d xs" x] by simp
  qed
qed

lemma unat_minus_1_mod:
  assumes "k \<le> 32"
  shows "unat (- 1 :: u32) mod 2 ^ k = 2 ^ k - 1"
proof -
  have P: "(2 :: nat) ^ k * 2 ^ (32 - k) = B32" "(2 :: nat) ^ k \<le> B32"
    using pow32_split[OF assms] power_increasing[OF assms, of "2 :: nat"] by (simp_all add: mult.commute)
  have "unat (- 1 :: u32) = B32 - 1"
    by (simp add: unsigned_minus_1_eq_mask mask_eq_exp_minus_1)
  also have "\<dots> = (2 ^ k - 1) + (2 ^ (32 - k) - 1) * 2 ^ k"
  proof -
    have "(2 ^ (32 - k) - 1) * 2 ^ k = B32 - (2 :: nat) ^ k"
      unfolding diff_mult_distrib mult.commute[of "2 ^ (32 - k)"] P(1) by simp
    moreover have "(1 :: nat) \<le> 2 ^ k" by simp
    ultimately show ?thesis using P(2) by linarith
  qed
  finally show ?thesis by (simp only: mod_mult_self1) simp
qed

lemma unat_or_high_ones:
  assumes "unat (l :: u32) < 2 ^ k" and "k < 32"
  shows "int (unat (l OR push_bit k (- 1))) = int (unat l) + 4294967296 - 2 ^ k"
proof -
  have "unat (- 1 :: u32) * 2 ^ k mod B32 = (unat (- 1 :: u32) mod 2 ^ (32 - k)) * 2 ^ k"
    using pow32_mod[of "32 - k" "unat (- 1 :: u32)"] assms(2) by simp
  then have u: "unat (push_bit k (- 1 :: u32)) = (unat (- 1 :: u32) mod 2 ^ (32 - k)) * 2 ^ k"
    by (simp only: unat_push_bit_u32)
  have "(unat (- 1 :: u32) mod 2 ^ (32 - k)) = 2 ^ (32 - k) - 1"
    by (rule unat_minus_1_mod) simp
  with u have "unat (l OR push_bit k (- 1)) = (2 ^ (32 - k) - 1) * 2 ^ k + unat l"
    using nat_or_add[OF assms(1), of "2 ^ (32 - k) - 1"] by (simp add: unsigned_or_eq or.commute)
  also have "(2 ^ (32 - k) - 1) * 2 ^ k = B32 - 2 ^ k"
    using pow32_split[of k] assms(2) by (simp add: diff_mult_distrib)
  finally show ?thesis
  proof -
    assume e: "unat (l OR push_bit k (- 1)) = B32 - 2 ^ k + unat l"
    have "(2::nat) ^ k \<le> 2 ^ 32" using assms(2) by (intro power_increasing) simp_all
    with e show ?thesis by (simp add: of_nat_diff)
  qed
qed

lemma big_val_shl_limb:
  assumes "js_mp_shl a k = (seg, l)" and "a \<noteq> []" "0 < k" "k < 32"
  shows "big_val (seg @ [if js_bigint_sign a \<noteq> 0 then l OR push_bit k (- 1) else l]) = big_val a * 2 ^ k"
    and "length seg = length a"
proof -
  let ?n = "length a" and ?l = "if js_bigint_sign a \<noteq> 0 then l OR push_bit k (- 1) else l"
  note S = js_mp_shl_val[OF assms(1,4)]
  show ls: "length seg = ?n" using S by simp
  have V: "int (mp_val seg) + mp_mod ?n * int (unat l) = int (mp_val a) * 2 ^ k"
    using arg_cong[OF conjunct1[OF S], of int] unfolding of_nat_add of_nat_mult int_B32_pow by simp
  have ul: "int (unat ?l) = int (unat l) + int (unat (js_bigint_sign a)) * (4294967296 - 2 ^ k)"
    using unat_or_high_ones[of l k] S assms(4) sign_0_or_1[of a] by auto
  have e: "int (mp_val (seg @ [?l])) = big_val a * 2 ^ k + mp_mod (Suc ?n) * int (unat (js_bigint_sign a))"
    unfolding int_mp_val_snoc ls ul mp_mod_Suc using V unfolding big_val_eq_sub[of a]
    by (simp add: algebra_simps)
  have b: "- mp_mod (Suc ?n) \<le> 2 * (big_val a * 2 ^ k)" "2 * (big_val a * 2 ^ k) < mp_mod (Suc ?n)"
  proof -
    have "(2::int) ^ k \<le> 2 ^ 31" using assms(4) by (intro power_increasing) simp_all
    then have k: "(2::int) ^ k \<le> 2147483648" "0 < (2::int) ^ k" by simp_all
    have "\<bar>2 * big_val a\<bar> \<le> mp_mod ?n" using big_val_bounds[OF assms(2)] by linarith
    then have "\<bar>2 * big_val a\<bar> * 2 ^ k \<le> mp_mod ?n * 2147483648" using k by (intro mult_mono) simp_all
    then have "\<bar>2 * (big_val a * 2 ^ k)\<bar> \<le> mp_mod ?n * 2147483648" by (simp add: abs_mult)
    moreover have "mp_mod ?n * 2147483648 < mp_mod (Suc ?n)" by (simp add: mp_mod_Suc)
    ultimately show "- mp_mod (Suc ?n) \<le> 2 * (big_val a * 2 ^ k)" "2 * (big_val a * 2 ^ k) < mp_mod (Suc ?n)"
      by linarith+
  qed
  show "big_val (seg @ [?l]) = big_val a * 2 ^ k"
  proof (rule big_val_eqI)
    have "int (mp_val (seg @ [?l])) = int (mp_val (seg @ [?l])) mod mp_mod (Suc ?n)"
      using mp_val_less_mod[of "seg @ [?l]"] ls by (intro mod_pos_pos_trivial[symmetric]) simp_all
    also have "\<dots> = big_val a * 2 ^ k mod mp_mod (Suc ?n)" unfolding e by (rule mod_mult_self2)
    finally show "int (mp_val (seg @ [?l])) = big_val a * 2 ^ k mod mp_mod (length (seg @ [?l]))"
      using ls by (simp only: length_append_singleton)
  qed (use b ls in simp_all)
qed

lemma big_val_0_iff: "big_ok a \<Longrightarrow> big_val a = 0 \<longleftrightarrow> length a = 1 \<and> a ! 0 = 0"
proof -
  assume ok: "big_ok a"
  have "big_ok [0]" "big_val [0] = 0" by (simp_all add: big_ok_def big_val_def js_bigint_sign_def)
  then have "big_val a = 0 \<longleftrightarrow> a = [0]" using big_ok_unique[OF ok, of "[0]"] by auto
  also have "\<dots> \<longleftrightarrow> length a = 1 \<and> a ! 0 = 0" by (cases a) auto
  finally show ?thesis .
qed

lemma js_bigint_new_si_yields:
  assumes "x = 0 \<and> v = 0 \<or> x = 1 \<and> v = 1 \<or> x = - 1 \<and> v = - 1"
  shows "yields ctx 1 (js_bigint_new_si ctx x) v"
  unfolding js_bigint_new_si_def
proof (rule js_bigint_new_yields)
  fix r :: js_bigint assume r: "length r = 1" "1 \<le> JS_BIGINT_MAX_SIZE"
  have "big_val [x] = v"
    using assms by (auto simp: big_val_def js_bigint_sign_def drop_bit_31_cases mp_mod_Suc
        unsigned_minus_1_eq_mask mask_eq_exp_minus_1)
  moreover have "r[0 := x] = [x]" using r(1) by (cases r) auto
  ultimately show "yields ctx 1 (Inr (r[0 := x])) v"
    using r(2) by (simp add: yields_Inr big_ok_def)
qed

lemma js_bigint_shl_yields:
  assumes "big_ok a"
  shows "yields ctx (if big_val a = 0 then 1 else length a + s div 32) (js_bigint_shl ctx a s)
    (big_val a * 2 ^ s)"
proof (cases "big_val a = 0")
  case True
  then show ?thesis
    using js_bigint_new_si_yields[of 0 0 ctx] big_val_0_iff[OF assms] by (simp add: js_bigint_shl_def)
next
  case False
  let ?d = "s div 32" and ?k = "s mod 32"
  have ne: "a \<noteq> []" using assms by (rule big_ok_not_Nil)
  have z: "\<not> (length a = 1 \<and> a ! 0 = 0)" using False big_val_0_iff[OF assms] by simp
  have pow: "big_val a * 2 ^ s = mp_mod ?d * (big_val a * 2 ^ ?k)"
  proof -
    have "(2 :: int) ^ s = 2 ^ (32 * ?d + ?k)" by simp
    then show ?thesis by (simp only: power_add mp_mod_def ac_simps)
  qed
  have zeros: "big_val (replicate ?d 0 @ xs) = mp_mod ?d * big_val xs" if "xs \<noteq> []" for xs
    using big_val_append[OF that, of "replicate ?d 0"] by simp
  show ?thesis
    unfolding js_bigint_shl_def JS_LIMB_BITS_def Let_def if_not_P[OF z] if_not_P[OF False]
  proof (rule js_bigint_new_yields)
    fix r :: js_bigint assume r: "length r = length a + ?d" "length a + ?d \<le> JS_BIGINT_MAX_SIZE"
    have b: "blit (blit r 0 (replicate ?d 0)) ?d xs = replicate ?d 0 @ xs" if "length xs = length a" for xs
      using r(1) that by (simp add: blit_def)
    show "yields ctx (length a + ?d)
       (if ?k = 0 then Inr (blit (blit r 0 (replicate ?d 0)) ?d a)
        else case js_mp_shl a ?k of (seg, l) \<Rightarrow>
          js_bigint_extend ctx (blit (blit r 0 (replicate ?d 0)) ?d seg)
            (if js_bigint_sign a \<noteq> 0 then l OR push_bit ?k (- 1) else l)) (big_val a * 2 ^ s)"
    proof (cases "?k = 0")
      case True
      have "big_val (replicate ?d 0 @ a) = big_val a * 2 ^ s"
        unfolding pow zeros[OF ne] True by simp
      then show ?thesis
        using b[of a] big_ok_append_zeros[OF assms False] r(2) True
        by (simp only: yields_Inr if_True refl)
    next
      case k: False
      obtain seg l where s: "js_mp_shl a ?k = (seg, l)" by fastforce
      have "?k < 32" by simp
      note V = big_val_shl_limb[OF s ne _ this]
      have seg: "seg \<noteq> []" using V(2) k ne by auto
      have "big_val ((replicate ?d 0 @ seg) @ [if js_bigint_sign a \<noteq> 0 then l OR push_bit ?k (- 1) else l])
          = big_val a * 2 ^ s"
        using V(1) k unfolding append_assoc pow by (subst zeros) simp_all
      with js_bigint_extend_yields[OF _ r(2) this] show ?thesis
        using k s seg V(2) by (simp add: b)
    qed
  qed
qed

lemma big_val_shr_limbs:
  assumes "js_mp_shr a k (- js_bigint_sign a) = (res, rem)" and "a \<noteq> []" "1 \<le> k" "k < 32"
  shows "big_val res = big_val a div 2 ^ k" and "res \<noteq> []" "length res = length a"
proof -
  let ?n = "length a" and ?s = "int (unat (js_bigint_sign a))"
  note S = js_mp_shr_val[OF assms(1,3,4)]
  show lr: "length res = ?n" using S by simp
  then show "res \<noteq> []" using assms(2) by auto
  have m: "int (unat (- js_bigint_sign a) mod 2 ^ k) = ?s * (2 ^ k - 1)"
  proof (cases "js_bigint_sign a = 0")
    case False
    then have 1: "js_bigint_sign a = 1" using sign_0_or_1[of a] by simp
    have "unat (- 1 :: u32) mod 2 ^ k = 2 ^ k - 1" using assms(4) by (intro unat_minus_1_mod) simp
    then show ?thesis by (simp add: 1 of_nat_diff)
  qed simp
  have "int (mp_val res) * 2 ^ k + int (unat rem) = int (mp_val a) + mp_mod ?n * (?s * (2 ^ k - 1))"
    using arg_cong[OF conjunct1[OF S], of int] unfolding of_nat_add of_nat_mult int_B32_pow m by simp
  then have e: "(int (mp_val res) - mp_mod ?n * ?s) * 2 ^ k + int (unat rem) = big_val a"
    unfolding big_val_eq_sub[of a] by (simp add: algebra_simps)
  have r: "0 \<le> int (unat rem)" "int (unat rem) < 2 ^ k"
    using S by (simp_all only: of_nat_0_le_iff) (metis S of_nat_less_numeral_power_cancel_iff of_nat_less_iff of_nat_numeral of_nat_power)
  have q: "big_val a div 2 ^ k = int (mp_val res) - mp_mod ?n * ?s"
    using e r by (intro int_div_pos_eq) (simp_all add: mult.commute)
  have "int (mp_val res) = int (mp_val res) mod mp_mod ?n"
    using mp_val_less_mod[of res] lr by (intro mod_pos_pos_trivial[symmetric]) simp_all
  also have "\<dots> = (big_val a div 2 ^ k) mod mp_mod ?n"
    unfolding q using mod_mult_self2[of "int (mp_val res)" "mp_mod ?n" "- ?s"] by simp
  finally have v: "int (mp_val res) = (big_val a div 2 ^ k) mod mp_mod (length res)" using lr by simp
  have lo: "- mp_mod ?n \<le> 2 * (big_val a div 2 ^ k)" and hi: "2 * (big_val a div 2 ^ k) < mp_mod ?n"
  proof -
    obtain h where h: "mp_mod ?n = 2 * h" using mp_mod_even[of ?n] assms(2) by (auto simp: Suc_le_eq elim: evenE)
    have p: "(1 :: int) \<le> 2 ^ k" by simp
    have b: "- h \<le> big_val a" "big_val a < h" using big_val_bounds[OF assms(2)] unfolding h by linarith+
    have h0: "0 < h" using h mp_mod_pos[of ?n] by linarith
    have "- h = (- h * 2 ^ k) div 2 ^ k"
      by (rule nonzero_mult_div_cancel_right[symmetric]) simp
    also have "- h * 2 ^ k \<le> - h" using h0 p by simp
    then have "(- h * 2 ^ k) div 2 ^ k \<le> big_val a div 2 ^ k" using b(1) by (intro zdiv_mono1) simp_all
    finally have "- h \<le> big_val a div 2 ^ k" .
    then show "- mp_mod ?n \<le> 2 * (big_val a div 2 ^ k)" unfolding h by linarith
    have "big_val a div 2 ^ k < h"
    proof (cases "0 \<le> big_val a")
      case True
      then have "big_val a div 2 ^ k \<le> big_val a div 1" by (intro zdiv_mono2) simp_all
      then show ?thesis using b(2) by simp
    next
      case False
      then have "big_val a div 2 ^ k < 0" by (simp add: pos_imp_zdiv_neg_iff)
      then show ?thesis using h0 by linarith
    qed
    then show "2 * (big_val a div 2 ^ k) < mp_mod ?n" unfolding h by linarith
  qed
  show "big_val res = big_val a div 2 ^ k"
    using big_val_eqI[OF \<open>res \<noteq> []\<close> v] lo hi lr by simp
qed

lemma js_bigint_shr_yields:
  assumes "big_ok a"
  shows "yields ctx (max 1 (length a - s div 32)) (js_bigint_shr ctx a s) (big_val a div 2 ^ s)"
proof -
  let ?d = "s div 32" and ?k = "s mod 32"
  have ne: "a \<noteq> []" using assms by (rule big_ok_not_Nil)
  have pow: "(2 :: int) ^ s = mp_mod ?d * 2 ^ ?k"
  proof -
    have "(2 :: int) ^ s = 2 ^ (32 * ?d + ?k)" by simp
    then show ?thesis by (simp only: power_add mp_mod_def)
  qed
  show ?thesis
  proof (cases "?d \<ge> length a")
    case True
    have "mp_mod (length a) \<le> 2 ^ s"
      unfolding mp_mod_def using True by (intro power_increasing) (simp_all add: less_eq_div_iff_mult_less_eq mult.commute)
    with big_val_bounds[OF ne] have b: "- (2 ^ s) \<le> 2 * big_val a" "2 * big_val a < 2 ^ s" by linarith+
    have "big_val a div 2 ^ s = (if big_val a < 0 then - 1 else 0)"
    proof (cases "big_val a < 0")
      case True
      then have "0 \<le> big_val a + 2 ^ s" using b by linarith
      then show ?thesis using True int_div_pos_eq[of "big_val a" "2 ^ s" "- 1" "big_val a + 2 ^ s"] by simp
    next
      case F: False
      then have "big_val a < 2 ^ s" using b by linarith
      then show ?thesis using F by (simp add: div_pos_pos_trivial)
    qed
    then have "yields ctx 1 (js_bigint_new_si ctx (- js_bigint_sign a)) (big_val a div 2 ^ s)"
      by (intro js_bigint_new_si_yields) (simp add: sign_big_val[OF ne])
    then show ?thesis using True by (simp add: js_bigint_shr_def JS_LIMB_BITS_def)
  next
    case False
    let ?x = "drop ?d a"
    have d: "?d < length a" using False by simp
    have x: "?x \<noteq> []" "length ?x = length a - ?d" using d by simp_all
    have m: "max 1 (length a - ?d) = length a - ?d" using d by simp
    have dv: "big_val a div 2 ^ s = big_val ?x div 2 ^ ?k"
      unfolding pow big_val_drop(1)[OF d] by (rule zdiv_zmult2_eq) simp
    show ?thesis
      unfolding js_bigint_shr_def JS_LIMB_BITS_def Let_def if_not_P[OF False] m
    proof (rule js_bigint_new_yields)
      fix r :: js_bigint assume r: "length r = length a - ?d" "length a - ?d \<le> JS_BIGINT_MAX_SIZE"
      have b: "blit r 0 xs = xs" if "length xs = length a - ?d" for xs
        using that r(1) by (simp add: blit_def)
      obtain res rem where s: "js_mp_shr ?x ?k (- js_bigint_sign a) = (res, rem)" by fastforce
      note s' = s[folded big_val_drop(2)[OF d]]
      show "yields ctx (length a - ?d) (if ?k = 0 then Inr (blit r 0 ?x)
        else Inr (js_bigint_normalize (blit r 0 (fst (js_mp_shr ?x ?k (- js_bigint_sign a))))))
        (big_val a div 2 ^ s)"
      proof (cases "?k = 0")
        case True
        then show ?thesis using b[of ?x] x big_ok_drop[OF assms d] r(2) dv by (simp add: yields_Inr)
      next
        case k: False
        then have "1 \<le> ?k" "?k < 32" by simp_all
        note V = big_val_shr_limbs[OF s' x(1) this]
        then show ?thesis
          using k s normalize_val[OF V(2)] r(2) dv x(2) by (simp add: yields_Inr b)
      qed
    qed
  qed
qed

section \<open>Comparison\<close>

lemma cmp_limbs_rev:
  assumes "length xs = length ys"
  shows "cmp_limbs (rev xs) (rev ys) =
    (if mp_val xs < mp_val ys then - 1 else if mp_val xs = mp_val ys then 0 else 1)"
  using assms
proof (induction xs arbitrary: ys rule: rev_induct)
  case (snoc x xs)
  then obtain y ys1 where ys: "ys = ys1 @ [y]" "length ys1 = length xs"
    by (cases ys rule: rev_cases) auto
  consider "x < y" | "y < x" | "x = y" by fastforce
  then show ?case
  proof cases
    case 1
    with ys mp_val_snoc_less[of xs ys1 x y] show ?thesis by auto
  next
    case 2
    with ys mp_val_snoc_less[of ys1 xs y x] show ?thesis by auto
  next
    case 3
    with ys snoc.IH[of ys1] show ?thesis by simp
  qed
qed simp

text \<open>A normalised number fills all of its limbs.\<close>

lemma big_val_large:
  assumes "big_ok a" and "big_val a \<noteq> 0"
  shows "mp_mod (length a - 1) \<le> 2 * \<bar>big_val a\<bar>"
    and "0 \<le> big_val a \<Longrightarrow> mp_mod (length a - 1) \<le> 2 * big_val a"
    and "big_val a < 0 \<Longrightarrow> length a \<noteq> 1 \<Longrightarrow> 2 * big_val a < - mp_mod (length a - 1)"
proof -
  have L: "\<not> (- mp_mod (length a - 1) \<le> 2 * big_val a \<and> 2 * big_val a < mp_mod (length a - 1))"
    if "length a \<noteq> 1"
    using big_ok_large[OF assms(1), of "length a - 1"] that big_ok_not_Nil[OF assms(1)]
    by (cases a) (auto simp: Suc_le_eq)
  show "mp_mod (length a - 1) \<le> 2 * \<bar>big_val a\<bar>"
    "0 \<le> big_val a \<Longrightarrow> mp_mod (length a - 1) \<le> 2 * big_val a"
    using L assms(2) mp_mod_pos[of "length a - 1"] by (cases "length a = 1"; simp; linarith)+
  show "big_val a < 0 \<Longrightarrow> length a \<noteq> 1 \<Longrightarrow> 2 * big_val a < - mp_mod (length a - 1)"
    using L mp_mod_pos[of "length a - 1"] by linarith
qed

lemma longer_is_larger:
  assumes ok: "big_ok a" "big_ok b" and len: "length a < length b"
  shows "0 \<le> big_val a \<Longrightarrow> 0 \<le> big_val b \<Longrightarrow> big_val a < big_val b"
    and "big_val a < 0 \<Longrightarrow> big_val b < 0 \<Longrightarrow> big_val b < big_val a"
proof -
  have ne: "a \<noteq> []" using ok(1) by (rule big_ok_not_Nil)
  then have b1: "length b \<noteq> 1" using len by (cases a) auto
  have m: "mp_mod (length a) \<le> mp_mod (length b - 1)" using len by (intro mp_mod_mono) simp
  show "0 \<le> big_val a \<Longrightarrow> 0 \<le> big_val b \<Longrightarrow> big_val a < big_val b"
  proof (cases "big_val b = 0")
    case True
    then have "length b = 1" using big_val_0_iff[OF ok(2)] by simp
    with b1 show ?thesis by simp
  next
    case False
    assume "0 \<le> big_val b"
    with big_val_large(2)[OF ok(2) False] m big_val_bounds(2)[OF ne] show ?thesis by linarith
  qed
  show "big_val a < 0 \<Longrightarrow> big_val b < 0 \<Longrightarrow> big_val b < big_val a"
    using big_val_large(3)[OF ok(2)] b1 m big_val_bounds(1)[OF ne] by linarith
qed

definition cmp_spec :: "int \<Rightarrow> int \<Rightarrow> int" where
  "cmp_spec x y = (if x < y then - 1 else if x = y then 0 else 1)"

lemma js_bigint_cmp_val:
  assumes ok: "big_ok a" "big_ok b"
  shows "js_bigint_cmp a b = cmp_spec (big_val a) (big_val b)"
proof -
  have ne: "a \<noteq> []" "b \<noteq> []" using ok by (simp_all add: big_ok_not_Nil)
  note s = sign_big_val[OF ne(1)] sign_big_val[OF ne(2)]
  consider "(big_val a < 0) \<noteq> (big_val b < 0)" | "(big_val a < 0) = (big_val b < 0)" "length a < length b"
    | "(big_val a < 0) = (big_val b < 0)" "length b < length a"
    | "(big_val a < 0) = (big_val b < 0)" "length a = length b" by linarith
  then show ?thesis
  proof cases
    case 1
    then show ?thesis using s by (auto simp: js_bigint_cmp_def cmp_spec_def)
  next
    case 2
    then show ?thesis using s longer_is_larger[OF ok 2(2)]
      by (cases "big_val a < 0") (simp_all add: js_bigint_cmp_def cmp_spec_def)
  next
    case 3
    then show ?thesis using s longer_is_larger[OF ok(2,1) 3(2)]
      by (cases "big_val a < 0") (simp_all add: js_bigint_cmp_def cmp_spec_def)
  next
    case 4
    then have eq: "js_bigint_sign a = js_bigint_sign b" using s by simp
    then have "js_bigint_cmp a b = cmp_limbs (rev a) (rev b)"
      using 4 by (simp add: js_bigint_cmp_def)
    then show ?thesis
      using eq 4(2) cmp_limbs_rev[OF 4(2)] by (simp add: cmp_spec_def big_val_eq_sub)
  qed
qed

section \<open>Small integers\<close>

lemma big_val_single: "big_val [x] = sint x"
proof (rule big_val_eqI)
  have "uint x = sint x mod 4294967296"
    using uint_sint[of x] by (simp add: take_bit_eq_mod)
  then show "int (mp_val [x]) = sint x mod mp_mod (length [x])" by (simp add: mp_mod_Suc)
  show "- mp_mod (length [x]) \<le> 2 * sint x" "2 * sint x < mp_mod (length [x])"
    using sint_ge[of x] sint_lt[of x] by (simp_all add: mp_mod_Suc)
qed simp

lemma ucast_signed_hi: "ucast (signed_drop_bit 32 (a :: u64)) = (ucast (drop_bit 32 a) :: u32)"
  by (rule bit_word_eqI) (auto simp: bit_ucast_iff bit_signed_drop_bit_iff bit_drop_bit_eq)

lemma big_val_pair: "big_val [ucast a, ucast (signed_drop_bit 32 (a :: u64))] = sint a"
proof (rule big_val_eqI)
  have "mp_val [ucast a, ucast (signed_drop_bit 32 a)] = unat a"
    using limb_split[of a] by (simp only: mp_val.simps ucast_signed_hi) simp
  moreover have "uint a = sint a mod 18446744073709551616"
    using uint_sint[of a] by (simp add: take_bit_eq_mod)
  ultimately show "int (mp_val [ucast a, ucast (signed_drop_bit 32 a)])
      = sint a mod mp_mod (length [ucast a, ucast (signed_drop_bit 32 a) :: u32])"
    by (simp add: mp_mod_Suc)
  show "- mp_mod (length [ucast a, ucast (signed_drop_bit 32 a) :: u32]) \<le> 2 * sint a"
    "2 * sint a < mp_mod (length [ucast a, ucast (signed_drop_bit 32 a) :: u32])"
    using sint_ge[of a] sint_lt[of a] by (simp_all add: mp_mod_Suc)
qed simp

lemma sint_ucast_u32:
  assumes "- 2147483648 \<le> sint (a :: u64)" "sint a \<le> 2147483647"
  shows "sint (ucast a :: u32) = sint a"
proof (rule mp_mod_unique[of _ 4294967296])
  have "sint (ucast a :: u32) mod 4294967296 = uint (ucast a :: u32)"
    using uint_sint[of "ucast a :: u32"] by (simp add: take_bit_eq_mod)
  also have "\<dots> = uint a mod 4294967296" by (simp add: unsigned_ucast_eq take_bit_eq_mod)
  also have "\<dots> = sint a mod 18446744073709551616 mod 4294967296"
    using uint_sint[of a] by (simp add: take_bit_eq_mod)
  also have "\<dots> = sint a mod 4294967296" by (rule mod_mod_cancel) simp
  finally show "sint (ucast a :: u32) mod 4294967296 = sint a mod 4294967296" .
  show "- 4294967296 \<le> 2 * sint (ucast a :: u32)" "2 * sint (ucast a :: u32) < 4294967296"
    using sint_ge[of "ucast a :: u32"] sint_lt[of "ucast a :: u32"] by simp_all
qed (use assms in simp_all)

lemma big_ok_pair:
  assumes "sint (a :: u64) < - 2147483648 \<or> 2147483647 < sint a"
  shows "big_ok [ucast a, ucast (signed_drop_bit 32 a)]"
proof -
  let ?t = "ucast (signed_drop_bit 32 a) :: u32"
  have "?t \<noteq> - js_bigint_sign [ucast a :: u32]"
  proof
    assume "?t = - js_bigint_sign [ucast a :: u32]"
    then have "sint a = sint (ucast a :: u32)"
      using big_val_sign_ext[of "[ucast a :: u32]"] big_val_pair[of a] big_val_single[of "ucast a"] by simp
    then show False
      using assms sint_ge[of "ucast a :: u32"] sint_lt[of "ucast a :: u32"] by simp
  qed
  then show ?thesis using big_ok_snoc_iff[of "[ucast a :: u32]" ?t] by simp
qed

lemma js_bigint_set_si64_val:
  "big_ok (js_bigint_set_si64 a) \<and> big_val (js_bigint_set_si64 a) = sint a"
  using big_ok_pair[of a] big_val_pair[of a] sint_ucast_u32[of a] big_val_single[of "ucast a"]
  by (auto simp: js_bigint_set_si64_def big_ok_def)

lemma js_bigint_get_si_sat_val:
  assumes "big_ok a"
  shows "js_bigint_get_si_sat a = max (- 2147483648) (min 2147483647 (big_val a))"
proof (cases "length a = 1")
  case True
  then obtain x where a: "a = [x]" by (cases a) auto
  then show ?thesis
    using sint_ge[of x] sint_lt[of x] by (simp add: js_bigint_get_si_sat_def big_val_single)
next
  case False
  have ne: "a \<noteq> []" using assms by (rule big_ok_not_Nil)
  have z: "big_val a \<noteq> 0" using big_val_0_iff[OF assms] False by simp
  have "mp_mod 1 \<le> mp_mod (length a - 1)" using False ne by (intro mp_mod_mono) (cases a, auto simp: Suc_le_eq)
  then have m: "4294967296 \<le> mp_mod (length a - 1)" by (simp add: mp_mod_Suc)
  have "big_val a < - 2147483648" if "big_val a < 0"
    using big_val_large(3)[OF assms z that False] m by linarith
  moreover have "2147483647 < big_val a" if "\<not> big_val a < 0"
    using big_val_large(2)[OF assms z] that m by linarith
  ultimately show ?thesis
    using False sign_big_val[OF ne]
    by (cases "big_val a < 0") (simp_all add: js_bigint_get_si_sat_def)
qed

lemma js_bigint_new_si64_yields: "yields ctx (if sint a \<ge> - 2147483648 \<and> sint a \<le> 2147483647 then 1 else 2)
    (js_bigint_new_si64 ctx a) (sint a)"
proof (cases "sint a \<ge> - 2147483648 \<and> sint a \<le> 2147483647")
  case True
  have "yields ctx 1 (js_bigint_new_si ctx (ucast a)) (sint a)"
    unfolding js_bigint_new_si_def
  proof (rule js_bigint_new_yields)
    fix r :: js_bigint assume r: "length r = 1" "1 \<le> JS_BIGINT_MAX_SIZE"
    then have "r[0 := ucast a] = [ucast a]" by (cases r) auto
    then show "yields ctx 1 (Inr (r[0 := ucast a])) (sint a)"
      using r(2) True sint_ucast_u32[of a] by (simp add: yields_Inr big_ok_def big_val_single)
  qed
  then show ?thesis using True by (simp add: js_bigint_new_si64_def)
next
  case False
  have "yields ctx 2 (bind_err (js_bigint_new ctx 2)
      (\<lambda>r. Inr (r[0 := ucast a, 1 := ucast (signed_drop_bit 32 a)]))) (sint a)"
  proof (rule js_bigint_new_yields)
    fix r :: js_bigint assume r: "length r = 2" "2 \<le> JS_BIGINT_MAX_SIZE"
    then have "r[0 := ucast a, 1 := ucast (signed_drop_bit 32 a)] = [ucast a, ucast (signed_drop_bit 32 a)]"
      by (auto simp: length_Suc_conv numeral_2_eq_2)
    then show "yields ctx 2 (Inr (r[0 := ucast a, 1 := ucast (signed_drop_bit 32 a)])) (sint a)"
      using r(2) False big_ok_pair[of a] big_val_pair[of a] by (simp add: yields_Inr not_le)
  qed
  then show ?thesis using False by (simp only: js_bigint_new_si64_def if_False)
qed

lemma length3_update: "length r = 3 \<Longrightarrow> r[0 := x, 1 := y, 2 := z] = [x, y, z]"
  by (auto simp: length_Suc_conv numeral_3_eq_3 numeral_2_eq_2)

lemma length2_update: "length r = 2 \<Longrightarrow> r[0 := x, 1 := y] = [x, y]"
  by (auto simp: length_Suc_conv numeral_2_eq_2)

lemma js_bigint_new_ui64_yields:
  "\<exists>n \<le> 3. yields ctx n (js_bigint_new_ui64 ctx a) (uint a)"
proof (cases "unat a \<le> 9223372036854775807")
  case True
  have "sint a = uint a"
  proof (rule mp_mod_unique[of _ 18446744073709551616])
    have "uint a = sint a mod 18446744073709551616"
      using uint_sint[of a] by (simp add: take_bit_eq_mod)
    moreover have "uint a mod 18446744073709551616 = uint a"
      using uint_bounded[of a] by (intro mod_pos_pos_trivial) simp_all
    ultimately show "sint a mod 18446744073709551616 = uint a mod 18446744073709551616" by simp
    have "int (unat a) \<le> 9223372036854775807" using True by linarith
    then show "2 * uint a < 18446744073709551616" by simp
    show "- 18446744073709551616 \<le> 2 * sint a" "2 * sint a < 18446744073709551616"
      using sint_ge[of a] sint_lt[of a] by simp_all
    show "- 18446744073709551616 \<le> 2 * uint a" using uint_ge_0[of a] by linarith
  qed
  with js_bigint_new_si64_yields[of ctx a] show ?thesis
    using True by (intro exI[of _ "if sint a \<ge> - 2147483648 \<and> sint a \<le> 2147483647 then 1 else 2"])
      (simp add: js_bigint_new_ui64_def)
next
  case False
  let ?lo = "ucast a :: u32" and ?hi = "ucast (drop_bit 32 a) :: u32"
  have v: "mp_val [?lo, ?hi] = unat a" using limb_split[of a] by simp
  have "mp_mod 2 \<le> 2 * int (mp_val [?lo, ?hi])" unfolding v
  proof -
    have "9223372036854775808 \<le> int (unat a)" using False by linarith
    moreover have "mp_mod 2 = 18446744073709551616" by (simp add: mp_mod_def)
    ultimately show "mp_mod 2 \<le> 2 * int (unat a)" by linarith
  qed
  then have s: "js_bigint_sign [?lo, ?hi] = 1" using js_bigint_sign_cases[of "[?lo, ?hi]"] by (simp add: numeral_2_eq_2)
  have ok: "big_ok [?lo, ?hi, 0]"
    using big_ok_snoc_iff[of "[?lo, ?hi]" 0] s by simp
  have "mp_val [?lo, ?hi, 0] = unat a" using v by simp
  moreover have "js_bigint_sign [?lo, ?hi, 0] = 0" by (simp add: js_bigint_sign_def)
  ultimately have val: "big_val [?lo, ?hi, 0] = uint a" by (simp add: big_val_def)
  have "yields ctx 3 (bind_err (js_bigint_new ctx 3) (\<lambda>r. Inr (r[0 := ?lo, 1 := ?hi, 2 := 0]))) (uint a)"
    by (rule js_bigint_new_yields) (use ok val in \<open>simp add: length3_update[unfolded One_nat_def] yields_Inr\<close>)
  then show ?thesis
    using False by (intro exI[of _ 3]) (simp add: js_bigint_new_ui64_def JS_LIMB_BITS_def)
qed

lemma js_bigint_new_di_eq: "js_bigint_new_di ctx a = js_bigint_new_si64 ctx a"
proof -
  have "(sint a = sint (ucast a :: u32)) = (sint a \<ge> - 2147483648 \<and> sint a \<le> 2147483647)"
  proof
    assume e: "sint a = sint (ucast a :: u32)"
    show "sint a \<ge> - 2147483648 \<and> sint a \<le> 2147483647"
      unfolding e using sint_ge[of "ucast a :: u32"] sint_lt[of "ucast a :: u32"] by simp
  next
    assume "sint a \<ge> - 2147483648 \<and> sint a \<le> 2147483647"
    then show "sint a = sint (ucast a :: u32)" using sint_ucast_u32[of a] by presburger
  qed
  then show ?thesis
    unfolding js_bigint_new_di_def js_bigint_new_si64_def js_bigint_new_si_def by presburger
qed

section \<open>Powers\<close>

text \<open>
  What \<open>js_bigint_pow\<close> needs to know of \<open>js_bigint_mul\<close>, and of the loop that calls it: \<open>val\<close> is
  multiplicative on the numbers the loop handles, and a product is refused as too large only
  when it has \<open>bound\<close> or more.
\<close>

locale power_ring =
  fixes mul :: "'b \<Rightarrow> 'b \<Rightarrow> js_error + 'b"
    and ok :: "'b \<Rightarrow> bool" and val :: "'b \<Rightarrow> int" and bound :: int and refused :: bool
    and loop :: "'b \<Rightarrow> js_limb_t \<Rightarrow> nat \<Rightarrow> 'b \<Rightarrow> js_error + 'b"
  assumes mul_val: "ok a \<Longrightarrow> ok b \<Longrightarrow> mul a b = Inr c \<Longrightarrow> ok c \<and> val c = val a * val b"
    and mul_range: "ok a \<Longrightarrow> ok b \<Longrightarrow> val a \<noteq> 0 \<Longrightarrow> val b \<noteq> 0 \<Longrightarrow> mul a b = Inl (RangeError s) \<Longrightarrow>
      bound \<le> \<bar>val a * val b\<bar>"
    and mul_memory: "ok a \<Longrightarrow> ok b \<Longrightarrow> mul a b = Inl OutOfMemory \<Longrightarrow> refused"
    and loop_0: "loop a e 0 r = Inr r"
    and loop_Suc: "loop a e (Suc i) r = bind_err (mul r r) (\<lambda>r.
      if drop_bit i e AND 1 \<noteq> 0 then bind_err (mul r a) (\<lambda>r. loop a e i r) else loop a e i r)"
begin

lemma loop_val:
  fixes e :: js_limb_t
  assumes "ok a" "ok r" "val a \<noteq> 0" "val r \<noteq> 0"
  defines "v \<equiv> \<lambda>i r. val r ^ 2 ^ i * val a ^ (unat e mod 2 ^ i)"
  shows "case loop a e i r of Inr x \<Rightarrow> ok x \<and> val x = v i r
    | Inl OutOfMemory \<Rightarrow> refused | Inl (RangeError s) \<Rightarrow> bound \<le> \<bar>v i r\<bar>"
  using assms(2,4)
proof (induction i arbitrary: r)
  case 0
  then show ?case by (simp add: loop_0 v_def)
next
  case (Suc i)
  let ?bit = "drop_bit i e AND 1 \<noteq> 0"
  have "?bit = odd (unat e div 2 ^ i)"
    using bit_iff_odd[of "unat e" i]
    by (simp add: and_one_eq bit_unsigned_iff flip: odd_iff_mod_2_eq_one bit_iff_odd_drop_bit)
  then have "unat e mod 2 ^ Suc i = unat e mod 2 ^ i + (if ?bit then 2 ^ i else 0)"
    using mod_mult2_eq[of "unat e" "2 ^ i" 2] by (simp add: mult.commute odd_iff_mod_2_eq_one)
  then have v: "v (Suc i) r = (val r * val r) ^ 2 ^ i * val a ^ (unat e mod 2 ^ i) * (if ?bit then val a ^ 2 ^ i else 1)"
    by (simp add: v_def power_add mult_2 power_mult_distrib flip: power2_eq_square power_mult)
  have pos: "1 \<le> \<bar>val a ^ k\<bar>" for k using assms(3) by (simp add: power_abs one_le_power)
  have ge1: "1 \<le> \<bar>x\<bar>" if "x \<noteq> 0" for x :: int using that by linarith
  have big: "bound \<le> \<bar>x ^ 2 ^ i * val a ^ k * y\<bar>" if "bound \<le> \<bar>x\<bar>" "x \<noteq> 0" "y \<noteq> 0" for x y k
  proof -
    have "\<bar>x\<bar> \<le> \<bar>x\<bar> ^ 2 ^ i" using ge1[OF that(2)] by (intro self_le_power) simp_all
    then have "\<bar>x\<bar> * 1 * 1 \<le> \<bar>x\<bar> ^ 2 ^ i * \<bar>val a ^ k\<bar> * \<bar>y\<bar>"
      using pos[of k] ge1[OF that(3)] by (intro mult_mono) simp_all
    with that(1) show ?thesis by (simp add: abs_mult power_abs)
  qed
  show ?case
  proof (cases "mul r r")
    case (Inl err)
    then show ?thesis
      using mul_range[OF Suc.prems(1,1,2,2)] mul_memory[OF Suc.prems(1,1)] big[of "val r * val r"]
        Suc.prems(2) assms(3)
      by (cases err) (auto simp: loop_Suc v)
  next
    case (Inr r1)
    note r1 = mul_val[OF Suc.prems(1,1) Inr]
    then have n1: "val r1 \<noteq> 0" using Suc.prems(2) by simp
    show ?thesis
    proof (cases ?bit)
      case False
      have "v (Suc i) r = v i r1" unfolding v using False r1 by (simp add: v_def)
      show ?thesis
        unfolding \<open>v (Suc i) r = v i r1\<close> using Suc.IH[of r1] r1 n1 Inr False by (simp add: loop_Suc)
    next
      case True
      show ?thesis
      proof (cases "mul r1 a")
        case (Inl err)
        have e: "v (Suc i) r = (val r1 * val a) ^ 2 ^ i * val a ^ (unat e mod 2 ^ i) * 1"
          using r1 True by (simp add: v power_mult_distrib)
        show ?thesis
          using mul_range[OF conjunct1[OF r1] assms(1) n1 assms(3)] mul_memory[OF conjunct1[OF r1] assms(1)]
            big[of "val r1 * val a" 1] n1 assms(3) Inl Inr True
          by (cases err) (auto simp: loop_Suc e)
      next
        case I: (Inr r2)
        note r2 = mul_val[OF conjunct1[OF r1] assms(1) I]
        have "v (Suc i) r = v i r2" "val r2 \<noteq> 0"
          using r2 r1 n1 True assms(3) unfolding v by (simp_all add: v_def power_mult_distrib)
        show ?thesis
          unfolding \<open>v (Suc i) r = v i r2\<close> using Suc.IH[of r2] r2 Inr I True \<open>val r2 \<noteq> 0\<close> by (simp add: loop_Suc)
      qed
    qed
  qed
qed

end

definition delivers :: "js_ctx \<Rightarrow> js_result \<Rightarrow> int \<Rightarrow> bool" where
  "delivers ctx r v \<longleftrightarrow> (case r of Inr x \<Rightarrow> big_ok x \<and> big_val x = v
     | Inl OutOfMemory \<Rightarrow> \<exists>k. \<not> can_alloc ctx k
     | Inl (RangeError s) \<Rightarrow> mp_mod (JS_BIGINT_MAX_SIZE - 2) \<le> \<bar>v\<bar>)"

lemma delivers_if_yields:
  assumes "yields ctx n r v" and "n > JS_BIGINT_MAX_SIZE \<Longrightarrow> mp_mod (JS_BIGINT_MAX_SIZE - 2) \<le> \<bar>v\<bar>"
  shows "delivers ctx r v"
  using assms by (auto simp: yields_def delivers_def split: if_splits)

lemma mul_too_large:
  assumes "big_ok a" "big_ok b" "big_val a \<noteq> 0" "big_val b \<noteq> 0"
    and "length a + length b > JS_BIGINT_MAX_SIZE"
  shows "mp_mod (JS_BIGINT_MAX_SIZE - 2) \<le> \<bar>big_val a * big_val b\<bar>"
proof -
  let ?M = "JS_BIGINT_MAX_SIZE - 2"
  have l: "1 \<le> length a" "1 \<le> length b"
    using big_ok_not_Nil[OF assms(1)] big_ok_not_Nil[OF assms(2)] by (simp_all add: Suc_le_eq)
  have "Suc ?M = JS_BIGINT_MAX_SIZE - 1" by (simp add: JS_BIGINT_MAX_SIZE_def JS_LIMB_BITS_def)
  then have "4294967296 * mp_mod ?M \<le> mp_mod ((length a - 1) + (length b - 1))"
    using l assms(5) unfolding mp_mod_Suc[symmetric] by (intro mp_mod_mono) linarith
  also have "\<dots> \<le> (2 * \<bar>big_val a\<bar>) * (2 * \<bar>big_val b\<bar>)"
    unfolding mp_mod_add using big_val_large(1)[OF assms(1,3)] big_val_large(1)[OF assms(2,4)]
    by (intro mult_mono) simp_all
  also have "\<dots> = 4 * \<bar>big_val a * big_val b\<bar>" by (simp add: abs_mult)
  finally show ?thesis using mp_mod_pos[of ?M] by linarith
qed

lemma js_bigint_mul_delivers:
  assumes "big_ok a" "big_ok b" "big_val a \<noteq> 0" "big_val b \<noteq> 0"
  shows "delivers ctx (js_bigint_mul ctx a b) (big_val a * big_val b)"
  by (rule delivers_if_yields[OF js_bigint_mul_yields[OF assms(1,2)] mul_too_large[OF assms]])

interpretation bn: power_ring "js_bigint_mul ctx" big_ok big_val "mp_mod (JS_BIGINT_MAX_SIZE - 2)"
    "\<exists>k. \<not> can_alloc ctx k" "pow_loop ctx" for ctx
proof
  fix a b c s
  assume ok: "big_ok a" "big_ok b"
  note Y = js_bigint_mul_yields[OF ok, of ctx]
  show "js_bigint_mul ctx a b = Inr c \<Longrightarrow> big_ok c \<and> big_val c = big_val a * big_val b"
    using Y by (auto simp: yields_def split: if_splits)
  show "js_bigint_mul ctx a b = Inl OutOfMemory \<Longrightarrow> \<exists>k. \<not> can_alloc ctx k"
    using Y by (auto simp: yields_def split: if_splits)
  assume "big_val a \<noteq> 0" "big_val b \<noteq> 0" "js_bigint_mul ctx a b = Inl (RangeError s)"
  then show "mp_mod (JS_BIGINT_MAX_SIZE - 2) \<le> \<bar>big_val a * big_val b\<bar>"
    using js_bigint_mul_delivers[OF ok, of ctx] by (simp add: delivers_def)
qed simp_all

lemma huge_power:
  assumes "2 \<le> \<bar>x :: int\<bar>" and "32 * (JS_BIGINT_MAX_SIZE - 2) \<le> e"
  shows "mp_mod (JS_BIGINT_MAX_SIZE - 2) \<le> \<bar>x ^ e\<bar>"
proof -
  have "mp_mod (JS_BIGINT_MAX_SIZE - 2) \<le> 2 ^ e"
    unfolding mp_mod_def using assms(2) by (intro power_increasing) simp_all
  also have "\<dots> \<le> \<bar>x\<bar> ^ e" using assms(1) by (intro power_mono) simp_all
  finally show ?thesis by (simp add: power_abs)
qed

lemma pow_overflow_delivers:
  assumes "2 \<le> \<bar>x\<bar>" "2147483647 < big_val b"
  shows "delivers ctx pow_overflow (x ^ nat (big_val b))"
proof -
  have "32 * (JS_BIGINT_MAX_SIZE - 2) \<le> nat (big_val b)"
    using assms(2) by (simp add: JS_BIGINT_MAX_SIZE_def JS_LIMB_BITS_def)
  then show ?thesis
    using huge_power[OF assms(1)] by (simp add: pow_overflow_def delivers_def)
qed

lemma exponent_cases:
  assumes "big_ok b" "0 < big_val b"
  obtains "2147483647 < big_val b" "length b > 1"
  | y where "b = [y]" "big_val b = int (unat y)" "y \<noteq> 0" "unat y \<le> 2147483647"
proof (cases "length b = 1")
  case False
  then have l: "length b > 1" using big_ok_not_Nil[OF assms(1)] by (cases b) auto
  then have "mp_mod 1 \<le> mp_mod (length b - 1)" by (intro mp_mod_mono) simp
  moreover have "mp_mod (length b - 1) \<le> 2 * big_val b" using big_val_large(2)[OF assms(1)] assms(2) by simp
  moreover have "mp_mod 1 = 4294967296" by (simp add: mp_mod_def)
  ultimately have "2147483647 < big_val b" by linarith
  then show ?thesis using l by (rule that(1))
next
  case True
  then obtain y where b: "b = [y]" by (cases b) auto
  moreover have s: "js_bigint_sign [y] = 0" using sign_big_val[of "[y]"] assms(2) b by simp
  then have "big_val b = int (unat y)" using b by (simp add: big_val_def)
  moreover have "unat y \<le> 2147483647" using s by (simp add: js_bigint_sign_def drop_bit_31_cases split: if_splits)
  ultimately show ?thesis using assms(2) by (intro that(2)[of y]) auto
qed

lemma pow_general_delivers:
  assumes "big_ok a" "big_ok b" "2 \<le> \<bar>big_val a\<bar>" "0 < big_val b"
  shows "delivers ctx (pow_general ctx a b) (big_val a ^ nat (big_val b))"
proof (rule exponent_cases[OF assms(2,4)])
  assume "2147483647 < big_val b" "length b > 1"
  then show ?thesis using pow_overflow_delivers[OF assms(3)] by (simp add: pow_general_def)
next
  fix y assume b: "b = [y]" "big_val b = int (unat y)" and y0: "y \<noteq> 0" and yb: "unat y \<le> 2147483647"
  define i where "i = 32 - clz32 y - 1"
  have c: "clz32 y < 32" "2 ^ (31 - clz32 y) \<le> unat y" "unat y < 2 ^ (32 - clz32 y)"
    using clz32_bound[OF y0] by auto
  have "i = 31 - clz32 y" "32 - clz32 y = Suc i" using c(1) by (simp_all add: i_def)
  with c have "2 ^ i \<le> unat y" "unat y < 2 * 2 ^ i" by simp_all
  then have "unat y div 2 ^ i = 1" by (simp add: nat_div_eq_iff)
  then have e: "2 ^ i + unat y mod 2 ^ i = unat y"
    using mult_div_mod_eq[of "2 ^ i" "unat y"] by simp
  have a0: "big_val a \<noteq> 0" using assms(3) by auto
  let ?v = "big_val a ^ nat (big_val b)"
  have v: "big_val a ^ 2 ^ i * big_val a ^ (unat y mod 2 ^ i) = ?v"
    unfolding power_add[symmetric] e by (simp add: b(2))
  have loop: "delivers ctx (pow_loop ctx a y i a) ?v"
    using bn.loop_val[OF assms(1,1) a0 a0, where ctx = ctx and e = y and i = i]
    unfolding v delivers_def .
  have big: "mp_mod (JS_BIGINT_MAX_SIZE - 2) \<le> \<bar>?v\<bar>" if "length a > JS_BIGINT_MAX_SIZE"
  proof -
    have "mp_mod JS_BIGINT_MAX_SIZE \<le> mp_mod (length a - 1)" using that by (intro mp_mod_mono) simp
    then have m: "mp_mod JS_BIGINT_MAX_SIZE \<le> 2 * \<bar>big_val a\<bar>" using big_val_large(1)[OF assms(1) a0] by linarith
    have "mp_mod (Suc (JS_BIGINT_MAX_SIZE - 2)) \<le> mp_mod JS_BIGINT_MAX_SIZE"
      by (intro mp_mod_mono) (simp add: JS_BIGINT_MAX_SIZE_def JS_LIMB_BITS_def)
    then have "mp_mod (JS_BIGINT_MAX_SIZE - 2) \<le> \<bar>big_val a\<bar>"
      using m mp_mod_pos[of "JS_BIGINT_MAX_SIZE - 2"] unfolding mp_mod_Suc by linarith
    also have "\<dots> \<le> \<bar>big_val a\<bar> ^ nat (big_val b)" using assms(3,4) by (intro self_le_power) simp_all
    finally show ?thesis by (simp add: power_abs)
  qed
  have "pow_general ctx a b = bind_err (js_bigint_new ctx (length a)) (\<lambda>r. pow_loop ctx a y i (blit r 0 a))"
    using yb b(1) by (simp add: pow_general_def i_def)
  also have "delivers ctx \<dots> ?v"
    using loop big by (auto simp: js_bigint_new_def js_malloc_def delivers_def blit_def)
  finally show ?thesis .
qed

lemma power_of_two_limb:
  assumes "v AND (v - 1) = (0 :: u32)" "v \<noteq> 0"
  shows "unat v = 2 ^ (31 - clz32 v)" and "clz32 v < 32"
proof -
  let ?n = "31 - clz32 v"
  have c: "clz32 v < 32" "2 ^ ?n \<le> unat v" "unat v < 2 ^ (32 - clz32 v)"
    using clz32_bound[OF assms(2)] by auto
  then show "clz32 v < 32" by simp
  have "32 - clz32 v = Suc ?n" using c(1) by simp
  with c have r: "2 ^ ?n \<le> unat v" "unat v < 2 * 2 ^ ?n" by simp_all
  have top: "bit w ?n" if "2 ^ ?n \<le> unat w" "unat w < 2 * 2 ^ ?n" for w :: u32
  proof -
    have "unat w div 2 ^ ?n = 1" using that by (simp add: nat_div_eq_iff)
    then have "bit (unat w) ?n" unfolding bit_iff_odd by simp
    then show ?thesis by (simp add: bit_unsigned_iff)
  qed
  show "unat v = 2 ^ ?n"
  proof (rule ccontr)
    assume "unat v \<noteq> 2 ^ ?n"
    then have "2 ^ ?n < unat v" using r(1) by simp
    moreover have "unat (v - 1) = unat v - 1"
      using assms(2) by (simp add: unat_sub_u32 Suc_le_eq unat_gt_0)
    ultimately have "bit (v - 1) ?n" using r(2) by (intro top) linarith+
    then have "bit (v AND (v - 1)) ?n" using top[OF r] by (simp add: bit_and_iff)
    then show False using assms(1) by simp
  qed
qed

lemma big_val_power_limbs:
  assumes "k < 32"
  shows "big_val [push_bit k (- 1)] = - (2 ^ k)"
    and "k < 31 \<Longrightarrow> big_val [push_bit k 1] = 2 ^ k"
    and "k = 31 \<Longrightarrow> big_val [push_bit k 1, 0] = 2 ^ k \<and> big_ok [push_bit k 1, 0]"
proof -
  have p31: "(2 :: int) ^ k \<le> 2 ^ 31" using assms by (intro power_increasing) simp_all
  have m: "int (unat (push_bit k (- 1 :: u32))) = 4294967296 - 2 ^ k"
    using unat_or_high_ones[of 0 k] assms by simp
  then have "4294967296 \<le> 2 * int (unat (push_bit k (- 1 :: u32)))" using p31 by simp
  then show "big_val [push_bit k (- 1)] = - (2 ^ k)"
    using m by (simp add: big_val_cases mp_mod_Suc)
  have u: "unat (push_bit k (1 :: u32)) = 2 ^ k"
  proof -
    have "(2 :: nat) ^ k < 2 ^ 32" using assms by (intro power_strict_increasing) simp_all
    then show ?thesis unfolding unat_push_bit_u32 by simp
  qed
  show "big_val [push_bit k 1] = 2 ^ k" if "k < 31"
  proof -
    have "(2 :: int) ^ k \<le> 2 ^ 30" using that by (intro power_increasing) simp_all
    moreover have "int (unat (push_bit k (1 :: u32))) = 2 ^ k" by (simp only: u of_nat_power of_nat_numeral)
    ultimately show ?thesis by (simp add: big_val_cases mp_mod_Suc)
  qed
  show "big_val [push_bit k 1, 0] = 2 ^ k \<and> big_ok [push_bit k 1, 0]" if "k = 31"
  proof
    show "big_val [push_bit k 1, 0] = 2 ^ k"
      using that by (simp add: big_val_def js_bigint_sign_def push_bit_eq_mult)
    have "js_bigint_sign [push_bit k 1] = 1"
      using that by (simp add: js_bigint_sign_def drop_bit_31_cases push_bit_eq_mult)
    then show "big_ok [push_bit k 1, 0]"
      using big_ok_snoc_iff[of "[push_bit k 1]" 0] by simp
  qed
qed

lemma and_1_odd: "(y AND 1 \<noteq> 0) = odd (unat (y :: u32))"
proof -
  have "bit (unat y) 0 = bit y 0" by (simp add: bit_unsigned_iff)
  then have "odd y = odd (unat y)" by (simp add: bit_0)
  then show ?thesis by (simp add: and_one_eq flip: odd_iff_mod_2_eq_one)
qed

lemma div32_bounds: "e = 32 * (e div 32) + e mod 32" "e mod 32 < 32" for e :: nat
  by simp_all

lemma pow_two_array:
  assumes len: "length r = (e + 33 - of_bool neg) div 32"
  defines "x \<equiv> (replicate (length r) 0)[e div 32 := push_bit (e mod 32) (1 - 2 * of_bool neg :: u32)]"
  shows "big_ok x \<and> big_val x = (if neg then - (2 ^ e) else 2 ^ e)"
proof -
  let ?d = "e div 32" and ?k = "e mod 32"
  have k: "?k < 32" by simp
  have e: "(2 :: int) ^ e = mp_mod ?d * 2 ^ ?k"
  proof -
    have "(2 :: int) ^ e = 2 ^ (32 * ?d + ?k)" by simp
    then show ?thesis by (simp only: power_add mp_mod_def)
  qed
  define y :: js_bigint where
    "y = (if neg then [push_bit ?k (- 1)] else if ?k = 31 then [push_bit ?k 1, 0] else [push_bit ?k 1])"
  have l: "length r = ?d + length y"
  proof (cases neg)
    case True
    then show ?thesis using len by (simp add: y_def)
  next
    case False
    have "e + 33 = (?k + 33) + 32 * ?d" by simp
    then have "(e + 33) div 32 = ?d + (?k + 33) div 32" by (metis div_mult_self2 zero_neq_numeral)
    moreover have "(?k + 33) div 32 = (if ?k = 31 then 2 else 1)"
      using k by (auto simp: nat_div_eq_iff)
    ultimately show ?thesis using False len by (simp add: y_def)
  qed
  have x: "x = replicate ?d 0 @ y"
  proof (cases "neg \<or> ?k \<noteq> 31")
    case True
    then have "length r = Suc ?d" using l by (auto simp: y_def)
    then show ?thesis unfolding x_def using True
      by (simp add: replicate_append_same[symmetric] list_update_append y_def del: replicate_append_same) auto
  next
    case False
    then have "length r = Suc (Suc ?d)" using l by (auto simp: y_def)
    then have "replicate (length r) (0 :: u32) = replicate ?d 0 @ [0, 0]"
      by (simp add: replicate_append_same[symmetric])
    then show ?thesis unfolding x_def using False by (simp add: list_update_append y_def)
  qed
  have yv: "big_val y = (if neg then - (2 ^ ?k) else 2 ^ ?k)" and yo: "big_ok y" and yn: "y \<noteq> []"
    using big_val_power_limbs[OF k] k by (auto simp: y_def big_ok_def)
  have "big_val y \<noteq> 0" unfolding yv by simp
  from big_ok_append_zeros[OF yo this] have "big_ok x" unfolding x .
  moreover have "big_val x = mp_mod ?d * big_val y"
    unfolding x using big_val_append[OF yn, of "replicate ?d 0"] by simp
  ultimately show ?thesis unfolding yv e by simp
qed

lemma pow_two_delivers:
  assumes "v AND (v - 1) = 0" "2 \<le> unat v" and ok: "big_ok b" "0 < big_val b"
    and x: "x = (if neg then - int (unat v) else int (unat v))"
  shows "delivers ctx (pow_two ctx v neg b) (x ^ nat (big_val b))"
proof (rule exponent_cases[OF ok])
  have "2 \<le> int (unat v)" using assms(2) by linarith
  then have x2: "2 \<le> \<bar>x\<bar>" by (simp add: x)
  {
    assume "2147483647 < big_val b" "length b > 1"
    then show ?thesis using pow_overflow_delivers[OF x2] by (simp add: pow_two_def)
  }
  fix y assume b: "b = [y]" "big_val b = int (unat y)" and y: "y \<noteq> 0" "unat y \<le> 2147483647"
  have v0: "v \<noteq> 0" using assms(2) by auto
  let ?n = "31 - clz32 v"
  let ?e = "unat y * ?n"
  note V = power_of_two_limb[OF assms(1) v0]
  have n: "JS_LIMB_BITS - 1 - js_limb_clz v = ?n" using v0 by (simp add: JS_LIMB_BITS_def js_limb_clz_def)
  have odd: "(y AND 1 \<noteq> 0) = odd (unat y)"
    by (rule and_1_odd)
  let ?neg = "if neg then odd (unat y) else neg"
  have "x = (if neg then - (2 ^ ?n) else 2 ^ ?n)"
    unfolding x V(1) by simp
  then have xv: "x ^ nat (big_val b) = (if ?neg then - (2 ^ ?e) else 2 ^ ?e)"
    unfolding b(2) nat_int by (simp add: uminus_power_if power_mult[symmetric] mult.commute)
  have e31: "1 \<le> ?n" 
  proof (rule ccontr)
    assume "\<not> 1 \<le> ?n"
    then have "unat v = 1" using V(1) by simp
    then show False using assms(2) by simp
  qed
  have big: "mp_mod (JS_BIGINT_MAX_SIZE - 2) \<le> \<bar>x ^ nat (big_val b)\<bar>"
    if "32 * (JS_BIGINT_MAX_SIZE - 2) \<le> ?e"
    using huge_power[of 2 ?e] that unfolding xv by simp
  let ?len = "(?e + JS_LIMB_BITS + 1 - of_bool ?neg) div JS_LIMB_BITS"
  have p: "pow_two ctx v neg b = (if ?e > JS_BIGINT_MAX_SIZE * JS_LIMB_BITS then pow_overflow
    else bind_err (js_bigint_new ctx ?len) (\<lambda>r. Inr ((replicate (length r) 0)
      [?e div JS_LIMB_BITS := push_bit (?e mod JS_LIMB_BITS) (1 - 2 * of_bool ?neg)])))"
  proof -
    have l: "\<not> length b > 1" "b ! 0 = y" "\<not> unat y > 2147483647" using b(1) y(2) by simp_all
    show ?thesis
      unfolding pow_two_def Let_def n l(2) odd if_not_P[OF l(1)] if_not_P[OF l(3)] ..
  qed
  show ?thesis
  proof (cases "?e > JS_BIGINT_MAX_SIZE * JS_LIMB_BITS")
    case True
    then have "32 * (JS_BIGINT_MAX_SIZE - 2) \<le> ?e" by (simp add: JS_LIMB_BITS_def)
    then show ?thesis using big True unfolding p by (simp add: pow_overflow_def delivers_def)
  next
    case False
    have "yields ctx ?len (bind_err (js_bigint_new ctx ?len) (\<lambda>r. Inr ((replicate (length r) 0)
      [?e div JS_LIMB_BITS := push_bit (?e mod JS_LIMB_BITS) (1 - 2 * of_bool ?neg)]))) (x ^ nat (big_val b))"
    proof (rule js_bigint_new_yields)
      fix r :: js_bigint assume r: "length r = ?len" "?len \<le> JS_BIGINT_MAX_SIZE"
      have "length r = (?e + 33 - of_bool ?neg) div 32" using r(1) by (simp add: JS_LIMB_BITS_def)
      from pow_two_array[OF this] show "yields ctx ?len (Inr ((replicate (length r) 0)
        [?e div JS_LIMB_BITS := push_bit (?e mod JS_LIMB_BITS) (1 - 2 * of_bool ?neg)])) (x ^ nat (big_val b))"
        unfolding JS_LIMB_BITS_def xv using r(2)[unfolded JS_LIMB_BITS_def] by (intro yields_Inr) simp_all
    qed
    moreover have "32 * (JS_BIGINT_MAX_SIZE - 2) \<le> ?e" if "?len > JS_BIGINT_MAX_SIZE"
    proof -
      have "?len \<le> (?e + 33) div 32"
        unfolding JS_LIMB_BITS_def by (intro div_le_mono) simp
      then have "JS_BIGINT_MAX_SIZE < (?e + 33) div 32" using that by (rule less_le_trans[rotated])
      then have "JS_BIGINT_MAX_SIZE * 32 < ?e + 33" by linarith
      then show ?thesis by (simp add: diff_mult_distrib2)
    qed
    ultimately show ?thesis using big False unfolding p by (simp add: delivers_if_yields)
  qed
qed

lemma signed_abs_limb:
  fixes v :: u32
  defines "v' \<equiv> (if sint v < 0 then - v else v)"
  assumes "\<not> v \<le> 1" "v \<noteq> - 1"
  shows "sint v = (if sint v < 0 then - int (unat v') else int (unat v')) \<and> 2 \<le> unat v'"
proof -
  have vn: "2 \<le> unat v" "v \<noteq> 0" using assms(2) by (auto simp: word_le_nat_alt)
  have m: "unat (- 1 :: u32) = 4294967295"
    by (simp add: unsigned_minus_1_eq_mask mask_eq_exp_minus_1)
  have "unat v \<noteq> 4294967295" using assms(3) unfolding m[symmetric] by (metis word_unat_eq_iff)
  then have vu: "unat v < 4294967295" using unat_le_u32[of v] by linarith
  have neg: "unat (- v) = B32 - unat v"
    using unat_sub_u32[of 0 v] vn by simp
  have s: "sint v = int (unat v) - (if sint v < 0 then 4294967296 else 0)"
  proof -
    have "sint v = int (unat v) - 4294967296 * int (unat (js_bigint_sign [v]))"
      using big_val_eq_sub[of "[v]"] unfolding big_val_single by (simp add: mp_mod_Suc)
    moreover have "js_bigint_sign [v] = (if sint v < 0 then 1 else 0)"
      using sign_big_val[of "[v]"] unfolding big_val_single by simp
    ultimately show ?thesis by (cases "sint v < 0") simp_all
  qed
  show ?thesis
  proof (cases "sint v < 0")
    case True
    then have v': "unat v' = B32 - unat v" by (simp add: v'_def neg)
    have "int (unat v') = 4294967296 - int (unat v)" unfolding v' using vu by (simp add: of_nat_diff)
    with s True have "sint v = - int (unat v')" by simp
    moreover have "2 \<le> unat v'" unfolding v' using vu by linarith
    ultimately show ?thesis using True by simp
  next
    case False
    with s vn show ?thesis by (simp add: v'_def)
  qed
qed

lemma js_bigint_pow_delivers:
  assumes "big_ok a" "big_ok b"
  shows "if big_val b < 0 then js_bigint_pow ctx a b = Inl (RangeError ''BigInt negative exponent'')
    else delivers ctx (js_bigint_pow ctx a b) (big_val a ^ nat (big_val b))"
proof -
  have ne: "a \<noteq> []" "b \<noteq> []" using assms by (simp_all add: big_ok_not_Nil)
  note sb = sign_big_val[OF ne(2)]
  have small: "delivers ctx (js_bigint_new_si ctx x) v"
    if "x = 0 \<and> v = 0 \<or> x = 1 \<and> v = 1 \<or> x = - 1 \<and> v = - 1" for x v
    by (rule delivers_if_yields[OF js_bigint_new_si_yields[OF that]])
      (simp add: JS_BIGINT_MAX_SIZE_def JS_LIMB_BITS_def)
  show ?thesis
  proof (cases "0 < big_val b")
    case False
    then show ?thesis using sb small[of 1 1] big_val_0_iff[OF assms(2)]
      by (auto simp: js_bigint_pow_def)
  next
    case True
    have b0: "\<not> (length b = 1 \<and> b ! 0 = 0)" using True big_val_0_iff[OF assms(2)] by auto
    have n0: "nat (big_val b) \<noteq> 0" using True by simp
    show ?thesis
    proof (cases "length a = 1")
      case False
      then have "2 \<le> \<bar>big_val a\<bar>"
      proof -
        have z: "big_val a \<noteq> 0" using big_val_0_iff[OF assms(1)] False by simp
        have "mp_mod 1 \<le> mp_mod (length a - 1)" using False ne(1) by (intro mp_mod_mono) (cases a, auto simp: Suc_le_eq)
        then show ?thesis using big_val_large(1)[OF assms(1) z] by (simp add: mp_mod_Suc)
      qed
      moreover have "js_bigint_pow ctx a b = pow_general ctx a b"
        using sb b0 False True by (auto simp: js_bigint_pow_def)
      ultimately show ?thesis using pow_general_delivers[OF assms _ True] True by simp
    next
      case l: True
      then obtain v where a: "a = [v]" by (cases a) auto
      have val: "big_val a = sint v" unfolding a by (rule big_val_single)
      have pow: "js_bigint_pow ctx a b = (if v \<le> 1 then js_bigint_new_si ctx v
        else if v = - 1 then js_bigint_new_si ctx (1 - 2 * (b ! 0 AND 1))
        else (let neg = sint v < 0; v' = (if neg then - v else v)
          in if v' AND (v' - 1) = 0 then pow_two ctx v' neg b else pow_general ctx a b))"
        using sb b0 True l by (auto simp: js_bigint_pow_def a Let_def)
      consider "v \<le> 1" | "v = - 1" "\<not> v \<le> 1" | "\<not> v \<le> 1" "v \<noteq> - 1" by blast
      then show ?thesis
      proof cases
        case 1
        then have "v = 0 \<or> v = 1" by (auto simp: word_le_nat_alt word_unat_eq_iff le_Suc_eq)
        then have "delivers ctx (js_bigint_new_si ctx v) (big_val a ^ nat (big_val b))"
          using n0 by (intro small) (auto simp: val zero_power)
        then show ?thesis using 1 True by (simp add: pow)
      next
        case 2
        have "odd (big_val b) = odd (unat (b ! 0))"
          using bit_big_val[OF ne(2), of 0] ne(2) and_1_odd[of "b ! 0"]
          by (simp add: bit_0 and_one_eq flip: odd_iff_mod_2_eq_one)
        then have o: "odd (nat (big_val b)) = (b ! 0 AND 1 \<noteq> 0)"
          using True and_1_odd[of "b ! 0"] by (simp add: even_nat_iff)
        have "b ! 0 AND 1 = 0 \<or> b ! 0 AND 1 = 1"
          unfolding and_one_eq by (metis not_mod_2_eq_1_eq_0)
        then have "delivers ctx (js_bigint_new_si ctx (1 - 2 * (b ! 0 AND 1))) (big_val a ^ nat (big_val b))"
          using o 2 by (intro small) (auto simp: val uminus_power_if)
        then show ?thesis using 2 True by (simp add: pow)
      next
        case 3
        define neg where "neg = (sint v < 0)"
        define v' where "v' = (if neg then - v else v)"
        have s: "sint v = (if neg then - int (unat v') else int (unat v'))" and v2: "2 \<le> unat v'"
          using signed_abs_limb[OF 3, folded neg_def, folded v'_def] by blast+
        have a2: "2 \<le> \<bar>big_val a\<bar>" 
        proof -
          have "2 \<le> int (unat v')" using v2 by linarith
          then show ?thesis unfolding val s by (cases neg) simp_all
        qed
        have "js_bigint_pow ctx a b = (if v' AND (v' - 1) = 0 then pow_two ctx v' neg b else pow_general ctx a b)"
          using 3 unfolding pow neg_def v'_def Let_def by simp
        moreover have "delivers ctx (pow_two ctx v' neg b) (big_val a ^ nat (big_val b))" if "v' AND (v' - 1) = 0"
          using pow_two_delivers[OF that v2 assms(2) True, of "big_val a" neg] s val by simp
        ultimately show ?thesis using pow_general_delivers[OF assms a2 True] True by simp
      qed
    qed
  qed
qed

end
