(* ===== verification/Big_Div.thy ===== *)
theory Big_Div
  imports Big_Arith
begin

text \<open>
  \<open>js_bigint_divrem\<close>: the signed quotient and remainder of JavaScript, which truncate towards
  zero, through magnitudes, a normalising shift and \<open>js_mp_divnorm\<close>.
\<close>

section \<open>Magnitudes\<close>

lemma js_mp_neg_big_val:
  assumes "x \<noteq> []" and "big_val x \<noteq> - (mp_mod (length x) div 2)"
  shows "big_val (fst (js_mp_neg x)) = - big_val x" and "length (fst (js_mp_neg x)) = length x"
proof -
  obtain r c where r: "js_mp_neg x = (r, c)" by fastforce
  let ?M = "mp_mod (length x)"
  note N = js_mp_neg_val[OF r]
  show l: "length (fst (js_mp_neg x)) = length x" using N r by simp
  have "mp_val x \<le> B32 ^ length x" using mp_val_bound[of x] by simp
  then have "int (B32 ^ length x - mp_val x) = ?M - int (mp_val x)"
    by (simp only: of_nat_diff int_B32_pow)
  then have "int (mp_val r) = (?M - int (mp_val x)) mod ?M"
    using N by (simp only: zmod_int int_B32_pow)
  also have "\<dots> = (- big_val x) mod ?M"
    using mod_mult_self2[of "- big_val x" ?M "1 - int (unat (js_bigint_sign x))"]
    by (simp add: big_val_eq_sub right_diff_distrib)
  finally have "int (mp_val (fst (js_mp_neg x))) = (- big_val x) mod mp_mod (length (fst (js_mp_neg x)))"
    using N r by simp
  moreover have "- ?M \<le> 2 * - big_val x" "2 * - big_val x < ?M"
  proof -
    obtain h where h: "?M = 2 * h" using mp_mod_even[of "length x"] assms(1) by (auto simp: Suc_le_eq elim: evenE)
    then show "- ?M \<le> 2 * - big_val x" "2 * - big_val x < ?M"
      using big_val_bounds[OF assms(1)] assms(2) by simp_all
  qed
  moreover have "fst (js_mp_neg x) \<noteq> []" using l assms(1) by auto
  ultimately show "big_val (fst (js_mp_neg x)) = - big_val x" using l by (intro big_val_eqI) simp_all
qed

definition mag :: "js_bigint \<Rightarrow> js_limb_t list" where
  "mag a = (if js_bigint_sign a \<noteq> 0 then fst (js_mp_neg a) else a)"

lemma mag_val:
  assumes "a \<noteq> []"
  shows "int (mp_val (mag a)) = \<bar>big_val a\<bar>" and "length (mag a) = length a"
proof -
  obtain r c where r: "js_mp_neg a = (r, c)" by fastforce
  note N = js_mp_neg_val[OF r]
  show "length (mag a) = length a" using N r by (simp add: mag_def)
  show "int (mp_val (mag a)) = \<bar>big_val a\<bar>"
  proof (cases "js_bigint_sign a = 0")
    case True
    then show ?thesis by (simp add: mag_def big_val_def)
  next
    case False
    then have s: "js_bigint_sign a = 1" using sign_0_or_1[of a] by simp
    have "big_val a < 0" using sign_big_val[OF assms] s by (simp split: if_splits)
    have v: "big_val a = int (mp_val a) - mp_mod (length a)" using s by (simp add: big_val_def)
    have "0 < mp_val a" using big_val_bounds(1)[OF assms] v mp_mod_pos[of "length a"] by linarith
    then have "mp_val r = B32 ^ length a - mp_val a" using N by simp
    moreover have "mp_val a \<le> B32 ^ length a" using mp_val_bound[of a] by simp
    ultimately have "int (mp_val r) = mp_mod (length a) - int (mp_val a)"
      by (simp only: of_nat_diff int_B32_pow)
    then show ?thesis using s r v \<open>big_val a < 0\<close> by (simp add: mag_def)
  qed
qed

lemma drop_zero_limbs_props:
  assumes "1 \<le> n" "n \<le> length tab"
  shows "1 \<le> drop_zero_limbs tab n \<and> drop_zero_limbs tab n \<le> n \<and>
    mp_val (take (drop_zero_limbs tab n) tab) = mp_val (take n tab) \<and>
    (drop_zero_limbs tab n = 1 \<or> tab ! (drop_zero_limbs tab n - 1) \<noteq> 0)"
  using assms
proof (induction tab n rule: drop_zero_limbs.induct)
  case (1 tab n)
  have "take (Suc (Suc n)) tab = take (Suc n) tab @ [tab ! Suc n]"
    using 1(3) by (simp add: take_Suc_conv_app_nth)
  then have "mp_val (take (Suc (Suc n)) tab) = mp_val (take (Suc n) tab)" if "tab ! Suc n = 0"
    using that by (simp del: take_Suc_Cons)
  then show ?case using 1 by auto
qed simp_all

section \<open>Normalising shift\<close>

lemma shift_normalises:
  assumes "b \<noteq> []" and top: "last b \<noteq> 0" and s: "s = js_limb_clz (last b)"
    and shl: "js_mp_shl b s = (tb, h)"
  shows "s < 32" and "mp_val tb = mp_val b * 2 ^ s" and "length tb = length b"
    and "B32 \<le> 2 * unat (last tb)"
proof -
  let ?n = "length b - 1"
  have c: "s < 32" "2 ^ (31 - s) \<le> unat (last b)" "unat (last b) < 2 ^ (32 - s)"
    using clz32_bound[OF top] top by (simp_all add: s js_limb_clz_def)
  then show s32: "s < 32" by simp
  note S = js_mp_shl_val[OF shl s32]
  show lt: "length tb = length b" using S by simp
  have bl: "mp_val b = mp_val (butlast b) + B32 ^ ?n * unat (last b)" using assms(1) by (rule mp_val_last)
  have "mp_val b < B32 ^ ?n * (unat (last b) + 1)"
    unfolding bl using mp_val_bound[of "butlast b"] by simp
  also have "\<dots> \<le> B32 ^ ?n * 2 ^ (32 - s)" using c(3) by (intro mult_left_mono) simp_all
  finally have "mp_val b * 2 ^ s < B32 ^ ?n * 2 ^ (32 - s) * 2 ^ s" by simp
  also have "\<dots> = B32 ^ length b"
    using pow32_split[of s] s32 assms(1) by (cases b) (simp_all add: mult.assoc)
  finally have "B32 ^ length b * unat h < B32 ^ length b * 1" using S by linarith
  then have "unat h = 0" by simp
  with S show v: "mp_val tb = mp_val b * 2 ^ s" by simp
  have tn: "tb \<noteq> []" using lt assms(1) by auto
  have "2147483648 * B32 ^ ?n \<le> mp_val tb"
  proof -
    have "(2147483648 :: nat) = 2 ^ (31 - s) * 2 ^ s" using s32 by (simp flip: power_add)
    also have "\<dots> \<le> unat (last b) * 2 ^ s" using c(2) by (intro mult_right_mono) simp_all
    finally have "2147483648 * B32 ^ ?n \<le> unat (last b) * 2 ^ s * B32 ^ ?n" by (intro mult_right_mono) simp_all
    also have "\<dots> = B32 ^ ?n * unat (last b) * 2 ^ s" by (simp only: ac_simps)
    also have "\<dots> \<le> mp_val tb" unfolding v bl by (intro mult_right_mono) simp_all
    finally show ?thesis .
  qed
  also have "mp_val tb < B32 ^ ?n * (unat (last tb) + 1)"
    unfolding mp_val_last[OF tn] lt using mp_val_bound[of "butlast tb"] lt by simp
  finally have "B32 ^ ?n * 2147483648 < B32 ^ ?n * (unat (last tb) + 1)" by (simp only: mult.commute)
  then have "2147483648 < unat (last tb) + 1" by (simp only: mult_less_cancel1)
  then show "B32 \<le> 2 * unat (last tb)" by simp
qed

section \<open>The quotient and the remainder\<close>

text \<open>The operands after the shift: the quotient is unchanged, the remainder is scaled.\<close>

definition shifted :: "nat \<Rightarrow> js_limb_t list \<Rightarrow> nat \<Rightarrow> js_limb_t list \<Rightarrow> nat
    \<Rightarrow> js_limb_t list \<times> js_limb_t list \<times> nat" where
  "shifted shift r na tabb nb =
     (if shift \<noteq> 0 then
        (let tabb = fst (js_mp_shl (take nb tabb) shift);
             (seg, h) = js_mp_shl (take na r) shift;
             r = blit r 0 seg
         in if h \<noteq> 0 then (tabb, r[na := h], na + 1) else (tabb, r, na))
      else (take nb tabb, r, na))"

lemma shifted_props:
  assumes "1 \<le> nb" "nb \<le> length tabb" and "tabb ! (nb - 1) \<noteq> 0" and "na < length r"
    and s: "s = js_limb_clz (tabb ! (nb - 1))"
  shows "\<exists>tb r' na'. shifted s r na tabb nb = (tb, r', na') \<and> length tb = nb \<and> length r' = length r \<and>
    na \<le> na' \<and> na' \<le> na + 1 \<and> B32 \<le> 2 * unat (last tb) \<and> s < 32 \<and>
    mp_val tb = mp_val (take nb tabb) * 2 ^ s \<and> mp_val (take na' r') = mp_val (take na r) * 2 ^ s"
proof -
  let ?b = "take nb tabb"
  have b: "?b \<noteq> []" "length ?b = nb" using assms(1,2) by auto
  have last: "last ?b = tabb ! (nb - 1)" using b assms(1,2) by (simp add: last_conv_nth)
  obtain tb h where tb: "js_mp_shl ?b s = (tb, h)" by fastforce
  note T = shift_normalises[OF b(1) _ _ tb, unfolded last, OF assms(3) s]
  show ?thesis
  proof (cases "s = 0")
    case True
    have "tb = ?b"
      using T(2,3) True b by (intro iffD1[OF mp_val_eq_iff]) simp_all
    then show ?thesis using T True b assms(4) by (simp add: shifted_def)
  next
    case False
    obtain seg h' where seg: "js_mp_shl (take na r) s = (seg, h')" by fastforce
    note S = js_mp_shl_val[OF seg T(1)]
    have ls: "length seg = na" using S assms(4) by simp
    have tk: "take na (blit r 0 seg) = seg" using ls assms(4) by (simp add: blit_def)
    have lb: "length (blit r 0 seg) = length r" using ls assms(4) by simp
    show ?thesis
    proof (cases "h' = 0")
      case True
      then show ?thesis using False tb seg T b S ls tk lb assms(4) by (simp add: shifted_def)
    next
      case h: False
      have "take (na + 1) ((blit r 0 seg)[na := h']) = seg @ [h']"
        using tk lb assms(4) by (simp add: take_Suc_conv_app_nth take_list_update_swap)
      then show ?thesis using False h tb seg T b S ls lb assms(4) by (simp add: shifted_def)
    qed
  qed
qed

lemma sdiv_smod_mag:
  fixes a b :: int
  shows "a sdiv b = (if (a < 0) \<noteq> (b < 0) then - (\<bar>a\<bar> div \<bar>b\<bar>) else \<bar>a\<bar> div \<bar>b\<bar>)"
    and "a smod b = (if a < 0 then - (\<bar>a\<bar> mod \<bar>b\<bar>) else \<bar>a\<bar> mod \<bar>b\<bar>)"
proof -
  show d: "a sdiv b = (if (a < 0) \<noteq> (b < 0) then - (\<bar>a\<bar> div \<bar>b\<bar>) else \<bar>a\<bar> div \<bar>b\<bar>)"
    by (auto simp: signed_divide_int_def sgn_if)
  show "a smod b = (if a < 0 then - (\<bar>a\<bar> mod \<bar>b\<bar>) else \<bar>a\<bar> mod \<bar>b\<bar>)"
    by (auto simp: signed_modulo_int_def sgn_if)
qed

lemma rem_result:
  fixes neg :: bool and r :: js_bigint
  assumes nb: "1 \<le> nb" "nb < length r" and s: "s < 32"
    and v: "mp_val (take nb r) = R * 2 ^ s" "R < B32 ^ nb"
  defines "r1 \<equiv> (if s \<noteq> 0 then blit r 0 (fst (js_mp_shr (take nb r) s 0)) else r)[nb := 0]"
  defines "r2 \<equiv> (if neg then blit r1 0 (fst (js_mp_neg (take (nb + 1) r1))) else r1)"
  shows "big_ok (js_bigint_normalize1 r2 (nb + 1))"
    and "big_val (js_bigint_normalize1 r2 (nb + 1)) = (if neg then - int R else int R)"
proof -
  define r0 where "r0 = (if s \<noteq> 0 then blit r 0 (fst (js_mp_shr (take nb r) s 0)) else r)"
  have r0: "mp_val (take nb r0) = R \<and> length r0 = length r"
  proof (cases "s = 0")
    case True
    then show ?thesis using v by (simp add: r0_def)
  next
    case False
    obtain q m where q: "js_mp_shr (take nb r) s 0 = (q, m)" by fastforce
    have s1: "1 \<le> s" using False by simp
    note S = js_mp_shr_val[OF q s1 s]
    have lq: "length q = nb" using S nb by simp
    have e: "mp_val q * 2 ^ s + unat m = R * 2 ^ s" and m: "unat m < 2 ^ s" using S v by simp_all
    have "(mp_val q * 2 ^ s + unat m) div 2 ^ s = mp_val q" using m by simp
    then have "mp_val q = R" unfolding e by simp
    then show ?thesis using False q lq nb by (simp add: r0_def blit_def)
  qed
  have r1: "r1 = r0[nb := 0]" by (simp add: r1_def r0_def)
  have l1: "length r1 = length r" using r0 by (simp add: r1)
  have tk: "take (nb + 1) r1 = take nb r0 @ [0]"
    using r0 nb by (simp add: r1 take_Suc_conv_app_nth take_list_update_swap)
  let ?x = "take (nb + 1) r1"
  have x: "?x \<noteq> []" "length ?x = nb + 1" using l1 nb by auto
  have bv: "big_val ?x = int R"
    unfolding tk using r0 by (simp add: big_val_def js_bigint_sign_snoc)
  have "big_val ?x \<noteq> - (mp_mod (length ?x) div 2)"
  proof -
    have "(2 :: int) \<le> mp_mod (length ?x)" unfolding x(2) by (simp add: mp_mod_Suc) (use mp_mod_pos[of nb] in linarith)
    then have "0 < mp_mod (length ?x) div 2" by linarith
    then show ?thesis unfolding bv by linarith
  qed
  note N = js_mp_neg_big_val[OF x(1) this]
  have "take (nb + 1) r2 \<noteq> [] \<and> length r2 = length r \<and>
      big_val (take (nb + 1) r2) = (if neg then - int R else int R)"
  proof (cases neg)
    case True
    have "fst (js_mp_neg ?x) \<noteq> []" using N(2) x(2) by auto
    then show ?thesis using True N bv x l1 nb by (simp add: r2_def blit_def)
  next
    case False
    then show ?thesis using bv x l1 by (simp add: r2_def)
  qed
  then show "big_ok (js_bigint_normalize1 r2 (nb + 1))"
    "big_val (js_bigint_normalize1 r2 (nb + 1)) = (if neg then - int R else int R)"
    using normalize1_val[of "nb + 1" r2] nb by simp_all
qed

lemma quot_result:
  fixes neg :: bool and q :: js_bigint
  assumes l: "length tabq + 1 = length q" and b: "1 \<le> length tabq"
  defines "q1 \<equiv> (blit q 0 tabq)[length tabq := 0]"
  defines "q2 \<equiv> (if neg then fst (js_mp_neg q1) else q1)"
  shows "big_ok (js_bigint_normalize q2)"
    and "big_val (js_bigint_normalize q2) = (if neg then - int (mp_val tabq) else int (mp_val tabq))"
proof -
  have q1: "q1 = tabq @ [0]"
  proof -
    have "blit q 0 tabq = tabq @ drop (length tabq) q" by (simp add: blit_def)
    moreover have "length (drop (length tabq) q) = 1" using l by simp
    then obtain z where "drop (length tabq) q = [z]" by (cases "drop (length tabq) q") auto
    ultimately show ?thesis by (simp add: q1_def list_update_append)
  qed
  then have x: "q1 \<noteq> []" "length q1 = length tabq + 1" by simp_all
  have bv: "big_val q1 = int (mp_val tabq)" by (simp add: q1 big_val_def js_bigint_sign_snoc)
  have "big_val q1 \<noteq> - (mp_mod (length q1) div 2)"
  proof -
    have "(2 :: int) \<le> mp_mod (length q1)" unfolding x(2)
      by (simp add: mp_mod_Suc) (use mp_mod_pos[of "length tabq"] in linarith)
    then have "0 < mp_mod (length q1) div 2" by linarith
    then show ?thesis unfolding bv by linarith
  qed
  note N = js_mp_neg_big_val[OF x(1) this]
  have "q2 \<noteq> []" "big_val q2 = (if neg then - int (mp_val tabq) else int (mp_val tabq))"
    using N bv x by (auto simp: q2_def)
  with normalize_val[of q2] show "big_ok (js_bigint_normalize q2)"
    "big_val (js_bigint_normalize q2) = (if neg then - int (mp_val tabq) else int (mp_val tabq))" by simp_all
qed

lemma divrem_cases:
  assumes "\<not> (length b = 1 \<and> b ! 0 = 0)"
    and new: "js_bigint_new ctx (length a + 2) = Inr r0" and mal: "js_malloc ctx (length b * 4) (length b) = Inr t0"
    and r1: "r1 = blit r0 0 (mag a)" and na: "na = drop_zero_limbs r1 (length a)"
    and nb: "nb = drop_zero_limbs (mag b) (length b)"
  shows "js_bigint_divrem ctx a b is_rem =
    (if na < nb then
       (if is_rem then Some (bind_err (js_bigint_new ctx (length a)) (\<lambda>r. Inr (blit r 0 a)))
        else Some (js_bigint_new_si ctx 0))
     else
       (let s = js_limb_clz (mag b ! (nb - 1)); (tb, r, na) = shifted s r1 na (mag b) nb
        in case js_bigint_new ctx (na - nb + 2) of Inl e \<Rightarrow> Some (Inl e) | Inr q \<Rightarrow>
           (case js_mp_divnorm (take na r) tb of None \<Rightarrow> None | Some (tabq, rem) \<Rightarrow>
             (if is_rem then
                (let r = blit r 0 rem;
                     r = (if s \<noteq> 0 then blit r 0 (fst (js_mp_shr (take nb r) s 0)) else r)[nb := 0]
                 in Some (Inr (js_bigint_normalize1
                      (if js_bigint_sign a \<noteq> 0 then blit r 0 (fst (js_mp_neg (take (nb + 1) r))) else r)
                      (nb + 1))))
              else
                (let q = (blit q 0 tabq)[na - nb + 1 := 0]
                 in Some (Inr (js_bigint_normalize
                      (if js_bigint_sign a XOR js_bigint_sign b \<noteq> 0 then fst (js_mp_neg q) else q))))))))"
  unfolding js_bigint_divrem_def if_not_P[OF assms(1)] Let_def new mal mag_def[symmetric]
    r1[symmetric] na[symmetric] nb[symmetric] shifted_def sum.case
  by (rule refl)

lemma js_bigint_divrem_val:
  assumes ok: "big_ok a" "big_ok b" and b0: "big_val b \<noteq> 0"
  shows "\<exists>r. js_bigint_divrem ctx a b is_rem = Some r \<and>
    yields ctx (length a + 2) r (if is_rem then big_val a smod big_val b else big_val a sdiv big_val b)"
    (is "\<exists>r. _ \<and> yields ctx ?N r ?v")
proof -
  have ne: "a \<noteq> []" "b \<noteq> []" using ok by (simp_all add: big_ok_not_Nil)
  have z: "\<not> (length b = 1 \<and> b ! 0 = 0)" using b0 big_val_0_iff[OF ok(2)] by simp
  have fail: "js_bigint_divrem ctx a b is_rem = Some (Inl e)" if "js_bigint_new ctx ?N = Inl e" for e
    unfolding js_bigint_divrem_def if_not_P[OF z] Let_def that by simp
  have oom: "yields ctx ?N (Inl OutOfMemory) ?v" if "\<not> can_alloc ctx k" "?N \<le> JS_BIGINT_MAX_SIZE" for k
    using that by (auto simp: yields_def)
  have newc: "js_bigint_new ctx n = Inl OutOfMemory \<and> (\<exists>k. \<not> can_alloc ctx k) \<or>
      (\<exists>r. js_bigint_new ctx n = Inr r \<and> length r = n)" if "n \<le> JS_BIGINT_MAX_SIZE" for n
    using that by (auto simp: js_bigint_new_def js_malloc_def)
  show ?thesis
  proof (cases "?N \<le> JS_BIGINT_MAX_SIZE")
    case False
    then have "js_bigint_new ctx ?N = Inl (RangeError ''BigInt is too large to allocate'')"
      by (simp add: js_bigint_new_def)
    from fail[OF this] show ?thesis using False by (simp add: yields_def)
  next
    case max: True
    from newc[OF max] consider "js_bigint_new ctx ?N = Inl OutOfMemory" "\<exists>k. \<not> can_alloc ctx k"
      | r0 where "js_bigint_new ctx ?N = Inr r0" "length r0 = ?N" by blast
    then show ?thesis
    proof cases
      case 1
      then show ?thesis using fail oom max by auto
    next
      case (2 r0)
      note new = 2
      show ?thesis
      proof (cases "js_malloc ctx (length b * 4) (length b)")
        case (Inl e)
        then have "e = OutOfMemory" "\<exists>k. \<not> can_alloc ctx k" by (auto simp: js_malloc_def split: if_splits)
        moreover have "js_bigint_divrem ctx a b is_rem = Some (Inl e)"
          unfolding js_bigint_divrem_def if_not_P[OF z] Let_def new(1) Inl by simp
        ultimately show ?thesis using oom max by auto
      next
        case (Inr t0)
        define r1 where "r1 = blit r0 0 (mag a)"
        define na where "na = drop_zero_limbs r1 (length a)"
        define nb where "nb = drop_zero_limbs (mag b) (length b)"
        note D = divrem_cases[OF z new(1) Inr r1_def na_def nb_def, of is_rem]
        have l1: "length r1 = ?N" and t1: "take (length a) r1 = mag a"
          using new(2) mag_val(2)[OF ne(1)] by (simp_all add: r1_def blit_def)
        have na: "1 \<le> na" "na \<le> length a" "mp_val (take na r1) = mp_val (mag a)"
          using drop_zero_limbs_props[of "length a" r1] l1 t1 ne(1) by (auto simp: na_def Suc_le_eq)
        have nb: "1 \<le> nb" "nb \<le> length b" "mp_val (take nb (mag b)) = mp_val (mag b)"
          "nb = 1 \<or> mag b ! (nb - 1) \<noteq> 0"
          using drop_zero_limbs_props[of "length b" "mag b"] mag_val(2)[OF ne(2)] ne(2) by (auto simp: nb_def Suc_le_eq)
        note A = mag_val(1)[OF ne(1)] and B = mag_val(1)[OF ne(2)]
        have bp: "0 < mp_val (mag b)" using B b0 by linarith
        have lb: "nb \<le> length (mag b)" using nb(2) mag_val(2)[OF ne(2)] by simp
        have top: "mag b ! (nb - 1) \<noteq> 0"
        proof (cases "nb = 1")
          case True
          then have "mp_val (take nb (mag b)) = unat (mag b ! 0)" using lb by (cases "mag b") auto
          then show ?thesis using bp nb(3) True by auto
        qed (use nb(4) in auto)
        let ?ua = "mp_val (mag a)" and ?ub = "mp_val (mag b)"
        have dm: "\<bar>big_val a\<bar> div \<bar>big_val b\<bar> = int (?ua div ?ub)" "\<bar>big_val a\<bar> mod \<bar>big_val b\<bar> = int (?ua mod ?ub)"
          unfolding A[symmetric] B[symmetric] by (simp_all add: zdiv_int zmod_int)
        have sg: "(js_bigint_sign a \<noteq> 0) = (big_val a < 0)" "(js_bigint_sign b \<noteq> 0) = (big_val b < 0)"
          "(js_bigint_sign a XOR js_bigint_sign b \<noteq> 0) = ((big_val a < 0) \<noteq> (big_val b < 0))"
          using sign_big_val[OF ne(1)] sign_big_val[OF ne(2)] by auto
        show ?thesis
        proof (cases "na < nb")
          case True
          have "?ua < B32 ^ na" using mp_val_bound[of "take na r1"] na l1 by simp
          also have "\<dots> \<le> B32 ^ (nb - 1)" using True by (intro power_increasing) simp_all
          also have "\<dots> \<le> ?ub"
          proof -
            have "take nb (mag b) = take (nb - 1) (mag b) @ [mag b ! (nb - 1)]"
              using lb nb(1) by (metis One_nat_def Suc_le_lessD Suc_pred le_trans take_Suc_conv_app_nth less_le_trans lessI)
            then have "mp_val (take nb (mag b)) = mp_val (take (nb - 1) (mag b)) + B32 ^ (nb - 1) * unat (mag b ! (nb - 1))"
              using lb by simp
            moreover have "B32 ^ (nb - 1) * 1 \<le> B32 ^ (nb - 1) * unat (mag b ! (nb - 1))"
              using top by (intro mult_left_mono) (simp_all add: Suc_le_eq unat_gt_0)
            ultimately show ?thesis using nb(3) by linarith
          qed
          finally have lt: "?ua < ?ub" .
          have v: "?v = (if is_rem then big_val a else 0)"
            using lt A unfolding sdiv_smod_mag dm by (cases "big_val a < 0") simp_all
          have small: "yields ctx ?N (bind_err (js_bigint_new ctx (length a)) (\<lambda>r. Inr (blit r 0 a))) (big_val a)"
            "yields ctx ?N (js_bigint_new_si ctx 0) 0"
          proof -
            have "length a \<le> JS_BIGINT_MAX_SIZE" "1 \<le> JS_BIGINT_MAX_SIZE" using max by simp_all
            note this[THEN newc]
            then show "yields ctx ?N (bind_err (js_bigint_new ctx (length a)) (\<lambda>r. Inr (blit r 0 a))) (big_val a)"
              using oom max ok(1) by (auto simp: yields_def blit_def)
            show "yields ctx ?N (js_bigint_new_si ctx 0) 0"
              using js_bigint_new_si_yields[of 0 0 ctx] max by (auto simp: yields_def split: if_splits)
          qed
          show ?thesis using D True v small by simp
        next
          case False
          define s where "s = js_limb_clz (mag b ! (nb - 1))"
          have na_r: "na < length r1" using na l1 by simp
          from shifted_props[OF nb(1) lb top na_r s_def] obtain tb r2 n2 where
            sh: "shifted s r1 na (mag b) nb = (tb, r2, n2)" and ltb: "length tb = nb" and l2: "length r2 = length r1"
            and n2: "na \<le> n2" "n2 \<le> na + 1" and norm: "B32 \<le> 2 * unat (last tb)" and s: "s < 32"
            and vb: "mp_val tb = ?ub * 2 ^ s" and va: "mp_val (take n2 r2) = ?ua * 2 ^ s"
            using na(3) nb(3) by auto
          have n2r: "n2 < length r2" using n2 na(2) l1 l2 by simp
          have q2: "n2 - nb + 2 \<le> JS_BIGINT_MAX_SIZE" using n2 na(2) nb(1) max by linarith
          from newc[OF q2] show ?thesis
          proof (elim disjE exE conjE)
            fix k assume "js_bigint_new ctx (n2 - nb + 2) = Inl OutOfMemory" "\<not> can_alloc ctx k"
            then show ?thesis using D False sh oom max by (auto simp: s_def)
          next
            fix q assume q: "js_bigint_new ctx (n2 - nb + 2) = Inr q" "length q = n2 - nb + 2"
            have "tb \<noteq> []" "length tb \<le> length (take n2 r2)" using ltb nb(1) n2(1) n2r False by auto
            from js_mp_divnorm_val[OF this norm] obtain tabq rem where
              dv: "js_mp_divnorm (take n2 r2) tb = Some (tabq, rem)" and lq: "length tabq = n2 - nb + 1"
              and lr: "length rem = n2" and Q: "mp_val tabq = (?ua * 2 ^ s) div (?ub * 2 ^ s)"
              and R: "mp_val (take nb rem) = (?ua * 2 ^ s) mod (?ub * 2 ^ s)"
              using n2r ltb va vb by auto
            have Q': "mp_val tabq = ?ua div ?ub" unfolding Q by simp
            have R': "mp_val (take nb rem) = (?ua mod ?ub) * 2 ^ s" unfolding R by (rule mod_mult_mult2)
            let ?r3 = "blit r2 0 rem"
            have r3: "take nb ?r3 = take nb rem" "length ?r3 = length r2"
              using lr n2r False n2(1) by (simp_all add: blit_def)
            have nbr: "nb < length ?r3" using r3(2) n2r n2(1) False by simp
            have "?ua mod ?ub < ?ub" using bp by simp
            also have "\<dots> < B32 ^ nb" using mp_val_bound[of "take nb (mag b)"] nb(3) lb by simp
            finally have Rb: "?ua mod ?ub < B32 ^ nb" .
            have v3: "mp_val (take nb ?r3) = (?ua mod ?ub) * 2 ^ s" unfolding r3(1) by (rule R')
            note RR = rem_result[OF nb(1) nbr s v3 Rb, of "js_bigint_sign a \<noteq> 0"]
            have lq': "length tabq + 1 = length q" "1 \<le> length tabq" using q(2) lq by simp_all
            note QQ = quot_result[OF lq', of "js_bigint_sign a XOR js_bigint_sign b \<noteq> 0", unfolded lq Q']
            show ?thesis
            proof (cases is_rem)
              case True
              show ?thesis
                unfolding D if_not_P[OF False] Let_def s_def[symmetric] sh prod.case q(1) sum.case dv
                  option.case if_P[OF True]
                unfolding sdiv_smod_mag dm sg
                by (rule exI, rule conjI, rule refl) (rule yields_Inr[OF max RR[unfolded sg]])
            next
              case F: False
              show ?thesis
                unfolding D if_not_P[OF False] Let_def s_def[symmetric] sh prod.case q(1) sum.case dv
                  option.case if_not_P[OF F]
                unfolding sdiv_smod_mag dm sg
                by (rule exI, rule conjI, rule refl) (rule yields_Inr[OF max QQ[unfolded sg]])
            qed
          qed
        qed
      qed
    qed
  qed
qed

end
