(* ===== verification/Big_Props.thy ===== *)
theory Big_Props
  imports Big_Div
begin

text \<open>
  What BigInt arithmetic promises, as properties of the operations of \<open>Big_Int\<close>: exact results in
  normal form or a characterised error, for every context and every content of fresh memory.
  \<open>computed\<close> is the set of arrays a program can reach with these operations.
\<close>

section \<open>Reachable values\<close>

text \<open>The arrays a program can compute from 64-bit integers with the operations of this part.\<close>

inductive computed :: "js_ctx \<Rightarrow> js_bigint \<Rightarrow> bool" for ctx where
  from_int64: "js_bigint_new_si64 ctx i = Inr r \<Longrightarrow> computed ctx r"
| from_uint64: "js_bigint_new_ui64 ctx i = Inr r \<Longrightarrow> computed ctx r"
| add: "computed ctx a \<Longrightarrow> computed ctx b \<Longrightarrow> js_bigint_add ctx a b neg = Inr r \<Longrightarrow> computed ctx r"
| neg: "computed ctx a \<Longrightarrow> js_bigint_neg ctx a = Inr r \<Longrightarrow> computed ctx r"
| mul: "computed ctx a \<Longrightarrow> computed ctx b \<Longrightarrow> js_bigint_mul ctx a b = Inr r \<Longrightarrow> computed ctx r"
| divrem: "computed ctx a \<Longrightarrow> computed ctx b \<Longrightarrow>
    js_bigint_divrem ctx a b is_rem = Some (Inr r) \<Longrightarrow> computed ctx r"
| logic: "computed ctx a \<Longrightarrow> computed ctx b \<Longrightarrow> js_bigint_logic ctx a b op = Inr r \<Longrightarrow> computed ctx r"
| bitnot: "computed ctx a \<Longrightarrow> js_bigint_not ctx a = Inr r \<Longrightarrow> computed ctx r"
| shl: "computed ctx a \<Longrightarrow> js_bigint_shl ctx a n = Inr r \<Longrightarrow> computed ctx r"
| shr: "computed ctx a \<Longrightarrow> js_bigint_shr ctx a n = Inr r \<Longrightarrow> computed ctx r"
| pow: "computed ctx a \<Longrightarrow> computed ctx b \<Longrightarrow> js_bigint_pow ctx a b = Inr r \<Longrightarrow> computed ctx r"

lemma yields_ok: "yields ctx n r v \<Longrightarrow> r = Inr x \<Longrightarrow> big_ok x \<and> big_val x = v"
  by (auto simp: yields_def split: if_splits)

lemma divrem_ok:
  assumes "big_ok a" "big_ok b" "js_bigint_divrem ctx a b is_rem = Some (Inr r)"
  shows "big_val b \<noteq> 0 \<and> big_ok r \<and>
    big_val r = (if is_rem then big_val a smod big_val b else big_val a sdiv big_val b)"
proof -
  have "big_val b \<noteq> 0"
    using assms(3) big_val_0_iff[OF assms(2)] by (auto simp: js_bigint_divrem_def)
  from js_bigint_divrem_val[OF assms(1,2) this, of ctx is_rem] assms(3) this show ?thesis
    by (auto dest: yields_ok)
qed

lemma pow_ok:
  assumes "big_ok a" "big_ok b" "js_bigint_pow ctx a b = Inr r"
  shows "0 \<le> big_val b \<and> big_ok r \<and> big_val r = big_val a ^ nat (big_val b)"
  using js_bigint_pow_delivers[OF assms(1,2), of ctx] assms(3)
  by (auto simp: delivers_def split: if_splits)

lemmas op_ok = js_bigint_add_yields[THEN yields_ok] js_bigint_neg_yields[THEN yields_ok]
  js_bigint_mul_yields[THEN yields_ok] js_bigint_logic_yields[THEN yields_ok]
  js_bigint_not_yields[THEN yields_ok] js_bigint_shl_yields[THEN yields_ok]
  js_bigint_shr_yields[THEN yields_ok] js_bigint_new_si64_yields[THEN yields_ok]

lemma computed_ok: "computed ctx a \<Longrightarrow> big_ok a"
proof (induction rule: computed.induct)
  case (from_uint64 i r)
  then show ?case using js_bigint_new_ui64_yields[of ctx i] by (auto dest: yields_ok)
next
  case (divrem a b is_rem r)
  then show ?case by (blast dest: divrem_ok)
next
  case (pow a b r)
  then show ?case by (blast dest: pow_ok)
qed (blast dest: op_ok)+

text \<open>
  The context of the concrete runs below: every request is served, and fresh memory holds a
  recognisable pattern.
\<close>

definition ctx0 :: js_ctx where
  "ctx0 = \<lparr>can_alloc = (\<lambda>n. True), garbage = (\<lambda>i. 0xDEADBEEF)\<rparr>"

lemma ctx0_serves: "yields ctx0 n r v \<Longrightarrow> n \<le> JS_BIGINT_MAX_SIZE \<Longrightarrow> \<exists>x. r = Inr x \<and> big_ok x \<and> big_val x = v"
  by (auto simp: yields_def ctx0_def)

lemma big_ok_one_limb:
  assumes "big_ok a" and "- 2147483648 \<le> big_val a" "big_val a < 2147483648"
  shows "length a = 1"
proof (rule ccontr)
  assume "length a \<noteq> 1"
  then obtain n where n: "length a = Suc n" "1 \<le> n"
    using big_ok_not_Nil[OF assms(1)] by (cases "length a") auto
  have "4294967296 \<le> mp_mod n" using mp_mod_mono[OF n(2)] by (simp add: mp_mod_def[of "Suc 0"])
  with big_ok_large[OF assms(1) n] assms(2,3) show False by linarith
qed

lemma max_size_eq: "JS_BIGINT_MAX_SIZE = 32768"
  by (simp add: JS_BIGINT_MAX_SIZE_def JS_LIMB_BITS_def)

section \<open>Properties\<close>

text \<open>
  \<^bold>\<open>C13.\<close> One-limb division by a normalised divisor, which multiplies by the inverse computed once by
  \<open>js_udiv1norm_init\<close>, returns the quotient and the remainder of the two-limb dividend.
\<close>

theorem js_udiv1norm_divides:
  assumes "2147483648 \<le> unat d" and "a1 < d"
  shows "js_udiv1norm a1 a0 d (js_udiv1norm_init d) =
    (word_of_nat ((unat a1 * 2 ^ 32 + unat a0) div unat d), word_of_nat ((unat a1 * 2 ^ 32 + unat a0) mod unat d))"
proof -
  obtain q r where qr: "js_udiv1norm a1 a0 d (js_udiv1norm_init d) = (q, r)" by fastforce
  have "B32 \<le> 2 * unat d" using assms(1) by simp
  note v = js_udiv1norm_val[OF qr this assms(2)]
  have "q = word_of_nat (unat q)" "r = word_of_nat (unat r)" by simp_all
  then show ?thesis using qr v by simp
qed

theorem js_udiv1norm_divides_witness:
  "js_udiv1norm 0x7FFFFFFF 0xFFFFFFFF 0x80000000 (js_udiv1norm_init 0x80000000) = (0xFFFFFFFF, 0x7FFFFFFF)"
  using js_udiv1norm_divides[of "0x80000000" "0x7FFFFFFF" "0xFFFFFFFF"] by simp

text \<open>
  \<^bold>\<open>C12.\<close> Schoolbook long division of limb arrays ends for every dividend at least as long as a divisor whose top bit
  is set, and leaves the quotient in \<open>tabq\<close> and the remainder in the low limbs of \<open>taba\<close>.
\<close>

theorem js_mp_divnorm_divides:
  assumes "tabb \<noteq> []" and "length tabb \<le> length taba" and "2147483648 \<le> unat (last tabb)"
  shows "\<exists>tabq taba'. js_mp_divnorm taba tabb = Some (tabq, taba') \<and>
    length tabq = length taba - length tabb + 1 \<and> length taba' = length taba \<and>
    mp_val tabq = mp_val taba div mp_val tabb \<and>
    mp_val (take (length tabb) taba') = mp_val taba mod mp_val tabb"
  using js_mp_divnorm_val[OF assms(1,2)] assms(3) by simp

theorem js_mp_divnorm_divides_witness:
  "\<exists>tabq taba'. js_mp_divnorm [1, 2, 3, 4] [5, 0x80000000] = Some (tabq, taba') \<and> length tabq = 3 \<and>
    mp_val tabq = mp_val [1, 2, 3, 4] div mp_val [5, 0x80000000]"
  using js_mp_divnorm_divides[of "[5, 0x80000000]" "[1, 2, 3, 4]"] by fastforce

text \<open>
  \<^bold>\<open>C17.\<close> \<open>js_bigint_add\<close> returns the normalised exact sum, or difference when \<open>b_neg\<close> is set, whatever
  the signs, lengths and carries; it fails with \<open>RangeError\<close> exactly when the longer operand exceeds
  the maximal size and otherwise only when an allocation is refused.
\<close>

theorem js_bigint_add_exact:
  assumes "big_ok a" and "big_ok b"
  shows "yields ctx (max (length a) (length b)) (js_bigint_add ctx a b b_neg)
    (if b_neg then big_val a - big_val b else big_val a + big_val b)"
  using assms by (rule js_bigint_add_yields)

theorem js_bigint_add_exact_witness:
  "yields ctx0 (Suc (Suc 0)) (js_bigint_add ctx0 [0xFFFFFFFF, 0x7FFFFFFF] [0xFFFFFFFF] True) (9223372036854775807 + 1)"
  using js_bigint_add_exact[of "[0xFFFFFFFF, 0x7FFFFFFF]" "[0xFFFFFFFF]" ctx0 True]
  by (simp add: big_ok_def big_val_def js_bigint_sign_def mp_mod_def)

text \<open>
  \<^bold>\<open>C16.\<close> \<open>js_bigint_mul\<close>, an unsigned product corrected by subtracting the other operand for each negative
  one, returns the normalised exact product.
\<close>

theorem js_bigint_mul_exact:
  assumes "big_ok a" and "big_ok b"
  shows "yields ctx (length a + length b) (js_bigint_mul ctx a b) (big_val a * big_val b)"
  using assms by (rule js_bigint_mul_yields)

theorem js_bigint_mul_exact_witness:
  "yields ctx0 (Suc (Suc (Suc 0))) (js_bigint_mul ctx0 [0, 0x80000000] [0xFFFFFFFF]) 9223372036854775808"
  using js_bigint_mul_exact[of "[0, 0x80000000]" "[0xFFFFFFFF]" ctx0]
  by (simp add: big_ok_def big_val_def js_bigint_sign_def mp_mod_def)

text \<open>
  \<^bold>\<open>C10.\<close> \<open>js_bigint_divrem\<close> always returns. For a divisor of zero it throws; otherwise it gives the
  quotient rounded towards zero or the remainder with the sign of the dividend, or fails as
  \<open>yields\<close> says for a block of two limbs more than the dividend.
\<close>

theorem js_bigint_divrem_total:
  assumes "big_ok a" and "big_ok b"
  shows "\<exists>r. js_bigint_divrem ctx a b is_rem = Some r \<and>
    (if big_val b = 0 then r = Inl (RangeError ''BigInt division by zero'')
     else yields ctx (length a + 2) r
       (if is_rem then big_val a smod big_val b else big_val a sdiv big_val b))"
proof (cases "big_val b = 0")
  case True
  then show ?thesis using big_val_0_iff[OF assms(2)] by (simp add: js_bigint_divrem_def)
next
  case False
  with js_bigint_divrem_val[OF assms False] show ?thesis by simp
qed

theorem js_bigint_divrem_total_witness:
  "\<exists>r. js_bigint_divrem ctx0 [0xFFFFFFF9] [2] True = Some r \<and> yields ctx0 (Suc (Suc (Suc 0))) r (- 1)"
  using js_bigint_divrem_total[of "[0xFFFFFFF9]" "[2]" ctx0 True]
  by (simp add: big_ok_def big_val_def js_bigint_sign_def mp_mod_def signed_modulo_int_def signed_divide_int_def)

text \<open>
  \<^bold>\<open>C11.\<close> Quotient, remainder, product and sum fit together: when the four calls of
  \<open>a / b * b + a % b\<close> succeed, the result is the array \<open>a\<close> itself.
\<close>

theorem js_bigint_divrem_recompose:
  assumes "big_ok a" "big_ok b"
    and "js_bigint_divrem ctx a b False = Some (Inr q)" and "js_bigint_divrem ctx a b True = Some (Inr r)"
    and "js_bigint_mul ctx q b = Inr p" and "js_bigint_add ctx p r False = Inr s"
  shows "s = a"
proof -
  have q: "big_ok q" "big_val q = big_val a sdiv big_val b" using divrem_ok[OF assms(1-3)] by auto
  have r: "big_ok r" "big_val r = big_val a smod big_val b" using divrem_ok[OF assms(1,2,4)] by auto
  have p: "big_ok p" "big_val p = big_val q * big_val b"
    using js_bigint_mul_yields[OF q(1) assms(2), THEN yields_ok, OF assms(5)] by auto
  have s: "big_ok s" "big_val s = big_val p + big_val r"
    using js_bigint_add_yields[OF p(1) r(1), THEN yields_ok, OF assms(6)] by auto
  have "big_val s = big_val a" unfolding s p q r by (rule sdiv_mult_smod_eq)
  then show ?thesis using big_ok_unique[OF s(1) assms(1)] by simp
qed

theorem js_bigint_divrem_recompose_witness:
  "\<exists>q r p s. js_bigint_divrem ctx0 [0xFFFFFFF9] [2] False = Some (Inr q) \<and>
    js_bigint_divrem ctx0 [0xFFFFFFF9] [2] True = Some (Inr r) \<and> js_bigint_mul ctx0 q [2] = Inr p \<and>
    js_bigint_add ctx0 p r False = Inr s \<and> s = [0xFFFFFFF9]"
proof -
  have a: "big_ok [0xFFFFFFF9]" "big_val [0xFFFFFFF9] = - 7" and b: "big_ok [2]" "big_val [2] = 2"
    by (simp_all add: big_ok_def big_val_def js_bigint_sign_def mp_mod_def)
  have "(2::int) \<noteq> 0" by simp
  note D = js_bigint_divrem_val[OF a(1) b(1), unfolded a b, OF this, of ctx0]
  have q: "\<exists>q. js_bigint_divrem ctx0 [0xFFFFFFF9] [2] False = Some (Inr q) \<and> big_ok q \<and> big_val q = - 3"
    using D[of False] ctx0_serves[of "Suc (Suc (Suc 0))" _ "- 3"] by (auto simp: signed_divide_int_def max_size_eq)
  then obtain q where q: "js_bigint_divrem ctx0 [0xFFFFFFF9] [2] False = Some (Inr q)" "big_ok q" "big_val q = - 3" by blast
  have "\<exists>r. js_bigint_divrem ctx0 [0xFFFFFFF9] [2] True = Some (Inr r) \<and> big_ok r \<and> big_val r = - 1"
    using D[of True] ctx0_serves[of "Suc (Suc (Suc 0))" _ "- 1"] by (auto simp: signed_modulo_int_def signed_divide_int_def max_size_eq)
  then obtain r where r: "js_bigint_divrem ctx0 [0xFFFFFFF9] [2] True = Some (Inr r)" "big_ok r" "big_val r = - 1" by blast
  have l: "length q = 1" "length r = 1" using q r big_ok_one_limb by simp_all
  obtain p where p: "js_bigint_mul ctx0 q [2] = Inr p" "big_ok p" "big_val p = - 6"
    using ctx0_serves[OF js_bigint_mul_yields[OF q(2) b(1)]] l q b by (auto simp: max_size_eq)
  have lp: "length p = 1" using p big_ok_one_limb by simp
  obtain s where s: "js_bigint_add ctx0 p r False = Inr s"
    using ctx0_serves[OF js_bigint_add_yields[OF p(2) r(2), of ctx0 False]] l lp by (auto simp: max_size_eq)
  from js_bigint_divrem_recompose[OF a(1) b(1) q(1) r(1) p(1) s] q(1) r(1) p(1) s show ?thesis by blast
qed

text \<open>
  \<^bold>\<open>C18.\<close> The bitwise operators act on the infinite two's complement expansion of their operands:
  \<open>js_bigint_logic\<close> sign-extends the shorter array, \<open>js_bigint_not\<close> needs no extra limb.
\<close>

theorem js_bigint_logic_exact:
  assumes "big_ok a" and "big_ok b"
  shows "yields ctx (max (length a) (length b)) (js_bigint_logic ctx a b op)
      (case op of OP_or \<Rightarrow> big_val a OR big_val b | OP_and \<Rightarrow> big_val a AND big_val b
        | OP_xor \<Rightarrow> big_val a XOR big_val b)
    \<and> yields ctx (length a) (js_bigint_not ctx a) (NOT (big_val a))"
  using js_bigint_logic_yields[OF assms, of ctx op] js_bigint_not_yields[OF assms(1), of ctx]
  by (cases op) simp_all

theorem js_bigint_logic_exact_witness:
  "yields ctx0 (Suc (Suc 0)) (js_bigint_logic ctx0 [0xFFFFFFF0] [0, 1] OP_and) 4294967296
    \<and> yields ctx0 (Suc 0) (js_bigint_not ctx0 [0xFFFFFFF0]) 15"
  using js_bigint_logic_exact[of "[0xFFFFFFF0]" "[0, 1]" ctx0 OP_and]
  by (simp add: big_ok_def big_val_def js_bigint_sign_def mp_mod_def)

text \<open>
  \<^bold>\<open>C19.\<close> Shifts by any number of bits multiply by the power of two and divide by it rounding down,
  also for negative numbers and when all limbs are shifted out.
\<close>

theorem js_bigint_shift_exact:
  assumes "big_ok a"
  shows "yields ctx (if big_val a = 0 then 1 else length a + n div 32) (js_bigint_shl ctx a n)
      (big_val a * 2 ^ n)
    \<and> yields ctx (max 1 (length a - n div 32)) (js_bigint_shr ctx a n) (big_val a div 2 ^ n)"
  using js_bigint_shl_yields[OF assms] js_bigint_shr_yields[OF assms] by blast

theorem js_bigint_shift_exact_witness:
  "yields ctx0 (Suc (Suc 0)) (js_bigint_shl ctx0 [0xFFFFFFFD] 33) (- 25769803776)
    \<and> yields ctx0 (Suc 0) (js_bigint_shr ctx0 [0xFFFFFFFD] 33) (- 1)"
  using js_bigint_shift_exact[of "[0xFFFFFFFD]" ctx0 33]
  by (simp add: big_ok_def big_val_def js_bigint_sign_def mp_mod_def)

text \<open>
  \<^bold>\<open>C15.\<close> \<open>js_bigint_pow\<close> throws for a negative exponent; otherwise it returns the normalised exact power, or fails
  with \<open>OutOfMemory\<close> when an allocation is refused, or with \<open>RangeError\<close> when the power needs at least
  \<open>JS_BIGINT_MAX_SIZE - 2\<close> limbs.
\<close>

theorem js_bigint_pow_exact:
  assumes "big_ok a" and "big_ok b"
  shows "case js_bigint_pow ctx a b of
      Inr x \<Rightarrow> 0 \<le> big_val b \<and> big_ok x \<and> big_val x = big_val a ^ nat (big_val b)
    | Inl OutOfMemory \<Rightarrow> \<exists>k. \<not> can_alloc ctx k
    | Inl (RangeError s) \<Rightarrow> (if big_val b < 0 then s = ''BigInt negative exponent''
        else mp_mod (JS_BIGINT_MAX_SIZE - 2) \<le> \<bar>big_val a ^ nat (big_val b)\<bar>)"
  using js_bigint_pow_delivers[OF assms, of ctx]
  by (auto simp: delivers_def split: if_splits sum.splits js_error.splits)

theorem js_bigint_pow_exact_witness:
  "\<exists>x. js_bigint_pow ctx0 [0xFFFFFFFD] [3] = Inr x \<and> big_ok x \<and> big_val x = - 27"
proof -
  have v: "big_val [0xFFFFFFFD] = - 3" "big_val [3] = 3" and ok: "big_ok [0xFFFFFFFD]" "big_ok [3]"
    by (simp_all add: big_ok_def big_val_def js_bigint_sign_def mp_mod_def)
  have "mp_mod 1 \<le> mp_mod (JS_BIGINT_MAX_SIZE - 2)" by (rule mp_mod_mono) (simp add: max_size_eq)
  then have "27 < mp_mod (JS_BIGINT_MAX_SIZE - 2)" by (simp add: mp_mod_def[of "Suc 0"])
  then show ?thesis
    using js_bigint_pow_exact[OF ok, of ctx0]
    unfolding v by (auto simp: ctx0_def split: sum.splits js_error.splits)
qed

text \<open>
  \<^bold>\<open>C14.\<close> Every array a program can compute from 64-bit integers is normalised, and \<open>js_bigint_cmp\<close>, which
  compares signs, then lengths, then limbs, orders such arrays as their integers, answering 0 only for
  identical arrays.
\<close>

theorem js_bigint_cmp_orders:
  assumes "computed ctx a" and "computed ctx b"
  shows "big_ok a \<and> js_bigint_cmp a b = (if big_val a < big_val b then - 1 else if a = b then 0 else 1)"
proof -
  note ok = assms[THEN computed_ok]
  show ?thesis using ok js_bigint_cmp_val[OF ok] big_ok_unique[OF ok]
    by (auto simp: cmp_spec_def)
qed

theorem js_bigint_cmp_orders_witness:
  "big_ok [5] \<and> js_bigint_cmp [5] [- 1] = 1"
proof -
  have "js_bigint_new_si64 ctx0 5 = Inr [5]" "js_bigint_new_si64 ctx0 (- 1) = Inr [ucast (- 1 :: u64)]"
    by (simp_all add: js_bigint_new_si64_def js_bigint_new_si_def js_bigint_new_def js_malloc_def
        max_size_eq ctx0_def upt_rec)
   
  moreover have "ucast (- 1 :: u64) = (- 1 :: u32)" by (simp add: bit_eq_iff bit_simps)
  ultimately have "computed ctx0 [5]" "computed ctx0 [- 1]" by (metis computed.from_int64)+
  from js_bigint_cmp_orders[OF this] show ?thesis
    by (simp add: big_val_def js_bigint_sign_def mp_mod_def unsigned_minus_1_eq_mask mask_eq_exp_minus_1)
qed

end
