(* ===== verification/Char_Range.thy ===== *)
theory Char_Range
  imports Cutils_Bits
begin

text \<open>
  Character ranges of \<open>libunicode.c\<close>: a growing array of points, two for each interval, with the
  set operations of regular expression classes. The first section has the data, then come the
  operations with their allocation failures, then what each one does to the list of points
  (\<open>cr_list\<close>); \<open>Char_Sets\<close> reads these lists as sets. Sizes are kept below the range of \<open>int\<close>.
\<close>

section \<open>Data\<close>

text \<open>
  \<open>cr_points\<close> is the allocated block, so \<open>size\<close> is its length; \<open>cr_len\<close> points are in use.
  The memory decides which requests its \<open>realloc_func\<close> serves and what fresh cells hold.
\<close>

record cr_mem =
  can_realloc :: "nat \<Rightarrow> bool"
  fresh :: "nat \<Rightarrow> u32"

record char_range =
  cr_len :: nat
  cr_points :: "u32 list"

definition cr_size :: "char_range \<Rightarrow> nat" where
  "cr_size cr = length (cr_points cr)"

type_synonym cr_result = "int \<times> char_range"

datatype cr_op_enum = CR_OP_UNION | CR_OP_INTER | CR_OP_XOR

text \<open>\<open>if (call) return -1;\<close> and what follows it.\<close>

fun or_fail :: "cr_result \<Rightarrow> (char_range \<Rightarrow> cr_result) \<Rightarrow> cr_result" where
  "or_fail (ret, cr) k = (if ret \<noteq> 0 then (- 1, cr) else k cr)"

section \<open>Operations\<close>

definition cr_init :: char_range where
  "cr_init = \<lparr>cr_len = 0, cr_points = []\<rparr>"

definition cr_realloc :: "cr_mem \<Rightarrow> char_range \<Rightarrow> nat \<Rightarrow> cr_result" where
  "cr_realloc m cr sz =
     (if sz > cr_size cr then
        (let new_size = nat (max_int (int sz) (int (cr_size cr * 3 div 2)))
         in if \<not> can_realloc m (new_size * 4) then (- 1, cr)
            else (0, cr\<lparr>cr_points := cr_points cr @ map (fresh m) [cr_size cr..<new_size]\<rparr>))
      else (0, cr))"

definition cr_copy :: "cr_mem \<Rightarrow> char_range \<Rightarrow> char_range \<Rightarrow> cr_result" where
  "cr_copy m cr cr1 =
     or_fail (cr_realloc m cr (cr_len cr1)) (\<lambda>cr.
       (0, cr\<lparr>cr_points := blit (cr_points cr) 0 (take (cr_len cr1) (cr_points cr1)),
               cr_len := cr_len cr1\<rparr>))"

definition push_point :: "char_range \<Rightarrow> u32 \<Rightarrow> char_range" where
  "push_point cr v = cr\<lparr>cr_points := (cr_points cr)[cr_len cr := v], cr_len := cr_len cr + 1\<rparr>"

definition cr_add_point :: "cr_mem \<Rightarrow> char_range \<Rightarrow> u32 \<Rightarrow> cr_result" where
  "cr_add_point m cr v =
     or_fail (if cr_len cr \<ge> cr_size cr then cr_realloc m cr (cr_len cr + 1) else (0, cr))
       (\<lambda>cr. (0, push_point cr v))"

definition cr_add_interval :: "cr_mem \<Rightarrow> char_range \<Rightarrow> u32 \<Rightarrow> u32 \<Rightarrow> cr_result" where
  "cr_add_interval m cr c1 c2 =
     or_fail (if cr_len cr + 2 > cr_size cr then cr_realloc m cr (cr_len cr + 2) else (0, cr))
       (\<lambda>cr. (0, push_point (push_point cr c1) c2))"

text \<open>The inner \<open>while\<close> of \<open>cr_compress\<close>: the last interval that continues the one at \<open>j\<close>.\<close>

function run_end :: "u32 list \<Rightarrow> nat \<Rightarrow> nat \<Rightarrow> nat" where
  "run_end pt len j =
     (if j + 3 < len \<and> pt ! (j + 1) = pt ! (j + 2) then run_end pt len (j + 2) else j)"
  by auto
termination by (relation "measure (\<lambda>(pt, len, j). len - j)") auto

declare run_end.simps [simp del]

lemma run_end_ge: "j \<le> run_end pt len j"
proof (induction pt len j rule: run_end.induct)
  case (1 pt len j)
  then show ?case by (subst run_end.simps) (use le_trans in force)
qed

function compress_loop :: "u32 list \<Rightarrow> nat \<Rightarrow> nat \<Rightarrow> nat \<Rightarrow> u32 list \<times> nat" where
  "compress_loop pt len i k =
     (if i + 1 < len then
        if pt ! i = pt ! (i + 1) then compress_loop pt len (i + 2) k
        else
          (let j = run_end pt len i;
               pt = pt[k := pt ! i];
               pt = pt[k + 1 := pt ! (j + 1)]
           in compress_loop pt len (j + 2) (k + 2))
      else (pt, k))"
  by auto
termination
proof (relation "measure (\<lambda>(pt, len, i, k). len - i)", goal_cases)
  case (3 pt len i k)
  then show ?case using run_end_ge[of i pt len] by auto
qed auto

declare compress_loop.simps [simp del]

definition cr_compress :: "char_range \<Rightarrow> char_range" where
  "cr_compress cr =
     (let (pt, k) = compress_loop (cr_points cr) (cr_len cr) 0 0
      in cr\<lparr>cr_points := pt, cr_len := k\<rparr>)"

text \<open>The next point of the merge with the advanced indices, \<open>None\<close> at the end of both.\<close>

definition next_point :: "u32 list \<Rightarrow> u32 list \<Rightarrow> nat \<Rightarrow> nat \<Rightarrow> (u32 \<times> nat \<times> nat) option" where
  "next_point a_pt b_pt a_idx b_idx =
     (if a_idx < length a_pt \<and> b_idx < length b_pt then
        (if a_pt ! a_idx < b_pt ! b_idx then Some (a_pt ! a_idx, a_idx + 1, b_idx)
         else if a_pt ! a_idx = b_pt ! b_idx then Some (a_pt ! a_idx, a_idx + 1, b_idx + 1)
         else Some (b_pt ! b_idx, a_idx, b_idx + 1))
      else if a_idx < length a_pt then Some (a_pt ! a_idx, a_idx + 1, b_idx)
      else if b_idx < length b_pt then Some (b_pt ! b_idx, a_idx, b_idx + 1)
      else None)"

fun status_op :: "cr_op_enum \<Rightarrow> bool \<Rightarrow> bool \<Rightarrow> bool" where
  "status_op CR_OP_UNION x y = (x \<or> y)"
| "status_op CR_OP_INTER x y = (x \<and> y)"
| "status_op CR_OP_XOR x y = (x \<noteq> y)"

function cr_op_loop ::
  "cr_mem \<Rightarrow> char_range \<Rightarrow> u32 list \<Rightarrow> u32 list \<Rightarrow> nat \<Rightarrow> nat \<Rightarrow> cr_op_enum \<Rightarrow> cr_result" where
  "cr_op_loop m cr a_pt b_pt a_idx b_idx op =
     (case next_point a_pt b_pt a_idx b_idx of
        None \<Rightarrow> (0, cr_compress cr)
      | Some (v, a_idx, b_idx) \<Rightarrow>
          (let is_in = status_op op (odd a_idx) (odd b_idx)
           in if is_in \<noteq> odd (cr_len cr)
              then or_fail (cr_add_point m cr v) (\<lambda>cr. cr_op_loop m cr a_pt b_pt a_idx b_idx op)
              else cr_op_loop m cr a_pt b_pt a_idx b_idx op))"
  by auto
termination
  by (relation "measure (\<lambda>(m, cr, a, b, i, j, op). (length a - i) + (length b - j))")
    (auto simp: next_point_def split: if_splits)

declare cr_op_loop.simps [simp del]

definition cr_op :: "cr_mem \<Rightarrow> char_range \<Rightarrow> u32 list \<Rightarrow> u32 list \<Rightarrow> cr_op_enum \<Rightarrow> cr_result" where
  "cr_op m cr a_pt b_pt op = cr_op_loop m cr a_pt b_pt 0 0 op"

definition cr_union1 :: "cr_mem \<Rightarrow> char_range \<Rightarrow> u32 list \<Rightarrow> cr_result" where
  "cr_union1 m cr b_pt =
     (let a = cr; cr = cr\<lparr>cr_len := 0, cr_points := []\<rparr>
      in cr_op m cr (take (cr_len a) (cr_points a)) b_pt CR_OP_UNION)"

definition cr_union_interval :: "cr_mem \<Rightarrow> char_range \<Rightarrow> u32 \<Rightarrow> u32 \<Rightarrow> cr_result" where
  "cr_union_interval m cr c1 c2 = cr_union1 m cr [c1, c2 + 1]"

definition cr_invert :: "cr_mem \<Rightarrow> char_range \<Rightarrow> cr_result" where
  "cr_invert m cr =
     (let len = cr_len cr
      in or_fail (cr_realloc m cr (len + 2)) (\<lambda>cr.
           let pt = blit (cr_points cr) 1 (take len (cr_points cr));
               pt = pt[0 := 0];
               pt = pt[len + 1 := - 1]
           in (0, cr_compress (cr\<lparr>cr_points := pt, cr_len := len + 2\<rparr>))))"

section \<open>Lists of points\<close>

definition cr_list :: "char_range \<Rightarrow> u32 list" where
  "cr_list cr = take (cr_len cr) (cr_points cr)"

definition cr_wf :: "char_range \<Rightarrow> bool" where
  "cr_wf cr \<longleftrightarrow> cr_len cr \<le> length (cr_points cr)"

text \<open>A call leaves points that satisfy \<open>P\<close>, or returns -1 because a request was refused.\<close>

definition cr_returns :: "cr_mem \<Rightarrow> cr_result \<Rightarrow> (u32 list \<Rightarrow> bool) \<Rightarrow> bool" where
  "cr_returns m r P \<longleftrightarrow> cr_wf (snd r) \<and>
     (if fst r = 0 then P (cr_list (snd r)) else fst r = - 1 \<and> (\<exists>n. \<not> can_realloc m n))"

lemma length_cr_list [simp]: "cr_wf cr \<Longrightarrow> length (cr_list cr) = cr_len cr"
  by (simp add: cr_wf_def cr_list_def)

lemma cr_list_update [simp]: "cr_list (cr\<lparr>cr_points := pt, cr_len := n\<rparr>) = take n pt"
  by (simp add: cr_list_def)

lemma cr_returns_ok [simp]: "cr_returns m (0, cr) P \<longleftrightarrow> cr_wf cr \<and> P (cr_list cr)"
  by (auto simp: cr_returns_def)

lemma or_fail_returns:
  assumes "cr_returns m r P" and "\<And>cr. cr_wf cr \<Longrightarrow> P (cr_list cr) \<Longrightarrow> cr_returns m (f cr) Q"
  shows "cr_returns m (or_fail r f) Q"
  using assms by (cases r) (auto simp: cr_returns_def)

lemma cr_returns_mono: "cr_returns m r P \<Longrightarrow> (\<And>xs. P xs \<Longrightarrow> Q xs) \<Longrightarrow> cr_returns m r Q"
  by (auto simp: cr_returns_def)

lemma cr_realloc_cases:
  assumes "cr_realloc m cr n = (ret, cr')" and "cr_wf cr"
  shows "cr_wf cr' \<and> (ret = 0 \<and> n \<le> cr_size cr' \<and> cr_list cr' = cr_list cr \<and> cr_len cr' = cr_len cr
      \<or> ret = - 1 \<and> cr' = cr \<and> (\<exists>n. \<not> can_realloc m n))"
  using assms
  by (auto simp: cr_realloc_def Let_def cr_size_def cr_wf_def cr_list_def max_int_eq nat_le_iff
      split: if_splits)

lemma room:
  assumes "cr_wf cr" and "\<And>cr'. cr_wf cr' \<Longrightarrow> cr_list cr' = cr_list cr \<Longrightarrow> cr_len cr' = cr_len cr \<Longrightarrow>
    n \<le> cr_size cr' \<Longrightarrow> cr_returns m (f cr') P"
  shows "cr_returns m (or_fail (cr_realloc m cr n) f) P"
proof -
  obtain ret cr' where r: "cr_realloc m cr n = (ret, cr')" by fastforce
  from cr_realloc_cases[OF r assms(1)] assms(2)[of cr'] show ?thesis
    unfolding r by (auto simp: cr_returns_def)
qed

lemma room_if:
  assumes "cr_wf cr" and "\<And>cr'. cr_wf cr' \<Longrightarrow> cr_list cr' = cr_list cr \<Longrightarrow> cr_len cr' = cr_len cr \<Longrightarrow>
    n \<le> cr_size cr' \<Longrightarrow> cr_returns m (f cr') P" and "\<not> B \<Longrightarrow> n \<le> cr_size cr"
  shows "cr_returns m (or_fail (if B then cr_realloc m cr n else (0, cr)) f) P"
  using room[OF assms(1,2)] assms by simp

lemma push_point_list:
  assumes "cr_len cr < cr_size cr"
  shows "cr_wf (push_point cr v)" "cr_list (push_point cr v) = cr_list cr @ [v]"
    "cr_size (push_point cr v) = cr_size cr" "cr_len (push_point cr v) = cr_len cr + 1"
  using assms by (simp_all add: push_point_def cr_wf_def cr_list_def cr_size_def take_list_update_swap)

lemma cr_add_point_returns:
  "cr_wf cr \<Longrightarrow> cr_returns m (cr_add_point m cr v) (\<lambda>xs. xs = cr_list cr @ [v])"
  unfolding cr_add_point_def by (rule room_if) (auto simp: push_point_list)

lemma cr_add_interval_returns:
  "cr_wf cr \<Longrightarrow> cr_returns m (cr_add_interval m cr c1 c2) (\<lambda>xs. xs = cr_list cr @ [c1, c2])"
  unfolding cr_add_interval_def by (rule room_if) (auto simp: push_point_list)

lemma cr_copy_returns:
  "cr_wf cr \<Longrightarrow> cr_wf cr1 \<Longrightarrow> cr_returns m (cr_copy m cr cr1) (\<lambda>xs. xs = cr_list cr1)"
  unfolding cr_copy_def
  by (rule room) (auto simp: cr_wf_def cr_list_def cr_size_def blit_def)

section \<open>Compression\<close>

fun merge_run :: "u32 \<Rightarrow> u32 list \<Rightarrow> u32 \<times> u32 list" where
  "merge_run b (c # d # xs) = (if b = c then merge_run d xs else (b, c # d # xs))"
| "merge_run b xs = (b, xs)"

lemma length_merge_run: "length (snd (merge_run b xs)) \<le> length xs"
  by (induction b xs rule: merge_run.induct) auto

function canon :: "u32 list \<Rightarrow> u32 list" where
  "canon (a # b # xs) =
     (if a = b then canon xs else (case merge_run b xs of (e, ys) \<Rightarrow> a # e # canon ys))"
| "canon [x] = []"
| "canon [] = []"
  by pat_completeness auto
termination
proof (relation "measure length", goal_cases)
  case (3 a b xs e ys)
  then show ?case using length_merge_run[of b xs] by (simp flip: 3(2))
qed auto

lemma short_list: "length zs < 2 \<Longrightarrow> zs = [] \<or> (\<exists>x. zs = [x])"
  by (cases zs) (auto simp: less_Suc_eq numeral_eq_Suc)

lemma run_end_merge:
  assumes "len \<le> length pt" "j + 1 < len"
  shows "merge_run (pt ! (j + 1)) (drop (j + 2) (take len pt)) =
    (pt ! (run_end pt len j + 1), drop (run_end pt len j + 2) (take len pt)) \<and> run_end pt len j + 1 < len"
  using assms
proof (induction pt len j rule: run_end.induct)
  case (1 pt len j)
  show ?case
  proof (cases "j + 3 < len")
    case True
    then have "drop (j + 2) (take len pt) = pt ! (j + 2) # pt ! (j + 3) # drop (j + 4) (take len pt)"
      using 1(2) by (simp add: Cons_nth_drop_Suc[symmetric] numeral_eq_Suc)
    then show ?thesis using 1 True by (subst (1 2 3) run_end.simps) (auto simp: numeral_eq_Suc)
  next
    case False
    have "length (drop (j + 2) (take len pt)) < 2" using False 1(2) by simp
    from short_list[OF this] show ?thesis using 1(3) False by (subst (1 2 3) run_end.simps) auto
  qed
qed

lemma take_two_updates:
  "k + 1 < length pt \<Longrightarrow> take (Suc (Suc k)) (pt[k := x, Suc k := y]) = take k pt @ [x, y]"
  by (intro nth_equalityI) (auto simp: nth_append nth_list_update less_Suc_eq)

lemma compress_loop_canon:
  assumes "k \<le> i" "i \<le> len" "len \<le> length pt" and "compress_loop pt len i k = (pt', k')"
  shows "length pt' = length pt \<and> k' \<le> length pt' \<and> take k' pt' = take k pt @ canon (drop i (take len pt))"
  using assms
proof (induction pt len i k rule: compress_loop.induct)
  case (1 pt len i k)
  show ?case
  proof (cases "i + 1 < len")
    case False
    then have "length (drop i (take len pt)) < 2" by simp
    then have "canon (drop i (take len pt)) = []"
      using short_list by fastforce
    then show ?thesis using 1(3-) False by (subst (asm) compress_loop.simps) auto
  next
    case True
    have d: "drop i (take len pt) = pt ! i # pt ! (i + 1) # drop (i + 2) (take len pt)"
      using True 1(5) by (simp add: Cons_nth_drop_Suc[symmetric] numeral_eq_Suc)
    show ?thesis
    proof (cases "pt ! i = pt ! (i + 1)")
      case eq: True
      then show ?thesis using 1(1)[OF True eq] 1(3-) True d by (subst (asm) (2) compress_loop.simps) auto
    next
      case False
      define j where "j = run_end pt len i"
      define pt2 where "pt2 = pt[k := pt ! i, Suc k := pt ! (j + 1)]"
      note m = run_end_merge[OF 1(5) True, folded j_def]
      have ij: "i \<le> j" by (simp add: j_def run_end_ge)
      have nth: "pt[k := pt ! i] ! (j + 1) = pt ! (j + 1)" using ij 1(3) by simp
      have step: "compress_loop pt2 len (j + 2) (k + 2) = (pt', k')"
        using 1(6) True False nth by (subst (asm) compress_loop.simps) (simp add: Let_def j_def[symmetric] pt2_def)
      have same: "drop (j + 2) (take len pt2) = drop (j + 2) (take len pt)"
        using ij 1(3) by (simp add: pt2_def take_update_swap drop_update_swap)
      have "length pt' = length pt2 \<and> k' \<le> length pt' \<and>
          take k' pt' = take (k + 2) pt2 @ canon (drop (j + 2) (take len pt2))"
        using 1(2)[OF True False refl refl refl, folded j_def] 1(3-5) ij m step
        by (simp add: nth pt2_def)
      moreover have "take (k + 2) pt2 = take k pt @ [pt ! i, pt ! (j + 1)]"
        using ij 1(3-5) m by (simp add: pt2_def take_two_updates)
      ultimately show ?thesis using d False m same by (simp add: pt2_def)
    qed
  qed
qed

end
