(* ===== verification/Char_Sets.thy ===== *)
theory Char_Sets
  imports Char_Range
begin

text \<open>
  The set a list of points stands for and what \<open>cr_op\<close>, \<open>cr_union1\<close>, \<open>cr_invert\<close> and
  \<open>cr_compress\<close> do to it. \<open>inside\<close> counts points, which makes the merge simple to reason about;
  \<open>chars\<close> is the union of the half-open intervals, the meaning the operations are specified with.
\<close>

section \<open>Sets of characters\<close>

text \<open>A character is inside when an odd number of points is not above it.\<close>

definition inside :: "u32 list \<Rightarrow> u32 \<Rightarrow> bool" where
  "inside xs c = odd (length (filter (\<lambda>p. p \<le> c) xs))"

lemma inside_Nil [simp]: "\<not> inside [] c"
  by (simp add: inside_def)

lemma inside_Cons [simp]: "inside (x # xs) c = ((x \<le> c) \<noteq> inside xs c)"
  by (simp add: inside_def)

lemma inside_append [simp]: "inside (xs @ ys) c = (inside xs c \<noteq> inside ys c)"
  by (simp add: inside_def)

lemma inside_below: "(\<And>p. p \<in> set xs \<Longrightarrow> c < p) \<Longrightarrow> \<not> inside xs c"
  by (simp add: inside_def filter_empty_conv not_le)

lemma inside_above: "(\<And>p. p \<in> set xs \<Longrightarrow> p \<le> c) \<Longrightarrow> inside xs c = odd (length xs)"
  by (simp add: inside_def filter_id_conv[THEN iffD2])

lemma merge_run_props:
  assumes "merge_run b xs = (e, ys)" and "sorted (b # xs)" and "even (length xs)"
  shows "inside (b # xs) c = inside (e # ys) c \<and> sorted ys \<and> b \<le> e \<and> even (length ys) \<and>
    (\<forall>y \<in> set ys. e < y) \<and> e \<in> set (b # xs) \<and> set ys \<subseteq> set xs"
  using assms
proof (induction b xs rule: merge_run.induct)
  case (1 b c d xs)
  then show ?case by (auto simp: less_le split: if_splits dest: order_antisym)
qed auto

text \<open>
  \<open>cr_compress\<close> brings a sorted list into a normal form with the same characters: strictly
  increasing points.
\<close>

lemma canon_props:
  assumes "sorted xs" "even (length xs)"
  shows "sorted_wrt (<) (canon xs) \<and> even (length (canon xs)) \<and> set (canon xs) \<subseteq> set xs \<and>
    inside (canon xs) c = inside xs c"
  using assms
proof (induction xs rule: canon.induct)
  case (1 a b xs)
  show ?case
  proof (cases "a = b")
    case True
    then show ?thesis using 1 by auto
  next
    case False
    obtain e ys where m: "merge_run b xs = (e, ys)" by fastforce
    have so: "sorted (b # xs)" "even (length xs)" "a \<le> b" using 1(3,4) by simp_all
    note p = merge_run_props[OF m so(1,2)]
    have ih: "sorted_wrt (<) (canon ys) \<and> even (length (canon ys)) \<and> set (canon ys) \<subseteq> set ys \<and>
        inside (canon ys) c = inside ys c"
      using 1(2)[OF False m[symmetric]] p by blast
    have c: "canon (a # b # xs) = a # e # canon ys" using False m by simp
    have ae: "a < e" using False so(3) p[of c] by auto
    have "\<forall>y \<in> set (canon ys). e < y" using ih p by blast
    then have "sorted_wrt (<) (a # e # canon ys)" using ih ae by auto
    moreover have "set (a # e # canon ys) \<subseteq> set (a # b # xs)" using ih p[of c] by auto
    moreover have "inside (a # e # canon ys) c = inside (a # b # xs) c" using ih p[of c] by simp
    ultimately show ?thesis unfolding c using ih by simp
  qed
qed auto

lemma inside_strict:
  assumes "sorted_wrt (<) (x # xs)"
  shows "inside (x # xs) x" and "c < x \<Longrightarrow> \<not> inside (x # xs) c"
proof -
  have "\<forall>p \<in> set xs. x < p" using assms by simp
  then show "inside (x # xs) x" using inside_below[of xs x] by simp
  assume "c < x"
  then show "\<not> inside (x # xs) c"
    using \<open>\<forall>p \<in> set xs. x < p\<close> by (intro inside_below) auto
qed

lemma inside_determines:
  assumes "sorted_wrt (<) xs" "sorted_wrt (<) ys" and "\<And>c. inside xs c = inside ys c"
  shows "xs = ys"
  using assms
proof (induction xs arbitrary: ys)
  case Nil
  then show ?case using inside_strict(1) by (cases ys) fastforce+
next
  case (Cons x xs)
  obtain y zs where ys: "ys = y # zs"
    using inside_strict(1)[OF Cons(2)] Cons(4)[of x] by (cases ys) auto
  have "\<not> y < x" using inside_strict(2)[OF Cons(2), of y] inside_strict(1)[of y zs] Cons(3,4) ys by blast
  moreover have "\<not> x < y" using inside_strict(2)[of y zs x] inside_strict(1)[OF Cons(2)] Cons(3,4) ys by blast
  ultimately have xy: "x = y" by simp
  have "inside xs c = inside zs c" for c using Cons(4)[of c] ys xy by auto
  with Cons(1)[of zs] Cons(2,3) ys xy show ?case by simp
qed

lemma cr_compress_list:
  assumes "cr_wf cr"
  shows "cr_wf (cr_compress cr) \<and> cr_list (cr_compress cr) = canon (cr_list cr)"
proof -
  obtain pt k where c: "compress_loop (cr_points cr) (cr_len cr) 0 0 = (pt, k)" by fastforce
  from compress_loop_canon[OF _ _ _ c] assms show ?thesis
    by (simp add: cr_compress_def c cr_wf_def cr_list_def)
qed

section \<open>The merge\<close>

text \<open>
  Points seen so far are not above any point to come, and the points put out describe the operation
  on the points taken in.
\<close>

definition merged :: "cr_op_enum \<Rightarrow> u32 list \<Rightarrow> u32 list \<Rightarrow> u32 list \<Rightarrow> nat \<Rightarrow> nat \<Rightarrow> bool" where
  "merged op r a b i j \<longleftrightarrow> i \<le> length a \<and> j \<le> length b \<and> sorted r \<and>
     (\<forall>p \<in> set r \<union> set (take i a) \<union> set (take j b). \<forall>q \<in> set (drop i a) \<union> set (drop j b). p \<le> q) \<and>
     (\<forall>c. inside r c = status_op op (inside (take i a) c) (inside (take j b) c))"

lemma status_op_False [simp]: "\<not> status_op op False False"
  by (cases op) simp_all

lemma next_point_props:
  assumes "next_point a b i j = Some (v, i', j')" and "sorted a" "sorted b" "i \<le> length a" "j \<le> length b"
  shows "i' \<le> length a \<and> j' \<le> length b \<and> i \<le> i' \<and> j \<le> j' \<and>
    (\<forall>q \<in> set (drop i' a) \<union> set (drop j' b). v \<le> q) \<and>
    take i' a = take i a @ replicate (i' - i) v \<and> take j' b = take j b @ replicate (j' - j) v \<and>
    v \<in> set (drop i a) \<union> set (drop j b) \<and>
    set (drop i' a) \<subseteq> set (drop i a) \<and> set (drop j' b) \<subseteq> set (drop j b)"
proof -
  have split_a: "drop i a = a ! i # drop (Suc i) a \<and> (\<forall>q \<in> set (drop (Suc i) a). a ! i \<le> q)" if "i < length a"
    using that assms(2) sorted_wrt_drop[of "(\<le>)" a i] by (simp add: Cons_nth_drop_Suc[symmetric])
  have split_b: "drop j b = b ! j # drop (Suc j) b \<and> (\<forall>q \<in> set (drop (Suc j) b). b ! j \<le> q)" if "j < length b"
    using that assms(3) sorted_wrt_drop[of "(\<le>)" b j] by (simp add: Cons_nth_drop_Suc[symmetric])
  show ?thesis
    using assms(1,4,5) split_a split_b
    by (auto simp: next_point_def take_Suc_conv_app_nth split: if_splits)
qed

lemma merged_step:
  assumes m: "merged op r a b i j" and n: "next_point a b i j = Some (v, i', j')"
    and s: "sorted a" "sorted b"
    and is_in: "is_in = status_op op (odd i') (odd j')"
  shows "merged op (if is_in \<noteq> odd (length r) then r @ [v] else r) a b i' j'"
proof -
  let ?r = "if is_in \<noteq> odd (length r) then r @ [v] else r"
  have ij: "i \<le> length a" "j \<le> length b" using m by (simp_all add: merged_def)
  note p = next_point_props[OF n s ij]
  have low: "p \<le> v" if "p \<in> set r \<union> set (take i a) \<union> set (take j b)" for p
    using m p that unfolding merged_def by blast
  have "inside ?r c = status_op op (inside (take i' a) c) (inside (take j' b) c)" for c
  proof (cases "v \<le> c")
    case False
    then have "inside (replicate n v) c = False" for n using inside_below[of "replicate n v" c] by auto
    then have "inside ?r c = inside r c" "inside (take i' a) c = inside (take i a) c"
      "inside (take j' b) c = inside (take j b) c"
      using p False by auto
    then show ?thesis using m by (simp add: merged_def)
  next
    case True
    have le: "p \<le> c" if "p \<in> set r \<union> set (take i' a) \<union> set (take j' b)" for p
    proof -
      have "p \<le> v" using that low[of p] p by auto
      then show ?thesis using True by simp
    qed
    have "inside r c = odd (length r)" using le by (intro inside_above) auto
    then have "inside ?r c = is_in" using True by auto
    moreover have "inside (take i' a) c = odd i'" "inside (take j' b) c = odd j'"
      using le p inside_above[of "take i' a" c] inside_above[of "take j' b" c] by auto
    ultimately show ?thesis using is_in by simp
  qed
  moreover have "sorted ?r" using m low by (auto simp: merged_def sorted_append)
  moreover have "p \<le> q" if "p \<in> set ?r \<union> set (take i' a) \<union> set (take j' b)"
    "q \<in> set (drop i' a) \<union> set (drop j' b)" for p q
  proof -
    have "p \<le> v" using that(1) low[of p] p by (auto split: if_splits)
    moreover have "v \<le> q" using that(2) p by blast
    ultimately show ?thesis by simp
  qed
  ultimately show ?thesis using p by (auto simp: merged_def)
qed

lemma cr_op_loop_returns:
  assumes "cr_wf cr" and "merged op (cr_list cr) a b i j" and "sorted a" "sorted b"
  shows "cr_returns m (cr_op_loop m cr a b i j op)
    (\<lambda>xs. \<exists>r. merged op r a b (length a) (length b) \<and> xs = canon r)"
  using assms
proof (induction m cr a b i j op rule: cr_op_loop.induct)
  case (1 m cr a b i j op)
  show ?case
  proof (cases "next_point a b i j")
    case None
    then have "i = length a" "j = length b"
      using 1(4) by (auto simp: next_point_def merged_def split: if_splits)
    then show ?thesis using 1(3,4) None cr_compress_list[of cr]
      by (subst cr_op_loop.simps) auto
  next
    case (Some p)
    then obtain v i' j' where n: "next_point a b i j = Some (v, i', j')" by (cases p) auto
    define is_in where "is_in = status_op op (odd i') (odd j')"
    note st = merged_step[OF 1(4) n 1(5,6) is_in_def]
    show ?thesis
    proof (cases "is_in \<noteq> odd (cr_len cr)")
      case False
      with 1(2)[OF n refl refl is_in_def False 1(3) _ 1(5,6)] st 1(3) n show ?thesis
        by (subst cr_op_loop.simps) (simp add: is_in_def[symmetric])
    next
      case True
      have "cr_returns m (or_fail (cr_add_point m cr v) (\<lambda>cr. cr_op_loop m cr a b i' j' op))
        (\<lambda>xs. \<exists>r. merged op r a b (length a) (length b) \<and> xs = canon r)"
      proof (rule or_fail_returns[OF cr_add_point_returns[OF 1(3)]])
        fix cr' assume "cr_wf cr'" "cr_list cr' = cr_list cr @ [v]"
        with 1(1)[OF n refl refl is_in_def True _ _ 1(5,6)] st 1(3) True
        show "cr_returns m (cr_op_loop m cr' a b i' j' op)
          (\<lambda>xs. \<exists>r. merged op r a b (length a) (length b) \<and> xs = canon r)" by simp
      qed
      then show ?thesis using True n by (subst cr_op_loop.simps) (simp add: is_in_def[symmetric])
    qed
  qed
qed

text \<open>Points in normal form.\<close>

definition normal :: "u32 list \<Rightarrow> bool" where
  "normal xs \<longleftrightarrow> sorted_wrt (<) xs \<and> even (length xs)"

lemma normal_sorted: "normal xs \<Longrightarrow> sorted xs"
  by (simp add: normal_def strict_sorted_imp_sorted)

lemma normal_canon: "sorted xs \<Longrightarrow> even (length xs) \<Longrightarrow> normal (canon xs)"
  using canon_props[of xs] by (simp add: normal_def)

lemma inside_canon: "sorted xs \<Longrightarrow> even (length xs) \<Longrightarrow> inside (canon xs) c = inside xs c"
  using canon_props[of xs c] by simp

lemma cr_op_returns:
  assumes "cr_wf cr" "cr_len cr = 0" and "sorted a" "even (length a)" "sorted b" "even (length b)"
  shows "cr_returns m (cr_op m cr a b op)
    (\<lambda>xs. normal xs \<and> (\<forall>c. inside xs c = status_op op (inside a c) (inside b c)))"
proof -
  have "cr_list cr = []" using assms(2) by (simp add: cr_list_def)
  then have "merged op (cr_list cr) a b 0 0" by (simp add: merged_def)
  from cr_op_loop_returns[OF assms(1) this assms(3,5)] show ?thesis
    unfolding cr_op_def
  proof (rule cr_returns_mono, elim exE conjE)
    fix xs r assume r: "merged op r a b (length a) (length b)" and xs: "xs = canon r"
    have so: "sorted r" and ins: "\<And>c. inside r c = status_op op (inside a c) (inside b c)"
      using r by (simp_all add: merged_def)
    have "even (length r)"
    proof -
      have "inside ys (- 1) = odd (length ys)" for ys by (rule inside_above) simp
      then show ?thesis using ins[of "- 1"] assms(4,6) by simp
    qed
    with so ins xs show "normal xs \<and> (\<forall>c. inside xs c = status_op op (inside a c) (inside b c))"
      by (simp add: normal_canon inside_canon)
  qed
qed

lemma cr_union1_returns:
  assumes "sorted (cr_list cr)" "even (length (cr_list cr))" "sorted b" "even (length b)"
  shows "cr_returns m (cr_union1 m cr b) (\<lambda>xs. normal xs \<and> (\<forall>c. inside xs c = (inside (cr_list cr) c \<or> inside b c)))"
  using cr_op_returns[of "cr\<lparr>cr_len := 0, cr_points := []\<rparr>" "cr_list cr" b m CR_OP_UNION] assms
  by (simp add: cr_union1_def cr_list_def cr_wf_def)

lemma cr_invert_returns:
  assumes "cr_wf cr" and "sorted (cr_list cr)" "even (cr_len cr)"
  shows "cr_returns m (cr_invert m cr)
    (\<lambda>xs. normal xs \<and> (\<forall>c. inside xs c = (if c = - 1 then inside (cr_list cr) c else \<not> inside (cr_list cr) c)))"
  unfolding cr_invert_def Let_def
proof (rule room[OF assms(1)])
  fix cr' assume cr': "cr_wf cr'" "cr_list cr' = cr_list cr" "cr_len cr' = cr_len cr" "cr_len cr + 2 \<le> cr_size cr'"
  let ?xs = "cr_list cr"
  let ?pt = "(blit (cr_points cr') 1 (take (cr_len cr) (cr_points cr')))[0 := 0, cr_len cr + 1 := - 1]"
  let ?cr = "cr'\<lparr>cr_points := ?pt, cr_len := cr_len cr + 2\<rparr>"
  have xs: "take (cr_len cr) (cr_points cr') = ?xs" using cr'(2,3) by (simp add: cr_list_def)
  have len: "length ?xs = cr_len cr" using assms(1) by simp
  have pt: "length ?pt = cr_size cr'" using cr'(4) by (simp add: xs len cr_size_def)
  have l: "cr_list ?cr = 0 # ?xs @ [- 1]"
  proof (rule nth_equalityI)
    show "length (cr_list ?cr) = length (0 # ?xs @ [- 1])"
      using cr'(4) pt by (simp add: len)
    fix i assume "i < length (cr_list ?cr)"
    then show "cr_list ?cr ! i = (0 # ?xs @ [- 1]) ! i"
      using cr'(4) len by (auto simp: xs blit_def nth_append nth_Cons' nth_list_update cr_size_def)
  qed
  have wf: "cr_wf ?cr" using cr'(4) by (simp add: cr_wf_def cr_size_def xs len)
  have so: "sorted (0 # ?xs @ [- 1])" using assms(2) by (simp add: sorted_append)
  have ev: "even (length (0 # ?xs @ [- 1]))" using assms(3) len by simp
  have "inside (0 # ?xs @ [- 1]) c = (if c = - 1 then inside ?xs c else \<not> inside ?xs c)" for c
    using order_antisym[of c "- 1"] by auto
  with so ev l cr_compress_list[OF wf] show "cr_returns m (0, cr_compress ?cr)
    (\<lambda>xs. normal xs \<and> (\<forall>c. inside xs c = (if c = - 1 then inside ?xs c else \<not> inside ?xs c)))"
    by (simp only: cr_returns_ok normal_canon inside_canon simp_thms)
qed

section \<open>The characters of a range\<close>

fun intervals :: "u32 list \<Rightarrow> (u32 \<times> u32) list" where
  "intervals (a # b # xs) = (a, b) # intervals xs"
| "intervals _ = []"

definition chars :: "u32 list \<Rightarrow> u32 set" where
  "chars xs = (\<Union>(a, b) \<in> set (intervals xs). {a..<b})"

lemma chars_simps [simp]: "chars [] = {}" "chars (a # b # xs) = {a..<b} \<union> chars xs"
  by (auto simp: chars_def)

lemma inside_chars: "sorted xs \<Longrightarrow> even (length xs) \<Longrightarrow> inside xs c \<longleftrightarrow> c \<in> chars xs"
proof (induction xs rule: intervals.induct)
  case (1 a b xs)
  then have ih: "inside xs c \<longleftrightarrow> c \<in> chars xs" by simp
  have "\<not> c < b" if "inside xs c" using that inside_below[of xs c] 1(2) by fastforce
  then show ?case using ih 1(2) by (auto simp: not_less)
qed auto

lemma chars_eq_iff:
  assumes "normal xs" "normal ys" and "chars xs = chars ys"
  shows "xs = ys"
  using assms inside_determines[of xs ys] inside_chars[OF normal_sorted] 
  by (auto simp: normal_def strict_sorted_imp_sorted)

fun set_op :: "cr_op_enum \<Rightarrow> u32 set \<Rightarrow> u32 set \<Rightarrow> u32 set" where
  "set_op CR_OP_UNION A B = A \<union> B"
| "set_op CR_OP_INTER A B = A \<inter> B"
| "set_op CR_OP_XOR A B = (A - B) \<union> (B - A)"

lemma mem_set_op: "c \<in> set_op op A B \<longleftrightarrow> status_op op (c \<in> A) (c \<in> B)"
  by (cases op) auto

lemma cr_op_chars:
  assumes "cr_wf cr" "cr_len cr = 0" and "sorted a" "even (length a)" "sorted b" "even (length b)"
  shows "cr_returns m (cr_op m cr a b op) (\<lambda>xs. normal xs \<and> chars xs = set_op op (chars a) (chars b))"
  using cr_op_returns[OF assms, of m op]
  by (rule cr_returns_mono)
    (auto simp: set_eq_iff mem_set_op inside_chars[symmetric] assms normal_def strict_sorted_imp_sorted)

lemma cr_union1_chars:
  assumes "sorted (cr_list cr)" "even (length (cr_list cr))" "sorted b" "even (length b)"
  shows "cr_returns m (cr_union1 m cr b) (\<lambda>xs. normal xs \<and> chars xs = chars (cr_list cr) \<union> chars b)"
  using cr_union1_returns[OF assms, of m]
  by (rule cr_returns_mono)
    (auto simp: set_eq_iff inside_chars[symmetric] assms normal_def strict_sorted_imp_sorted)

lemma not_max_char: "normal xs \<Longrightarrow> - 1 \<notin> chars xs"
  by (auto simp: chars_def) 

lemma cr_invert_chars:
  assumes "cr_wf cr" and "normal (cr_list cr)"
  shows "cr_returns m (cr_invert m cr) (\<lambda>xs. normal xs \<and> chars xs = - chars (cr_list cr) - {- 1})"
proof -
  note so = normal_sorted[OF assms(2)]
  have ev: "even (cr_len cr)" "even (length (cr_list cr))" using assms by (simp_all add: normal_def)
  show ?thesis using cr_invert_returns[OF assms(1) so ev(1), of m]
    by (rule cr_returns_mono)
      (auto simp: set_eq_iff inside_chars[OF so ev(2)] inside_chars[OF normal_sorted] normal_def not_max_char[OF assms(2)] split: if_splits)
qed

section \<open>Properties\<close>

text \<open>
  \<^bold>\<open>C20.\<close> \<open>cr_op\<close> of two ascending point lists into an empty range gives the union, intersection or symmetric
  difference of their characters in normal form (strictly ascending points, none superfluous), or
  returns -1 when memory is refused.
\<close>

theorem cr_op_computes:
  assumes "sorted a" and "even (length a)" and "sorted b" and "even (length b)"
  shows "cr_returns m (cr_op m cr_init a b op) (\<lambda>xs. sorted_wrt (<) xs \<and> even (length xs) \<and>
    chars xs = (case op of CR_OP_UNION \<Rightarrow> chars a \<union> chars b | CR_OP_INTER \<Rightarrow> chars a \<inter> chars b
      | CR_OP_XOR \<Rightarrow> (chars a - chars b) \<union> (chars b - chars a)))"
proof -
  have "cr_wf cr_init" "cr_len cr_init = 0" by (simp_all add: cr_init_def cr_wf_def)
  from cr_op_chars[OF this assms, of m op] show ?thesis
    by (rule cr_returns_mono) (cases op; simp add: normal_def)
qed

definition mem0 :: cr_mem where
  "mem0 = \<lparr>can_realloc = (\<lambda>n. True), fresh = (\<lambda>i. 0xCAFE)\<rparr>"

theorem cr_op_computes_witness:
  "cr_returns mem0 (cr_op mem0 cr_init [10, 20, 20, 30] [15, 25] CR_OP_XOR)
    (\<lambda>xs. sorted_wrt (<) xs \<and> even (length xs) \<and>
      chars xs = (chars [10, 20, 20, 30] - chars [15, 25]) \<union> (chars [15, 25] - chars [10, 20, 20, 30]))"
  using cr_op_computes[of "[10, 20, 20, 30]" "[15, 25]" mem0 CR_OP_XOR] by simp

text \<open>
  \<^bold>\<open>C21.\<close> Normal forms are canonical, and \<open>cr_compress\<close> computes them: two ascending ranges have the same
  characters exactly when compressing them gives the same points.
\<close>

theorem cr_compress_canonical:
  assumes "cr_wf x" "sorted (cr_list x)" "even (cr_len x)"
    and "cr_wf y" "sorted (cr_list y)" "even (cr_len y)"
  shows "cr_list (cr_compress x) = cr_list (cr_compress y) \<longleftrightarrow> chars (cr_list x) = chars (cr_list y)"
proof -
  have n: "normal (cr_list (cr_compress z)) \<and> chars (cr_list (cr_compress z)) = chars (cr_list z)"
    if z: "cr_wf z" "sorted (cr_list z)" "even (cr_len z)" for z
  proof -
    have e: "even (length (cr_list z))" using z by simp
    note c = normal_canon[OF z(2) e]
    have "c \<in> chars (canon (cr_list z)) \<longleftrightarrow> c \<in> chars (cr_list z)" for c
      using inside_canon[OF z(2) e, of c] inside_chars[OF z(2) e, of c] inside_chars[OF normal_sorted[OF c], of c] c
      by (simp add: normal_def)
    then show ?thesis using cr_compress_list[OF z(1)] c by auto
  qed
  note nx = n[OF assms(1-3)] and ny = n[OF assms(4-6)]
  show ?thesis
  proof
    assume "cr_list (cr_compress x) = cr_list (cr_compress y)"
    with nx ny show "chars (cr_list x) = chars (cr_list y)" by simp
  next
    assume "chars (cr_list x) = chars (cr_list y)"
    with nx ny show "cr_list (cr_compress x) = cr_list (cr_compress y)" by (intro chars_eq_iff) simp_all
  qed
qed

theorem cr_compress_canonical_witness:
  "cr_list (cr_compress \<lparr>cr_len = 4, cr_points = [10, 20, 20, 30, 99]\<rparr>)
    = cr_list (cr_compress \<lparr>cr_len = 4, cr_points = [5, 5, 10, 30]\<rparr>)
    \<longleftrightarrow> chars [10, 20, 20, 30] = chars [5, 5, 10, 30]"
  using cr_compress_canonical[of "\<lparr>cr_len = 4, cr_points = [10, 20, 20, 30, 99]\<rparr>"
      "\<lparr>cr_len = 4, cr_points = [5, 5, 10, 30]\<rparr>"]
  by (simp add: cr_wf_def cr_list_def)

text \<open>
  \<^bold>\<open>C22.\<close> \<open>cr_invert\<close> complements a range among the characters below \<open>UINT32_MAX\<close>; when two inversions in a row both find memory,
  they restore the points.
\<close>

theorem cr_invert_twice:
  assumes "cr_wf cr" and "sorted_wrt (<) (cr_list cr)" "even (cr_len cr)" and "cr_invert m cr = (0, cr1)"
  shows "chars (cr_list cr1) = UNIV - {- 1} - chars (cr_list cr) \<and>
    cr_returns m (cr_invert m cr1) (\<lambda>xs. xs = cr_list cr)"
proof
  have n: "normal (cr_list cr)" using assms(1-3) by (simp add: normal_def)
  from cr_invert_chars[OF assms(1) n, of m] assms(4)
  have 1: "cr_wf cr1" "normal (cr_list cr1)" "chars (cr_list cr1) = - chars (cr_list cr) - {- 1}" by simp_all
  show "chars (cr_list cr1) = UNIV - {- 1} - chars (cr_list cr)" unfolding 1(3) by blast
  have e: "- chars (cr_list cr1) - {- 1} = chars (cr_list cr)"
    unfolding 1(3) using not_max_char[OF n] by blast
  show "cr_returns m (cr_invert m cr1) (\<lambda>xs. xs = cr_list cr)"
    using cr_invert_chars[OF 1(1,2), of m] unfolding e
    by (rule cr_returns_mono) (blast intro: chars_eq_iff[OF _ n])
qed

theorem cr_invert_twice_witness:
  "\<exists>cr1. cr_invert mem0 \<lparr>cr_len = 2, cr_points = [65, 91]\<rparr> = (0, cr1) \<and>
    chars (cr_list cr1) = UNIV - {- 1} - chars [65, 91] \<and>
    cr_returns mem0 (cr_invert mem0 cr1) (\<lambda>xs. xs = [65, 91])"
proof -
  let ?cr = "\<lparr>cr_len = 2, cr_points = [65, 91]\<rparr> :: char_range"
  have 1: "cr_wf ?cr" "sorted_wrt (<) (cr_list ?cr)" "even (cr_len ?cr)" "cr_list ?cr = [65, 91]"
    by (simp_all add: cr_wf_def cr_list_def)
  have "normal (cr_list ?cr)" by (simp add: normal_def 1(4))
  from cr_invert_chars[OF 1(1) this, of mem0] have "fst (cr_invert mem0 ?cr) = 0"
    by (auto simp only: cr_returns_def mem0_def cr_mem.simps split: if_splits)
  then obtain cr1 where c: "cr_invert mem0 ?cr = (0, cr1)" by (metis prod.collapse)
  from cr_invert_twice[OF 1(1-3) c] c show ?thesis unfolding 1(4) by blast
qed

end
