(* ===== verification/Uni_Table.thy ===== *)
theory Uni_Table
  imports Char_Sets
begin

text \<open>
  The compressed property tables of \<open>libunicode.c\<close>. A table lists run lengths of characters that
  alternately lack and have the property. \<open>unicode_prop1\<close> expands it to a \<open>CharRange\<close>;
  \<open>lre_is_in_table\<close> answers for one character, entering the table through an index with one entry
  for each 32 bytes. Both are compared with the run lengths (\<open>runs\<close>) of the table.
\<close>

section \<open>Operations\<close>

definition get_le24 :: "u8 list \<Rightarrow> nat \<Rightarrow> u32" where
  "get_le24 tab i =
     ucast (tab ! i) OR push_bit 8 (ucast (tab ! (i + 1))) OR push_bit 16 (ucast (tab ! (i + 2)))"

definition UNICODE_INDEX_BLOCK_LEN :: nat where "UNICODE_INDEX_BLOCK_LEN = 32"

definition code_mask :: u32 where "code_mask = push_bit 21 1 - 1"

function index_search :: "u8 list \<Rightarrow> u32 \<Rightarrow> nat \<Rightarrow> nat \<Rightarrow> nat" where
  "index_search index_table c idx_min idx_max =
     (if idx_max - idx_min > 1 then
        (let idx = (idx_max + idx_min) div 2;
             code = get_le24 index_table (idx * 3) AND code_mask
         in if c < code then index_search index_table c idx_min idx
            else index_search index_table c idx idx_max)
      else idx_min)"
  by auto
termination by (relation "measure (\<lambda>(t, c, i, j). j - i)") auto

declare index_search.simps [simp del]

text \<open>\<open>None\<close> is the result -1; otherwise the code of the block and the offset of its first byte.\<close>

definition get_index_pos :: "u32 \<Rightarrow> u8 list \<Rightarrow> nat \<Rightarrow> (u32 \<times> nat) option" where
  "get_index_pos c index_table index_table_len =
     (let v = get_le24 index_table 0; code = v AND code_mask
      in if c < code then Some (0, 0)
         else
           (let idx_max = index_table_len - 1; code = get_le24 index_table (idx_max * 3)
            in if c \<ge> code then None
               else
                 (let idx_min = index_search index_table c 0 idx_max;
                      v = get_le24 index_table (idx_min * 3)
                  in Some (v AND code_mask, (idx_min + 1) * UNICODE_INDEX_BLOCK_LEN + unat (drop_bit 21 v)))))"

text \<open>
  The length of a run whose first byte is at least 64, and the bytes after it. \<open>None\<close>, here and below, is a
  read past the end of the table.
\<close>

fun long_run :: "u8 \<Rightarrow> u8 list \<Rightarrow> (u32 \<times> u8 list) option" where
  "long_run b p =
     (if b \<ge> 0x80 then Some (ucast b - 0x80 + 1, p)
      else if b < 0x60 then
        (case p of p0 # p \<Rightarrow> Some ((push_bit 8 (ucast b - 0x40) OR ucast p0) + 1, p) | _ \<Rightarrow> None)
      else
        (case p of p0 # p1 # p \<Rightarrow>
           Some ((push_bit 16 (ucast b - 0x60) OR push_bit 8 (ucast p0) OR ucast p1) + 1, p) | _ \<Rightarrow> None))"

lemma long_run_shorter: "long_run b p = Some (n, q) \<Longrightarrow> length q \<le> length p"
  by (auto split: if_splits list.splits)

declare long_run.simps [simp del]

function in_table_loop :: "u8 list \<Rightarrow> u32 \<Rightarrow> u32 \<Rightarrow> bool \<Rightarrow> bool option" where
  "in_table_loop (b # p) c code bt =
     (if b < 64 then
        (let code = code + ucast (drop_bit 3 b) + 1
         in if c < code then Some bt
            else
              (let bt = (\<not> bt); code = code + ucast (b AND 7) + 1
               in if c < code then Some bt else in_table_loop p c code (\<not> bt)))
      else
        (case long_run b p of
           None \<Rightarrow> None
         | Some (n, p) \<Rightarrow>
             (let code = code + n in if c < code then Some bt else in_table_loop p c code (\<not> bt))))"
| "in_table_loop [] c code bt = None"
  by pat_completeness auto
termination by (relation "measure (\<lambda>(p, c, code, bt). length p)") (auto dest: long_run_shorter)

definition lre_is_in_table :: "u32 \<Rightarrow> u8 list \<Rightarrow> u8 list \<Rightarrow> nat \<Rightarrow> bool option" where
  "lre_is_in_table c table index_table index_table_len =
     (case get_index_pos c index_table index_table_len of
        None \<Rightarrow> Some False
      | Some (code, pos) \<Rightarrow> in_table_loop (drop pos table) c code False)"

function prop_loop :: "cr_mem \<Rightarrow> u8 list \<Rightarrow> u32 \<Rightarrow> bool \<Rightarrow> char_range \<Rightarrow> cr_result option" where
  "prop_loop m (b # p) c bt cr =
     (let c0 = c
      in if b < 64 then
           (let c = c + ucast (drop_bit 3 b) + 1;
                (ret, cr) = (if bt then cr_add_interval m cr c0 c else (0, cr))
            in if ret \<noteq> 0 then Some (- 1, cr)
               else
                 (let bt = (\<not> bt); c0 = c; c = c + ucast (b AND 7) + 1;
                      (ret, cr) = (if bt then cr_add_interval m cr c0 c else (0, cr))
                  in if ret \<noteq> 0 then Some (- 1, cr) else prop_loop m p c (\<not> bt) cr))
         else
           (case long_run b p of
              None \<Rightarrow> None
            | Some (n, p) \<Rightarrow>
                (let c = c + n; (ret, cr) = (if bt then cr_add_interval m cr c0 c else (0, cr))
                 in if ret \<noteq> 0 then Some (- 1, cr) else prop_loop m p c (\<not> bt) cr)))"
| "prop_loop m [] c bt cr = Some (0, cr)"
  by pat_completeness auto
termination by (relation "measure (\<lambda>(m, p, c, bt, cr). length p)") (auto dest: long_run_shorter)

text \<open>\<open>table\<close> is \<open>unicode_prop_table[prop_idx]\<close>.\<close>

definition unicode_prop1 :: "cr_mem \<Rightarrow> char_range \<Rightarrow> u8 list \<Rightarrow> cr_result option" where
  "unicode_prop1 m cr table = prop_loop m table 0 False cr"

section \<open>Run lengths\<close>

text \<open>The run lengths a table encodes, the reference both readers are compared with.\<close>

fun decode_run :: "u8 list \<Rightarrow> (nat list \<times> u8 list) option" where
  "decode_run (b # p) =
     (if b < 64 then Some ([unat b div 8 + 1, unat b mod 8 + 1], p)
      else if b \<ge> 0x80 then Some ([unat b - 128 + 1], p)
      else if b < 0x60 then
        (case p of p0 # p \<Rightarrow> Some ([(unat b - 64) * 256 + unat p0 + 1], p) | _ \<Rightarrow> None)
      else
        (case p of p0 # p1 # p \<Rightarrow> Some ([(unat b - 96) * 65536 + unat p0 * 256 + unat p1 + 1], p) | _ \<Rightarrow> None))"
| "decode_run [] = None"

lemma decode_run_shorter: "decode_run p = Some (ts, q) \<Longrightarrow> length q < length p"
  by (cases p) (auto split: if_splits list.splits)

function runs :: "u8 list \<Rightarrow> nat list option" where
  "runs (b # p) =
     (case decode_run (b # p) of None \<Rightarrow> None
      | Some (ts, q) \<Rightarrow> (case runs q of None \<Rightarrow> None | Some us \<Rightarrow> Some (ts @ us)))"
| "runs [] = Some []"
  by pat_completeness auto
termination by (relation "measure length") (auto simp del: decode_run.simps dest: decode_run_shorter)

declare runs.simps(1) [simp del]

fun at_run :: "nat list \<Rightarrow> nat \<Rightarrow> bool \<Rightarrow> bool option" where
  "at_run (t # ts) c bt = (if c < t then Some bt else at_run ts (c - t) (\<not> bt))"
| "at_run [] c bt = None"

fun run_points :: "nat list \<Rightarrow> nat \<Rightarrow> bool \<Rightarrow> u32 list" where
  "run_points (t # ts) c bt =
     (if bt then [of_nat c, of_nat (c + t)] else []) @ run_points ts (c + t) (\<not> bt)"
| "run_points [] c bt = []"

lemma unat_drop_bit_3: "unat (drop_bit 3 (b :: u8)) = unat b div 8"
  by (simp add: unat_drop_bit)

lemma unat_and_7: "unat (b AND 7 :: u8) = unat b mod 8"
  using nat_and_mask[of "unat b" 3] by (simp add: unsigned_and_eq mask_eq_exp_minus_1)

lemma unat_ucast_8_32 [simp]: "unat (ucast (b :: u8) :: u32) = unat b"
  by (simp add: unat_ucast_mod)

lemma unat_or_shift:
  assumes "unat (x :: u32) < 2 ^ k" "unat y * 2 ^ k < 4294967296"
  shows "unat (push_bit k y OR x) = unat y * 2 ^ k + unat x"
  using assms nat_or_add[of "unat x" k "unat y"]
  by (simp add: unsigned_or_eq unat_push_bit mult.commute)

lemma long_run_decode:
  assumes "\<not> b < 64"
  shows "decode_run (b # p) = map_option (\<lambda>(n, q). ([unat n], q)) (long_run b p)"
    and "long_run b p = Some (n, q) \<Longrightarrow> 0 < unat n"
proof -
  have b: "64 \<le> unat b" "unat b < 256" using assms by (simp_all add: word_less_nat_alt not_less)
  have 1: "unat (ucast b - 0x80 + 1 :: u32) = unat b - 128 + 1" if "b \<ge> 0x80"
    using that b by (simp add: unat_sub_u32 unat_add_u32 word_le_nat_alt)
  have 2: "unat ((push_bit 8 (ucast b - 0x40) OR ucast p0) + 1 :: u32) = (unat b - 64) * 256 + unat p0 + 1"
    if "b < 0x60" for p0 :: u8
  proof -
    have "unat (ucast b - 0x40 :: u32) = unat b - 64" using b by (simp add: unat_sub_u32)
    moreover have "unat p0 < 256" by simp
    ultimately have "unat (push_bit 8 (ucast b - 0x40) OR ucast p0 :: u32) = (unat b - 64) * 256 + unat p0"
      using unat_or_shift[of "ucast p0" 8 "ucast b - 0x40"] less_imp_diff_less[OF b(2), of 64] by simp
    moreover have "(unat b - 64) * 256 + unat p0 < 4294967295" using b \<open>unat p0 < 256\<close> by linarith
    ultimately show ?thesis by (simp add: unat_add_u32)
  qed
  have 3: "unat ((push_bit 16 (ucast b - 0x60) OR push_bit 8 (ucast p0) OR ucast p1) + 1 :: u32)
      = (unat b - 96) * 65536 + unat p0 * 256 + unat p1 + 1"
    if "\<not> b < 0x60" for p0 p1 :: u8
  proof -
    have b96: "96 \<le> unat b" using that by (simp add: word_less_nat_alt)
    have s: "unat (ucast b - 0x60 :: u32) = unat b - 96" using b96 by (simp add: unat_sub_u32)
    have p: "unat p0 < 256" "unat p1 < 256" by simp_all
    have lo: "unat (push_bit 8 (ucast p0) OR ucast p1 :: u32) = unat p0 * 256 + unat p1"
      using p unat_or_shift[of "ucast p1" 8 "ucast p0"] by simp
    have "unat p0 * 256 + unat p1 < 65536" using p by linarith
    then have h1: "unat (push_bit 8 (ucast p0) OR ucast p1 :: u32) < 2 ^ 16" unfolding lo by simp
    have h2: "unat (ucast b - 0x60 :: u32) * 2 ^ 16 < 4294967296"
      unfolding s using less_imp_diff_less[OF b(2), of 96] by simp
    have "unat (push_bit 16 (ucast b - 0x60) OR (push_bit 8 (ucast p0) OR ucast p1) :: u32)
        = (unat b - 96) * 65536 + (unat p0 * 256 + unat p1)"
      using unat_or_shift[OF h1 h2] unfolding s lo by simp
    moreover have "(unat b - 96) * 65536 + (unat p0 * 256 + unat p1) < 4294967295" using b p by linarith
    ultimately show ?thesis by (simp add: unat_add_u32 or.assoc)
  qed
  show "decode_run (b # p) = map_option (\<lambda>(n, q). ([unat n], q)) (long_run b p)"
    using assms 1 2 3 by (auto simp: long_run.simps split: list.splits)
  show "long_run b p = Some (n, q) \<Longrightarrow> 0 < unat n"
    using 1 2 3 by (auto simp: long_run.simps split: if_splits list.splits)
qed

lemma runs_Cons:
  "p \<noteq> [] \<Longrightarrow> runs p = (case decode_run p of None \<Rightarrow> None
     | Some (ts, q) \<Rightarrow> (case runs q of None \<Rightarrow> None | Some us \<Rightarrow> Some (ts @ us)))"
  by (cases p) (simp_all add: runs.simps)

lemma runs_short:
  "b < 64 \<Longrightarrow> runs (b # p) = map_option (\<lambda>us. (unat b div 8 + 1) # (unat b mod 8 + 1) # us) (runs p)"
  by (simp add: runs_Cons split: option.splits)

lemma runs_long:
  "\<not> b < 64 \<Longrightarrow> runs (b # p) = (case long_run b p of None \<Rightarrow> None
     | Some (n, q) \<Rightarrow> map_option (\<lambda>us. unat n # us) (runs q))"
  by (subst runs_Cons) (simp_all add: long_run_decode(1) del: decode_run.simps split: option.splits)

lemma runs_pos: "runs p = Some ts \<Longrightarrow> t \<in> set ts \<Longrightarrow> 0 < t"
proof (induction p arbitrary: ts rule: length_induct)
  case (1 p)
  show ?case
  proof (cases p)
    case (Cons b q)
    show ?thesis
    proof (cases "b < 64")
      case True
      then show ?thesis using 1 Cons by (auto simp: runs_short)
    next
      case False
      then obtain n r us where "long_run b q = Some (n, r)" "runs r = Some us" "ts = unat n # us"
        using 1(2) Cons by (auto simp: runs_long split: option.splits)
      moreover have "length r < length p" using Cons long_run_shorter calculation(1) by fastforce
      ultimately show ?thesis using 1(1,3) long_run_decode(2)[OF False] by auto
    qed
  qed (use 1 in simp)
qed

lemma unat_add_small:
  "unat (x :: u32) + n < 4294967296 \<Longrightarrow> unat y = n \<Longrightarrow> unat (x + y) = unat x + n"
  by (simp add: unat_add_u32)

lemma unat_run_1: "unat (ucast (drop_bit 3 (b :: u8)) + 1 :: u32) = unat b div 8 + 1"
proof -
  have "unat b div 8 \<le> unat b" by simp
  then have "unat b div 8 < 4294967295" using unat_lt_u8[of b] by linarith
  then show ?thesis by (simp add: unat_add_u32 unat_drop_bit_3)
qed

lemma unat_run_2: "unat (ucast (b AND 7 :: u8) + 1 :: u32) = unat b mod 8 + 1"
  by (simp add: unat_add_u32 unat_and_7)

lemma in_table_loop_short:
  "b < 64 \<Longrightarrow> c1 = code + ucast (drop_bit 3 b) + 1 \<Longrightarrow> c2 = c1 + ucast (b AND 7) + 1 \<Longrightarrow>
    in_table_loop (b # p) c code bt =
    (if c < c1 then Some bt else if c < c2 then Some (\<not> bt) else in_table_loop p c c2 bt)"
  by (simp add: Let_def)

lemma in_table_loop_long:
  "\<not> b < 64 \<Longrightarrow> long_run b p = Some (n, q) \<Longrightarrow>
    in_table_loop (b # p) c code bt = (if c < code + n then Some bt else in_table_loop q c (code + n) (\<not> bt))"
  by (simp add: Let_def)

declare in_table_loop.simps(1) [simp del]

lemma in_table_loop_run:
  assumes "runs p = Some ts" and "unat code + sum_list ts < 4294967296" and "code \<le> c"
    and "unat c < unat code + sum_list ts"
  shows "in_table_loop p c code bt = at_run ts (unat c - unat code) bt"
  using assms
proof (induction p c code bt arbitrary: ts rule: in_table_loop.induct)
  case (1 b p c code bt)
  note cmp = word_less_nat_alt word_le_nat_alt
  show ?case
  proof (cases "b < 64")
    case True
    define t1 where "t1 = unat b div 8 + 1"
    define t2 where "t2 = unat b mod 8 + 1"
    obtain us where us: "runs p = Some us" "ts = t1 # t2 # us"
      using 1(3) True by (auto simp: runs_short t1_def t2_def)
    define c1 where "c1 = code + ucast (drop_bit 3 b) + 1"
    define c2 where "c2 = c1 + ucast (b AND 7) + 1"
    have u1: "unat c1 = unat code + t1"
      using unat_add_small[OF _ unat_run_1, of code b] 1(4) us(2) by (simp add: c1_def add.assoc t1_def)
    have u2: "unat c2 = unat code + t1 + t2"
      using unat_add_small[OF _ unat_run_2, of c1 b] 1(4) us(2) u1 by (simp add: c2_def add.assoc t2_def)
    have ih: "in_table_loop p c c2 bt = at_run us (unat c - unat c2) bt" if "\<not> c < c1" "\<not> c < c2"
      using 1(1)[OF True c1_def that(1) refl c2_def that(2) us(1)] 1(4-6) us(2) u2 that
      by (simp add: cmp)
    show ?thesis
      unfolding in_table_loop_short[OF True c1_def c2_def] us(2)
      using ih 1(5) u1 u2 by (simp add: cmp) linarith
  next
    case False
    then obtain n q us where n: "long_run b p = Some (n, q)" "runs q = Some us" "ts = unat n # us"
      using 1(3) by (auto simp: runs_long split: option.splits)
    have u: "unat (code + n) = unat code + unat n"
      using unat_add_small[of code "unat n" n] 1(4) n(3) by simp
    have ih: "in_table_loop q c (code + n) (\<not> bt) = at_run us (unat c - unat (code + n)) (\<not> bt)"
      if "\<not> c < code + n"
      using 1(2)[OF False n(1) refl refl that n(2)] 1(4-6) n(3) u that by (simp add: cmp)
    show ?thesis
      unfolding in_table_loop_long[OF False n(1)] n(3)
      using ih 1(5) u by (simp add: cmp) linarith
  qed
qed simp

definition emit :: "cr_mem \<Rightarrow> bool \<Rightarrow> char_range \<Rightarrow> u32 \<Rightarrow> u32 \<Rightarrow> cr_result" where
  "emit m bt cr c0 c = (if bt then cr_add_interval m cr c0 c else (0, cr))"

lemma emit_returns:
  "cr_wf cr \<Longrightarrow> cr_returns m (emit m bt cr c0 c) (\<lambda>xs. xs = cr_list cr @ (if bt then [c0, c] else []))"
  using cr_add_interval_returns[of cr m c0 c] by (simp add: emit_def)

lemma prop_loop_short:
  assumes "b < 64" and "c1 = c + ucast (drop_bit 3 b) + 1" and "c2 = c1 + ucast (b AND 7) + 1"
  shows "prop_loop m (b # p) c bt cr =
    (let (ret, cr) = emit m bt cr c c1
     in if ret \<noteq> 0 then Some (- 1, cr)
        else (let (ret, cr) = emit m (\<not> bt) cr c1 c2
              in if ret \<noteq> 0 then Some (- 1, cr) else prop_loop m p c2 bt cr))"
  unfolding prop_loop.simps(1) emit_def Let_def if_P[OF assms(1)] assms(2,3) not_not ..

lemma prop_loop_long:
  "\<not> b < 64 \<Longrightarrow> long_run b p = Some (n, q) \<Longrightarrow>
    prop_loop m (b # p) c bt cr =
    (let (ret, cr) = emit m bt cr c (c + n)
     in if ret \<noteq> 0 then Some (- 1, cr) else prop_loop m q (c + n) (\<not> bt) cr)"
  by (simp add: Let_def emit_def)

declare prop_loop.simps(1) [simp del]

text \<open>One \<open>if (bit) \<dots>\<close> of the loop followed by the rest.\<close>

lemma emit_then:
  assumes "cr_wf cr" and "\<And>cr'. cr_wf cr' \<Longrightarrow> cr_list cr' = cr_list cr @ (if bt then [c0, c] else []) \<Longrightarrow>
    \<exists>r. f cr' = Some r \<and> cr_returns m r (\<lambda>xs. xs = cr_list cr' @ zs)"
  shows "\<exists>r. (let (ret, cr) = emit m bt cr c0 c in if ret \<noteq> 0 then Some (- 1, cr) else f cr) = Some r \<and>
    cr_returns m r (\<lambda>xs. xs = cr_list cr @ (if bt then [c0, c] else []) @ zs)"
proof -
  obtain ret cr' where e: "emit m bt cr c0 c = (ret, cr')" by fastforce
  note E = emit_returns[OF assms(1), of m bt c0 c, unfolded e]
  show ?thesis
  proof (cases "ret = 0")
    case True
    with E have f: "cr_wf cr'" "cr_list cr' = cr_list cr @ (if bt then [c0, c] else [])" by simp_all
    from assms(2)[OF f] show ?thesis unfolding e True f(2) by simp
  next
    case False
    then show ?thesis using E unfolding e by (simp add: cr_returns_def)
  qed
qed

lemma prop_loop_points:
  assumes "runs p = Some ts" and "unat c + sum_list ts < 4294967296" and "cr_wf cr"
  shows "\<exists>r. prop_loop m p c bt cr = Some r \<and>
    cr_returns m r (\<lambda>xs. xs = cr_list cr @ run_points ts (unat c) bt)"
  using assms
proof (induction p arbitrary: ts c bt cr rule: length_induct)
  case (1 p)
  note IH = 1(1)[rule_format]
  have w: "word_of_nat (unat x) = (x :: u32)" for x by simp
  show ?case
  proof (cases p)
    case Nil
    then show ?thesis using 1 by simp
  next
    case (Cons b p')
    show ?thesis
    proof (cases "b < 64")
      case True
      define t1 where "t1 = unat b div 8 + 1"
      define t2 where "t2 = unat b mod 8 + 1"
      obtain us where us: "runs p' = Some us" "ts = t1 # t2 # us"
        using 1(2) True Cons by (auto simp: runs_short t1_def t2_def)
      define c1 where "c1 = c + ucast (drop_bit 3 b) + 1"
      define c2 where "c2 = c1 + ucast (b AND 7) + 1"
      have u1: "unat c1 = unat c + t1"
        using unat_add_small[OF _ unat_run_1, of c b] 1(3) us(2) by (simp add: c1_def add.assoc t1_def)
      have u2: "unat c2 = unat c + t1 + t2"
        using unat_add_small[OF _ unat_run_2, of c1 b] 1(3) us(2) u1 by (simp add: c2_def add.assoc t2_def)
      have pts: "run_points ts (unat c) bt = (if bt then [c, c1] else []) @
          (if \<not> bt then [c1, c2] else []) @ run_points us (unat c2) bt"
        unfolding us(2) using u1 u2 w[of c1] w[of c2] by simp
      show ?thesis
        unfolding Cons prop_loop_short[OF True c1_def c2_def] pts
      proof (rule emit_then[OF 1(4)], rule emit_then)
        fix cr2 assume "cr_wf cr2"
        then show "\<exists>r. prop_loop m p' c2 bt cr2 = Some r \<and>
            cr_returns m r (\<lambda>xs. xs = cr_list cr2 @ run_points us (unat c2) bt)"
          using 1(3) us u2 Cons by (intro IH) auto
      qed
    next
      case False
      then obtain n q us where n: "long_run b p' = Some (n, q)" "runs q = Some us" "ts = unat n # us"
        using 1(2) Cons by (auto simp: runs_long split: option.splits)
      have u: "unat (c + n) = unat c + unat n"
        using unat_add_small[of c "unat n" n] 1(3) n(3) by simp
      have lq: "length q < length p" using long_run_shorter[OF n(1)] Cons by simp
      have pts: "run_points ts (unat c) bt = (if bt then [c, c + n] else []) @ run_points us (unat (c + n)) (\<not> bt)"
        unfolding n(3) using u w[of "c + n"] by simp
      show ?thesis
        unfolding Cons prop_loop_long[OF False n(1)] pts
      proof (rule emit_then[OF 1(4)])
        fix cr2 assume "cr_wf cr2"
        then show "\<exists>r. prop_loop m q (c + n) (\<not> bt) cr2 = Some r \<and>
            cr_returns m r (\<lambda>xs. xs = cr_list cr2 @ run_points us (unat (c + n)) (\<not> bt))"
          using 1(3) n(2,3) u lq by (intro IH) auto
      qed
    qed
  qed
qed

text \<open>The points of a table are in normal form and enclose the positions of its set runs.\<close>

lemma run_points_normal:
  assumes "\<And>t. t \<in> set ts \<Longrightarrow> 0 < t" and "c + sum_list ts < 4294967296"
  shows "normal (run_points ts c bt) \<and> (\<forall>p \<in> set (run_points ts c bt). c + (if bt then 0 else 1) \<le> unat p)"
  using assms
proof (induction ts arbitrary: c bt)
  case (Cons t ts)
  have t: "0 < t" using Cons(2) by simp
  have ih: "normal (run_points ts (c + t) (\<not> bt)) \<and>
      (\<forall>p \<in> set (run_points ts (c + t) (\<not> bt)). c + t + (if \<not> bt then 0 else 1) \<le> unat p)"
    using Cons by simp
  have u: "unat (word_of_nat c :: u32) = c" "unat (word_of_nat (c + t) :: u32) = c + t"
    using Cons(3) by (simp_all add: unat_of_nat del: of_nat_add)
  show ?case using ih t u by (fastforce simp: normal_def word_less_nat_alt)
qed (simp add: normal_def)

lemma chars_lower: "x \<in> chars xs \<Longrightarrow> \<exists>p \<in> set xs. p \<le> x"
  by (induction xs rule: intervals.induct) (auto simp: chars_def)

lemma at_run_chars:
  assumes "\<And>t. t \<in> set ts \<Longrightarrow> 0 < t" and "c + sum_list ts < 4294967296" and "c \<le> unat x"
  shows "(at_run ts (unat x - c) bt = Some True) = (x \<in> chars (run_points ts c bt))"
  using assms
proof (induction ts arbitrary: c bt)
  case (Cons t ts)
  have u: "unat (word_of_nat c :: u32) = c" "unat (word_of_nat (c + t) :: u32) = c + t"
    using Cons(3) by (simp_all add: unat_of_nat del: of_nat_add)
  let ?rest = "run_points ts (c + t) (\<not> bt)"
  have first: "x \<in> {word_of_nat c..<word_of_nat (c + t)} \<longleftrightarrow> unat x < c + t"
    using Cons(4) u by (simp add: word_less_nat_alt word_le_nat_alt)
  have pts: "chars (run_points (t # ts) c bt) =
      (if bt then {word_of_nat c..<word_of_nat (c + t)} else {}) \<union> chars ?rest" by simp
  show ?case
  proof (cases "unat x < c + t")
    case True
    have "\<forall>p \<in> set ?rest. c + t \<le> unat p"
      using run_points_normal[of ts "c + t" "\<not> bt"] Cons(2,3) by fastforce
    then have "x \<notin> chars ?rest" using chars_lower[of x ?rest] True by (fastforce simp: word_le_nat_alt)
    then show ?thesis unfolding pts using True first Cons(4) by auto
  next
    case False
    then have "(at_run ts (unat x - (c + t)) (\<not> bt) = Some True) = (x \<in> chars ?rest)"
      using Cons by (intro Cons.IH) auto
    then show ?thesis unfolding pts using False first Cons(4) by auto
  qed
qed simp

section \<open>The index\<close>

lemma decode_run_append:
  "decode_run xs = Some (ts, q) \<Longrightarrow> decode_run (xs @ ys) = Some (ts, q @ ys)"
  by (cases xs) (auto split: if_splits list.splits)

lemma runs_append: "runs xs = Some ts \<Longrightarrow> runs (xs @ ys) = map_option (\<lambda>us. ts @ us) (runs ys)"
proof (induction xs arbitrary: ts rule: length_induct)
  case (1 xs)
  show ?case
  proof (cases "xs = []")
    case True
    then show ?thesis using 1(2) by (simp add: option.map_ident)
  next
    case False
    then obtain r q us where d: "decode_run xs = Some (r, q)" "runs q = Some us" "ts = r @ us"
      using 1(2) by (auto simp: runs_Cons split: option.splits)
    from 1(1)[rule_format, OF decode_run_shorter[OF d(1)] d(2)] show ?thesis
      using False d decode_run_append[OF d(1), of ys]
      by (simp add: runs_Cons option.map_comp comp_def split: option.splits)
  qed
qed

lemma at_run_None: "sum_list ts \<le> c \<Longrightarrow> at_run ts c bt = None"
  by (induction ts arbitrary: c bt) auto

lemma at_run_Some: "c < sum_list ts \<Longrightarrow> at_run ts c bt \<noteq> None"
  by (induction ts arbitrary: c bt) auto

lemma at_run_append:
  "sum_list ts \<le> c \<Longrightarrow> at_run (ts @ us) c bt = at_run us (c - sum_list ts) (bt \<noteq> odd (length ts))"
proof (induction ts arbitrary: c bt)
  case (Cons t ts)
  then show ?case by (cases bt; cases "even (length ts)") simp_all
qed simp

definition block_code :: "u8 list \<Rightarrow> nat \<Rightarrow> u32" where
  "block_code index_table i = get_le24 index_table (i * 3) AND code_mask"

definition block_pos :: "u8 list \<Rightarrow> nat \<Rightarrow> nat" where
  "block_pos index_table i =
     (i + 1) * UNICODE_INDEX_BLOCK_LEN + unat (drop_bit 21 (get_le24 index_table (i * 3)))"

text \<open>
  What an index has to say of its table: the last entry is the end of the runs, and every other one
  is a byte position where a clear run starts, with the code of that run.
\<close>

definition block_ok :: "u8 list \<Rightarrow> u8 list \<Rightarrow> nat \<Rightarrow> bool" where
  "block_ok table index_table i =
     (case runs (take (block_pos index_table i) table) of None \<Rightarrow> False
      | Some ts \<Rightarrow> even (length ts) \<and> sum_list ts = unat (block_code index_table i))"

definition index_ok :: "u8 list \<Rightarrow> u8 list \<Rightarrow> nat \<Rightarrow> bool" where
  "index_ok table index_table n \<longleftrightarrow> 1 \<le> n \<and>
     (case runs table of None \<Rightarrow> False
      | Some ts \<Rightarrow> sum_list ts = unat (get_le24 index_table ((n - 1) * 3)) \<and> sum_list ts < 2097152) \<and>
     list_all (block_ok table index_table) [0..<n - 1]"

lemma index_search_props:
  assumes "i < j" and "block_code index_table i \<le> c"
  shows "i \<le> index_search index_table c i j \<and> index_search index_table c i j < j \<and>
    block_code index_table (index_search index_table c i j) \<le> c"
  using assms
proof (induction index_table c i j rule: index_search.induct)
  case (1 index_table c i j)
  show ?case
  proof (cases "1 < j - i")
    case True
    define k where "k = (j + i) div 2"
    have k: "i < k" "k < j" using True by (auto simp: k_def)
    show ?thesis
    proof (cases "c < get_le24 index_table (k * 3) AND code_mask")
      case lt: True
      then have "index_search index_table c i j = index_search index_table c i k"
        using True by (subst index_search.simps) (simp add: Let_def k_def)
      then show ?thesis using 1(1)[OF True k_def refl lt k(1) 1(4)] k by simp
    next
      case ge: False
      then have "index_search index_table c i j = index_search index_table c k j"
        using True by (subst index_search.simps) (simp add: Let_def k_def)
      moreover have "block_code index_table k \<le> c" using ge by (simp add: block_code_def not_less)
      ultimately show ?thesis using 1(2)[OF True k_def refl ge k(2)] k by simp
    qed
  next
    case False
    then show ?thesis using 1(3,4) by (subst (1 2 3) index_search.simps) simp
  qed
qed

lemma code_mask_small: "unat x < 2097152 \<Longrightarrow> x AND code_mask = x"
proof -
  assume "unat x < 2097152"
  then have "unat x AND 2097151 = unat x"
    using nat_and_mask[of "unat x" 21] by (simp add: mask_eq_exp_minus_1)
  then show ?thesis by (simp add: word_unat_eq_iff unsigned_and_eq code_mask_def)
qed

lemma lre_is_in_table_chars:
  assumes ok: "index_ok table index_table n" and ts: "runs table = Some ts"
  shows "lre_is_in_table c table index_table n = Some (c \<in> chars (run_points ts 0 False))"
proof -
  have last: "sum_list ts = unat (get_le24 index_table ((n - 1) * 3))" and small: "sum_list ts < 2097152"
    and n: "1 \<le> n" and blocks: "\<And>i. i < n - 1 \<Longrightarrow> block_ok table index_table i"
    using ok ts by (auto simp: index_ok_def list_all_iff)
  have pos: "0 < t" if "t \<in> set ts" for t using runs_pos[OF ts that] .
  have sem: "(c \<in> chars (run_points ts 0 False)) = (at_run ts (unat c) False = Some True)"
    using at_run_chars[of ts 0 c False] pos small by simp
  have found: "in_table_loop (drop k table) c code False = Some (c \<in> chars (run_points ts 0 False))"
    if k: "runs (take k table) = Some us" "even (length us)" "sum_list us = unat code" and le: "code \<le> c"
      and lt: "unat c < sum_list ts" for k us code
  proof -
    obtain vs where vs: "runs (drop k table) = Some vs" "ts = us @ vs"
      using runs_append[OF k(1), of "drop k table"] ts by (cases "runs (drop k table)") auto
    have "in_table_loop (drop k table) c code False = at_run vs (unat c - unat code) False"
      using vs k(3) le lt small by (intro in_table_loop_run) auto
    also have "\<dots> = at_run ts (unat c) False"
      using at_run_append[of us "unat c" vs False] k(2,3) le vs(2) by (simp add: word_le_nat_alt)
    finally show ?thesis using at_run_Some[OF lt, of False] by (auto simp: sem)
  qed
  define last where "last = get_le24 index_table ((n - 1) * 3)"
  have code0: "unat (block_code index_table 0) \<le> sum_list ts"
  proof (cases "n = 1")
    case True
    then show ?thesis using last small code_mask_small[of last] by (simp add: block_code_def last_def)
  next
    case False
    then obtain us where us: "runs (take (block_pos index_table 0) table) = Some us"
        "sum_list us = unat (block_code index_table 0)"
      using blocks[of 0] n by (auto simp: block_ok_def split: option.splits)
    show ?thesis
      using runs_append[OF us(1), of "drop (block_pos index_table 0) table"] ts us(2)
      by (cases "runs (drop (block_pos index_table 0) table)") auto
  qed
  have get: "get_index_pos c index_table n =
      (if c < block_code index_table 0 then Some (0, 0) else if c \<ge> last then None
       else let i = index_search index_table c 0 (n - 1) in Some (block_code index_table i, block_pos index_table i))"
    by (simp add: get_index_pos_def Let_def block_code_def block_pos_def last_def)
  show ?thesis
  proof (cases "c < block_code index_table 0")
    case True
    then have "unat c < sum_list ts" using code0 by (simp add: word_less_nat_alt)
    from found[of 0 "[]" 0, OF _ _ _ _ this] show ?thesis using True by (simp add: lre_is_in_table_def get)
  next
    case ge0: False
    show ?thesis
    proof (cases "c \<ge> last")
      case True
      then have "sum_list ts \<le> unat c" using last by (simp add: last_def word_le_nat_alt)
      then show ?thesis using True ge0 by (simp add: lre_is_in_table_def get sem at_run_None)
    next
      case False
      then have lt: "unat c < sum_list ts" using last by (simp add: last_def word_less_nat_alt not_le)
      have "n \<noteq> 1"
        using ge0 False last small code_mask_small[of last] by (auto simp: block_code_def last_def)
      then have "0 < n - 1" using n by simp
      define i where "i = index_search index_table c 0 (n - 1)"
      from index_search_props[OF \<open>0 < n - 1\<close>, of index_table c] ge0
      have i: "i < n - 1" "block_code index_table i \<le> c" by (simp_all add: i_def)
      then obtain us where "runs (take (block_pos index_table i) table) = Some us" "even (length us)"
          "sum_list us = unat (block_code index_table i)"
        using blocks[of i] by (auto simp: block_ok_def split: option.splits)
      from found[OF this i(2) lt] show ?thesis
        using ge0 False by (simp add: lre_is_in_table_def get i_def Let_def)
    qed
  qed
qed

section \<open>Checking an index in one pass\<close>

fun run_bytes :: "u8 \<Rightarrow> int" where
  "run_bytes b = (if b < 64 \<or> b \<ge> 0x80 then 1 else if b < 0x60 then 2 else 3)"

fun index_entries :: "u8 list \<Rightarrow> nat \<Rightarrow> (int \<times> nat) list" where
  "index_entries (x # y # z # w # rest) k =
     (int (k * UNICODE_INDEX_BLOCK_LEN + unat (drop_bit 21 (get_le24 [x, y, z] 0))),
      unat (get_le24 [x, y, z] 0 AND code_mask)) # index_entries (w # rest) (Suc k)"
| "index_entries _ k = []"

function index_pass :: "(int \<times> nat) list \<Rightarrow> u8 list \<Rightarrow> int \<Rightarrow> nat \<Rightarrow> bool \<Rightarrow> nat \<Rightarrow> bool" where
  "index_pass ((epos, ecode) # es) (b # p) pos c bt fin =
     (if pos = epos then \<not> bt \<and> c = ecode \<and> index_pass es (b # p) pos c bt fin
      else (case decode_run (b # p) of None \<Rightarrow> False
        | Some (ts, q) \<Rightarrow> index_pass ((epos, ecode) # es) q (pos + run_bytes b) (c + sum_list ts)
            (bt \<noteq> odd (length ts)) fin))"
| "index_pass [] (b # p) pos c bt fin =
     (case decode_run (b # p) of None \<Rightarrow> False
        | Some (ts, q) \<Rightarrow> index_pass [] q (pos + run_bytes b) (c + sum_list ts) (bt \<noteq> odd (length ts)) fin)"
| "index_pass [] [] pos c bt fin = (c = fin)"
| "index_pass (e # es) [] pos c bt fin = False"
  by pat_completeness auto
termination
  by (relation "measure (\<lambda>(es, p, _). length es + length p)")
    (auto simp del: decode_run.simps dest!: decode_run_shorter)

definition index_check :: "u8 list \<Rightarrow> u8 list \<Rightarrow> nat \<Rightarrow> bool" where
  "index_check table index_table n \<longleftrightarrow> 1 \<le> n \<and> length index_table = 3 * n \<and>
     unat (get_le24 index_table ((n - 1) * 3)) < 2097152 \<and>
     index_pass (index_entries index_table 1) table 0 0 False (unat (get_le24 index_table ((n - 1) * 3)))"

lemma decode_run_bytes:
  "decode_run (b # p) = Some (ts, q) \<Longrightarrow> \<exists>r. b # p = r @ q \<and> int (length r) = run_bytes b \<and> runs r = Some ts"
proof -
  assume d: "decode_run (b # p) = Some (ts, q)"
  consider "b < 64" | "\<not> b < 64" "b \<ge> 0x80" | "\<not> b < 64" "\<not> b \<ge> 0x80" "b < 0x60"
    | "\<not> b < 64" "\<not> b \<ge> 0x80" "\<not> b < 0x60" by blast
  then show ?thesis
  proof cases
    case 1 then show ?thesis using d by (intro exI[of _ "[b]"]) (auto simp: runs.simps)
  next
    case 2 then show ?thesis using d by (intro exI[of _ "[b]"]) (auto simp: runs.simps)
  next
    case 3 then show ?thesis using d
      by (intro exI[of _ "b # take 1 p"]) (auto simp: runs.simps split: list.splits)
  next
    case 4 then show ?thesis using d
      by (intro exI[of _ "b # take 2 p"]) (auto simp: runs.simps split: list.splits)
  qed
qed

lemma index_pass_sound:
  assumes "index_pass es p pos c bt fin" and "runs pre = Some us" "int (length pre) = pos" "sum_list us = c"
    "odd (length us) = bt"
  shows "(\<exists>ts. runs (pre @ p) = Some ts \<and> sum_list ts = fin) \<and>
    (\<forall>(epos, ecode) \<in> set es. \<exists>ts. runs (take (nat epos) (pre @ p)) = Some ts \<and> even (length ts) \<and> sum_list ts = ecode)"
  using assms
proof (induction es p pos c bt fin arbitrary: pre us rule: index_pass.induct)
  case (1 epos ecode es b p pos c bt fin)
  show ?case
  proof (cases "pos = epos")
    case True
    then show ?thesis using 1(1)[OF True _ 1(4-7)] 1(3-7) by auto
  next
    case False
    then obtain ts q where d: "decode_run (b # p) = Some (ts, q)"
      and pass: "index_pass ((epos, ecode) # es) q (pos + run_bytes b) (c + sum_list ts) (bt \<noteq> odd (length ts)) fin"
      using 1(3) by (auto simp del: decode_run.simps run_bytes.simps split: option.splits)
    obtain r where r: "b # p = r @ q" "int (length r) = run_bytes b" "runs r = Some ts"
      using decode_run_bytes[OF d] by blast
    have e: "runs (pre @ r) = Some (us @ ts)" "odd (length (us @ ts)) = (bt \<noteq> odd (length ts))"
      "int (length (pre @ r)) = pos + run_bytes b" "sum_list (us @ ts) = c + sum_list ts"
      using runs_append[OF 1(4), of r] 1(5-7) r(2,3) by (auto simp del: run_bytes.simps)
    show ?thesis using 1(2)[OF False d refl pass e(1,3,4,2)] unfolding r(1) append.assoc .
  qed
next
  case (2 b p pos c bt fin)
  then obtain ts q where d: "decode_run (b # p) = Some (ts, q)"
    and pass: "index_pass [] q (pos + run_bytes b) (c + sum_list ts) (bt \<noteq> odd (length ts)) fin"
    by (auto simp del: decode_run.simps run_bytes.simps split: option.splits)
  obtain r where r: "b # p = r @ q" "int (length r) = run_bytes b" "runs r = Some ts"
    using decode_run_bytes[OF d] by blast
  have e: "runs (pre @ r) = Some (us @ ts)" "odd (length (us @ ts)) = (bt \<noteq> odd (length ts))"
    "int (length (pre @ r)) = pos + run_bytes b" "sum_list (us @ ts) = c + sum_list ts"
    using runs_append[OF 2(3), of r] 2(4-6) r(2,3) by (auto simp del: run_bytes.simps)
  show ?case using 2(1)[OF d refl pass e(1,3,4,2)] unfolding r(1) append.assoc .
qed auto

lemma index_entries_nth:
  assumes "length xs = 3 * n" and "i + 1 < n"
  shows "(int ((k + i) * UNICODE_INDEX_BLOCK_LEN + unat (drop_bit 21 (get_le24 xs (i * 3)))),
    unat (get_le24 xs (i * 3) AND code_mask)) \<in> set (index_entries xs k)"
  using assms
proof (induction xs k arbitrary: i n rule: index_entries.induct)
  case (1 x y z w rest k)
  show ?case
  proof (cases i)
    case 0
    then show ?thesis by (simp add: get_le24_def)
  next
    case (Suc j)
    have g: "get_le24 (x # y # z # w # rest) (i * 3) = get_le24 (w # rest) (j * 3)"
      using Suc by (simp add: get_le24_def)
    have "length (w # rest) = 3 * (n - 1)" "j + 1 < n - 1" using 1(2,3) Suc by auto
    from 1(1)[OF this] show ?thesis unfolding g using Suc by simp
  qed
qed auto

lemma index_check_ok:
  assumes "index_check table index_table n"
  shows "index_ok table index_table n"
proof -
  let ?fin = "unat (get_le24 index_table ((n - 1) * 3))"
  have n: "1 \<le> n" "length index_table = 3 * n" "?fin < 2097152"
    and p: "index_pass (index_entries index_table 1) table 0 0 False ?fin"
    using assms by (simp_all add: index_check_def)
  note S = index_pass_sound[OF p, of "[]" "[]", simplified]
  have "block_ok table index_table i" if "i < n - 1" for i
  proof -
    have "i + 1 < n" using that by simp
    from index_entries_nth[OF n(2) this, of 1]
    have "(int (block_pos index_table i), unat (block_code index_table i)) \<in> set (index_entries index_table 1)"
      by (simp add: block_pos_def block_code_def)
    with S obtain ts where "runs (take (nat (int (block_pos index_table i))) table) = Some ts" "even (length ts)"
        "sum_list ts = unat (block_code index_table i)" by fastforce
    then show ?thesis by (simp add: block_ok_def)
  qed
  then show ?thesis using S n by (auto simp: index_ok_def list_all_iff)
qed

text \<open>One rule for each kind of byte, to evaluate the pass on a concrete table.\<close>

lemma decode_byte:
  "b < 64 \<Longrightarrow> decode_run (b # p) = Some ([unat b div 8 + 1, unat b mod 8 + 1], p) \<and> run_bytes b = 1"
  "b \<ge> 0x80 \<Longrightarrow> decode_run (b # p) = Some ([unat b - 127], p) \<and> run_bytes b = 1"
  "0x40 \<le> b \<and> b < 0x60 \<Longrightarrow>
    decode_run (b # p0 # p) = Some ([(unat b - 64) * 256 + unat p0 + 1], p) \<and> run_bytes b = 2"
  "0x60 \<le> b \<and> b < 0x80 \<Longrightarrow>
    decode_run (b # p0 # p1 # p) = Some ([(unat b - 96) * 65536 + unat p0 * 256 + unat p1 + 1], p) \<and> run_bytes b = 3"
  by (auto simp: word_le_nat_alt word_less_nat_alt)

lemma index_pass_byte:
  "b < 64 \<Longrightarrow> pos \<noteq> fst e \<Longrightarrow> index_pass (e # es) (b # p) pos c bt fin =
    index_pass (e # es) p (pos + 1) (c + (unat b div 8 + unat b mod 8 + 2)) bt fin"
  "b \<ge> 0x80 \<Longrightarrow> pos \<noteq> fst e \<Longrightarrow> index_pass (e # es) (b # p) pos c bt fin =
    index_pass (e # es) p (pos + 1) (c + (unat b - 127)) (\<not> bt) fin"
  "0x40 \<le> b \<and> b < 0x60 \<Longrightarrow> pos \<noteq> fst e \<Longrightarrow> index_pass (e # es) (b # p0 # p) pos c bt fin =
    index_pass (e # es) p (pos + 2) (c + ((unat b - 64) * 256 + unat p0 + 1)) (\<not> bt) fin"
  "0x60 \<le> b \<and> b < 0x80 \<Longrightarrow> pos \<noteq> fst e \<Longrightarrow> index_pass (e # es) (b # p0 # p1 # p) pos c bt fin =
    index_pass (e # es) p (pos + 3) (c + ((unat b - 96) * 65536 + unat p0 * 256 + unat p1 + 1)) (\<not> bt) fin"
  "pos = fst e \<Longrightarrow> index_pass (e # es) (b # p) pos c bt fin =
    (\<not> bt \<and> c = snd e \<and> index_pass es (b # p) pos c bt fin)"
  "b < 64 \<Longrightarrow> index_pass [] (b # p) pos c bt fin =
    index_pass [] p (pos + 1) (c + (unat b div 8 + unat b mod 8 + 2)) bt fin"
  "b \<ge> 0x80 \<Longrightarrow> index_pass [] (b # p) pos c bt fin =
    index_pass [] p (pos + 1) (c + (unat b - 127)) (\<not> bt) fin"
  "0x40 \<le> b \<and> b < 0x60 \<Longrightarrow> index_pass [] (b # p0 # p) pos c bt fin =
    index_pass [] p (pos + 2) (c + ((unat b - 64) * 256 + unat p0 + 1)) (\<not> bt) fin"
  "0x60 \<le> b \<and> b < 0x80 \<Longrightarrow> index_pass [] (b # p0 # p1 # p) pos c bt fin =
    index_pass [] p (pos + 3) (c + ((unat b - 96) * 65536 + unat p0 * 256 + unat p1 + 1)) (\<not> bt) fin"
  by (cases e; simp add: decode_byte del: decode_run.simps run_bytes.simps)+

end
