(* ===== verification/Uni_Data.thy ===== *)
theory Uni_Data
  imports Uni_Table
begin

text \<open>
  The tables and indexes of \<open>libunicode-table.h\<close> behind \<open>lre_is_white_space\<close>, \<open>lre_is_id_start\<close>,
  \<open>lre_is_id_continue\<close> and \<open>lre_is_case_ignorable\<close>, byte for byte, and the check that each index
  fits its table. Long tables are written in parts that end at a run boundary, and checked part
  by part.
\<close>

section \<open>Tables\<close>


definition unicode_prop_White_Space_table :: "u8 list" where
  "unicode_prop_White_Space_table = [
    0x88, 0x84, 0x91, 0x80, 0xe3, 0x80, 0x99, 0x80, 0x55, 0xde, 0x80, 0x49, 0x7e, 0x8a, 0x9c, 0x0c,
    0x80, 0xae, 0x80, 0x4f, 0x9f, 0x80]"

definition unicode_prop_White_Space_index :: "u8 list" where
  "unicode_prop_White_Space_index = [
    0x01, 0x30, 0x00]"

definition Cased1_part0 :: "u8 list" where
  "Cased1_part0 = [
    0x40, 0xa9, 0x80, 0x8e, 0x80, 0xfc, 0x80, 0xd3, 0x80, 0x9b, 0x81, 0x8d, 0x02, 0x80, 0xe1, 0x80,
    0x91, 0x85, 0x9a, 0x01, 0x00, 0x01, 0x11, 0x03, 0x04, 0x08, 0x01, 0x08, 0x30, 0x08, 0x01, 0x15,
    0x20, 0x01, 0x31, 0x99, 0x31, 0x9d, 0x84, 0x40, 0x94, 0x80, 0xd6, 0x82, 0xa6, 0x80, 0x41, 0x62,
    0x80, 0xa6, 0x80, 0x4b, 0x72, 0x80, 0x4c, 0x02, 0xf8, 0x02, 0x80, 0x8f, 0x80, 0xb0, 0x40, 0xdb,
    0x08, 0x80, 0x41, 0xd0, 0x80, 0x8c, 0x80, 0x8f, 0x8c, 0xe4, 0x03, 0x01, 0x89, 0x00, 0x14, 0x28,
    0x10, 0x11, 0x02, 0x01, 0x18, 0x0b, 0x24, 0x4b, 0x26, 0x01, 0x01, 0x86, 0xe5, 0x80, 0x60, 0x79,
    0xb6, 0x81, 0x40, 0x91, 0x81, 0xbd, 0x88, 0x94, 0x05, 0x80, 0x98, 0x80, 0xc0, 0x1a, 0x82, 0x43,
    0x34, 0xa2, 0x06, 0x80, 0x8d, 0x60, 0x5c, 0x15, 0x01, 0x10, 0xa9, 0x80, 0x88, 0x60, 0xcc, 0x44,
    0xd4, 0x80, 0xc6, 0x01, 0x08, 0x09, 0x0b, 0x80, 0x8b, 0x00, 0x06, 0x80, 0xc0, 0x03, 0x0f, 0x06,
    0x80, 0x9b, 0x03, 0x04, 0x00, 0x16, 0x80, 0x41, 0x53, 0x81, 0x98, 0x80, 0x98, 0x80, 0x9e, 0x80,
    0x98, 0x80, 0x9e, 0x80, 0x98, 0x80, 0x9e, 0x80, 0x98, 0x80]"

definition Cased1_part1 :: "u8 list" where
  "Cased1_part1 = [
    0x9e, 0x80, 0x98, 0x07, 0x47, 0x33, 0x89, 0x80, 0x93, 0x2d, 0x41, 0x04, 0xbd, 0x50, 0xc1, 0x99,
    0x85, 0x99, 0x85, 0x99]"

definition unicode_prop_Cased1_table :: "u8 list" where
  "unicode_prop_Cased1_table = Cased1_part0 @ Cased1_part1"

definition unicode_prop_Cased1_index :: "u8 list" where
  "unicode_prop_Cased1_index = [
    0xb9, 0x02, 0x80, 0xa0, 0x1e, 0x40, 0x9e, 0xa6, 0x40, 0x55, 0xd4, 0x21, 0x15, 0xd7, 0x21, 0x8a,
    0xf1, 0x01]"

definition Case_Ignorable_part0 :: "u8 list" where
  "Case_Ignorable_part0 = [
    0xa6, 0x05, 0x80, 0x8a, 0x80, 0xa2, 0x00, 0x80, 0xc6, 0x03, 0x00, 0x03, 0x01, 0x81, 0x41, 0xf6,
    0x40, 0xbf, 0x19, 0x18, 0x88, 0x08, 0x80, 0x40, 0xfa, 0x86, 0x40, 0xce, 0x04, 0x80, 0xb0, 0xac,
    0x00, 0x01, 0x01, 0x00, 0xab, 0x80, 0x8a, 0x85, 0x89, 0x8a, 0x00, 0xa2, 0x80, 0x89, 0x94, 0x8f,
    0x80, 0xe4, 0x38, 0x89, 0x03, 0xa0, 0x00, 0x80, 0x9d, 0x9a, 0xda, 0x8a, 0xb9, 0x8a, 0x18, 0x08,
    0x97, 0x97, 0xaa, 0x82, 0xab, 0x06, 0x0c, 0x88, 0xa8, 0xb9, 0xb6, 0x00, 0x03, 0x3b, 0x02, 0x86,
    0x89, 0x81, 0x8c, 0x80, 0x8e, 0x80, 0xb9, 0x03, 0x1f, 0x80, 0x93, 0x81, 0x99, 0x01, 0x81, 0xb8,
    0x03, 0x0b, 0x09, 0x12, 0x80, 0x9d, 0x0a, 0x80, 0x8a, 0x81, 0xb8, 0x03, 0x20, 0x0b, 0x80, 0x93,
    0x81, 0x95, 0x28, 0x80, 0xb9, 0x01, 0x00, 0x1f, 0x06, 0x81, 0x8a, 0x81, 0x9d, 0x80, 0xbc, 0x80,
    0x8b, 0x80, 0xb1, 0x02, 0x80, 0xb6, 0x00, 0x14, 0x10, 0x1e, 0x81, 0x8a, 0x81, 0x9c, 0x80, 0xb9,
    0x01, 0x05, 0x04, 0x81, 0x93, 0x81, 0x9b, 0x81, 0xb8, 0x0b, 0x1f, 0x80, 0x93, 0x81, 0x9c, 0x80,
    0xc7, 0x06, 0x10, 0x80, 0xd9, 0x01, 0x86, 0x8a, 0x88, 0xe1]"

definition Case_Ignorable_part1 :: "u8 list" where
  "Case_Ignorable_part1 = [
    0x01, 0x88, 0x88, 0x00, 0x86, 0xc8, 0x81, 0x9a, 0x00, 0x00, 0x80, 0xb6, 0x8d, 0x04, 0x01, 0x84,
    0x8a, 0x80, 0xa3, 0x88, 0x80, 0xe5, 0x18, 0x28, 0x09, 0x81, 0x98, 0x0b, 0x82, 0x8f, 0x83, 0x8c,
    0x01, 0x0d, 0x80, 0x8e, 0x80, 0xdd, 0x80, 0x42, 0x5f, 0x82, 0x43, 0xb1, 0x82, 0x9c, 0x81, 0x9d,
    0x81, 0x9d, 0x81, 0xbf, 0x08, 0x37, 0x01, 0x8a, 0x10, 0x20, 0xac, 0x84, 0xb2, 0x80, 0xc0, 0x81,
    0xa1, 0x80, 0xf5, 0x13, 0x81, 0x88, 0x05, 0x82, 0x40, 0xda, 0x09, 0x80, 0xb9, 0x00, 0x30, 0x00,
    0x01, 0x3d, 0x89, 0x08, 0xa6, 0x07, 0xad, 0x81, 0x8b, 0x93, 0x83, 0xaf, 0x00, 0x20, 0x04, 0x80,
    0xa7, 0x88, 0x8b, 0x81, 0x9f, 0x19, 0x08, 0x82, 0xb7, 0x00, 0x0a, 0x00, 0x82, 0xb9, 0x39, 0x81,
    0xbf, 0x85, 0xd1, 0x10, 0x8c, 0x06, 0x18, 0x28, 0x11, 0xb1, 0xbe, 0x8c, 0x80, 0xa1, 0xe4, 0x41,
    0xbc, 0x00, 0x82, 0x8a, 0x82, 0x8c, 0x82, 0x8c, 0x82, 0x8c, 0x81, 0x8b, 0x27, 0x81, 0x89, 0x01,
    0x01, 0x84, 0xb0, 0x20, 0x89, 0x00, 0x8c, 0x80, 0x8f, 0x8c, 0xb2, 0xa0, 0x4b, 0x8a, 0x81, 0xf0,
    0x82, 0xfc, 0x80, 0x8e, 0x80, 0xdf, 0x9f, 0xae, 0x80, 0x41, 0xd4]"

definition Case_Ignorable_part2 :: "u8 list" where
  "Case_Ignorable_part2 = [
    0x80, 0xa3, 0x1a, 0x24, 0x80, 0xdc, 0x85, 0xdc, 0x82, 0x60, 0x6f, 0x15, 0x80, 0x44, 0xe1, 0x85,
    0x41, 0x0d, 0x80, 0xe1, 0x18, 0x89, 0x00, 0x9b, 0x83, 0xcf, 0x81, 0x8d, 0xa1, 0xcd, 0x80, 0x96,
    0x82, 0xe5, 0x1a, 0x0f, 0x02, 0x03, 0x80, 0x98, 0x0c, 0x80, 0x40, 0x96, 0x81, 0x99, 0x91, 0x8c,
    0x80, 0xa5, 0x87, 0x98, 0x8a, 0xad, 0x82, 0xaf, 0x01, 0x19, 0x81, 0x90, 0x80, 0x94, 0x81, 0xc1,
    0x29, 0x09, 0x81, 0x8b, 0x07, 0x80, 0xa2, 0x80, 0x8a, 0x80, 0xb2, 0x00, 0x11, 0x0c, 0x08, 0x80,
    0x9a, 0x80, 0x8d, 0x0c, 0x08, 0x80, 0xe3, 0x84, 0x88, 0x82, 0xf8, 0x01, 0x03, 0x80, 0x60, 0x4f,
    0x2f, 0x80, 0x40, 0x92, 0x90, 0x42, 0x3c, 0x8f, 0x10, 0x8b, 0x8f, 0xa1, 0x01, 0x80, 0x40, 0xa8,
    0x06, 0x05, 0x80, 0x8a, 0x80, 0xa2, 0x00, 0x80, 0xae, 0x80, 0xac, 0x81, 0xc2, 0x80, 0x94, 0x82,
    0x42, 0x00, 0x80, 0x40, 0xe1, 0x80, 0x40, 0x94, 0x84, 0x44, 0x04, 0x28, 0xa9, 0x80, 0x88, 0x42,
    0x45, 0x10, 0x0c, 0x83, 0xa7, 0x13, 0x80, 0x40, 0xa4, 0x81, 0x42, 0x3c, 0x83, 0xa5, 0x80, 0x99,
    0x20, 0x80, 0x41, 0x3a, 0x81, 0x97, 0x80, 0xb3, 0x85, 0xc5]"

definition Case_Ignorable_part3 :: "u8 list" where
  "Case_Ignorable_part3 = [
    0x8a, 0xb0, 0x83, 0xfa, 0x80, 0xb5, 0x8e, 0xa8, 0x01, 0x81, 0x89, 0x82, 0xb0, 0x19, 0x09, 0x03,
    0x80, 0x89, 0x80, 0xb1, 0x82, 0xa3, 0x20, 0x87, 0xbd, 0x80, 0x8b, 0x81, 0xb3, 0x88, 0x89, 0x19,
    0x80, 0xde, 0x11, 0x00, 0x0d, 0x01, 0x80, 0x40, 0x9c, 0x02, 0x87, 0x94, 0x81, 0xb8, 0x0a, 0x80,
    0xa4, 0x32, 0x84, 0xc5, 0x85, 0x8c, 0x00, 0x00, 0x80, 0x8d, 0x81, 0xd4, 0x39, 0x10, 0x80, 0x96,
    0x80, 0xd3, 0x28, 0x03, 0x08, 0x81, 0x40, 0xed, 0x1d, 0x08, 0x81, 0x9a, 0x81, 0xd4, 0x39, 0x00,
    0x81, 0xe9, 0x00, 0x01, 0x28, 0x80, 0xe4, 0x00, 0x01, 0x18, 0x84, 0x41, 0x02, 0x88, 0x01, 0x40,
    0xff, 0x08, 0x03, 0x80, 0x40, 0x8f, 0x19, 0x0b, 0x80, 0x9f, 0x89, 0xa7, 0x29, 0x1f, 0x80, 0x88,
    0x29, 0x82, 0xad, 0x8c, 0x01, 0x40, 0xc5, 0x00, 0x10, 0x80, 0x40, 0xc8, 0x30, 0x28, 0x80, 0xd1,
    0x95, 0x0e, 0x01, 0x01, 0xf9, 0x2a, 0x00, 0x08, 0x30, 0x80, 0xc7, 0x0a, 0x00, 0x80, 0xc0, 0x80,
    0x41, 0x18, 0x81, 0x8a, 0x81, 0xb3, 0x24, 0x00, 0x80, 0x96, 0x80, 0x54, 0xd4, 0x90, 0x85, 0x8e,
    0x60, 0x2c, 0xc7, 0x8b, 0x12, 0x49, 0xbf, 0x84, 0xba, 0x86]"

definition Case_Ignorable_part4 :: "u8 list" where
  "Case_Ignorable_part4 = [
    0x88, 0x83, 0x41, 0xfb, 0x82, 0xa7, 0x81, 0x41, 0xe1, 0x80, 0xbe, 0x90, 0xbf, 0x08, 0x81, 0x8c,
    0x81, 0x60, 0x3f, 0xfb, 0x18, 0x30, 0x81, 0x4c, 0x9d, 0x08, 0x83, 0x52, 0x5b, 0xad, 0x81, 0x96,
    0x42, 0x1f, 0x82, 0x88, 0x8f, 0x0e, 0x9d, 0x83, 0x40, 0x93, 0x82, 0x47, 0xba, 0xb6, 0x83, 0xb1,
    0x38, 0x8d, 0x80, 0x95, 0x20, 0x8e, 0x45, 0x4f, 0x30, 0x90, 0x0e, 0x01, 0x04, 0x84, 0xbd, 0xa0,
    0x80, 0x40, 0x9f, 0x8d, 0x41, 0x6f, 0x80, 0xbc, 0x83, 0x41, 0xfa, 0x84, 0x40, 0xfd, 0x81, 0x40,
    0xf2, 0x01, 0x06, 0x0c, 0x80, 0x88, 0x80, 0x41, 0xcf, 0x86, 0xec, 0x87, 0x4a, 0xae, 0x84, 0x6c,
    0x0c, 0x00, 0x80, 0x9d, 0xdf, 0xff, 0x40, 0xef]"

definition unicode_prop_Case_Ignorable_table :: "u8 list" where
  "unicode_prop_Case_Ignorable_table = Case_Ignorable_part0 @ Case_Ignorable_part1 @ Case_Ignorable_part2 @ Case_Ignorable_part3 @ Case_Ignorable_part4"

definition unicode_prop_Case_Ignorable_index :: "u8 list" where
  "unicode_prop_Case_Ignorable_index = [
    0xbe, 0x05, 0x00, 0xfe, 0x07, 0x00, 0x52, 0x0a, 0xa0, 0xc1, 0x0b, 0x00, 0x82, 0x0d, 0x00, 0x3f,
    0x10, 0x80, 0xd4, 0x17, 0x40, 0xde, 0x1a, 0x20, 0xe9, 0x1c, 0x00, 0x72, 0x20, 0x00, 0x16, 0xa0,
    0x40, 0xc6, 0xa8, 0x40, 0xc2, 0xaa, 0xa0, 0x30, 0xfe, 0x00, 0xb1, 0x07, 0x41, 0x51, 0x0f, 0x01,
    0xd0, 0x11, 0x01, 0x5f, 0x14, 0x01, 0x44, 0x19, 0x61, 0xa8, 0x1c, 0x01, 0x2a, 0x61, 0x61, 0xff,
    0xaf, 0x01, 0x19, 0xe0, 0x61, 0x00, 0xe7, 0x01, 0xf0, 0x01, 0x0e]"

definition ID_Start_part0 :: "u8 list" where
  "ID_Start_part0 = [
    0xc0, 0x99, 0x85, 0x99, 0xae, 0x80, 0x89, 0x03, 0x04, 0x96, 0x80, 0x9e, 0x80, 0x41, 0xc9, 0x83,
    0x8b, 0x8d, 0x26, 0x00, 0x80, 0x40, 0x80, 0x20, 0x09, 0x18, 0x05, 0x00, 0x10, 0x00, 0x93, 0x80,
    0xd2, 0x80, 0x40, 0x8a, 0x87, 0x40, 0xa5, 0x80, 0xa5, 0x08, 0x85, 0xa8, 0xc6, 0x9a, 0x1b, 0xac,
    0xaa, 0xa2, 0x08, 0xe2, 0x00, 0x8e, 0x0e, 0x81, 0x89, 0x11, 0x80, 0x8f, 0x00, 0x9d, 0x9c, 0xd8,
    0x8a, 0x80, 0x97, 0xa0, 0x88, 0x0b, 0x04, 0x95, 0x18, 0x88, 0x02, 0x80, 0x96, 0x98, 0x86, 0x8a,
    0x84, 0x97, 0x06, 0x8f, 0xa9, 0xb9, 0xb5, 0x10, 0x91, 0x06, 0x89, 0x8e, 0x8f, 0x1f, 0x09, 0x81,
    0x95, 0x06, 0x00, 0x13, 0x10, 0x8f, 0x80, 0x8c, 0x08, 0x82, 0x8d, 0x81, 0x89, 0x07, 0x2b, 0x09,
    0x95, 0x06, 0x01, 0x01, 0x01, 0x9e, 0x18, 0x80, 0x92, 0x82, 0x8f, 0x88, 0x02, 0x80, 0x95, 0x06,
    0x01, 0x04, 0x10, 0x91, 0x80, 0x8e, 0x81, 0x96, 0x80, 0x8a, 0x39, 0x09, 0x95, 0x06, 0x01, 0x04,
    0x10, 0x9d, 0x08, 0x82, 0x8e, 0x80, 0x90, 0x00, 0x2a, 0x10, 0x1a, 0x08, 0x00, 0x0a, 0x0a, 0x12,
    0x8b, 0x95, 0x80, 0xb3, 0x38, 0x10, 0x96, 0x80, 0x8f, 0x10]"

definition ID_Start_part1 :: "u8 list" where
  "ID_Start_part1 = [
    0x99, 0x10, 0x09, 0x81, 0x9d, 0x03, 0x38, 0x10, 0x96, 0x80, 0x89, 0x04, 0x10, 0x9d, 0x10, 0x81,
    0x8e, 0x81, 0x90, 0x88, 0x02, 0x80, 0xa8, 0x08, 0x8f, 0x04, 0x17, 0x82, 0x97, 0x2c, 0x91, 0x82,
    0x97, 0x80, 0x88, 0x00, 0x0e, 0xb9, 0xaf, 0x01, 0x8b, 0x86, 0xb9, 0x08, 0x00, 0x20, 0x97, 0x00,
    0x80, 0x89, 0x01, 0x88, 0x01, 0x20, 0x80, 0x94, 0x83, 0x9f, 0x80, 0xbe, 0x38, 0xa3, 0x9a, 0x84,
    0xf2, 0xaa, 0x93, 0x80, 0x8f, 0x2b, 0x1a, 0x02, 0x0e, 0x13, 0x8c, 0x8b, 0x80, 0x90, 0xa5, 0x00,
    0x20, 0x81, 0xaa, 0x80, 0x41, 0x4c, 0x03, 0x0e, 0x00, 0x03, 0x81, 0xa8, 0x03, 0x81, 0xa0, 0x03,
    0x0e, 0x00, 0x03, 0x81, 0x8e, 0x80, 0xb8, 0x03, 0x81, 0xc2, 0xa4, 0x8f, 0x8f, 0xd5, 0x0d, 0x82,
    0x42, 0x6b, 0x81, 0x90, 0x80, 0x99, 0x84, 0xca, 0x82, 0x8a, 0x86, 0x91, 0x8c, 0x92, 0x8d, 0x91,
    0x8d, 0x8c, 0x02, 0x8e, 0xb3, 0xa2, 0x03, 0x80, 0xc2, 0xd8, 0x86, 0xa8, 0x00, 0x84, 0xc5, 0x89,
    0x9e, 0xb0, 0x9d, 0x0c, 0x8a, 0xab, 0x83, 0x99, 0xb5, 0x96, 0x88, 0xb4, 0xd1, 0x80, 0xdc, 0xae,
    0x90, 0x87, 0xb5, 0x9d, 0x8c, 0x81, 0x89, 0xab, 0x99, 0xa3]"

definition ID_Start_part2 :: "u8 list" where
  "ID_Start_part2 = [
    0xa8, 0x82, 0x89, 0xa3, 0x81, 0x8a, 0x84, 0xaa, 0x0a, 0xa8, 0x18, 0x28, 0x0a, 0x04, 0x40, 0xbf,
    0xbf, 0x41, 0x15, 0x0d, 0x81, 0xa5, 0x0d, 0x0f, 0x00, 0x00, 0x00, 0x80, 0x9e, 0x81, 0xb4, 0x06,
    0x00, 0x12, 0x06, 0x13, 0x0d, 0x83, 0x8c, 0x22, 0x06, 0xf3, 0x80, 0x8c, 0x80, 0x8f, 0x8c, 0xe4,
    0x03, 0x01, 0x89, 0x00, 0x0d, 0x28, 0x00, 0x00, 0x80, 0x8f, 0x0b, 0x24, 0x18, 0x90, 0xa8, 0x4a,
    0x76, 0x40, 0xe4, 0x2b, 0x11, 0x8b, 0xa5, 0x00, 0x20, 0x81, 0xb7, 0x30, 0x8f, 0x96, 0x88, 0x30,
    0x30, 0x30, 0x30, 0x30, 0x30, 0x30, 0x86, 0x42, 0x25, 0x82, 0x98, 0x88, 0x34, 0x0c, 0x83, 0xd5,
    0x1c, 0x80, 0xd9, 0x03, 0x84, 0xaa, 0x80, 0xdd, 0x90, 0x9f, 0xaf, 0x8f, 0x41, 0xff, 0x59, 0xbf,
    0xbf, 0x60, 0x56, 0x8c, 0xc2, 0xad, 0x81, 0x41, 0x0c, 0x82, 0x8f, 0x89, 0x81, 0x93, 0xae, 0x8f,
    0x9e, 0x81, 0xcf, 0xa6, 0x88, 0x81, 0xe6, 0x81, 0xd1, 0x93, 0x90, 0x02, 0x03, 0x80, 0x96, 0x9c,
    0xb3, 0x8d, 0xb1, 0xbd, 0x2a, 0x00, 0x81, 0x8a, 0x9b, 0x89, 0x96, 0x98, 0x9c, 0x86, 0xae, 0x9b,
    0x80, 0x8f, 0x20, 0x89, 0x89, 0x20, 0xa8, 0x96, 0x10, 0x87]"

definition ID_Start_part3 :: "u8 list" where
  "ID_Start_part3 = [
    0x93, 0x96, 0x10, 0x82, 0xb1, 0x00, 0x11, 0x0c, 0x08, 0x00, 0x97, 0x11, 0x8a, 0x32, 0x8b, 0x29,
    0x29, 0x85, 0x88, 0x30, 0x30, 0xaa, 0x80, 0x8d, 0x85, 0xf2, 0x9c, 0x60, 0x2b, 0xa3, 0x8b, 0x96,
    0x83, 0xb0, 0x60, 0x21, 0x03, 0x41, 0x6d, 0x81, 0xe9, 0xa5, 0x86, 0x8b, 0x24, 0x00, 0x89, 0x80,
    0x8c, 0x04, 0x00, 0x01, 0x01, 0x80, 0xeb, 0xa0, 0x41, 0x6a, 0x91, 0xbf, 0x81, 0xb5, 0xa7, 0x8b,
    0xf3, 0x20, 0x40, 0x86, 0xa3, 0x99, 0x85, 0x99, 0x8a, 0xd8, 0x15, 0x0d, 0x0d, 0x0a, 0xa2, 0x8b,
    0x80, 0x99, 0x80, 0x92, 0x01, 0x80, 0x8e, 0x81, 0x8d, 0xa1, 0xfa, 0xc4, 0xb4, 0x41, 0x0a, 0x9c,
    0x82, 0xb0, 0xae, 0x9f, 0x8c, 0x9d, 0x84, 0xa5, 0x89, 0x9d, 0x81, 0xa3, 0x1f, 0x04, 0xa9, 0x40,
    0x9d, 0x91, 0xa3, 0x83, 0xa3, 0x83, 0xa7, 0x87, 0xb3, 0x8b, 0x8a, 0x80, 0x8e, 0x06, 0x01, 0x80,
    0x8a, 0x80, 0x8e, 0x06, 0x01, 0x82, 0xb3, 0x8b, 0x41, 0x36, 0x88, 0x95, 0x89, 0x87, 0x97, 0x28,
    0xa9, 0x80, 0x88, 0xc4, 0x29, 0x00, 0xab, 0x01, 0x10, 0x81, 0x96, 0x89, 0x96, 0x88, 0x9e, 0xc0,
    0x92, 0x01, 0x89, 0x95, 0x89, 0x99, 0x85, 0x99, 0xa5, 0xb7]"

definition ID_Start_part4 :: "u8 list" where
  "ID_Start_part4 = [
    0x29, 0xbf, 0x80, 0x8e, 0x18, 0x10, 0x9c, 0xa9, 0x9c, 0x82, 0x9c, 0xa2, 0x38, 0x9b, 0x9a, 0xb5,
    0x89, 0x95, 0x89, 0x92, 0x8c, 0x91, 0xed, 0xc8, 0xb6, 0xb2, 0x8c, 0xb2, 0x8c, 0xa3, 0xa5, 0x9b,
    0x88, 0x96, 0x40, 0xf9, 0xa9, 0x29, 0x8f, 0x85, 0xb7, 0x9c, 0x89, 0x07, 0x95, 0xa9, 0x91, 0xad,
    0x94, 0x9a, 0x96, 0x8b, 0xb4, 0xb8, 0x09, 0x80, 0x8c, 0xac, 0x9f, 0x98, 0x99, 0xa3, 0x9c, 0x01,
    0x07, 0xa2, 0x10, 0x8b, 0xaf, 0x8d, 0x83, 0x94, 0x00, 0x80, 0xa2, 0x91, 0x80, 0x98, 0x92, 0x81,
    0xbe, 0x30, 0x00, 0x18, 0x8e, 0x80, 0x89, 0x86, 0xae, 0xa5, 0x39, 0x09, 0x95, 0x06, 0x01, 0x04,
    0x10, 0x91, 0x80, 0x8b, 0x84, 0x9d, 0x89, 0x00, 0x08, 0x80, 0xa5, 0x00, 0x98, 0x00, 0x80, 0xab,
    0xb4, 0x91, 0x83, 0x93, 0x82, 0x9d, 0xaf, 0x93, 0x08, 0x80, 0x40, 0xb7, 0xae, 0xa8, 0x83, 0xa3,
    0xaf, 0x93, 0x80, 0xba, 0xaa, 0x8c, 0x80, 0xc6, 0x9a, 0xa4, 0x86, 0x40, 0xb8, 0xab, 0xf3, 0xbf,
    0x9e, 0x39, 0x01, 0x38, 0x08, 0x97, 0x8e, 0x00, 0x80, 0xdd, 0x39, 0xa6, 0x8f, 0x00, 0x80, 0x9b,
    0x80, 0x89, 0xa7, 0x30, 0x94, 0x80, 0x8a, 0xad, 0x92, 0x80]"

definition ID_Start_part5 :: "u8 list" where
  "ID_Start_part5 = [
    0x91, 0xc8, 0x40, 0xc6, 0xa0, 0x9e, 0x88, 0x80, 0xa4, 0x90, 0x80, 0xb0, 0x9d, 0xef, 0x30, 0x08,
    0xa5, 0x94, 0x80, 0x98, 0x28, 0x08, 0x9f, 0x8d, 0x80, 0x96, 0xab, 0x41, 0x03, 0x92, 0x8e, 0x00,
    0x8c, 0x80, 0xa1, 0xfb, 0x80, 0xce, 0x43, 0x99, 0xe5, 0xee, 0x90, 0x40, 0xc3, 0x4a, 0x4b, 0xe0,
    0x8e, 0x44, 0x2f, 0x90, 0x85, 0x98, 0x4f, 0x9a, 0x84, 0x42, 0x46, 0x5a, 0xb8, 0x9d, 0x46, 0xe1,
    0x42, 0x38, 0x86, 0x9e, 0x90, 0xce, 0x90, 0x9d, 0x91, 0xaf, 0x8f, 0x83, 0x9e, 0x94, 0x84, 0x92,
    0x41, 0xaf, 0xac, 0x40, 0xd2, 0xbf, 0x9f, 0x98, 0x81, 0x98, 0xab, 0xca, 0x20, 0xc1, 0x8c, 0xbf,
    0x08, 0x80, 0x8d, 0x84, 0x88, 0x5c, 0xd5, 0xa8, 0x9f, 0xe0, 0xf2, 0x60, 0x21, 0xfc, 0x18, 0x30,
    0x08, 0x41, 0x22, 0x8e, 0x80, 0x9c, 0x11, 0x80, 0x8d, 0x1f, 0x41, 0x8b, 0x49, 0x03, 0xea, 0x84,
    0x8c, 0x82, 0x88, 0x86, 0x89, 0x57, 0x65, 0xd4, 0x80, 0xc6, 0x01, 0x08, 0x09, 0x0b, 0x80, 0x8b,
    0x00, 0x06, 0x80, 0xc0, 0x03, 0x0f, 0x06, 0x80, 0x9b, 0x03, 0x04, 0x00, 0x16, 0x80, 0x41, 0x53,
    0x81, 0x98, 0x80, 0x98, 0x80, 0x9e, 0x80, 0x98, 0x80, 0x9e]"

definition ID_Start_part6 :: "u8 list" where
  "ID_Start_part6 = [
    0x80, 0x98, 0x80, 0x9e, 0x80, 0x98, 0x80, 0x9e, 0x80, 0x98, 0x07, 0x47, 0x33, 0x9e, 0x2d, 0x41,
    0x04, 0xbd, 0x40, 0x91, 0xac, 0x89, 0x86, 0x8f, 0x80, 0x41, 0x40, 0x9d, 0x91, 0xab, 0x41, 0xe3,
    0x9b, 0x40, 0xe3, 0x9d, 0x08, 0x40, 0xce, 0x9e, 0x02, 0x01, 0x06, 0x0c, 0x88, 0x81, 0x40, 0xdf,
    0x30, 0x18, 0x08, 0x8e, 0x80, 0x40, 0xc4, 0xba, 0xc3, 0x30, 0x44, 0xb3, 0x18, 0x9a, 0x01, 0x00,
    0x08, 0x80, 0x89, 0x03, 0x00, 0x00, 0x28, 0x18, 0x00, 0x00, 0x02, 0x01, 0x00, 0x08, 0x00, 0x00,
    0x00, 0x00, 0x01, 0x00, 0x0b, 0x06, 0x03, 0x03, 0x00, 0x80, 0x89, 0x80, 0x90, 0x22, 0x04, 0x80,
    0x90, 0x51, 0x43, 0x60, 0xa6, 0xdf, 0x9f, 0x51, 0x1d, 0x81, 0x56, 0x8d, 0x81, 0x5d, 0x30, 0x8e,
    0x42, 0x6d, 0x49, 0xa1, 0x42, 0x1d, 0x45, 0xe1, 0x53, 0x4a, 0x84, 0x60, 0x21, 0x29]"

definition unicode_prop_ID_Start_table :: "u8 list" where
  "unicode_prop_ID_Start_table = ID_Start_part0 @ ID_Start_part1 @ ID_Start_part2 @ ID_Start_part3 @ ID_Start_part4 @ ID_Start_part5 @ ID_Start_part6"

definition unicode_prop_ID_Start_index :: "u8 list" where
  "unicode_prop_ID_Start_index = [
    0xf6, 0x03, 0x20, 0xa6, 0x07, 0x00, 0xa9, 0x09, 0x20, 0xb1, 0x0a, 0x00, 0xba, 0x0b, 0x20, 0x3b,
    0x0d, 0x20, 0xc7, 0x0e, 0x20, 0x49, 0x12, 0x00, 0x9b, 0x16, 0x00, 0xac, 0x19, 0x00, 0xc0, 0x1d,
    0x80, 0x80, 0x20, 0x20, 0x70, 0x2d, 0x00, 0x00, 0x32, 0x00, 0x06, 0xa8, 0x00, 0x77, 0xaa, 0x00,
    0xfc, 0xd7, 0x00, 0xfd, 0xfe, 0x40, 0xd1, 0x02, 0x01, 0xb2, 0x05, 0x21, 0xf6, 0x08, 0x01, 0x49,
    0x0c, 0x01, 0x76, 0x10, 0x01, 0xdf, 0x12, 0x21, 0xc8, 0x14, 0x41, 0x42, 0x19, 0x21, 0x31, 0x1d,
    0x61, 0xf1, 0x2f, 0x41, 0x78, 0x6b, 0x01, 0x23, 0xb1, 0xa1, 0xad, 0xd4, 0x01, 0x6f, 0xd7, 0x01,
    0xee, 0xe5, 0x01, 0x38, 0xee, 0x01, 0xe0, 0xa6, 0x42, 0x7a, 0x34, 0x03]"

definition ID_Continue1_part0 :: "u8 list" where
  "ID_Continue1_part0 = [
    0xaf, 0x89, 0xa4, 0x80, 0xd6, 0x80, 0x42, 0x47, 0xef, 0x96, 0x80, 0x40, 0xfa, 0x84, 0x41, 0x08,
    0xac, 0x00, 0x01, 0x01, 0x00, 0xc7, 0x8a, 0xaf, 0x9e, 0x28, 0xe4, 0x31, 0x29, 0x08, 0x19, 0x89,
    0x96, 0x80, 0x9d, 0x9a, 0xda, 0x8a, 0x8e, 0x89, 0xa0, 0x88, 0x88, 0x80, 0x97, 0x18, 0x88, 0x02,
    0x04, 0xaa, 0x82, 0xba, 0x88, 0xa9, 0x97, 0x80, 0xa0, 0xb5, 0x10, 0x91, 0x06, 0x89, 0x09, 0x89,
    0x90, 0x82, 0xb7, 0x00, 0x31, 0x09, 0x82, 0x88, 0x80, 0x89, 0x09, 0x89, 0x8d, 0x01, 0x82, 0xb7,
    0x00, 0x23, 0x09, 0x12, 0x80, 0x93, 0x8b, 0x10, 0x8a, 0x82, 0xb7, 0x00, 0x38, 0x10, 0x82, 0x93,
    0x09, 0x89, 0x89, 0x28, 0x82, 0xb7, 0x00, 0x31, 0x09, 0x16, 0x82, 0x89, 0x09, 0x89, 0x91, 0x80,
    0xba, 0x22, 0x10, 0x83, 0x88, 0x80, 0x8d, 0x89, 0x8f, 0x84, 0xb6, 0x00, 0x30, 0x10, 0x1e, 0x81,
    0x8a, 0x09, 0x89, 0x90, 0x82, 0xb7, 0x00, 0x30, 0x10, 0x1e, 0x81, 0x8a, 0x09, 0x89, 0x10, 0x8b,
    0x83, 0xb6, 0x08, 0x30, 0x10, 0x83, 0x88, 0x80, 0x89, 0x09, 0x89, 0x90, 0x82, 0xc5, 0x03, 0x28,
    0x00, 0x3d, 0x89, 0x09, 0xbc, 0x01, 0x86, 0x8b, 0x38, 0x89]"

definition ID_Continue1_part1 :: "u8 list" where
  "ID_Continue1_part1 = [
    0xd6, 0x01, 0x88, 0x8a, 0x30, 0x89, 0xbd, 0x0d, 0x89, 0x8a, 0x00, 0x00, 0x03, 0x81, 0xb0, 0x93,
    0x01, 0x84, 0x8a, 0x80, 0xa3, 0x88, 0x80, 0xe3, 0x93, 0x80, 0x89, 0x8b, 0x1b, 0x10, 0x11, 0x32,
    0x83, 0x8c, 0x8b, 0x80, 0x8e, 0x42, 0xbe, 0x82, 0x88, 0x88, 0x43, 0x9f, 0x83, 0x9b, 0x82, 0x9c,
    0x81, 0x9d, 0x81, 0xbf, 0x9f, 0x88, 0x01, 0x89, 0xa0, 0x10, 0x8a, 0x40, 0x8e, 0x80, 0xf5, 0x8b,
    0x83, 0x8b, 0x89, 0x89, 0xff, 0x8a, 0xbb, 0x84, 0xb8, 0x89, 0x80, 0x9c, 0x81, 0x8a, 0x85, 0x89,
    0x95, 0x8d, 0x80, 0x9e, 0x81, 0x8b, 0x93, 0x84, 0xae, 0x90, 0x8a, 0x89, 0x90, 0x88, 0x8b, 0x82,
    0x9d, 0x8c, 0x81, 0x89, 0xab, 0x8d, 0xaf, 0x93, 0x87, 0x89, 0x85, 0x89, 0xf5, 0x10, 0x94, 0x18,
    0x28, 0x0a, 0x40, 0xc5, 0xbf, 0x42, 0x0b, 0x81, 0xb0, 0x81, 0x92, 0x80, 0xfa, 0x8c, 0x18, 0x82,
    0x8b, 0x4b, 0xfd, 0x82, 0x40, 0x8c, 0x80, 0xdf, 0x9f, 0x42, 0x29, 0x85, 0xe8, 0x81, 0xdf, 0x80,
    0x60, 0x75, 0x23, 0x89, 0xc4, 0x03, 0x89, 0x9f, 0x81, 0xcf, 0x81, 0x41, 0x0f, 0x02, 0x03, 0x80,
    0x96, 0x23, 0x80, 0xd2, 0x81, 0xb1, 0x91, 0x89, 0x89, 0x85]"

definition ID_Continue1_part2 :: "u8 list" where
  "ID_Continue1_part2 = [
    0x91, 0x8c, 0x8a, 0x9b, 0x87, 0x98, 0x8c, 0xab, 0x83, 0xae, 0x8d, 0x8e, 0x89, 0x8a, 0x80, 0x89,
    0x89, 0xae, 0x8d, 0x8b, 0x07, 0x09, 0x89, 0xa0, 0x82, 0xb1, 0x00, 0x11, 0x0c, 0x08, 0x80, 0xa8,
    0x24, 0x81, 0x40, 0xeb, 0x38, 0x09, 0x89, 0x60, 0x4f, 0x23, 0x80, 0x42, 0xe0, 0x8f, 0x8f, 0x8f,
    0x11, 0x97, 0x82, 0x40, 0xbf, 0x89, 0xa4, 0x80, 0xa4, 0x80, 0x42, 0x96, 0x80, 0x40, 0xe1, 0x80,
    0x40, 0x94, 0x84, 0x41, 0x24, 0x89, 0x45, 0x56, 0x10, 0x0c, 0x83, 0xa7, 0x13, 0x80, 0x40, 0xa4,
    0x81, 0x42, 0x3c, 0x1f, 0x89, 0x85, 0x89, 0x9e, 0x84, 0x41, 0x3c, 0x81, 0xcc, 0x85, 0xc5, 0x8a,
    0xb0, 0x83, 0xf9, 0x82, 0xb4, 0x8e, 0x9e, 0x8a, 0x09, 0x89, 0x83, 0xac, 0x8a, 0x30, 0xac, 0x89,
    0x2a, 0xa3, 0x8d, 0x80, 0x89, 0x21, 0xab, 0x80, 0x8b, 0x82, 0xaf, 0x8d, 0x3b, 0x80, 0x8b, 0xd1,
    0x8b, 0x28, 0x08, 0x40, 0x9c, 0x8b, 0x84, 0x89, 0x2b, 0xb6, 0x08, 0x31, 0x09, 0x82, 0x88, 0x80,
    0x89, 0x09, 0x32, 0x84, 0xc2, 0x88, 0x00, 0x08, 0x03, 0x04, 0x00, 0x8d, 0x81, 0xd1, 0x91, 0x88,
    0x89, 0x18, 0xd0, 0x93, 0x8b, 0x89, 0x40, 0xd4, 0x31, 0x88]"

definition ID_Continue1_part3 :: "u8 list" where
  "ID_Continue1_part3 = [
    0x9a, 0x81, 0xd1, 0x90, 0x8e, 0x89, 0xd0, 0x8c, 0x87, 0x89, 0x85, 0x93, 0xb8, 0x8e, 0x83, 0x89,
    0x40, 0xf1, 0x8e, 0x40, 0xa4, 0x89, 0xc5, 0x28, 0x09, 0x18, 0x00, 0x81, 0x8b, 0x89, 0xf6, 0x31,
    0x32, 0x80, 0x9b, 0x89, 0xa7, 0x30, 0x1f, 0x80, 0x88, 0x8a, 0xad, 0x8f, 0x40, 0xc5, 0x87, 0x40,
    0x87, 0x89, 0xb4, 0x38, 0x87, 0x8f, 0x89, 0xb7, 0x95, 0x80, 0x8d, 0xf9, 0x2a, 0x00, 0x08, 0x30,
    0x07, 0x89, 0xaf, 0x20, 0x08, 0x27, 0x89, 0xb5, 0x89, 0x41, 0x08, 0x83, 0x88, 0x08, 0x80, 0xaf,
    0x32, 0x84, 0x8c, 0x8a, 0x54, 0xe4, 0x05, 0x8e, 0x60, 0x2c, 0xc7, 0x9b, 0x49, 0x25, 0x89, 0xd5,
    0x89, 0xa5, 0x84, 0xba, 0x86, 0x98, 0x89, 0x42, 0x15, 0x89, 0x41, 0xd4, 0x00, 0xb6, 0x33, 0xd0,
    0x80, 0x8a, 0x81, 0x60, 0x4c, 0xaa, 0x81, 0x50, 0x50, 0x89, 0x42, 0x05, 0xad, 0x81, 0x96, 0x42,
    0x1d, 0x22, 0x2f, 0x39, 0x86, 0x9d, 0x83, 0x40, 0x93, 0x82, 0x45, 0x88, 0xb1, 0x41, 0xff, 0xb6,
    0x83, 0xb1, 0x38, 0x8d, 0x80, 0x95, 0x20, 0x8e, 0x45, 0x4f, 0x30, 0x90, 0x0e, 0x01, 0x04, 0xe3,
    0x80, 0x40, 0x9f, 0x86, 0x88, 0x89, 0x41, 0x63, 0x80, 0xbc]"

definition ID_Continue1_part4 :: "u8 list" where
  "ID_Continue1_part4 = [
    0x8d, 0x41, 0xf1, 0x8d, 0x40, 0xf3, 0x08, 0x89, 0x40, 0xe7, 0x01, 0x06, 0x0c, 0x80, 0x41, 0xd9,
    0x86, 0xec, 0x34, 0x89, 0x52, 0x95, 0x89, 0x6c, 0x05, 0x05, 0x40, 0xef]"

definition unicode_prop_ID_Continue1_table :: "u8 list" where
  "unicode_prop_ID_Continue1_table = ID_Continue1_part0 @ ID_Continue1_part1 @ ID_Continue1_part2 @ ID_Continue1_part3 @ ID_Continue1_part4"

definition unicode_prop_ID_Continue1_index :: "u8 list" where
  "unicode_prop_ID_Continue1_index = [
    0xfa, 0x06, 0x00, 0x70, 0x09, 0x00, 0xf0, 0x0a, 0x40, 0x57, 0x0c, 0x00, 0xf0, 0x0d, 0x60, 0xc7,
    0x0f, 0x20, 0xea, 0x17, 0x40, 0xec, 0x1a, 0x00, 0x0e, 0x20, 0x40, 0x7e, 0xa6, 0x20, 0xda, 0xa9,
    0x20, 0x10, 0xfe, 0x40, 0x40, 0x0a, 0x41, 0xbb, 0x10, 0x21, 0x4e, 0x13, 0x41, 0xde, 0x15, 0x01,
    0xe5, 0x19, 0x01, 0x5a, 0x1d, 0x01, 0xf5, 0x6a, 0x21, 0x8c, 0xd1, 0x61, 0x37, 0xe1, 0x41, 0xf0,
    0x01, 0x0e]"

section \<open>The indexes fit\<close>

lemma White_Space_index_ok: "index_ok unicode_prop_White_Space_table unicode_prop_White_Space_index 1"
  by (rule index_check_ok) (simp add: index_check_def unicode_prop_White_Space_table_def
    unicode_prop_White_Space_index_def UNICODE_INDEX_BLOCK_LEN_def get_le24_def code_mask_def
    index_pass_byte del: index_pass.simps(1,2))

lemma Cased1_pass0: "
    index_pass [(36, 697), (66, 7840), (98, 42654), (129, 119893), (161, 120597)] (Cased1_part0 @
    p) 0 0 False 127370 = index_pass [] p 170 120714 True 127370"
  by (simp add: Cased1_part0_def index_pass_byte del: index_pass.simps(1,2))

lemma Cased1_pass1: "
    index_pass [] Cased1_part1 170 120714 True 127370 = True"
  by (simp add: Cased1_part1_def index_pass_byte del: index_pass.simps(1,2))

lemma Cased1_index_ok: "index_ok unicode_prop_Cased1_table unicode_prop_Cased1_index 6"
  by (rule index_check_ok) (simp add: index_check_def unicode_prop_Cased1_table_def
    unicode_prop_Cased1_index_def UNICODE_INDEX_BLOCK_LEN_def get_le24_def code_mask_def
    Cased1_pass0 Cased1_pass1 del: index_pass.simps)

lemma Case_Ignorable_pass0: "
    index_pass [(32, 1470), (64, 2046), (101, 2642), (128, 3009), (160, 3458), (196, 4159), (226,
    6100), (257, 6878), (288, 7401), (320, 8306), (354, 40982), (386, 43206), (421, 43714),
    (448, 65072), (482, 67505), (512, 69457), (544, 70096), (576, 70751), (611, 72004), (640,
    72872), (675, 90410), (704, 110591), (739, 122905), (768, 124672)] (Case_Ignorable_part0 @
    p) 0 0 False 918000 = index_pass [(196, 4159), (226, 6100), (257, 6878), (288, 7401), (320,
    8306), (354, 40982), (386, 43206), (421, 43714), (448, 65072), (482, 67505), (512, 69457),
    (544, 70096), (576, 70751), (611, 72004), (640, 72872), (675, 90410), (704, 110591), (739,
    122905), (768, 124672)] p 170 3761 True 918000"
  by (simp add: Case_Ignorable_part0_def index_pass_byte del: index_pass.simps(1,2))

lemma Case_Ignorable_pass1: "
    index_pass [(196, 4159), (226, 6100), (257, 6878), (288, 7401), (320, 8306), (354, 40982),
    (386, 43206), (421, 43714), (448, 65072), (482, 67505), (512, 69457), (544, 70096), (576,
    70751), (611, 72004), (640, 72872), (675, 90410), (704, 110591), (739, 122905), (768,
    124672)] (Case_Ignorable_part1 @ p) 170 3761 True 918000 = index_pass [(354, 40982), (386,
    43206), (421, 43714), (448, 65072), (482, 67505), (512, 69457), (544, 70096), (576, 70751),
    (611, 72004), (640, 72872), (675, 90410), (704, 110591), (739, 122905), (768, 124672)] p
    341 12293 True 918000"
  by (simp add: Case_Ignorable_part1_def index_pass_byte del: index_pass.simps(1,2))

lemma Case_Ignorable_pass2: "
    index_pass [(354, 40982), (386, 43206), (421, 43714), (448, 65072), (482, 67505), (512, 69457),
    (544, 70096), (576, 70751), (611, 72004), (640, 72872), (675, 90410), (704, 110591), (739,
    122905), (768, 124672)] (Case_Ignorable_part2 @ p) 341 12293 True 918000 = index_pass
    [(512, 69457), (544, 70096), (576, 70751), (611, 72004), (640, 72872), (675, 90410), (704,
    110591), (739, 122905), (768, 124672)] p 511 69446 True 918000"
  by (simp add: Case_Ignorable_part2_def index_pass_byte del: index_pass.simps(1,2))

lemma Case_Ignorable_pass3: "
    index_pass [(512, 69457), (544, 70096), (576, 70751), (611, 72004), (640, 72872), (675, 90410),
    (704, 110591), (739, 122905), (768, 124672)] (Case_Ignorable_part3 @ p) 511 69446 True
    918000 = index_pass [(704, 110591), (739, 122905), (768, 124672)] p 681 92983 False 918000"
  by (simp add: Case_Ignorable_part3_def index_pass_byte del: index_pass.simps(1,2))

lemma Case_Ignorable_pass4: "
    index_pass [(704, 110591), (739, 122905), (768, 124672)] Case_Ignorable_part4 681 92983 False
    918000 = True"
  by (simp add: Case_Ignorable_part4_def index_pass_byte del: index_pass.simps(1,2))

lemma Case_Ignorable_index_ok: "index_ok unicode_prop_Case_Ignorable_table unicode_prop_Case_Ignorable_index 25"
  by (rule index_check_ok) (simp add: index_check_def unicode_prop_Case_Ignorable_table_def
    unicode_prop_Case_Ignorable_index_def UNICODE_INDEX_BLOCK_LEN_def get_le24_def code_mask_def
    Case_Ignorable_pass0 Case_Ignorable_pass1 Case_Ignorable_pass2 Case_Ignorable_pass3 Case_Ignorable_pass4 del: index_pass.simps)

lemma ID_Start_pass0: "
    index_pass [(33, 1014), (64, 1958), (97, 2473), (128, 2737), (161, 3002), (193, 3387), (225,
    3783), (256, 4681), (288, 5787), (320, 6572), (356, 7616), (385, 8320), (416, 11632), (448,
    12800), (480, 43014), (512, 43639), (544, 55292), (578, 65277), (608, 66257), (641, 66994),
    (672, 67830), (704, 68681), (736, 69750), (769, 70367), (802, 70856), (833, 72002), (867,
    73009), (898, 77809), (928, 93048), (965, 110883), (992, 119981), (1024, 120687), (1056,
    124398), (1088, 126520), (1122, 173792)] (ID_Start_part0 @ p) 0 0 False 210042 = index_pass
    [(193, 3387), (225, 3783), (256, 4681), (288, 5787), (320, 6572), (356, 7616), (385, 8320),
    (416, 11632), (448, 12800), (480, 43014), (512, 43639), (544, 55292), (578, 65277), (608,
    66257), (641, 66994), (672, 67830), (704, 68681), (736, 69750), (769, 70367), (802, 70856),
    (833, 72002), (867, 73009), (898, 77809), (928, 93048), (965, 110883), (992, 119981),
    (1024, 120687), (1056, 124398), (1088, 126520), (1122, 173792)] p 170 3134 False 210042"
  by (simp add: ID_Start_part0_def index_pass_byte del: index_pass.simps(1,2))

lemma ID_Start_pass1: "
    index_pass [(193, 3387), (225, 3783), (256, 4681), (288, 5787), (320, 6572), (356, 7616), (385,
    8320), (416, 11632), (448, 12800), (480, 43014), (512, 43639), (544, 55292), (578, 65277),
    (608, 66257), (641, 66994), (672, 67830), (704, 68681), (736, 69750), (769, 70367), (802,
    70856), (833, 72002), (867, 73009), (898, 77809), (928, 93048), (965, 110883), (992,
    119981), (1024, 120687), (1056, 124398), (1088, 126520), (1122, 173792)] (ID_Start_part1 @
    p) 170 3134 False 210042 = index_pass [(356, 7616), (385, 8320), (416, 11632), (448,
    12800), (480, 43014), (512, 43639), (544, 55292), (578, 65277), (608, 66257), (641, 66994),
    (672, 67830), (704, 68681), (736, 69750), (769, 70367), (802, 70856), (833, 72002), (867,
    73009), (898, 77809), (928, 93048), (965, 110883), (992, 119981), (1024, 120687), (1056,
    124398), (1088, 126520), (1122, 173792)] p 340 7204 False 210042"
  by (simp add: ID_Start_part1_def index_pass_byte del: index_pass.simps(1,2))

lemma ID_Start_pass2: "
    index_pass [(356, 7616), (385, 8320), (416, 11632), (448, 12800), (480, 43014), (512, 43639),
    (544, 55292), (578, 65277), (608, 66257), (641, 66994), (672, 67830), (704, 68681), (736,
    69750), (769, 70367), (802, 70856), (833, 72002), (867, 73009), (898, 77809), (928, 93048),
    (965, 110883), (992, 119981), (1024, 120687), (1056, 124398), (1088, 126520), (1122,
    173792)] (ID_Start_part2 @ p) 340 7204 False 210042 = index_pass [(512, 43639), (544,
    55292), (578, 65277), (608, 66257), (641, 66994), (672, 67830), (704, 68681), (736, 69750),
    (769, 70367), (802, 70856), (833, 72002), (867, 73009), (898, 77809), (928, 93048), (965,
    110883), (992, 119981), (1024, 120687), (1056, 124398), (1088, 126520), (1122, 173792)] p
    510 43596 False 210042"
  by (simp add: ID_Start_part2_def index_pass_byte del: index_pass.simps(1,2))

lemma ID_Start_pass3: "
    index_pass [(512, 43639), (544, 55292), (578, 65277), (608, 66257), (641, 66994), (672, 67830),
    (704, 68681), (736, 69750), (769, 70367), (802, 70856), (833, 72002), (867, 73009), (898,
    77809), (928, 93048), (965, 110883), (992, 119981), (1024, 120687), (1056, 124398), (1088,
    126520), (1122, 173792)] (ID_Start_part3 @ p) 510 43596 False 210042 = index_pass [(704,
    68681), (736, 69750), (769, 70367), (802, 70856), (833, 72002), (867, 73009), (898, 77809),
    (928, 93048), (965, 110883), (992, 119981), (1024, 120687), (1056, 124398), (1088, 126520),
    (1122, 173792)] p 680 68024 False 210042"
  by (simp add: ID_Start_part3_def index_pass_byte del: index_pass.simps(1,2))

lemma ID_Start_pass4: "
    index_pass [(704, 68681), (736, 69750), (769, 70367), (802, 70856), (833, 72002), (867, 73009),
    (898, 77809), (928, 93048), (965, 110883), (992, 119981), (1024, 120687), (1056, 124398),
    (1088, 126520), (1122, 173792)] (ID_Start_part4 @ p) 680 68024 False 210042 = index_pass
    [(867, 73009), (898, 77809), (928, 93048), (965, 110883), (992, 119981), (1024, 120687),
    (1056, 124398), (1088, 126520), (1122, 173792)] p 850 72350 False 210042"
  by (simp add: ID_Start_part4_def index_pass_byte del: index_pass.simps(1,2))

lemma ID_Start_pass5: "
    index_pass [(867, 73009), (898, 77809), (928, 93048), (965, 110883), (992, 119981), (1024,
    120687), (1056, 124398), (1088, 126520), (1122, 173792)] (ID_Start_part5 @ p) 850 72350
    False 210042 = index_pass [(1024, 120687), (1056, 124398), (1088, 126520), (1122, 173792)]
    p 1020 120629 False 210042"
  by (simp add: ID_Start_part5_def index_pass_byte del: index_pass.simps(1,2))

lemma ID_Start_pass6: "
    index_pass [(1024, 120687), (1056, 124398), (1088, 126520), (1122, 173792)] ID_Start_part6 1020
    120629 False 210042 = True"
  by (simp add: ID_Start_part6_def index_pass_byte del: index_pass.simps(1,2))

lemma ID_Start_index_ok: "index_ok unicode_prop_ID_Start_table unicode_prop_ID_Start_index 36"
  by (rule index_check_ok) (simp add: index_check_def unicode_prop_ID_Start_table_def
    unicode_prop_ID_Start_index_def UNICODE_INDEX_BLOCK_LEN_def get_le24_def code_mask_def
    ID_Start_pass0 ID_Start_pass1 ID_Start_pass2 ID_Start_pass3 ID_Start_pass4 ID_Start_pass5 ID_Start_pass6 del: index_pass.simps)

lemma ID_Continue1_pass0: "
    index_pass [(32, 1786), (64, 2416), (98, 2800), (128, 3159), (163, 3568), (193, 4039), (226,
    6122), (256, 6892), (290, 8206), (321, 42622), (353, 43482), (386, 65040), (418, 68160),
    (449, 69819), (482, 70478), (512, 71134), (544, 72165), (576, 73050), (609, 92917), (643,
    119180), (674, 123191)] (ID_Continue1_part0 @ p) 0 0 False 918000 = index_pass [(193,
    4039), (226, 6122), (256, 6892), (290, 8206), (321, 42622), (353, 43482), (386, 65040),
    (418, 68160), (449, 69819), (482, 70478), (512, 71134), (544, 72165), (576, 73050), (609,
    92917), (643, 119180), (674, 123191)] p 170 3674 False 918000"
  by (simp add: ID_Continue1_part0_def index_pass_byte del: index_pass.simps(1,2))

lemma ID_Continue1_pass1: "
    index_pass [(193, 4039), (226, 6122), (256, 6892), (290, 8206), (321, 42622), (353, 43482),
    (386, 65040), (418, 68160), (449, 69819), (482, 70478), (512, 71134), (544, 72165), (576,
    73050), (609, 92917), (643, 119180), (674, 123191)] (ID_Continue1_part1 @ p) 170 3674 False
    918000 = index_pass [(353, 43482), (386, 65040), (418, 68160), (449, 69819), (482, 70478),
    (512, 71134), (544, 72165), (576, 73050), (609, 92917), (643, 119180), (674, 123191)] p 340
    43232 True 918000"
  by (simp add: ID_Continue1_part1_def index_pass_byte del: index_pass.simps(1,2))

lemma ID_Continue1_pass2: "
    index_pass [(353, 43482), (386, 65040), (418, 68160), (449, 69819), (482, 70478), (512, 71134),
    (544, 72165), (576, 73050), (609, 92917), (643, 119180), (674, 123191)] (ID_Continue1_part2
    @ p) 340 43232 True 918000 = index_pass [(512, 71134), (544, 72165), (576, 73050), (609,
    92917), (643, 119180), (674, 123191)] p 510 71105 False 918000"
  by (simp add: ID_Continue1_part2_def index_pass_byte del: index_pass.simps(1,2))

lemma ID_Continue1_pass3: "
    index_pass [(512, 71134), (544, 72165), (576, 73050), (609, 92917), (643, 119180), (674,
    123191)] (ID_Continue1_part3 @ p) 510 71105 False 918000 = index_pass [] p 680 123628 True
    918000"
  by (simp add: ID_Continue1_part3_def index_pass_byte del: index_pass.simps(1,2))

lemma ID_Continue1_pass4: "
    index_pass [] ID_Continue1_part4 680 123628 True 918000 = True"
  by (simp add: ID_Continue1_part4_def index_pass_byte del: index_pass.simps(1,2))

lemma ID_Continue1_index_ok: "index_ok unicode_prop_ID_Continue1_table unicode_prop_ID_Continue1_index 22"
  by (rule index_check_ok) (simp add: index_check_def unicode_prop_ID_Continue1_table_def
    unicode_prop_ID_Continue1_index_def UNICODE_INDEX_BLOCK_LEN_def get_le24_def code_mask_def
    ID_Continue1_pass0 ID_Continue1_pass1 ID_Continue1_pass2 ID_Continue1_pass3 ID_Continue1_pass4 del: index_pass.simps)

section \<open>Character classes\<close>

definition lre_is_case_ignorable :: "u32 \<Rightarrow> bool option" where
  "lre_is_case_ignorable c = lre_is_in_table c unicode_prop_Case_Ignorable_table
     unicode_prop_Case_Ignorable_index (length unicode_prop_Case_Ignorable_index div 3)"

definition lre_is_id_start :: "u32 \<Rightarrow> bool option" where
  "lre_is_id_start c = lre_is_in_table c unicode_prop_ID_Start_table
     unicode_prop_ID_Start_index (length unicode_prop_ID_Start_index div 3)"

definition lre_is_id_continue :: "u32 \<Rightarrow> bool option" where
  "lre_is_id_continue c =
     (case lre_is_id_start c of
        None \<Rightarrow> None
      | Some b \<Rightarrow> if b then Some True
          else lre_is_in_table c unicode_prop_ID_Continue1_table
            unicode_prop_ID_Continue1_index (length unicode_prop_ID_Continue1_index div 3))"

definition lre_is_white_space :: "u32 \<Rightarrow> bool option" where
  "lre_is_white_space c = lre_is_in_table c unicode_prop_White_Space_table
     unicode_prop_White_Space_index (length unicode_prop_White_Space_index div 3)"

lemmas index_lengths = unicode_prop_Case_Ignorable_index_def unicode_prop_ID_Start_index_def
  unicode_prop_ID_Continue1_index_def unicode_prop_White_Space_index_def unicode_prop_Cased1_index_def

lemma index_ok_runs: "index_ok t x n \<Longrightarrow> \<exists>ts. runs t = Some ts \<and> sum_list ts < 2097152"
  by (auto simp: index_ok_def split: option.splits)

text \<open>What \<open>unicode_prop1\<close> adds to a range is the set the lookup decides.\<close>

lemma lookup_agrees:
  assumes "index_ok table index_table n"
  shows "\<exists>r. unicode_prop1 m cr_init table = Some r \<and>
    cr_returns m r (\<lambda>xs. normal xs \<and> (\<forall>c. lre_is_in_table c table index_table n = Some (c \<in> chars xs)))"
proof -
  from index_ok_runs[OF assms] obtain ts where ts: "runs table = Some ts" "sum_list ts < 2097152" by blast
  have "cr_wf cr_init" by (simp add: cr_init_def cr_wf_def)
  from prop_loop_points[OF ts(1) _ this, of 0 m False] ts(2) obtain r where
    r: "unicode_prop1 m cr_init table = Some r"
      "cr_returns m r (\<lambda>xs. xs = run_points ts 0 False)"
    by (auto simp: unicode_prop1_def cr_list_def cr_init_def)
  have "normal (run_points ts 0 False)"
    using run_points_normal[of ts 0 False] runs_pos[OF ts(1)] ts(2) by simp
  with r lre_is_in_table_chars[OF assms ts(1)] show ?thesis
    by (intro exI[of _ r] conjI) (auto intro: cr_returns_mono)
qed

lemma white_space_chars:
  "lre_is_white_space c = Some (c \<in> {0x9..<0xE} \<union> {0x20..<0x21} \<union> {0x85..<0x86} \<union> {0xA0..<0xA1}
    \<union> {0x1680..<0x1681} \<union> {0x2000..<0x200B} \<union> {0x2028..<0x202A} \<union> {0x202F..<0x2030}
    \<union> {0x205F..<0x2060} \<union> {0x3000..<0x3001})"
proof -
  have "runs unicode_prop_White_Space_table = Some [9, 5, 18, 1, 100, 1, 26, 1, 5599, 1, 2431, 11, 29, 2, 5, 1, 47, 1, 4000, 1]"
    by (simp add: unicode_prop_White_Space_table_def runs.simps)
  from lre_is_in_table_chars[OF White_Space_index_ok this, of c] show ?thesis
    by (simp add: lre_is_white_space_def index_lengths Un_assoc)
qed

section \<open>Properties\<close>

text \<open>
  \<^bold>\<open>C25.\<close> For the tables of the release, the indexed lookups behind identifier scanning never read past their
  table and decide the very sets that expanding the tables with \<open>unicode_prop1\<close> gives:
  \<open>lre_is_id_start\<close> that of \<open>ID_Start\<close>, \<open>lre_is_id_continue\<close> its union with \<open>ID_Continue1\<close>.
\<close>

theorem lre_is_id_lookup:
  "\<exists>rs rc. unicode_prop1 m cr_init unicode_prop_ID_Start_table = Some rs \<and>
    unicode_prop1 m cr_init unicode_prop_ID_Continue1_table = Some rc \<and>
    cr_returns m rs (\<lambda>xs. \<forall>c. lre_is_id_start c = Some (c \<in> chars xs)) \<and>
    (fst rs = 0 \<longrightarrow> cr_returns m rc
      (\<lambda>ys. \<forall>c. lre_is_id_continue c = Some (c \<in> chars (cr_list (snd rs)) \<union> chars ys)))"
proof -
  have l: "length unicode_prop_ID_Start_index div 3 = 36" "length unicode_prop_ID_Continue1_index div 3 = 22"
    by (simp_all add: index_lengths)
  from lookup_agrees[OF ID_Start_index_ok, of m] obtain rs where
    rs: "unicode_prop1 m cr_init unicode_prop_ID_Start_table = Some rs"
      "cr_returns m rs (\<lambda>xs. \<forall>c. lre_is_id_start c = Some (c \<in> chars xs))"
    unfolding lre_is_id_start_def l by (auto intro: cr_returns_mono)
  from lookup_agrees[OF ID_Continue1_index_ok, of m] obtain rc where
    rc: "unicode_prop1 m cr_init unicode_prop_ID_Continue1_table = Some rc"
      "cr_returns m rc (\<lambda>xs. \<forall>c. lre_is_in_table c unicode_prop_ID_Continue1_table
        unicode_prop_ID_Continue1_index 22 = Some (c \<in> chars xs))"
    by (auto intro: cr_returns_mono)
  have "cr_returns m rc (\<lambda>ys. \<forall>c. lre_is_id_continue c = Some (c \<in> chars (cr_list (snd rs)) \<union> chars ys))"
    if "fst rs = 0"
    using rc(2)
  proof (rule cr_returns_mono, intro allI)
    fix ys c assume "\<forall>c. lre_is_in_table c unicode_prop_ID_Continue1_table
        unicode_prop_ID_Continue1_index 22 = Some (c \<in> chars ys)"
    moreover have "lre_is_id_start c = Some (c \<in> chars (cr_list (snd rs)))"
      using rs(2) that by (simp add: cr_returns_def)
    ultimately show "lre_is_id_continue c = Some (c \<in> chars (cr_list (snd rs)) \<union> chars ys)"
      by (simp add: lre_is_id_continue_def l)
  qed
  with rs rc(1) show ?thesis by blast
qed

theorem lre_is_id_lookup_witness:
  "\<exists>rs. unicode_prop1 mem0 cr_init unicode_prop_ID_Start_table = Some rs \<and> fst rs = 0 \<and>
    (\<forall>c. lre_is_id_start c = Some (c \<in> chars (cr_list (snd rs))))"
proof -
  from lre_is_id_lookup[of mem0] obtain rs where
    rs: "unicode_prop1 mem0 cr_init unicode_prop_ID_Start_table = Some rs"
      "cr_returns mem0 rs (\<lambda>xs. \<forall>c. lre_is_id_start c = Some (c \<in> chars xs))" by blast
  then have "fst rs = 0" by (auto simp: cr_returns_def mem0_def split: if_splits)
  with rs show ?thesis by (auto simp: cr_returns_def)
qed

text \<open>
  \<^bold>\<open>C26.\<close> \<open>lre_is_white_space\<close> always answers, and holds of exactly the characters with the Unicode property
  \<open>White_Space\<close>.
\<close>

theorem lre_is_white_space_set:
  "lre_is_white_space c = Some (c \<in> {0x9..<0xE} \<union> {0x20..<0x21} \<union> {0x85..<0x86} \<union> {0xA0..<0xA1}
    \<union> {0x1680..<0x1681} \<union> {0x2000..<0x200B} \<union> {0x2028..<0x202A} \<union> {0x202F..<0x2030}
    \<union> {0x205F..<0x2060} \<union> {0x3000..<0x3001})"
  by (rule white_space_chars)

end
