(* ===== verification/Lre_Chars.thy ===== *)
theory Lre_Chars
  imports Uni_Data
begin

text \<open>
  The character tests \<open>libregexp.c\<close> and \<open>libregexp.h\<close> build on \<open>libunicode\<close>: white space, the class
  escapes of regular expressions (\<open>cr_init_char_range\<close>) and the identifier tests of the tokenizer
  with their ASCII bit tables. \<open>None\<close> is again a read past the end of a table.
\<close>


section \<open>Fixed classes\<close>

definition lre_is_digit :: "int \<Rightarrow> bool" where
  "lre_is_digit c \<longleftrightarrow> c \<ge> 48 \<and> c \<le> 57"

definition char_range_d :: "u16 list" where
  "char_range_d = [1, 0x0030, 0x0039 + 1]"

definition char_range_s :: "u16 list" where
  "char_range_s = [
    10,
    0x0009, 0x000D + 1,
    0x0020, 0x0020 + 1,
    0x00A0, 0x00A0 + 1,
    0x1680, 0x1680 + 1,
    0x2000, 0x200A + 1,
    0x2028, 0x2029 + 1,
    0x202F, 0x202F + 1,
    0x205F, 0x205F + 1,
    0x3000, 0x3000 + 1,
    0xFEFF, 0xFEFF + 1]"

definition char_range_w :: "u16 list" where
  "char_range_w = [
    4,
    0x0030, 0x0039 + 1,
    0x0041, 0x005A + 1,
    0x005F, 0x005F + 1,
    0x0061, 0x007A + 1]"

fun space_loop :: "u16 list \<Rightarrow> int \<Rightarrow> bool" where
  "space_loop (low # high # r) c =
     (if c < uint low then False else if c < uint high then True else space_loop r c)"
| "space_loop _ c = False"

definition lre_is_space :: "int \<Rightarrow> bool" where
  "lre_is_space c = space_loop (tl char_range_s) c"

definition char_range_table :: "u16 list list" where
  "char_range_table = [char_range_d, char_range_s, char_range_w]"

text \<open>The loop adds \<open>len * 2\<close> points; \<open>c_pt\<close> is the rest of the array.\<close>

fun add_points :: "cr_mem \<Rightarrow> char_range \<Rightarrow> u16 list \<Rightarrow> cr_result" where
  "add_points m cr (v # c_pt) = or_fail (cr_add_point m cr (ucast v)) (\<lambda>cr. add_points m cr c_pt)"
| "add_points m cr [] = (0, cr)"

definition cr_init_char_range :: "cr_mem \<Rightarrow> nat \<Rightarrow> cr_result" where
  "cr_init_char_range m c =
     (let invert = odd c; c_pt = char_range_table ! (c div 2); len = unat (hd c_pt)
      in or_fail (add_points m cr_init (take (len * 2) (tl c_pt)))
           (\<lambda>cr. if invert then cr_invert m cr else (0, cr)))"

section \<open>Identifiers\<close>

definition lre_id_start_table_ascii :: "u32 list" where
  "lre_id_start_table_ascii = [0x00000000, 0x00000010, 0x87FFFFFE, 0x07FFFFFE]"

definition lre_id_continue_table_ascii :: "u32 list" where
  "lre_id_continue_table_ascii = [0x00000000, 0x03FF0010, 0x87FFFFFE, 0x07FFFFFE]"

definition ascii_bit :: "u32 list \<Rightarrow> u32 \<Rightarrow> bool" where
  "ascii_bit table c = (drop_bit (unat (c AND 31)) (table ! unat (drop_bit 5 c)) AND 1 \<noteq> 0)"

definition lre_js_is_ident_first :: "u32 \<Rightarrow> bool option" where
  "lre_js_is_ident_first c =
     (if c < 128 then Some (ascii_bit lre_id_start_table_ascii c) else lre_is_id_start c)"

definition lre_js_is_ident_next :: "u32 \<Rightarrow> bool option" where
  "lre_js_is_ident_next c =
     (if c < 128 then Some (ascii_bit lre_id_continue_table_ascii c)
      else map_option (\<lambda>b. b \<or> c = 0x200C \<or> c = 0x200D) (lre_is_id_continue c))"

lemma space_sets:
  "lre_is_space (uint c) \<longleftrightarrow> (lre_is_white_space c = Some True \<and> c \<noteq> 0x85) \<or> c = (0xFEFF :: u32)"
  unfolding white_space_chars lre_is_space_def char_range_s_def
  by (simp add: word_le_def word_less_def word_uint_eq_iff)

text \<open>The ASCII tables repeat the start of the Unicode tables, with \<open>$\<close> and \<open>_\<close> added.\<close>

lemma ascii_cases:
  assumes "c < (128 :: u32)" and "\<forall>n \<in> set [0..<128]. P (word_of_nat n)"
  shows "P c"
proof -
  have "unat c \<in> set [0..<128]" using assms(1) by (simp add: word_less_nat_alt)
  then show ?thesis using assms(2) by fastforce
qed

lemma ascii_first:
  "c < 128 \<Longrightarrow> ascii_bit lre_id_start_table_ascii c =
    (c = 0x24 \<or> c = 0x5F \<or> at_run [65, 26, 6, 26, 47] (unat c) False = Some True)"
  by (erule ascii_cases) code_simp

lemma ascii_next:
  "c < 128 \<Longrightarrow> ascii_bit lre_id_continue_table_ascii c =
    (c = 0x24 \<or> at_run [65, 26, 6, 26, 47] (unat c) False = Some True
      \<or> at_run [48, 10, 37, 1, 87] (unat c) False = Some True)"
  by (erule ascii_cases) code_simp

lemma at_run_prefix: "c < sum_list ts \<Longrightarrow> at_run (ts @ us) c bt = at_run ts c bt"
  by (induction ts arbitrary: c bt) auto

lemma table_prefix:
  assumes "index_ok (pre @ rest) x n" and "runs pre = Some ts" and "unat c < sum_list ts"
  shows "lre_is_in_table c (pre @ rest) x n = Some (at_run ts (unat c) False = Some True)"
proof -
  from index_ok_runs[OF assms(1)] obtain all where all: "runs (pre @ rest) = Some all" "sum_list all < 2097152"
    by blast
  then obtain us where us: "all = ts @ us"
    using runs_append[OF assms(2), of rest] by (cases "runs rest") auto
  have "(c \<in> chars (run_points all 0 False)) = (at_run all (unat c) False = Some True)"
    using at_run_chars[of all 0 c False] runs_pos[OF all(1)] all(2) by simp
  then show ?thesis
    using lre_is_in_table_chars[OF assms(1) all(1), of c] at_run_prefix[OF assms(3), of us False] by (simp add: us)
qed

lemma id_table_heads:
  "\<exists>rest. unicode_prop_ID_Start_table = [0xC0, 0x99, 0x85, 0x99, 0xAE] @ rest"
  "\<exists>rest. unicode_prop_ID_Continue1_table = [0xAF, 0x89, 0xA4, 0x80, 0xD6] @ rest"
  by (simp_all add: unicode_prop_ID_Start_table_def unicode_prop_ID_Continue1_table_def
      ID_Start_part0_def ID_Continue1_part0_def)

lemma id_start_ascii:
  assumes "c < 128"
  shows "lre_is_id_start c = Some (at_run [65, 26, 6, 26, 47] (unat c) False = Some True)"
proof -
  obtain rest where e: "unicode_prop_ID_Start_table = [0xC0, 0x99, 0x85, 0x99, 0xAE] @ rest"
    using id_table_heads(1) by blast
  have r: "runs [0xC0, 0x99, 0x85, 0x99, 0xAE] = Some [65, 26, 6, 26, 47]" by (simp add: runs.simps)
  have "unat c < 128" using assms by (simp add: word_less_nat_alt)
  then have "unat c < sum_list [65, 26, 6, 26, 47 :: nat]" by simp
  from table_prefix[OF ID_Start_index_ok[unfolded e] r this, folded e] show ?thesis
    by (simp add: lre_is_id_start_def index_lengths)
qed

lemma id_continue1_ascii:
  assumes "c < 128"
  shows "lre_is_in_table c unicode_prop_ID_Continue1_table unicode_prop_ID_Continue1_index 22
    = Some (at_run [48, 10, 37, 1, 87] (unat c) False = Some True)"
proof -
  obtain rest where e: "unicode_prop_ID_Continue1_table = [0xAF, 0x89, 0xA4, 0x80, 0xD6] @ rest"
    using id_table_heads(2) by blast
  have r: "runs [0xAF, 0x89, 0xA4, 0x80, 0xD6] = Some [48, 10, 37, 1, 87]" by (simp add: runs.simps)
  have "unat c < 128" using assms by (simp add: word_less_nat_alt)
  then have "unat c < sum_list [48, 10, 37, 1, 87 :: nat]" by simp
  from table_prefix[OF ID_Continue1_index_ok[unfolded e] r this, folded e] show ?thesis .
qed

lemma add_points_returns:
  "cr_wf cr \<Longrightarrow> cr_returns m (add_points m cr vs) (\<lambda>xs. xs = cr_list cr @ map ucast vs)"
proof (induction m cr vs rule: add_points.induct)
  case (1 m cr v c_pt)
  show ?case
    unfolding add_points.simps
    by (rule or_fail_returns[OF cr_add_point_returns[OF 1(2)]], drule 1(1))
      (auto intro: cr_returns_mono)
qed simp

lemma in_table_answers: "index_ok table x n \<Longrightarrow> \<exists>b. lre_is_in_table c table x n = Some b"
  using index_ok_runs lre_is_in_table_chars by blast

lemma class_points:
  "unat (hd char_range_d) * 2 = length (tl char_range_d)" "unat (hd char_range_s) * 2 = length (tl char_range_s)"
  "unat (hd char_range_w) * 2 = length (tl char_range_w)"
  by (simp_all add: char_range_d_def char_range_s_def char_range_w_def)

lemma class_chars:
  "normal (map ucast (tl char_range_d))" "normal (map ucast (tl char_range_s))" "normal (map ucast (tl char_range_w))"
  "x \<in> chars (map ucast (tl char_range_d)) \<longleftrightarrow> lre_is_digit (uint x)"
  "x \<in> chars (map ucast (tl char_range_s)) \<longleftrightarrow> lre_is_space (uint x)"
  "x \<in> chars (map ucast (tl char_range_w)) \<longleftrightarrow>
    lre_is_digit (uint x) \<or> x \<in> {65..90} \<or> x = 95 \<or> x \<in> {97..122}"
proof -
  note defs = char_range_d_def char_range_s_def char_range_w_def lre_is_digit_def lre_is_space_def
    word_le_def word_less_def word_uint_eq_iff normal_def
  show "normal (map ucast (tl char_range_d))" "normal (map ucast (tl char_range_s))" "normal (map ucast (tl char_range_w))"
    by (simp_all add: defs)
  show "x \<in> chars (map ucast (tl char_range_d)) \<longleftrightarrow> lre_is_digit (uint x)" by (simp add: defs) arith
  show "x \<in> chars (map ucast (tl char_range_s)) \<longleftrightarrow> lre_is_space (uint x)" by (simp add: defs)
  show "x \<in> chars (map ucast (tl char_range_w)) \<longleftrightarrow>
    lre_is_digit (uint x) \<or> x \<in> {65..90} \<or> x = 95 \<or> x \<in> {97..122}" by (simp add: defs) arith
qed

section \<open>Properties\<close>

text \<open>
  \<^bold>\<open>C27.\<close> The two notions of white space agree: \<open>lre_is_space\<close>, with its own sorted ranges, is the Unicode
  property of \<open>lre_is_white_space\<close> without U+0085 and with the byte order mark.
\<close>

theorem lre_is_space_agrees:
  "lre_is_space (uint c) \<longleftrightarrow> (lre_is_white_space c = Some True \<and> c \<noteq> 0x85) \<or> c = (0xFEFF :: u32)"
  by (rule space_sets)

text \<open>
  \<^bold>\<open>C28.\<close> The ASCII bit tables of the identifier tests are a faithful shortcut: for every character the tests
  answer what the Unicode tables say, extended with \<open>$\<close> and \<open>_\<close>, and for the following characters with
  \<open>$\<close> and the two joiners.
\<close>

theorem lre_js_ident_agrees:
  "lre_js_is_ident_first c = map_option (\<lambda>b. b \<or> c = 0x24 \<or> c = 0x5F) (lre_is_id_start c) \<and>
   lre_js_is_ident_next c = map_option (\<lambda>b. b \<or> c = 0x24 \<or> c = 0x200C \<or> c = 0x200D) (lre_is_id_continue c) \<and>
   lre_is_id_start c \<noteq> None \<and> lre_is_id_continue c \<noteq> None"
proof -
  have l: "length unicode_prop_ID_Start_index div 3 = 36" "length unicode_prop_ID_Continue1_index div 3 = 22"
    by (simp_all add: index_lengths)
  have some: "lre_is_id_start c \<noteq> None" "lre_is_id_continue c \<noteq> None"
    using in_table_answers[OF ID_Start_index_ok, of c] in_table_answers[OF ID_Continue1_index_ok, of c]
    by (auto simp: lre_is_id_start_def lre_is_id_continue_def l)
  show ?thesis
  proof (cases "c < 128")
    case True
    have far: "c \<noteq> 0x200C" "c \<noteq> 0x200D" using True by (auto simp: word_less_nat_alt)
    show ?thesis
      using some True id_start_ascii[OF True] id_continue1_ascii[OF True] ascii_first[OF True] ascii_next[OF True] far
      by (simp del: at_run.simps add: lre_js_is_ident_first_def lre_js_is_ident_next_def lre_is_id_continue_def l disj_ac)
  next
    case False
    have "c \<noteq> 0x24" "c \<noteq> 0x5F" using False by (auto simp: word_less_nat_alt)
    then show ?thesis using some False
      by (auto simp: lre_js_is_ident_first_def lre_js_is_ident_next_def option.map_ident)
  qed
qed

text \<open>
  \<^bold>\<open>C29.\<close> The class escapes of regular expressions: \<open>cr_init_char_range\<close> builds the digits, the white space of
  \<open>lre_is_space\<close> and the word characters, and for the upper case escapes their complements.
\<close>

theorem cr_init_char_range_classes:
  assumes "c < 6"
  shows "cr_returns m (cr_init_char_range m c) (\<lambda>xs. normal xs \<and> (\<forall>x. x \<noteq> - 1 \<longrightarrow>
    (x \<in> chars xs \<longleftrightarrow> odd c \<noteq>
      (if c div 2 = 0 then lre_is_digit (uint x) else if c div 2 = 1 then lre_is_space (uint x)
       else lre_is_digit (uint x) \<or> x \<in> {65..90} \<or> x = 95 \<or> x \<in> {97..122}))))"
proof -
  define tab where "tab = char_range_table ! (c div 2)"
  define pts where "pts = (map ucast (take (unat (hd tab) * 2) (tl tab)) :: u32 list)"
  have "c div 2 = 0 \<or> c div 2 = 1 \<or> c div 2 = 2" using assms by auto
  then have pts: "normal pts \<and> (\<forall>x. x \<in> chars pts \<longleftrightarrow>
      (if c div 2 = 0 then lre_is_digit (uint x) else if c div 2 = 1 then lre_is_space (uint x)
       else lre_is_digit (uint x) \<or> x \<in> {65..90} \<or> x = 95 \<or> x \<in> {97..122}))"
    by (elim disjE) (simp_all add: pts_def tab_def char_range_table_def class_points class_chars)
  have wf: "cr_wf cr_init" "cr_list cr_init = []" by (simp_all add: cr_init_def cr_wf_def cr_list_def)
  show ?thesis
    unfolding cr_init_char_range_def Let_def tab_def[symmetric]
  proof (rule or_fail_returns[OF add_points_returns[OF wf(1)]])
    fix cr assume cr: "cr_wf cr" "cr_list cr = cr_list cr_init @ map ucast (take (unat (hd tab) * 2) (tl tab))"
    then have l: "cr_list cr = pts" by (simp add: wf(2) pts_def)
    show "cr_returns m (if odd c then cr_invert m cr else (0, cr)) (\<lambda>xs. normal xs \<and> (\<forall>x. x \<noteq> - 1 \<longrightarrow>
      (x \<in> chars xs \<longleftrightarrow> odd c \<noteq>
        (if c div 2 = 0 then lre_is_digit (uint x) else if c div 2 = 1 then lre_is_space (uint x)
         else lre_is_digit (uint x) \<or> x \<in> {65..90} \<or> x = 95 \<or> x \<in> {97..122}))))"
    proof (cases "odd c")
      case True
      have "normal (cr_list cr)" using pts l by simp
      from cr_invert_chars[OF cr(1) this, of m] show ?thesis
        unfolding if_P[OF True] l by (rule cr_returns_mono) (use True pts in auto)
    next
      case False
      then show ?thesis using cr(1) pts l by simp
    qed
  qed
qed

theorem cr_init_char_range_classes_witness:
  "cr_returns mem0 (cr_init_char_range mem0 5) (\<lambda>xs. normal xs \<and> (\<forall>x. x \<noteq> - 1 \<longrightarrow>
    (x \<in> chars xs \<longleftrightarrow> \<not> (lre_is_digit (uint x) \<or> x \<in> {65..90} \<or> x = 95 \<or> x \<in> {97..122}))))"
  using cr_init_char_range_classes[of 5 mem0] by simp


end
