(* ===== verification/Sort.thy ===== *)
theory Sort
  imports Qjs_Prelude "HOL-Library.Monad_Syntax" "HOL-Library.Multiset"
begin

text \<open>
  The sorting routines of \<open>cutils.h\<close>: \<open>heapsortx\<close> and the three-way quicksort \<open>rqsort\<close> with its explicit stack,
  its depth limit and its insertion sort for short segments. An array is a list of elements, a
  pointer \<open>ptr + i * size\<close> into a segment is the index \<open>i\<close> of the segment. Every comparison, exchange and
  stack push checks its bounds and gives \<open>None\<close> outside of them, so that a result \<open>Some\<close> means that
  the C code stayed inside its array and its stack.
\<close>

section \<open>Accesses\<close>

type_synonym 'a cmp_f = "'a \<Rightarrow> 'a \<Rightarrow> int"

definition cmp_at :: "'a cmp_f \<Rightarrow> 'a list \<Rightarrow> nat \<Rightarrow> nat \<Rightarrow> int option" where
  "cmp_at cmp xs i j = (if i < length xs \<and> j < length xs then Some (cmp (xs ! i) (xs ! j)) else None)"

definition swap :: "'a list \<Rightarrow> nat \<Rightarrow> nat \<Rightarrow> 'a list option" where
  "swap xs i j =
     (if i < length xs \<and> j < length xs then Some (xs[i := xs ! j, j := xs ! i]) else None)"

text \<open>\<open>swap_block\<close> exchanges the \<open>n\<close> elements from \<open>i\<close> on with those from \<open>j\<close> on, one after the other.\<close>

fun swap_block :: "'a list \<Rightarrow> nat \<Rightarrow> nat \<Rightarrow> nat \<Rightarrow> 'a list option" where
  "swap_block xs i j 0 = Some xs"
| "swap_block xs i j (Suc n) = do { xs \<leftarrow> swap xs i j; swap_block xs (i + 1) (j + 1) n }"

section \<open>Heap sort\<close>

text \<open>The inner loop: \<open>r\<close> sinks until both its children below \<open>n\<close> are not above it.\<close>

function sink :: "'a cmp_f \<Rightarrow> 'a list \<Rightarrow> nat \<Rightarrow> nat \<Rightarrow> 'a list option" where
  "sink cmp xs r n =
     (let c = r * 2 + 1
      in if c < n then do {
           right \<leftarrow> (if c < n - 1 then map_option (\<lambda>d. d \<le> 0) (cmp_at cmp xs c (c + 1)) else Some False);
           let c = (if right then c + 1 else c);
           d \<leftarrow> cmp_at cmp xs r c;
           if d > 0 then Some xs else do { xs \<leftarrow> swap xs r c; sink cmp xs c n }
         }
         else Some xs)"
  by auto
termination by (relation "measure (\<lambda>(cmp, xs, r, n). n - r)") (auto split: if_splits)

declare sink.simps [simp del]

fun build_heap :: "'a cmp_f \<Rightarrow> 'a list \<Rightarrow> nat \<Rightarrow> nat \<Rightarrow> 'a list option" where
  "build_heap cmp xs 0 n = Some xs"
| "build_heap cmp xs (Suc i) n = do { xs \<leftarrow> sink cmp xs i n; build_heap cmp xs i n }"

fun extract_max :: "'a cmp_f \<Rightarrow> 'a list \<Rightarrow> nat \<Rightarrow> 'a list option" where
  "extract_max cmp xs 0 = Some xs"
| "extract_max cmp xs (Suc i) = do {
     xs \<leftarrow> swap xs 0 (Suc i); xs \<leftarrow> sink cmp xs 0 (Suc i); extract_max cmp xs i }"

definition heapsortx :: "'a cmp_f \<Rightarrow> 'a list \<Rightarrow> 'a list option" where
  "heapsortx cmp xs =
     (let n = length xs
      in if n > 1 then do { xs \<leftarrow> build_heap cmp xs (n div 2) n; extract_max cmp xs (n - 1) } else Some xs)"

section \<open>Quicksort\<close>

definition med3 :: "'a cmp_f \<Rightarrow> 'a list \<Rightarrow> nat \<Rightarrow> nat \<Rightarrow> nat \<Rightarrow> nat option" where
  "med3 cmp xs a b c = do {
     ab \<leftarrow> cmp_at cmp xs a b;
     bc \<leftarrow> cmp_at cmp xs b c;
     if ab < 0 then
       if bc < 0 then Some b
       else do { ac \<leftarrow> cmp_at cmp xs a c; Some (if ac < 0 then c else a) }
     else
       if bc > 0 then Some b
       else do { ac \<leftarrow> cmp_at cmp xs a c; Some (if ac < 0 then a else c) }
   }"

text \<open>The two scans of the partition, with the pivot at 0.\<close>

function scan_up :: "'a cmp_f \<Rightarrow> 'a list \<Rightarrow> nat \<Rightarrow> nat \<Rightarrow> nat \<Rightarrow> ('a list \<times> nat \<times> nat) option" where
  "scan_up cmp xs i j lt =
     (if i < j then do {
        c \<leftarrow> cmp_at cmp xs 0 i;
        if c \<ge> 0 then
          if c = 0 then do { xs \<leftarrow> swap xs lt i; scan_up cmp xs (i + 1) j (lt + 1) }
          else scan_up cmp xs (i + 1) j lt
        else Some (xs, i, lt)
      }
      else Some (xs, i, lt))"
  by auto
termination by (relation "measure (\<lambda>(cmp, xs, i, j, lt). j - i)") auto

function scan_down :: "'a cmp_f \<Rightarrow> 'a list \<Rightarrow> nat \<Rightarrow> nat \<Rightarrow> nat \<Rightarrow> ('a list \<times> nat \<times> nat) option" where
  "scan_down cmp xs i j gt =
     (let j = j - 1
      in if i < j then do {
           c \<leftarrow> cmp_at cmp xs 0 j;
           if c \<le> 0 then
             if c = 0 then do { xs \<leftarrow> swap xs (gt - 1) j; scan_down cmp xs i j (gt - 1) }
             else scan_down cmp xs i j gt
           else Some (xs, j, gt)
         }
         else Some (xs, j, gt))"
  by auto
termination by (relation "measure (\<lambda>(cmp, xs, i, j, gt). j)") auto

declare scan_up.simps [simp del] scan_down.simps [simp del]

lemma scan_up_ge: "scan_up cmp xs i j lt = Some (ys, i', lt') \<Longrightarrow> i \<le> i'"
proof (induction "j - i" arbitrary: xs i lt rule: less_induct)
  case less
  have ih: "scan_up cmp zs (i + 1) j k = Some (ys, i', lt') \<Longrightarrow> i < j \<Longrightarrow> i \<le> i'" for zs k
    using less(1)[of "i + 1" zs k] diff_less_mono2[of i "i + 1" j] by simp
  from less(2) show ?case
    by (subst (asm) scan_up.simps) (auto split: if_splits Option.bind_splits dest: ih simp del: One_nat_def)
qed

lemma scan_down_le: "scan_down cmp xs i j gt = Some (ys, j', gt') \<Longrightarrow> j' \<le> j - 1"
proof (induction j arbitrary: xs gt rule: less_induct)
  case (less j)
  have ih: "scan_down cmp zs i (j - 1) k = Some (ys, j', gt') \<Longrightarrow> i < j - 1 \<Longrightarrow> j' \<le> j - 1" for zs k
    using less(1)[of "j - 1" zs k] by simp
  from less(2) show ?case
    by (subst (asm) scan_down.simps) (auto simp: Let_def split: if_splits Option.bind_splits dest: ih simp del: One_nat_def)
qed

text \<open>The partition loop: both scans, then an exchange, until they meet.\<close>

function partition_loop ::
  "'a cmp_f \<Rightarrow> 'a list \<Rightarrow> nat \<Rightarrow> nat \<Rightarrow> nat \<Rightarrow> nat \<Rightarrow> ('a list \<times> nat \<times> nat \<times> nat) option" where
  "partition_loop cmp xs i j lt gt =
     (case scan_up cmp xs i j lt of
        Some (xs, i', lt) \<Rightarrow>
          (case scan_down cmp xs i' j gt of
             Some (xs, j', gt) \<Rightarrow>
               if i' \<ge> j' then Some (xs, i', lt, gt)
               else do { xs \<leftarrow> swap xs i' j'; partition_loop cmp xs (i' + 1) j' lt gt }
           | None \<Rightarrow> None)
      | None \<Rightarrow> None)"
  by auto
termination
  by (relation "measure (\<lambda>(cmp, xs, i, j, lt, gt). j - i)") (auto dest!: scan_up_ge scan_down_le)

declare partition_loop.simps [simp del]

text \<open>
  One partition of a segment: the elements equal to the pivot are collected at both ends and
  then moved to the middle. The result holds the bounds of the middle part.
\<close>

definition partition_seg :: "'a cmp_f \<Rightarrow> 'a list \<Rightarrow> ('a list \<times> nat \<times> nat) option" where
  "partition_seg cmp xs = do {
     let n = length xs;
     let m4 = n div 4;
     m \<leftarrow> med3 cmp xs m4 (2 * m4) (3 * m4);
     xs \<leftarrow> swap xs 0 m;
     (xs, i, lt, gt) \<leftarrow> partition_loop cmp xs 1 n 1 n;
     let span = min lt (i - lt);
     xs \<leftarrow> swap_block xs 0 (i - span) span;
     let span = min (n - gt) (gt - i);
     xs \<leftarrow> swap_block xs i (n - span) span;
     Some (xs, i - lt, n - (gt - i))
   }"

text \<open>Insertion sort for short segments.\<close>

fun insert_down :: "'a cmp_f \<Rightarrow> 'a list \<Rightarrow> nat \<Rightarrow> 'a list option" where
  "insert_down cmp xs 0 = Some xs"
| "insert_down cmp xs (Suc j) = do {
     c \<leftarrow> cmp_at cmp xs j (Suc j);
     if c > 0 then do { xs \<leftarrow> swap xs (Suc j) j; insert_down cmp xs j } else Some xs
   }"

function insertion_loop :: "'a cmp_f \<Rightarrow> 'a list \<Rightarrow> nat \<Rightarrow> nat \<Rightarrow> 'a list option" where
  "insertion_loop cmp xs i n =
     (if i < n then do { xs \<leftarrow> insert_down cmp xs i; insertion_loop cmp xs (i + 1) n } else Some xs)"
  by auto
termination by (relation "measure (\<lambda>(cmp, xs, i, n). n - i)") auto

declare insertion_loop.simps [simp del]

text \<open>A routine called with a pointer and a count works on that slice of the array.\<close>

definition on_slice :: "nat \<Rightarrow> nat \<Rightarrow> ('a list \<Rightarrow> ('a list \<times> 'b) option) \<Rightarrow> 'a list \<Rightarrow> ('a list \<times> 'b) option" where
  "on_slice p n f xs =
     (if p + n \<le> length xs then
        map_option (\<lambda>(ys, r). (take p xs @ ys @ drop (p + n) xs, r)) (f (take n (drop p xs)))
      else None)"

section \<open>The driver\<close>

type_synonym segment = "nat \<times> nat \<times> nat"

definition push_segment :: "segment \<Rightarrow> segment list \<Rightarrow> segment list option" where
  "push_segment s stack = (if length stack < 50 then Some (s # stack) else None)"

text \<open>The loop that splits a segment until it is short; \<open>depth\<close> counts the splits.\<close>

function split_loop ::
  "'a cmp_f \<Rightarrow> nat \<Rightarrow> nat \<Rightarrow> nat \<Rightarrow> segment list \<Rightarrow> 'a list \<Rightarrow> (nat \<times> nat \<times> segment list \<times> 'a list) option"
where
  "split_loop cmp p n depth stack xs =
     (if n > 6 then
        if depth + 1 > 50 then do {
          (xs, _) \<leftarrow> on_slice p n (\<lambda>ys. map_option (\<lambda>zs. (zs, ())) (heapsortx cmp ys)) xs;
          Some (p, 0, stack, xs)
        }
        else do {
          (xs, lt, gt) \<leftarrow> on_slice p n (partition_seg cmp) xs;
          if lt > n - gt then do {
            stack \<leftarrow> push_segment (p, lt, depth + 1) stack;
            split_loop cmp (p + gt) (n - gt) (depth + 1) stack xs
          }
          else do {
            stack \<leftarrow> push_segment (p + gt, n - gt, depth + 1) stack;
            split_loop cmp p lt (depth + 1) stack xs
          }
        }
      else Some (p, n, stack, xs))"
  by auto
termination by (relation "measure (\<lambda>(cmp, p, n, depth, stack, xs). 50 - depth)") auto

declare split_loop.simps [simp del]


text \<open>Each split halves the depth that is left, so the weight of the stack bounds the driver.\<close>

definition weight :: "segment list \<Rightarrow> nat" where
  "weight stack = (\<Sum>(p, n, d) \<leftarrow> stack. 2 ^ (51 - d))"

lemma weight_Cons [simp]: "weight ((p, n, d) # stack) = 2 ^ (51 - d) + weight stack"
  by (simp add: weight_def)

lemma weight_Nil [simp]: "weight [] = 0"
  by (simp add: weight_def)

lemma split_loop_weight:
  "split_loop cmp p n depth stack xs = Some (p', n', stack', ys) \<Longrightarrow>
    weight stack' < 2 ^ (51 - depth) + weight stack"
proof (induction cmp p n depth stack xs rule: split_loop.induct)
  case (1 cmp p n depth stack xs)
  show ?case
  proof (cases "n > 6 \<and> \<not> depth + 1 > 50")
    case True
    have w: "(2 :: nat) ^ (51 - depth) = 2 ^ (51 - (depth + 1)) + 2 ^ (51 - (depth + 1))"
    proof -
      have "51 - depth = Suc (51 - (depth + 1))" using True by arith
      then show ?thesis by simp
    qed
    from 1(3) True obtain zs lt gt where z: "on_slice p n (partition_seg cmp) xs = Some (zs, lt, gt)"
      by (subst (asm) split_loop.simps) (auto split: Option.bind_splits if_splits)
    show ?thesis
    proof (cases "lt > n - gt")
      case lt: True
      from 1(3) True z lt obtain st where st: "push_segment (p, lt, depth + 1) stack = Some st"
        "split_loop cmp (p + gt) (n - gt) (depth + 1) st zs = Some (p', n', stack', ys)"
        by (subst (asm) split_loop.simps) (auto split: Option.bind_splits if_splits)
      with 1(1)[OF _ _ z refl refl lt st(1) st(2)] True w show ?thesis
        by (auto simp: push_segment_def split: if_splits)
    next
      case ge: False
      from 1(3) True z ge obtain st where st: "push_segment (p + gt, n - gt, depth + 1) stack = Some st"
        "split_loop cmp p lt (depth + 1) st zs = Some (p', n', stack', ys)"
        by (subst (asm) split_loop.simps) (auto split: Option.bind_splits if_splits)
      with 1(2)[OF _ _ z refl refl ge st(1) st(2)] True w show ?thesis
        by (auto simp: push_segment_def split: if_splits)
    qed
  next
    case False
    with 1(3) show ?thesis
      by (subst (asm) split_loop.simps) (auto split: Option.bind_splits if_splits)
  qed
qed

function sort_loop :: "'a cmp_f \<Rightarrow> segment list \<Rightarrow> 'a list \<Rightarrow> 'a list option" where
  "sort_loop cmp [] xs = Some xs"
| "sort_loop cmp ((p, n, depth) # stack) xs =
     (case split_loop cmp p n depth stack xs of
        Some (p', n', stack', ys) \<Rightarrow> do {
          (zs, _) \<leftarrow> on_slice p' n' (\<lambda>ys. map_option (\<lambda>zs. (zs, ())) (insertion_loop cmp ys 1 n')) ys;
          sort_loop cmp stack' zs
        }
      | None \<Rightarrow> None)"
  by pat_completeness auto
termination
  by (relation "measure (\<lambda>(cmp, stack, xs). weight stack)") (auto dest: split_loop_weight)

definition rqsort :: "'a cmp_f \<Rightarrow> 'a list \<Rightarrow> 'a list option" where
  "rqsort cmp xs =
     (if length xs < 2 then Some xs
      else do { stack \<leftarrow> push_segment (0, length xs, 0) []; sort_loop cmp stack xs })"

end
