(* ===== verification/Sort_Props.thy ===== *)
theory Sort_Props
  imports Sort
begin

text \<open>
  What the sorting routines do: for every comparison function they return, stay inside their arrays and
  their stack and permute the elements; for a comparison that is a total preorder the result is sorted.
\<close>

section \<open>Exchanges\<close>

lemma cmp_at_inside: "i < length xs \<Longrightarrow> j < length xs \<Longrightarrow> cmp_at cmp xs i j = Some (cmp (xs ! i) (xs ! j))"
  by (simp add: cmp_at_def)

lemma swap_inside: "i < length xs \<Longrightarrow> j < length xs \<Longrightarrow> swap xs i j = Some (xs[i := xs ! j, j := xs ! i])"
  by (simp add: swap_def)

lemma mset_exchange: "i < length xs \<Longrightarrow> j < length xs \<Longrightarrow> mset (xs[i := xs ! j, j := xs ! i]) = mset xs"
  using mset_swap[of j xs i] by simp

lemma nth_exchange: "k < length xs \<Longrightarrow>
    xs[i := xs ! j, j := xs ! i] ! k = (if k = j then xs ! i else if k = i then xs ! j else xs ! k)"
  by (simp add: nth_list_update)

lemma swap_block_inside:
  assumes "i + s \<le> j" and "j + s \<le> length xs"
  shows "\<exists>ys. swap_block xs i j s = Some ys \<and> mset ys = mset xs \<and> length ys = length xs \<and>
    (\<forall>k < length xs. ys ! k = (if i \<le> k \<and> k < i + s then xs ! (j + (k - i))
       else if j \<le> k \<and> k < j + s then xs ! (i + (k - j)) else xs ! k))"
  using assms
proof (induction s arbitrary: xs i j)
  case (Suc s)
  let ?xs = "xs[i := xs ! j, j := xs ! i]"
  have ij: "i < length xs" "j < length xs" "i \<noteq> j" using Suc(2,3) by auto
  have "i + 1 + s \<le> j + 1" "j + 1 + s \<le> length ?xs" using Suc(2,3) by auto
  from Suc.IH[OF this] obtain ys where ys: "swap_block ?xs (i + 1) (j + 1) s = Some ys" "mset ys = mset ?xs"
    "length ys = length ?xs"
    "\<forall>k < length ?xs. ys ! k = (if i + 1 \<le> k \<and> k < i + 1 + s then ?xs ! (j + 1 + (k - (i + 1)))
       else if j + 1 \<le> k \<and> k < j + 1 + s then ?xs ! (i + 1 + (k - (j + 1))) else ?xs ! k)" by blast
  have "ys ! k = (if i \<le> k \<and> k < i + Suc s then xs ! (j + (k - i))
       else if j \<le> k \<and> k < j + Suc s then xs ! (i + (k - j)) else xs ! k)" if "k < length xs" for k
  proof -
    have shift: "a + 1 + (k - (b + 1)) = a + (k - b)" if "b + 1 \<le> k" for a b :: nat using that by arith
    consider "i + 1 \<le> k" "k < i + 1 + s" | "j + 1 \<le> k" "k < j + 1 + s" "\<not> k < i + 1 + s" | "k = i" | "k = j"
      | "k < i" | "i + 1 + s \<le> k" "k < j" | "j + 1 + s \<le> k" by linarith
    then show ?thesis
      using ys(4)[rule_format, of k] that ij(3) Suc(2,3) shift[of i j] shift[of j i]
      by cases (simp_all add: nth_list_update ij(1,2))
  qed
  then show ?case using ys(1-3) ij mset_exchange[OF ij(1,2)] by (simp add: swap_inside)
qed auto

lemma med3_inside:
  assumes "a < length xs" "b < length xs" "c < length xs"
  shows "\<exists>m. med3 cmp xs a b c = Some m \<and> m < length xs"
  using assms by (auto simp: med3_def cmp_at_inside)

section \<open>The partition\<close>

text \<open>Elements that were compared with the pivot, by the part of the array they are in.\<close>

definition classified :: "'a cmp_f \<Rightarrow> 'a \<Rightarrow> 'a list \<Rightarrow> nat \<Rightarrow> nat \<Rightarrow> nat \<Rightarrow> nat \<Rightarrow> bool" where
  "classified cmp pv xs i j lt gt \<longleftrightarrow>
     1 \<le> lt \<and> lt \<le> i \<and> i \<le> gt \<and> j \<le> gt \<and> gt \<le> length xs \<and> xs ! 0 = pv \<and>
     (\<forall>k. 1 \<le> k \<and> k < lt \<longrightarrow> cmp pv (xs ! k) = 0) \<and> (\<forall>k. lt \<le> k \<and> k < i \<longrightarrow> cmp pv (xs ! k) > 0) \<and>
     (\<forall>k. j \<le> k \<and> k < gt \<longrightarrow> cmp pv (xs ! k) < 0) \<and> (\<forall>k. gt \<le> k \<and> k < length xs \<longrightarrow> cmp pv (xs ! k) = 0)"

lemma scan_up_inside:
  assumes "classified cmp pv xs i j lt gt" and "i \<le> j"
  shows "\<exists>ys i' lt'. scan_up cmp xs i j lt = Some (ys, i', lt') \<and> mset ys = mset xs \<and>
    classified cmp pv ys i' j lt' gt \<and> i' \<le> j \<and> (i' < j \<longrightarrow> cmp pv (ys ! i') < 0)"
  using assms
proof (induction "j - i" arbitrary: xs i lt rule: less_induct)
  case less
  have b: "1 \<le> lt" "lt \<le> i" "j \<le> gt" "gt \<le> length xs" "xs ! 0 = pv" using less(2) by (auto simp: classified_def)
  show ?case
  proof (cases "i < j \<and> cmp pv (xs ! i) \<ge> 0")
    case False
    then have "i < j \<Longrightarrow> xs \<noteq> [] \<and> i < length xs" using b by auto
    then show ?thesis using less(2,3) b False by (subst scan_up.simps) (auto simp: cmp_at_inside)
  next
    case True
    then have i: "j - (i + 1) < j - i" "i + 1 \<le> j" "i < length xs" "lt < length xs" "0 < length xs" using b by auto
    show ?thesis
    proof (cases "cmp pv (xs ! i) = 0")
      case eq: True
      let ?xs = "xs[lt := xs ! i, i := xs ! lt]"
      have "classified cmp pv ?xs (i + 1) j (lt + 1) gt"
        using less(2) True eq b by (auto simp: classified_def nth_list_update)
      from less(1)[OF i(1) this i(2)] show ?thesis
        using True eq b i mset_exchange[OF i(4,3)] by (subst scan_up.simps) (auto simp: cmp_at_inside swap_inside)
    next
      case gt: False
      have "classified cmp pv xs (i + 1) j lt gt"
        using less(2) True gt b by (auto simp: classified_def less_Suc_eq)
      from less(1)[OF i(1) this i(2)] show ?thesis
        using True gt b i by (subst scan_up.simps) (auto simp: cmp_at_inside)
    qed
  qed
qed

lemma scan_down_inside:
  assumes "classified cmp pv xs i j lt gt" and "i \<le> j" and "i < j \<longrightarrow> cmp pv (xs ! i) < 0"
  shows "\<exists>ys j' gt'. scan_down cmp xs i j gt = Some (ys, j', gt') \<and> mset ys = mset xs \<and>
    (if i \<ge> j' then classified cmp pv ys i i lt gt'
     else classified cmp pv ys i (j' + 1) lt gt' \<and> cmp pv (ys ! j') > 0 \<and> cmp pv (ys ! i) < 0 \<and> j' < gt')"
  using assms
proof (induction j arbitrary: xs gt rule: less_induct)
  case (less j)
  have b: "1 \<le> lt" "lt \<le> i" "i \<le> gt" "j \<le> gt" "gt \<le> length xs" "xs ! 0 = pv"
    "\<forall>k. 1 \<le> k \<and> k < lt \<longrightarrow> cmp pv (xs ! k) = 0" "\<forall>k. lt \<le> k \<and> k < i \<longrightarrow> cmp pv (xs ! k) > 0"
    "\<forall>k. j \<le> k \<and> k < gt \<longrightarrow> cmp pv (xs ! k) < 0" "\<forall>k. gt \<le> k \<and> k < length xs \<longrightarrow> cmp pv (xs ! k) = 0"
    using less(2) by (simp_all add: classified_def)
  show ?case
  proof (cases "i < j - 1")
    case False
    then have "i = j \<or> j = Suc i" using less(3) by auto
    then have "classified cmp pv xs i i lt gt"
    proof
      assume j: "j = Suc i"
      have "cmp pv (xs ! k) < 0" if "i \<le> k" "k < gt" for k
        using that less(4) b(9) j by (cases "k = i") auto
      then show ?thesis using less(2) j by (auto simp: classified_def)
    qed (use less(2) in simp)
    then show ?thesis using False by (subst scan_down.simps) (auto simp: Let_def)
  next
    case True
    then obtain l where l: "j = Suc l" "i < l" by (cases j) auto
    then have in_xs: "l < length xs" "0 < length xs" "i < length xs" "l < j" "i \<le> l" "l < gt" using b(4,5) by auto
    have i_neg: "cmp pv (xs ! i) < 0" using less(4) l by simp
    have unfold: "scan_down cmp xs i j gt = (if cmp pv (xs ! l) \<le> 0 then
        if cmp pv (xs ! l) = 0 then do { xs \<leftarrow> swap xs (gt - 1) l; scan_down cmp xs i l (gt - 1) }
        else scan_down cmp xs i l gt else Some (xs, l, gt))"
      using l cmp_at_inside[OF in_xs(2,1), of cmp] b(6) by (subst scan_down.simps) (simp add: Let_def)
    consider "cmp pv (xs ! l) > 0" | "cmp pv (xs ! l) < 0" | "cmp pv (xs ! l) = 0" by linarith
    then show ?thesis
    proof cases
      case 1
      then have "scan_down cmp xs i j gt = Some (xs, l, gt)" unfolding unfold by simp
      then show ?thesis using less(2) i_neg in_xs 1 l by auto
    next
      case 2
      have "cmp pv (xs ! k) < 0" if "l \<le> k" "k < gt" for k
        using that 2 b(9) l(1) by (cases "k = l") auto
      then have "classified cmp pv xs i l lt gt" using b in_xs unfolding classified_def by simp
      from less(1)[OF in_xs(4) this in_xs(5)] show ?thesis using i_neg 2 unfolding unfold by simp
    next
      case 3
      let ?g = "gt - 1"
      let ?xs = "xs[?g := xs ! l, l := xs ! ?g]"
      have g: "?g < length xs" "l \<le> ?g" "Suc ?g = gt" using in_xs b(5) by auto
      have nth: "?xs ! k = (if k = l then xs ! ?g else if k = ?g then xs ! l else xs ! k)" if "k < length xs" for k
        by (rule nth_exchange[OF that])
      have neg: "cmp pv (?xs ! k) < 0" if k: "l \<le> k" "k < ?g" for k
      proof -
        have "?xs ! k = xs ! (if k = l then ?g else k)" using nth[of k] k g in_xs by auto
        moreover have "j \<le> (if k = l then ?g else k)" "(if k = l then ?g else k) < gt" using k g l by auto
        ultimately show ?thesis using b(9) by metis
      qed
      have zero: "cmp pv (?xs ! k) = 0" if k: "?g \<le> k" "k < length xs" for k
      proof (cases "k = ?g")
        case True
        then show ?thesis using nth[OF k(2)] 3 by auto
      next
        case False
        then show ?thesis using nth[OF k(2)] k g b(10) by auto
      qed
      have low: "?xs ! k = xs ! k" if "k \<le> i" for k using nth[of k] that l(2) g in_xs by auto
      have "classified cmp pv ?xs i l lt ?g"
        using b low neg zero g l(2) unfolding classified_def by auto
      moreover have "i < l \<longrightarrow> cmp pv (?xs ! i) < 0" using i_neg low[of i] by simp
      moreover have "scan_down cmp xs i j gt = scan_down cmp ?xs i l ?g"
        using 3 swap_inside[OF g(1) in_xs(1)] unfolding unfold by simp
      ultimately show ?thesis
        using less(1)[OF in_xs(4) _ in_xs(5)] unfolding mset_exchange[OF g(1) in_xs(1), symmetric] by presburger
    qed
  qed
qed

lemma partition_loop_inside:
  assumes "classified cmp pv xs i j lt gt" and "i \<le> j"
  shows "\<exists>ys m l g. partition_loop cmp xs i j lt gt = Some (ys, m, l, g) \<and> mset ys = mset xs \<and>
    classified cmp pv ys m m l g"
  using assms
proof (induction "j - i" arbitrary: xs i j lt gt rule: less_induct)
  case less
  from scan_up_inside[OF less(2,3)] obtain ys i' lt' where up: "scan_up cmp xs i j lt = Some (ys, i', lt')"
    "mset ys = mset xs" "classified cmp pv ys i' j lt' gt" "i' \<le> j" "i' < j \<longrightarrow> cmp pv (ys ! i') < 0" by blast
  from scan_down_inside[OF up(3-5)] obtain zs j' gt' where
    down: "scan_down cmp ys i' j gt = Some (zs, j', gt')" "mset zs = mset ys"
    "if i' \<ge> j' then classified cmp pv zs i' i' lt' gt'
     else classified cmp pv zs i' (j' + 1) lt' gt' \<and> cmp pv (zs ! j') > 0 \<and> cmp pv (zs ! i') < 0 \<and> j' < gt'" by blast
  show ?case
  proof (cases "i' \<ge> j'")
    case True
    then show ?thesis using up down by (subst partition_loop.simps) simp
  next
    case False
    let ?zs = "zs[i' := zs ! j', j' := zs ! i']"
    have ij: "i' < length zs" "j' < length zs" using down(3) False by (auto simp: classified_def)
    have d: "1 \<le> lt'" "lt' \<le> i'" "gt' \<le> length zs" "zs ! 0 = pv" "i' < j'" "j' < gt'"
      "cmp pv (zs ! j') > 0" "cmp pv (zs ! i') < 0"
      "\<forall>k. 1 \<le> k \<and> k < lt' \<longrightarrow> cmp pv (zs ! k) = 0" "\<forall>k. lt' \<le> k \<and> k < i' \<longrightarrow> cmp pv (zs ! k) > 0"
      "\<forall>k. j' + 1 \<le> k \<and> k < gt' \<longrightarrow> cmp pv (zs ! k) < 0" "\<forall>k. gt' \<le> k \<and> k < length zs \<longrightarrow> cmp pv (zs ! k) = 0"
      using down(3) False by (auto simp: classified_def)
    have "cmp pv (?zs ! k) > 0" if "lt' \<le> k" "k < i' + 1" for k
      using that d ij by (cases "k = i'") (simp_all add: nth_list_update)
    moreover have "cmp pv (?zs ! k) < 0" if "j' \<le> k" "k < gt'" for k
      using that d ij by (cases "k = j'") (simp_all add: nth_list_update)
    moreover have "cmp pv (?zs ! k) = 0" if "1 \<le> k" "k < lt'" for k
      using that d by (simp add: nth_list_update)
    moreover have "cmp pv (?zs ! k) = 0" if "gt' \<le> k" "k < length zs" for k
      using that d by (simp add: nth_list_update)
    moreover have "?zs ! 0 = pv" using d ij by (simp add: nth_list_update)
    ultimately have c: "classified cmp pv ?zs (i' + 1) j' lt' gt'"
      using d(1-6) unfolding classified_def by simp
    have "j' - (i' + 1) < j - i" "i' + 1 \<le> j'"
      using False scan_up_ge[OF up(1)] scan_down_le[OF down(1)] by auto
    from less(1)[OF this(1) c this(2)] show ?thesis
      using up(1,2) down(1,2) False ij mset_exchange[OF ij] by (subst partition_loop.simps) (auto simp: swap_inside)
  qed
qed

text \<open>Exchanging the outer ends of two adjacent zones exchanges the zones, up to the order inside them.\<close>

lemma swap_ends:
  assumes "p + a + b \<le> length xs"
  shows "\<exists>ys. swap_block xs p (p + a + b - min a b) (min a b) = Some ys \<and> mset ys = mset xs \<and> length ys = length xs \<and>
    (\<forall>k < length xs. k < p \<or> p + a + b \<le> k \<longrightarrow> ys ! k = xs ! k) \<and>
    (\<forall>k. p \<le> k \<and> k < p + b \<longrightarrow> (\<exists>h. p + a \<le> h \<and> h < p + a + b \<and> ys ! k = xs ! h)) \<and>
    (\<forall>k. p + b \<le> k \<and> k < p + a + b \<longrightarrow> (\<exists>h. p \<le> h \<and> h < p + a \<and> ys ! k = xs ! h))"
proof -
  define s where "s = min a b"
  define q where "q = p + a + b - s"
  have s: "s \<le> a" "s \<le> b" "s = a \<or> s = b" "p + s \<le> q" "q + s = p + a + b" by (auto simp: s_def q_def)
  have "q + s \<le> length xs" using s(5) assms by simp
  from swap_block_inside[OF s(4) this] obtain ys where ys: "swap_block xs p q s = Some ys" "mset ys = mset xs"
    "length ys = length xs"
    "\<And>k. k < length xs \<Longrightarrow> ys ! k = (if p \<le> k \<and> k < p + s then xs ! (q + (k - p))
       else if q \<le> k \<and> k < q + s then xs ! (p + (k - q)) else xs ! k)" by blast
  have "\<exists>h. p + a \<le> h \<and> h < p + a + b \<and> ys ! k = xs ! h" if k: "p \<le> k" "k < p + b" for k
  proof (cases "k < p + s")
    case True
    then have "ys ! k = xs ! (q + (k - p))" using ys(4)[of k] k assms by simp
    moreover have "p + a \<le> q + (k - p)" "q + (k - p) < p + a + b" using True k s by linarith+
    ultimately show ?thesis by blast
  next
    case False
    then have "s = a" "k < q" using k s by linarith+
    then have "ys ! k = xs ! k" using ys(4)[of k] k assms False by simp
    moreover have "p + a \<le> k" "k < p + a + b" using False \<open>s = a\<close> k by linarith+
    ultimately show ?thesis by blast
  qed
  moreover have "\<exists>h. p \<le> h \<and> h < p + a \<and> ys ! k = xs ! h" if k: "p + b \<le> k" "k < p + a + b" for k
  proof (cases "q \<le> k")
    case True
    then have "ys ! k = xs ! (p + (k - q))" using ys(4)[of k] k s assms by simp
    moreover have "p \<le> p + (k - q)" "p + (k - q) < p + a" using True k s by linarith+
    ultimately show ?thesis by blast
  next
    case False
    then have "s = b" using k s by linarith
    then have "ys ! k = xs ! k" using ys(4)[of k] k assms False by simp
    moreover have "p \<le> k" "k < p + a" using False \<open>s = b\<close> k s by linarith+
    ultimately show ?thesis by blast
  qed
  moreover have "ys ! k = xs ! k" if "k < length xs" "k < p \<or> p + a + b \<le> k" for k
    using ys(4)[OF that(1)] that(2) s by auto
  ultimately show ?thesis using ys(1-3) unfolding s_def q_def by blast
qed

text \<open>After the exchanges the segment is smaller, equal and greater elements in this order.\<close>

lemma partition_seg_inside:
  assumes "6 < length xs"
  shows "\<exists>ys lt gt pv. partition_seg cmp xs = Some (ys, lt, gt) \<and> mset ys = mset xs \<and>
    lt < gt \<and> gt \<le> length ys \<and>
    (\<forall>k < lt. cmp pv (ys ! k) > 0) \<and> (\<forall>k. lt \<le> k \<and> k < gt \<longrightarrow> cmp pv (ys ! k) = 0 \<or> ys ! k = pv) \<and>
    (\<forall>k. gt \<le> k \<and> k < length ys \<longrightarrow> cmp pv (ys ! k) < 0)"
proof -
  let ?n = "length xs" and ?m4 = "length xs div 4"
  have "?m4 < ?n" "2 * ?m4 < ?n" "3 * ?m4 < ?n" using assms by auto
  from med3_inside[OF this] obtain m where m: "med3 cmp xs ?m4 (2 * ?m4) (3 * ?m4) = Some m" "m < ?n" by blast
  have pos: "0 < ?n" using assms by linarith
  define xs1 where "xs1 = xs[0 := xs ! m, m := xs ! 0]"
  have xs1: "swap xs 0 m = Some xs1" "mset xs1 = mset xs" "length xs1 = ?n"
    using m(2) mset_exchange[OF pos m(2)] swap_inside[OF pos m(2)] by (simp_all add: xs1_def)
  have "classified cmp (xs1 ! 0) xs1 1 ?n 1 ?n" using assms xs1(3) by (auto simp: classified_def)
  from partition_loop_inside[OF this] assms obtain ys i lt gt where
    p: "partition_loop cmp xs1 1 ?n 1 ?n = Some (ys, i, lt, gt)" "mset ys = mset xs1"
    "classified cmp (xs1 ! 0) ys i i lt gt" by force
  define pv where "pv = xs1 ! 0"
  have ly: "length ys = ?n" using p(2) xs1(3) mset_eq_length by metis
  have c: "1 \<le> lt" "lt \<le> i" "i \<le> gt" "gt \<le> ?n" "ys ! 0 = pv" "\<And>k. 1 \<le> k \<Longrightarrow> k < lt \<Longrightarrow> cmp pv (ys ! k) = 0"
    "\<And>k. lt \<le> k \<Longrightarrow> k < i \<Longrightarrow> cmp pv (ys ! k) > 0" "\<And>k. i \<le> k \<Longrightarrow> k < gt \<Longrightarrow> cmp pv (ys ! k) < 0"
    "\<And>k. gt \<le> k \<Longrightarrow> k < ?n \<Longrightarrow> cmp pv (ys ! k) = 0"
    using p(3) ly by (auto simp: classified_def pv_def)
  have eq: "cmp pv (ys ! k) = 0 \<or> ys ! k = pv" if "k < lt" for k using c(5,6) that by (cases k) auto
  have "0 + lt + (i - lt) \<le> length ys" "0 + lt + (i - lt) = i" using c ly by auto
  with swap_ends[of 0 lt "i - lt" ys] obtain zs where
    z: "swap_block ys 0 (i - min lt (i - lt)) (min lt (i - lt)) = Some zs" "mset zs = mset ys" "length zs = ?n"
      "\<And>k. k < ?n \<Longrightarrow> i \<le> k \<Longrightarrow> zs ! k = ys ! k"
      "\<And>k. k < i - lt \<Longrightarrow> \<exists>h. lt \<le> h \<and> h < i \<and> zs ! k = ys ! h"
      "\<And>k. i - lt \<le> k \<Longrightarrow> k < i \<Longrightarrow> \<exists>h. h < lt \<and> zs ! k = ys ! h"
    using ly by auto
  have "i + (gt - i) + (?n - gt) \<le> length zs" "i + (gt - i) + (?n - gt) = ?n" "i + (gt - i) = gt"
    "i + (?n - gt) = ?n - (gt - i)" using c z(3) by auto
  with swap_ends[of i "gt - i" "?n - gt" zs] obtain us where
    u: "swap_block zs i (?n - min (?n - gt) (gt - i)) (min (?n - gt) (gt - i)) = Some us" "mset us = mset zs"
      "length us = ?n" "\<And>k. k < i \<Longrightarrow> us ! k = zs ! k"
      "\<And>k. i \<le> k \<Longrightarrow> k < ?n - (gt - i) \<Longrightarrow> \<exists>h. gt \<le> h \<and> h < ?n \<and> us ! k = zs ! h"
      "\<And>k. ?n - (gt - i) \<le> k \<Longrightarrow> k < ?n \<Longrightarrow> \<exists>h. i \<le> h \<and> h < gt \<and> us ! k = zs ! h"
    using z(3) c(3,4) by (auto simp: min.commute)
  have mid: "cmp pv (us ! k) = 0 \<or> us ! k = pv" if "i - lt \<le> k" "k < i" for k
    using z(6)[OF that] u(4)[of k] that eq by force
  have equal: "cmp pv (us ! k) = 0" if "i \<le> k" "k < ?n - (gt - i)" for k
    using u(5)[OF that] z(4) c(3,9) by force
  have "cmp pv (us ! k) > 0" if "k < i - lt" for k
    using z(5)[OF that] u(4)[of k] that c(7) by force
  moreover have "cmp pv (us ! k) < 0" if "?n - (gt - i) \<le> k" "k < ?n" for k
    using u(6)[OF that] z(4) c(4,8) by force
  moreover have "partition_seg cmp xs = Some (us, i - lt, ?n - (gt - i))"
    using m(1) xs1(1) p(1) z(1) u(1) by (simp add: partition_seg_def Let_def)
  moreover have "i - lt < ?n - (gt - i)" using c by linarith
  moreover have "cmp pv (us ! k) = 0 \<or> us ! k = pv" if "i - lt \<le> k" "k < ?n - (gt - i)" for k
    using mid[OF that(1)] equal[OF _ that(2)] by linarith
  moreover have "mset us = mset xs" using u(2) z(2) p(2) xs1(2) by simp
  ultimately show ?thesis using u(3)
    by (intro exI[of _ us] exI[of _ "i - lt"] exI[of _ "?n - (gt - i)"] exI[of _ pv]) simp
qed

section \<open>Insertion sort and heap sort return permutations\<close>

lemma insert_down_inside:
  "i < length xs \<Longrightarrow> \<exists>ys. insert_down cmp xs i = Some ys \<and> mset ys = mset xs \<and>
    (\<forall>k < length xs. i < k \<longrightarrow> ys ! k = xs ! k)"
proof (induction i arbitrary: xs)
  case (Suc i)
  then have i: "Suc i < length xs" "i < length xs" by simp_all
  show ?case
  proof (cases "cmp (xs ! i) (xs ! Suc i) > 0")
    case True
    let ?xs = "xs[Suc i := xs ! i, i := xs ! Suc i]"
    from Suc.IH[of ?xs] i(2) obtain ys where ys: "insert_down cmp ?xs i = Some ys" "mset ys = mset ?xs"
      "\<forall>k < length xs. i < k \<longrightarrow> ys ! k = ?xs ! k" by auto
    then show ?thesis using True i mset_exchange[OF i] by (auto simp: cmp_at_inside swap_inside)
  qed (use i in \<open>auto simp: cmp_at_inside\<close>)
qed simp

lemma insertion_loop_inside:
  "n \<le> length xs \<Longrightarrow> \<exists>ys. insertion_loop cmp xs i n = Some ys \<and> mset ys = mset xs"
proof (induction "n - i" arbitrary: xs i rule: less_induct)
  case less
  show ?case
  proof (cases "i < n")
    case True
    then obtain ys where ys: "insert_down cmp xs i = Some ys" "mset ys = mset xs"
      using insert_down_inside[of i xs cmp] less(2) by auto
    moreover have "n - (i + 1) < n - i" "n \<le> length ys"
      using True less(2) mset_eq_length[OF ys(2)] by auto
    ultimately show ?thesis using less(1)[of "i + 1" ys] True by (subst insertion_loop.simps) auto
  qed (subst insertion_loop.simps, simp)
qed

definition larger_child :: "'a cmp_f \<Rightarrow> 'a list \<Rightarrow> nat \<Rightarrow> nat \<Rightarrow> nat" where
  "larger_child cmp xs r n =
     (if r * 2 + 1 < n - 1 \<and> cmp (xs ! (r * 2 + 1)) (xs ! (r * 2 + 2)) \<le> 0 then r * 2 + 2 else r * 2 + 1)"

lemma sink_step:
  assumes "r * 2 + 1 < n" and "n \<le> length xs"
  shows "sink cmp xs r n = (if cmp (xs ! r) (xs ! larger_child cmp xs r n) > 0 then Some xs else
    do { ys \<leftarrow> swap xs r (larger_child cmp xs r n); sink cmp ys (larger_child cmp xs r n) n })"
proof (cases "r * 2 + 1 < n - 1")
  case True
  then have "r * 2 + 1 < length xs" "r * 2 + 2 < length xs" "r < length xs" using assms by linarith+
  then show ?thesis using assms(1) True
    by (subst sink.simps) (simp add: Let_def larger_child_def cmp_at_inside)
next
  case False
  have "r * 2 + 1 < length xs" "r < length xs" using assms by linarith+
  then show ?thesis using assms(1) False
    by (subst sink.simps) (simp add: Let_def larger_child_def cmp_at_inside)
qed

lemma sink_stop: "\<not> r * 2 + 1 < n \<Longrightarrow> sink cmp xs r n = Some xs"
  by (subst sink.simps) simp

lemma larger_child_bounds:
  "r * 2 + 1 < n \<Longrightarrow> larger_child cmp xs r n < n \<and> (larger_child cmp xs r n - 1) div 2 = r \<and> r < larger_child cmp xs r n"
  by (auto simp: larger_child_def)

lemma sink_inside:
  assumes "n \<le> length xs"
  shows "\<exists>ys. sink cmp xs r n = Some ys \<and> mset ys = mset xs \<and> drop n ys = drop n xs"
  using assms
proof (induction "n - r" arbitrary: xs r rule: less_induct)
  case less
  show ?case
  proof (cases "r * 2 + 1 < n")
    case False
    then show ?thesis by (simp add: sink_stop)
  next
    case True
    define d where "d = larger_child cmp xs r n"
    have d: "d < n" "r < length xs" "d < length xs" "n - d < n - r"
      using larger_child_bounds[OF True, of cmp xs] less(2) by (auto simp: d_def)
    let ?xs = "xs[r := xs ! d, d := xs ! r]"
    from less(1)[OF d(4), of ?xs] less(2) obtain ys
      where "sink cmp ?xs d n = Some ys" "mset ys = mset ?xs" "drop n ys = drop n ?xs" by auto
    then show ?thesis using d mset_exchange[OF d(2,3)] unfolding sink_step[OF True less(2)] d_def[symmetric]
      by (auto simp: swap_inside)
  qed
qed

lemma build_heap_inside:
  "n \<le> length xs \<Longrightarrow> \<exists>ys. build_heap cmp xs i n = Some ys \<and> mset ys = mset xs"
proof (induction i arbitrary: xs)
  case (Suc i)
  from sink_inside[OF Suc(2), of cmp i] obtain ys where "sink cmp xs i n = Some ys" "mset ys = mset xs" by blast
  then show ?case using Suc.IH[of ys] Suc(2) mset_eq_length[of ys xs] by auto
qed simp

lemma extract_max_inside:
  "i < length xs \<Longrightarrow> \<exists>ys. extract_max cmp xs i = Some ys \<and> mset ys = mset xs"
proof (induction i arbitrary: xs)
  case (Suc i)
  let ?xs = "xs[0 := xs ! Suc i, Suc i := xs ! 0]"
  have i: "0 < length xs" "Suc i < length xs" "Suc i \<le> length ?xs" using Suc(2) by (linarith, linarith, simp)
  from sink_inside[OF i(3), of cmp 0] obtain ys where "sink cmp ?xs 0 (Suc i) = Some ys" "mset ys = mset ?xs" by blast
  then show ?case
    using Suc.IH[of ys] i mset_exchange[OF i(1,2)] swap_inside[OF i(1,2)] mset_eq_length[of ys ?xs] by auto
qed simp

lemma heapsortx_inside: "\<exists>ys. heapsortx cmp xs = Some ys \<and> mset ys = mset xs"
proof (cases "1 < length xs")
  case True
  obtain ys where ys: "build_heap cmp xs (length xs div 2) (length xs) = Some ys" "mset ys = mset xs"
    using build_heap_inside by blast
  moreover have "length xs - 1 < length ys" using True mset_eq_length[OF ys(2)] by simp
  ultimately show ?thesis using extract_max_inside[of "length xs - 1" ys cmp] True by (auto simp: heapsortx_def)
qed (simp add: heapsortx_def)

section \<open>Comparisons that are total preorders\<close>

locale comparator =
  fixes cmp :: "'a cmp_f"
  assumes sym: "cmp x y < 0 \<longleftrightarrow> cmp y x > 0"
    and trans: "cmp x y \<le> 0 \<Longrightarrow> cmp y z \<le> 0 \<Longrightarrow> cmp x z \<le> 0"
begin

lemma refl: "cmp x x = 0"
  using sym[of x x] by linarith

lemma total: "cmp x y > 0 \<Longrightarrow> cmp y x \<le> 0"
  using sym[of y x] by linarith

lemma ge: "cmp x y \<ge> 0 \<Longrightarrow> cmp y x \<le> 0"
  using sym[of x y] by linarith

text \<open>While an element moves down to \<open>j\<close>, the elements up to \<open>i\<close> are sorted but for those below it.\<close>

definition settling :: "'a list \<Rightarrow> nat \<Rightarrow> nat \<Rightarrow> bool" where
  "settling xs j i \<longleftrightarrow> (\<forall>a b. a < b \<and> b \<le> i \<and> b \<noteq> j \<longrightarrow> cmp (xs ! a) (xs ! b) \<le> 0)"

lemma insert_down_settles:
  "insert_down cmp xs j = Some ys \<Longrightarrow> settling xs j i \<Longrightarrow> j \<le> i \<Longrightarrow> i < length xs \<Longrightarrow>
    a < b \<Longrightarrow> b \<le> i \<Longrightarrow> cmp (ys ! a) (ys ! b) \<le> 0"
proof (induction j arbitrary: xs)
  case 0
  then show ?case by (auto simp: settling_def)
next
  case (Suc j)
  have j: "j < length xs" "Suc j < length xs" using Suc(4,5) by auto
  note S = Suc(3)[unfolded settling_def, rule_format]
  show ?case
  proof (cases "cmp (xs ! j) (xs ! Suc j) > 0")
    case True
    let ?xs = "xs[Suc j := xs ! j, j := xs ! Suc j]"
    have run: "insert_down cmp ?xs j = Some ys" using Suc(2) True j by (simp add: cmp_at_inside swap_inside)
    have "settling ?xs j i"
      unfolding settling_def
    proof (intro allI impI)
      fix a b assume ab: "a < b \<and> b \<le> i \<and> b \<noteq> j"
      then have n: "?xs ! a = (if a = j then xs ! Suc j else if a = Suc j then xs ! j else xs ! a)"
        "?xs ! b = (if b = Suc j then xs ! j else xs ! b)"
        using nth_exchange[of a xs "Suc j" j] nth_exchange[of b xs "Suc j" j] Suc(4,5) by auto
      show "cmp (?xs ! a) (?xs ! b) \<le> 0"
        using n ab S[of a b] S[of a j] S[of j b] S[of "Suc j" b] total[OF True] Suc(4)
        by (cases "b = Suc j"; cases "a = j"; cases "a = Suc j") auto
    qed
    from Suc.IH[OF run this] Suc(4-7) show ?thesis by simp
  next
    case False
    then have "ys = xs" using Suc(2) j by (simp add: cmp_at_inside)
    moreover have "cmp (xs ! a) (xs ! b) \<le> 0" if "b = Suc j"
      using that S[of a j] False Suc(6) trans[of "xs ! a" "xs ! j" "xs ! Suc j"] Suc(4)
      by (cases "a = j") auto
    ultimately show ?thesis using S[of a b] Suc(6,7) by (cases "b = Suc j") auto
  qed
qed

lemma insertion_loop_sorts:
  "insertion_loop cmp xs i n = Some ys \<Longrightarrow> n \<le> length xs \<Longrightarrow>
    (\<forall>a b. a < b \<and> b < i \<longrightarrow> cmp (xs ! a) (xs ! b) \<le> 0) \<Longrightarrow> i \<le> n \<or> n = 0 \<Longrightarrow>
    a < b \<Longrightarrow> b < n \<Longrightarrow> cmp (ys ! a) (ys ! b) \<le> 0"
proof (induction "n - i" arbitrary: xs i rule: less_induct)
  case less
  show ?case
  proof (cases "i < n")
    case True
    then obtain zs where zs: "insert_down cmp xs i = Some zs" "insertion_loop cmp zs (i + 1) n = Some ys"
      using less(2) by (subst (asm) insertion_loop.simps) (auto split: Option.bind_splits)
    have len: "length zs = length xs" using insert_down_inside[of i xs cmp] zs(1) True less(3) mset_eq_length by force
    have "settling xs i i" using less(4) by (auto simp: settling_def dest: le_neq_implies_less)
    from insert_down_settles[OF zs(1) this] have "\<forall>a b. a < b \<and> b < i + 1 \<longrightarrow> cmp (zs ! a) (zs ! b) \<le> 0"
      using True less(3) by simp
    from less(1)[OF _ zs(2) _ this] show ?thesis using True less(3,6,7) len by simp
  next
    case False
    then show ?thesis using less(2,4-7) by (subst (asm) insertion_loop.simps) auto
  qed
qed

end

section \<open>Heap sort sorts\<close>

lemma set_take_perm: "mset ys = mset xs \<Longrightarrow> drop n ys = drop n xs \<Longrightarrow> set (take n ys) = set (take n xs)"
proof -
  assume a: "mset ys = mset xs" "drop n ys = drop n xs"
  have "mset (take n zs) + mset (drop n zs) = mset zs" for zs :: "'a list"
    by (simp flip: mset_append)
  from this[of xs] this[of ys] have "mset (take n ys) = mset (take n xs)"
    using a by (metis add_right_cancel)
  then show ?thesis by (rule mset_eq_setD)
qed

context comparator begin

text \<open>The first \<open>n\<close> elements are a heap from position \<open>lo\<close> on, except possibly at the children of \<open>r\<close>.\<close>

definition heap_but :: "'a list \<Rightarrow> nat \<Rightarrow> nat \<Rightarrow> nat \<Rightarrow> bool" where
  "heap_but xs lo r n \<longleftrightarrow>
     (\<forall>c. 0 < c \<and> c < n \<and> lo \<le> (c - 1) div 2 \<and> (c - 1) div 2 \<noteq> r \<longrightarrow> cmp (xs ! c) (xs ! ((c - 1) div 2)) \<le> 0) \<and>
     (lo \<le> (r - 1) div 2 \<and> 0 < r \<longrightarrow>
       (\<forall>c. 0 < c \<and> c < n \<and> (c - 1) div 2 = r \<longrightarrow> cmp (xs ! c) (xs ! ((r - 1) div 2)) \<le> 0))"

definition heap :: "'a list \<Rightarrow> nat \<Rightarrow> nat \<Rightarrow> bool" where
  "heap xs lo n \<longleftrightarrow>
     (\<forall>c. 0 < c \<and> c < n \<and> lo \<le> (c - 1) div 2 \<longrightarrow> cmp (xs ! c) (xs ! ((c - 1) div 2)) \<le> 0)"

lemma child_cases:
  assumes "0 < (c :: nat)" and "(c - 1) div 2 = r"
  shows "c = r * 2 + 1 \<or> c = r * 2 + 2"
  using assms by auto

lemma larger_child_max:
  assumes "0 < c" "c < n" "(c - 1) div 2 = r"
  shows "cmp (xs ! c) (xs ! larger_child cmp xs r n) \<le> 0"
  using child_cases[OF assms(1,3)] assms(2) refl ge[of "xs ! (r * 2 + 1)" "xs ! (r * 2 + 2)"]
  by (auto simp: larger_child_def)

lemma sink_heap:
  assumes "sink cmp xs r n = Some ys" and "heap_but xs lo r n" and "lo \<le> r" and "n \<le> length xs"
  shows "heap ys lo n"
  using assms
proof (induction "n - r" arbitrary: xs r rule: less_induct)
  case less
  have B1: "cmp (xs ! c) (xs ! ((c - 1) div 2)) \<le> 0"
    if "0 < c" "c < n" "lo \<le> (c - 1) div 2" "(c - 1) div 2 \<noteq> r" for c
    using less(3) that unfolding heap_but_def by blast
  have B2: "cmp (xs ! c) (xs ! ((r - 1) div 2)) \<le> 0"
    if "lo \<le> (r - 1) div 2" "0 < r" "0 < c" "c < n" "(c - 1) div 2 = r" for c
    using less(3) that unfolding heap_but_def by blast
  show ?case
  proof (cases "r * 2 + 1 < n")
    case False
    have "cmp (xs ! c) (xs ! ((c - 1) div 2)) \<le> 0" if "0 < c" "c < n" "lo \<le> (c - 1) div 2" for c
    proof -
      have "(c - 1) div 2 \<noteq> r" using False that(1,2) by auto
      then show ?thesis by (rule B1[OF that])
    qed
    then show ?thesis using less(2) False by (simp add: sink_stop heap_def)
  next
    case True
    define d where "d = larger_child cmp xs r n"
    have d: "d < n" "(d - 1) div 2 = r" "r < d" "r < length xs" "d < length xs"
      using larger_child_bounds[OF True, of cmp xs] less(5) by (auto simp: d_def)
    note step = sink_step[OF True less(5), of cmp, folded d_def]
    show ?thesis
    proof (cases "cmp (xs ! r) (xs ! d) > 0")
      case gt: True
      have "cmp (xs ! c) (xs ! ((c - 1) div 2)) \<le> 0" if "0 < c" "c < n" "lo \<le> (c - 1) div 2" for c
      proof (cases "(c - 1) div 2 = r")
        case True
        then show ?thesis
          using trans[OF larger_child_max[OF that(1,2) True] total[OF gt, unfolded d_def]] by simp
      qed (rule B1[OF that])
      then show ?thesis using less(2) gt step by (simp add: heap_def)
    next
      case le: False
      let ?xs = "xs[r := xs ! d, d := xs ! r]"
      have run: "sink cmp ?xs d n = Some ys" using less(2) le step d by (simp add: swap_inside)
      have nth: "?xs ! k = (if k = d then xs ! r else if k = r then xs ! d else xs ! k)" if "k < n" for k
        using nth_exchange[of k xs r d] that less(5) by simp
      have "heap_but ?xs lo d n"
        unfolding heap_but_def
      proof (intro conjI impI allI)
        fix c assume c': "0 < c \<and> c < n \<and> lo \<le> (c - 1) div 2 \<and> (c - 1) div 2 \<noteq> d"
        define p where "p = (c - 1) div 2"
        have c: "0 < c" "c < n" "lo \<le> p" "p \<noteq> d" using c' by (simp_all add: p_def)
        have p: "p < c" "p < n" using c(1,2) unfolding p_def by linarith+
        have "cmp (?xs ! c) (?xs ! p) \<le> 0"
        proof (cases "p = r")
          case True
          have "cmp (xs ! c) (xs ! d) \<le> 0"
            using larger_child_max[OF c(1,2), of r xs] True by (simp add: d_def p_def)
          moreover have "cmp (xs ! r) (xs ! d) \<le> 0" using le by simp
          ultimately show ?thesis using nth[OF c(2)] nth[OF p(2)] True d(3) p(1) by simp
        next
          case False
          have "c \<noteq> d" using d(2) False by (auto simp: p_def)
          show ?thesis
          proof (cases "c = r")
            case True
            then have "cmp (xs ! d) (xs ! p) \<le> 0" using B2[of d] c d(1-3) by (simp add: p_def)
            then show ?thesis using nth[OF c(2)] nth[OF p(2)] True False d(3) c(4) by simp
          next
            case F: False
            have "cmp (xs ! c) (xs ! p) \<le> 0" using B1[of c] c False by (simp add: p_def)
            then show ?thesis using nth[OF c(2)] nth[OF p(2)] F False \<open>c \<noteq> d\<close> c(4) by simp
          qed
        qed
        then show "cmp (?xs ! c) (?xs ! ((c - 1) div 2)) \<le> 0" unfolding p_def .
      next
        fix c assume c: "0 < c \<and> c < n \<and> (c - 1) div 2 = d"
        then have p: "d < c" by linarith
        have "cmp (xs ! c) (xs ! d) \<le> 0" using B1[of c] c d(3) less(4) by simp
        moreover have "r < n" using d by simp
        ultimately show "cmp (?xs ! c) (?xs ! ((d - 1) div 2)) \<le> 0"
          using nth[of c] nth[of r] c p d(2,3) by simp
      qed
      moreover have "n - d < n - r" "lo \<le> d" "n \<le> length ?xs" using d less(4,5) by auto
      ultimately show ?thesis using less(1)[of d ?xs] run by blast
    qed
  qed
qed

lemma build_heap_heap:
  "build_heap cmp xs i n = Some ys \<Longrightarrow> heap xs i n \<Longrightarrow> n \<le> length xs \<Longrightarrow> heap ys 0 n"
proof (induction i arbitrary: xs)
  case (Suc i)
  then obtain zs where zs: "sink cmp xs i n = Some zs" "build_heap cmp zs i n = Some ys"
    by (auto split: Option.bind_splits)
  have "heap_but xs i i n"
    using Suc(3) unfolding heap_def heap_but_def by (auto simp: not_less_eq_eq)
  then have "heap zs i n" using sink_heap[OF zs(1)] Suc(4) by simp
  moreover have "length zs = length xs" using sink_inside[OF Suc(4), of cmp i] zs(1) mset_eq_length by force
  ultimately show ?case using Suc.IH[OF zs(2)] Suc(4) by simp
qed simp

lemma heap_root: "heap xs 0 n \<Longrightarrow> k < n \<Longrightarrow> cmp (xs ! k) (xs ! 0) \<le> 0"
proof (induction k rule: less_induct)
  case (less k)
  show ?case
  proof (cases k)
    case (Suc m)
    then have "cmp (xs ! k) (xs ! ((k - 1) div 2)) \<le> 0" "(k - 1) div 2 < k" using less(2,3) by (auto simp: heap_def)
    with trans less(1)[of "(k - 1) div 2"] less(2,3) show ?thesis by fastforce
  qed (simp add: refl)
qed

lemma extract_max_sorts:
  assumes "extract_max cmp xs i = Some ys" and "heap xs 0 (Suc i)" and "i < length xs"
    and "\<forall>a b. a < b \<and> i < b \<and> b < length xs \<longrightarrow> cmp (xs ! a) (xs ! b) \<le> 0"
    and "a < b" and "b < length xs"
  shows "cmp (ys ! a) (ys ! b) \<le> 0"
  using assms
proof (induction i arbitrary: xs)
  case (Suc i)
  let ?xs = "xs[0 := xs ! Suc i, Suc i := xs ! 0]" and ?n = "Suc (Suc i)"
  have i: "0 < length xs" "Suc i < length xs" using Suc(4) by linarith+
  obtain zs where zs: "sink cmp ?xs 0 (Suc i) = Some zs" "extract_max cmp zs i = Some ys"
    using Suc(2) swap_inside[OF i] by (auto split: Option.bind_splits)
  have "Suc i \<le> length ?xs" using i by simp
  from sink_inside[OF this, of cmp 0] zs(1) have p: "mset zs = mset ?xs" "drop (Suc i) zs = drop (Suc i) ?xs" by auto
  then have len: "length zs = length xs" using mset_eq_length by fastforce
  have high: "zs ! k = (if k = Suc i then xs ! 0 else xs ! k)" if "Suc i \<le> k" "k < length xs" for k
  proof -
    have "zs ! k = drop (Suc i) zs ! (k - Suc i)" using that len by simp
    also have "\<dots> = ?xs ! k" unfolding p(2) using that by simp
    finally show ?thesis using nth_exchange[of k xs 0 "Suc i"] that by auto
  qed
  have "drop ?n zs = drop ?n xs"
    using high len by (intro nth_equalityI) auto
  then have "set (take ?n zs) = set (take ?n xs)"
    using set_take_perm[of zs xs ?n] p(1) mset_exchange[OF i] by simp
  moreover have "zs ! k \<in> set (take ?n zs)" if "k \<le> Suc i" for k
    using that i len by (auto simp: in_set_conv_nth intro!: exI[of _ k])
  ultimately have low: "\<exists>h \<le> Suc i. zs ! k = xs ! h" if "k \<le> Suc i" for k
    using that i(2) by (fastforce simp: in_set_conv_nth less_Suc_eq_le)
  have "heap_but ?xs 0 0 (Suc i)"
    unfolding heap_but_def
  proof (intro conjI impI allI)
    fix c assume c: "0 < c \<and> c < Suc i \<and> 0 \<le> (c - 1) div 2 \<and> (c - 1) div 2 \<noteq> 0"
    then have "?xs ! c = xs ! c" "?xs ! ((c - 1) div 2) = xs ! ((c - 1) div 2)" by auto
    then show "cmp (?xs ! c) (?xs ! ((c - 1) div 2)) \<le> 0" using Suc(3) c by (simp add: heap_def)
  qed simp
  then have "heap zs 0 (Suc i)" using sink_heap[OF zs(1)] i by simp
  moreover have "cmp (zs ! a) (zs ! b) \<le> 0" if ab: "a < b" "i < b" "b < length zs" for a b
  proof (cases "b = Suc i")
    case True
    obtain h where "h \<le> Suc i" "zs ! a = xs ! h" using low[of a] ab True by auto
    then show ?thesis using heap_root[OF Suc(3), of h] high[of b] True i by simp
  next
    case False
    then have b: "zs ! b = xs ! b" "Suc i < b" "b < length xs" using high[of b] ab len by auto
    show ?thesis
    proof (cases "a \<le> Suc i")
      case True
      then obtain h where "h \<le> Suc i" "zs ! a = xs ! h" using low by blast
      then show ?thesis using Suc(5) b by auto
    next
      case False
      then show ?thesis using Suc(5) high[of a] b ab by auto
    qed
  qed
  ultimately show ?case using Suc.IH[OF zs(2)] len i Suc(6,7) by simp
qed simp

lemma heapsortx_sorts:
  assumes "heapsortx cmp xs = Some ys" and "a < b" and "b < length xs"
  shows "cmp (ys ! a) (ys ! b) \<le> 0"
proof -
  let ?n = "length xs"
  from assms obtain zs where zs: "build_heap cmp xs (?n div 2) ?n = Some zs" "extract_max cmp zs (?n - 1) = Some ys"
    by (auto simp: heapsortx_def Let_def split: Option.bind_splits if_splits)
  have len: "length zs = ?n" using build_heap_inside[of ?n xs cmp "?n div 2"] zs(1) mset_eq_length by force
  have "heap xs (?n div 2) ?n"
    unfolding heap_def
  proof (intro allI impI)
    fix c assume c: "0 < c \<and> c < ?n \<and> ?n div 2 \<le> (c - 1) div 2"
    then have "?n div 2 * 2 \<le> (c - 1) div 2 * 2" by simp
    also have "\<dots> \<le> c - 1" by simp
    finally show "cmp (xs ! c) (xs ! ((c - 1) div 2)) \<le> 0" using c by linarith
  qed
  moreover have "Suc (?n - 1) = ?n" using assms(2,3) by linarith
  ultimately have "heap zs 0 (Suc (?n - 1))" using build_heap_heap[OF zs(1)] by simp
  moreover have "?n - 1 < length zs" using assms(2,3) len by linarith
  moreover have "\<forall>a b. a < b \<and> ?n - 1 < b \<and> b < length zs \<longrightarrow> cmp (zs ! a) (zs ! b) \<le> 0"
    using len by (intro allI impI) linarith
  ultimately show ?thesis using len assms(2,3) by (intro extract_max_sorts[OF zs(2)]) simp_all
qed

text \<open>Three parts around a pivot are sorted as soon as the outer ones are.\<close>

lemma sorted_around:
  assumes "sorted_wrt (\<lambda>x y. cmp x y \<le> 0) A" and "sorted_wrt (\<lambda>x y. cmp x y \<le> 0) B"
    and "\<And>x. x \<in> set A \<Longrightarrow> cmp pv x > 0" and "\<And>x. x \<in> set M \<Longrightarrow> cmp pv x = 0 \<or> x = pv"
    and "\<And>x. x \<in> set B \<Longrightarrow> cmp pv x < 0"
  shows "sorted_wrt (\<lambda>x y. cmp x y \<le> 0) (A @ M @ B)"
proof -
  have A: "cmp x pv \<le> 0" if "x \<in> set A" for x using total assms(3)[OF that] by blast
  have M: "cmp x pv \<le> 0 \<and> cmp pv x \<le> 0" if "x \<in> set M" for x using ge[of pv x] assms(4)[OF that] refl by force
  have B: "cmp pv x \<le> 0" if "x \<in> set B" for x using assms(5)[OF that] by simp
  have "sorted_wrt (\<lambda>x y. cmp x y \<le> 0) M"
    unfolding sorted_wrt_iff_nth_less
    by (intro allI impI trans[OF conjunct1[OF M] conjunct2[OF M]] nth_mem) linarith+
  moreover have "cmp x y \<le> 0" if "x \<in> set A \<union> set M" "y \<in> set M \<union> set B" for x y
    using trans[of x pv y] A M B that by blast
  ultimately show ?thesis using assms(1,2) by (simp add: sorted_wrt_append)
qed

end

definition sorted_if :: "'a cmp_f \<Rightarrow> 'a list \<Rightarrow> bool" where
  "sorted_if cmp xs \<longleftrightarrow> (comparator cmp \<longrightarrow> sorted_wrt (\<lambda>x y. cmp x y \<le> 0) xs)"

lemma sorted_parts:
  assumes "sorted_if cmp A" and "sorted_if cmp B" and "\<And>x. x \<in> set A \<Longrightarrow> cmp pv x > 0"
    and "\<And>x. x \<in> set M \<Longrightarrow> cmp pv x = 0 \<or> x = pv" and "\<And>x. x \<in> set B \<Longrightarrow> cmp pv x < 0"
  shows "sorted_if cmp (A @ M @ B)"
  using assms comparator.sorted_around[of cmp A B pv M] unfolding sorted_if_def by blast

section \<open>Quicksort\<close>

lemma on_slice_append: "p = length P \<Longrightarrow> n = length S \<Longrightarrow>
    on_slice p n f (P @ S @ Q) = map_option (\<lambda>(ys, r). (P @ ys @ Q, r)) (f S)"
  by (simp add: on_slice_def)

lemma sorted_ifI: "length ys = length xs \<Longrightarrow>
    (\<And>a b. comparator cmp \<Longrightarrow> a < b \<Longrightarrow> b < length xs \<Longrightarrow> cmp (ys ! a) (ys ! b) \<le> 0) \<Longrightarrow> sorted_if cmp ys"
  by (simp add: sorted_if_def sorted_wrt_iff_nth_less)

lemma insertion_sorts: "\<exists>ys. insertion_loop cmp xs 1 (length xs) = Some ys \<and> mset ys = mset xs \<and> sorted_if cmp ys"
proof -
  obtain ys where ys: "insertion_loop cmp xs 1 (length xs) = Some ys" "mset ys = mset xs"
    using insertion_loop_inside[of "length xs" xs cmp 1] by blast
  moreover have "sorted_if cmp ys"
    by (rule sorted_ifI[OF mset_eq_length[OF ys(2)]], rule comparator.insertion_loop_sorts[OF _ ys(1)]) auto
  ultimately show ?thesis by blast
qed

lemma heapsort_sorts: "\<exists>ys. heapsortx cmp xs = Some ys \<and> mset ys = mset xs \<and> sorted_if cmp ys"
proof -
  obtain ys where ys: "heapsortx cmp xs = Some ys" "mset ys = mset xs" using heapsortx_inside by blast
  moreover have "sorted_if cmp ys"
    by (rule sorted_ifI[OF mset_eq_length[OF ys(2)]], rule comparator.heapsortx_sorts[OF _ ys(1)])
  ultimately show ?thesis by blast
qed

lemma sort_loop_next:
  assumes "split_loop cmp p n d st xs = split_loop cmp p' n' d' st' ys"
  shows "sort_loop cmp ((p, n, d) # st) xs = sort_loop cmp ((p', n', d') # st') ys"
  by (simp add: assms)

lemma push_inside: "length st < 50 \<Longrightarrow> push_segment s st = Some (s # st)"
  by (simp add: push_segment_def)

text \<open>
  The driver sorts the segment on top of its stack and goes on with the rest. An entry at position \<open>k\<close> of
  the stack has at least depth \<open>k\<close>, and none is pushed at depth 50, so the stack has room.
\<close>

lemma sort_loop_top:
  assumes "length st \<le> d" and "d \<le> 50"
  shows "\<exists>zs. mset zs = mset S \<and> sorted_if cmp zs \<and>
    sort_loop cmp ((length P, length S, d) # st) (P @ S @ Q) = sort_loop cmp st (P @ zs @ Q)"
  using assms
proof (induction "50 - d" arbitrary: d st S P Q rule: less_induct)
  case less
  let ?p = "length P" and ?n = "length S"
  consider "?n \<le> 6" | "6 < ?n" "d = 50" | "6 < ?n" "d < 50" using less(3) by linarith
  then show ?case
  proof cases
    case 1
    then have "split_loop cmp ?p ?n d st (P @ S @ Q) = Some (?p, ?n, st, P @ S @ Q)"
      by (subst split_loop.simps) simp
    then show ?thesis using insertion_sorts[of cmp S] by (auto simp: on_slice_append)
  next
    case 2
    obtain zs where zs: "heapsortx cmp S = Some zs" "mset zs = mset S" "sorted_if cmp zs"
      using heapsort_sorts by blast
    then have "split_loop cmp ?p ?n d st (P @ S @ Q) = Some (?p, 0, st, P @ zs @ Q)"
      using 2 by (subst split_loop.simps) (simp add: on_slice_append)
    moreover have "on_slice ?p 0 (\<lambda>ys. map_option (\<lambda>zs. (zs, ())) (insertion_loop cmp ys 1 0)) (P @ zs @ Q) =
        Some (P @ zs @ Q, ())"
      by (subst insertion_loop.simps) (simp add: on_slice_def)
    ultimately show ?thesis using zs by auto
  next
    case 3
    then obtain ys lt gt pv where part: "partition_seg cmp S = Some (ys, lt, gt)" "mset ys = mset S"
      "lt < gt" "gt \<le> length ys" "\<forall>k < lt. cmp pv (ys ! k) > 0"
      "\<forall>k. lt \<le> k \<and> k < gt \<longrightarrow> cmp pv (ys ! k) = 0 \<or> ys ! k = pv"
      "\<forall>k. gt \<le> k \<and> k < length ys \<longrightarrow> cmp pv (ys ! k) < 0"
      using partition_seg_inside[of S cmp] by blast
    define A M B where "A = take lt ys" and "M = drop lt (take gt ys)" and "B = drop gt ys"
    have len: "length ys = ?n" using part(2) by (rule mset_eq_length)
    have "A @ M = take gt ys"
      using append_take_drop_id[of lt "take gt ys"] part(3) by (simp add: A_def M_def min_def)
    then have "A @ M @ B = ys" using append_take_drop_id[of gt ys] unfolding B_def append_assoc[symmetric] by simp
    then have ABM: "ys = A @ M @ B" "length A = lt" "length (A @ M) = gt" "length B = ?n - gt"
      using part(3,4) len by (simp_all add: A_def M_def B_def)
    have "cmp pv x = 0 \<or> x = pv" if "x \<in> set M" for x
    proof -
      from that obtain k where "k < gt - lt" "x = ys ! (lt + k)"
        using part(3,4) by (auto simp: M_def in_set_conv_nth)
      then show ?thesis using part(6)[rule_format, of "lt + k"] by simp
    qed
    then have sides: "x \<in> set A \<Longrightarrow> cmp pv x > 0" "x \<in> set M \<Longrightarrow> cmp pv x = 0 \<or> x = pv"
      "x \<in> set B \<Longrightarrow> cmp pv x < 0" for x
      using part(3-5,7) by (auto simp: A_def B_def in_set_conv_nth)
    have st: "length st < 50" "length st \<le> d + 1" "d + 1 \<le> 50" "50 - (d + 1) < 50 - d" using less(2) 3 by auto
    have slice: "on_slice ?p ?n (partition_seg cmp) (P @ S @ Q) = Some (P @ A @ M @ B @ Q, lt, gt)"
      using part(1) ABM(1) by (simp add: on_slice_append)
    note ih = less(1)[OF st(4) _ st(3)]
    show ?thesis
    proof (cases "lt > ?n - gt")
      case True
      let ?st = "(?p, lt, d + 1) # st"
      have "split_loop cmp ?p ?n d st (P @ S @ Q) = split_loop cmp (?p + gt) (?n - gt) (d + 1) ?st (P @ A @ M @ B @ Q)"
        using 3 slice True push_inside[OF st(1)] by (subst split_loop.simps) simp
      note run = sort_loop_next[OF this]
      have "length ?st \<le> d + 1" using less(2) by simp
      from ih[OF this, of B "P @ A @ M" Q] obtain b where b: "mset b = mset B" "sorted_if cmp b"
        "sort_loop cmp ((?p + gt, ?n - gt, d + 1) # ?st) (P @ A @ M @ B @ Q) = sort_loop cmp ?st (P @ A @ M @ b @ Q)"
        using ABM(3,4) by auto
      from ih[OF st(2), of A P "M @ b @ Q"] obtain a where a: "mset a = mset A" "sorted_if cmp a"
        "sort_loop cmp ?st (P @ A @ M @ b @ Q) = sort_loop cmp st (P @ a @ M @ b @ Q)"
        using ABM(2) by auto
      have "sorted_if cmp (a @ M @ b)"
        using sorted_parts[OF a(2) b(2)] sides mset_eq_setD[OF a(1)] mset_eq_setD[OF b(1)] by blast
      moreover have "mset (a @ M @ b) = mset S" using a(1) b(1) part(2) ABM(1) by simp
      ultimately show ?thesis using run a(3) b(3) by (intro exI[of _ "a @ M @ b"]) simp
    next
      case False
      let ?st = "(?p + gt, ?n - gt, d + 1) # st"
      have "split_loop cmp ?p ?n d st (P @ S @ Q) = split_loop cmp ?p lt (d + 1) ?st (P @ A @ M @ B @ Q)"
        using 3 slice False push_inside[OF st(1)] by (subst split_loop.simps) simp
      note run = sort_loop_next[OF this]
      have "length ?st \<le> d + 1" using less(2) by simp
      from ih[OF this, of A P "M @ B @ Q"] obtain a where a: "mset a = mset A" "sorted_if cmp a"
        "sort_loop cmp ((?p, lt, d + 1) # ?st) (P @ A @ M @ B @ Q) = sort_loop cmp ?st (P @ a @ M @ B @ Q)"
        using ABM(2) by auto
      from ih[OF st(2), of B "P @ a @ M" Q] obtain b where b: "mset b = mset B" "sorted_if cmp b"
        "sort_loop cmp ?st (P @ a @ M @ B @ Q) = sort_loop cmp st (P @ a @ M @ b @ Q)"
        using ABM(2-4) mset_eq_length[OF a(1)] by auto
      have "sorted_if cmp (a @ M @ b)"
        using sorted_parts[OF a(2) b(2)] sides mset_eq_setD[OF a(1)] mset_eq_setD[OF b(1)] by blast
      moreover have "mset (a @ M @ b) = mset S" using a(1) b(1) part(2) ABM(1) by simp
      ultimately show ?thesis using run a(3) b(3) by (intro exI[of _ "a @ M @ b"]) simp
    qed
  qed
qed

lemma rqsort_run: "\<exists>ys. rqsort cmp xs = Some ys \<and> mset ys = mset xs \<and> sorted_if cmp ys"
proof (cases "length xs < 2")
  case True
  then have "sorted_if cmp xs" unfolding sorted_if_def by (cases xs) auto
  then show ?thesis using True by (simp add: rqsort_def)
next
  case False
  then show ?thesis
    using sort_loop_top[of "[]" 0 xs cmp "[]" "[]"] by (auto simp: rqsort_def push_inside)
qed

lemma rqsort_returns_sorted: "comparator cmp \<Longrightarrow>
    \<exists>ys. rqsort cmp xs = Some ys \<and> mset ys = mset xs \<and> sorted_wrt (\<lambda>x y. cmp x y \<le> 0) ys"
  using rqsort_run[of cmp xs] by (auto simp: sorted_if_def)

lemma comparator_difference: "comparator (\<lambda>x y. f x - f y)"
  by unfold_locales auto

lemma comparator_order: "comparator (\<lambda>x y. of_bool (f y < f x) - of_bool (f y > (f x :: 'b :: linorder)))"
  by unfold_locales auto

section \<open>Properties\<close>

text \<open>
  \<^bold>\<open>C30.\<close> Whatever the comparison function answers, consistent or not, \<open>rqsort\<close> returns: it never leaves
  its array, its stack of 50 segments never overflows, and the result is a permutation.
\<close>

theorem rqsort_safe: "\<exists>ys. rqsort cmp xs = Some ys \<and> mset ys = mset xs"
  using rqsort_run[of cmp xs] by blast

text \<open>
  \<^bold>\<open>C31.\<close> With a comparison that is a total preorder \<open>rqsort\<close> sorts, on the path of the insertion sort,
  of the three-way partition and of the fallback to heap sort alike.
\<close>

theorem rqsort_sorts:
  assumes "comparator cmp"
  shows "\<exists>ys. rqsort cmp xs = Some ys \<and> mset ys = mset xs \<and> sorted_wrt (\<lambda>x y. cmp x y \<le> 0) ys"
  by (rule rqsort_returns_sorted[OF assms])

theorem rqsort_sorts_witness:
  "\<exists>ys. rqsort (-) [5, 3, 9, 1, 8, 2, 7, 3 :: int] = Some ys \<and> mset ys = mset [5, 3, 9, 1, 8, 2, 7, 3] \<and>
    sorted_wrt (\<lambda>x y. x - y \<le> 0) ys"
  by (rule rqsort_sorts) (rule comparator_difference[of "\<lambda>x. x"])

end
