(* ===== verification/Uni_Case_Sets.thy ===== *)
theory Uni_Case_Sets
  imports Uni_Case
begin

text \<open>
  What \<open>unicode_case1\<close> of \<open>libunicode.c\<close> computes. The case table is checked once by
  evaluation: its entries ascend without overlap, and no run maps a character to itself. The rest is
  proved from these checks, for the binary search, for the points of each entry, and for
  the conversions of each run type.
\<close>

section \<open>The table of entries\<close>

text \<open>Entries ascend without overlap, and special runs have the lengths their conversion needs.\<close>

definition entry_ok :: "int \<Rightarrow> bool" where
  "entry_ok n \<longleftrightarrow> n div 16 mod 16 < 14 \<and> (n div 16 mod 16 = 4 \<longrightarrow> even (n div 256 mod 128)) \<and>
     (n div 16 mod 16 = 5 \<longrightarrow> n div 256 mod 128 = 3)"

fun entries_ok :: "int \<Rightarrow> int list \<Rightarrow> bool" where
  "entries_ok lo (n # ns) \<longleftrightarrow>
     lo \<le> n div 32768 \<and> entry_ok n \<and> entries_ok (n div 32768 + n div 256 mod 128) ns"
| "entries_ok lo [] \<longleftrightarrow> True"

lemma case_conv_table1_ok: "entries_ok 0 (map uint case_conv_table1)"
  by code_simp

lemma case_conv_table1_not_Nil: "case_conv_table1 \<noteq> []"
  by (simp add: case_conv_table1_def)

lemma unat_and_mask: "unat (v AND w) = unat (v :: u32) mod 2 ^ n" if "unat w = 2 ^ n - 1"
  using nat_and_mask[of "unat v" n] that by (simp add: unsigned_and_eq mask_eq_exp_minus_1)

lemma uint_entry_code: "uint (entry_code v) = uint v div 32768"
proof -
  have "int (unat (entry_code v)) = int (unat v div 32768)" by (simp only: entry_code_def unat_drop_bit) simp
  then show ?thesis by (simp add: zdiv_int)
qed

lemma uint_entry_len: "uint (entry_len v) = uint v div 256 mod 128"
proof -
  have "unat (entry_len v) = unat v div 256 mod 128"
    using unat_and_mask[of "0x7f" 7 "drop_bit 8 v"] by (simp add: entry_len_def unat_drop_bit)
  then have "int (unat (entry_len v)) = int (unat v div 256 mod 128)" by (simp only:)
  then show ?thesis by (simp add: zdiv_int zmod_int)
qed

lemma uint_entry_type: "uint (entry_type v) = uint v div 16 mod 16"
proof -
  have "unat (entry_type v) = unat v div 16 mod 16"
    using unat_and_mask[of "0xf" 4 "drop_bit 4 v"] by (simp add: entry_type_def unat_drop_bit)
  then have "int (unat (entry_type v)) = int (unat v div 16 mod 16)" by (simp only:)
  then show ?thesis by (simp add: zdiv_int zmod_int)
qed

text \<open>The characters of an entry.\<close>

definition covers :: "u32 \<Rightarrow> u32 \<Rightarrow> bool" where
  "covers v c \<longleftrightarrow> entry_code v \<le> c \<and> c < entry_code v + entry_len v"

lemma uint_code_len: "uint (entry_code v + entry_len v) = uint (entry_code v) + uint (entry_len v)"
proof -
  have "uint v div 32768 < 131072" using uint_bounded[of v] by simp
  moreover have "uint v div 256 mod 128 < 128" by simp
  ultimately have "uint (entry_code v) + uint (entry_len v) < 4294967296"
    unfolding uint_entry_code uint_entry_len by linarith
  then show ?thesis by (simp add: uint_plus_if')
qed

lemma entries_ok_low:
  "entries_ok lo (map uint vs) \<Longrightarrow> v \<in> set vs \<Longrightarrow> lo \<le> uint (entry_code v) \<and> entry_ok (uint v)"
proof (induction vs arbitrary: lo)
  case (Cons w vs)
  have "0 \<le> uint w div 256 mod 128" by simp
  then have "lo \<le> uint w div 32768 + uint w div 256 mod 128" using Cons(2) by simp linarith
  with Cons show ?case by (force simp: uint_entry_code)
qed simp

lemma entries_ok_apart:
  "entries_ok lo (map uint vs) \<Longrightarrow> i < j \<Longrightarrow> j < length vs \<Longrightarrow>
    uint (entry_code (vs ! i)) + uint (entry_len (vs ! i)) \<le> uint (entry_code (vs ! j))"
proof (induction vs arbitrary: lo i j)
  case (Cons w vs)
  then obtain k where k: "j = Suc k" by (cases j) auto
  have ok: "entries_ok (uint w div 32768 + uint w div 256 mod 128) (map uint vs)" using Cons(2) by simp
  show ?case
  proof (cases i)
    case 0
    then show ?thesis using entries_ok_low[OF ok, of "vs ! k"] Cons(4) k
      by (simp add: uint_entry_code uint_entry_len)
  next
    case (Suc h)
    then show ?thesis using Cons.IH[OF ok, of h k] Cons(3,4) k by simp
  qed
qed simp

lemma covers_uint: "covers v c \<longleftrightarrow>
    uint (entry_code v) \<le> uint c \<and> uint c < uint (entry_code v) + uint (entry_len v)"
  by (simp add: covers_def word_le_def word_less_def uint_code_len)

text \<open>The binary search finds the entry that covers a character, if there is one.\<close>

lemma case_search_props:
  assumes "0 \<le> i" "j < int (length case_conv_table1)"
    and "\<And>k. k < length case_conv_table1 \<Longrightarrow> covers (case_conv_table1 ! k) c \<Longrightarrow> i \<le> int k \<and> int k \<le> j"
  shows "case case_search c i j of
      Some k \<Rightarrow> k < length case_conv_table1 \<and> covers (case_conv_table1 ! k) c
    | None \<Rightarrow> \<forall>k < length case_conv_table1. \<not> covers (case_conv_table1 ! k) c"
  using assms
proof (induction c i j rule: case_search.induct)
  case (1 c i j)
  show ?case
  proof (cases "i \<le> j")
    case False
    then show ?thesis using 1(5) by (subst case_search.simps) fastforce
  next
    case True
    define idx where "idx = (j + i) div 2"
    define v where "v = case_conv_table1 ! nat idx"
    have idx: "i \<le> idx" "idx \<le> j" "nat idx < length case_conv_table1" using True 1(3,4) by (auto simp: idx_def)
    note apart = entries_ok_apart[OF case_conv_table1_ok]
    show ?thesis
    proof (cases "c < entry_code v")
      case lt: True
      have "i \<le> int k \<and> int k \<le> idx - 1" if k: "k < length case_conv_table1" "covers (case_conv_table1 ! k) c" for k
      proof -
        have "int k < idx"
        proof (rule ccontr)
          assume "\<not> int k < idx"
          then have "nat idx = k \<or> nat idx < k" by auto
          moreover have "uint (entry_code v) \<le> uint (entry_code (case_conv_table1 ! k))" if "nat idx < k"
            using apart[OF that k(1)] uint_nonnegative[of "entry_len (case_conv_table1 ! nat idx)"]
            unfolding v_def by linarith
          ultimately show False using k(2) lt by (auto simp: covers_uint v_def word_less_def)
        qed
        then show ?thesis using 1(5)[OF k] by auto
      qed
      then show ?thesis
        using 1(1)[OF True idx_def v_def refl refl lt] 1(3,4) idx True lt
        by (subst case_search.simps) (simp add: Let_def idx_def[symmetric] v_def[symmetric])
    next
      case ge: False
      show ?thesis
      proof (cases "c \<ge> entry_code v + entry_len v")
        case gt: True
        have "idx + 1 \<le> int k \<and> int k \<le> j" if k: "k < length case_conv_table1" "covers (case_conv_table1 ! k) c" for k
        proof -
          have "idx < int k"
          proof (rule ccontr)
            assume "\<not> idx < int k"
            then have "nat idx = k \<or> k < nat idx" by auto
            moreover have "uint (entry_code (case_conv_table1 ! k)) + uint (entry_len (case_conv_table1 ! k))
                \<le> uint (entry_code v)" if "k < nat idx"
              using apart[OF that idx(3)] by (simp add: v_def)
            ultimately show False using k(2) gt ge
              by (auto simp: covers_uint v_def word_less_def word_le_def uint_code_len)
          qed
          then show ?thesis using 1(5)[OF k] by auto
        qed
        then show ?thesis
          using 1(2)[OF True idx_def v_def refl refl ge gt] 1(3,4) idx True ge gt
          by (subst case_search.simps) (simp add: Let_def idx_def[symmetric] v_def[symmetric])
      next
        case False
        then have "covers v c" using ge by (simp add: covers_def not_le not_less)
        moreover have "case_search c i j = Some (nat idx)" using True ge False
          by (subst case_search.simps) (simp add: Let_def idx_def[symmetric] v_def[symmetric])
        ultimately show ?thesis using idx(3) by (simp add: v_def)
      qed
    qed
  qed
qed

lemma find_entry_cases:
  "case find_entry c of
      Some k \<Rightarrow> k < length case_conv_table1 \<and> covers (case_conv_table1 ! k) c
    | None \<Rightarrow> \<forall>v \<in> set case_conv_table1. \<not> covers v c"
  using case_search_props[of 0 "int (length case_conv_table1) - 1" c]
  by (force simp: find_entry_def in_set_conv_nth split: option.splits)

section \<open>The points of \<open>unicode_case1\<close>\<close>

fun ul_points :: "u32 \<Rightarrow> nat \<Rightarrow> u32 list" where
  "ul_points code (Suc (Suc n)) = code # (code + 1) # ul_points (code + 2) n"
| "ul_points code _ = []"

definition entry_points :: "u32 \<Rightarrow> u32 \<Rightarrow> u32 list" where
  "entry_points case_mask v =
     (let type = entry_type v; code = entry_code v; len = entry_len v;
          both = case_mask AND CASE_U \<noteq> 0 \<and> case_mask AND (CASE_L OR CASE_F) \<noteq> 0
      in if type = RUN_TYPE_UL \<and> \<not> both then
           ul_points (code + of_bool (case_mask AND CASE_U \<noteq> 0)) (unat len)
         else if type = RUN_TYPE_LSU \<and> \<not> both then
           (if case_mask AND CASE_U = 0 then [code, code + 1, code + 1, code + 2]
            else [code + 1, code + 2, code + 2, code + 3])
         else [code, code + len])"

definition selected :: "u32 \<Rightarrow> u32 \<Rightarrow> bool" where
  "selected case_mask v \<longleftrightarrow> drop_bit (unat (entry_type v)) (case_types case_mask) AND 1 \<noteq> 0"

lemma interval_then:
  assumes "cr_wf cr" and "\<And>cr'. cr_wf cr' \<Longrightarrow> cr_list cr' = cr_list cr @ [a, b] \<Longrightarrow>
    cr_returns m (f cr') (\<lambda>xs. xs = cr_list cr' @ zs)"
  shows "cr_returns m (or_fail (cr_add_interval m cr a b) f) (\<lambda>xs. xs = cr_list cr @ a # b # zs)"
  by (rule or_fail_returns[OF cr_add_interval_returns[OF assms(1)]])
    (use assms(2) in \<open>fastforce intro: cr_returns_mono\<close>)

lemma ul_loop_returns:
  assumes "cr_wf cr" and "even (len - i)"
  shows "cr_returns m (ul_loop m cr code i len) (\<lambda>xs. xs = cr_list cr @ ul_points (code + of_nat i) (len - i))"
  using assms
proof (induction "len - i" arbitrary: cr i rule: less_induct)
  case less
  show ?case
  proof (cases "i < len")
    case False
    then show ?thesis using less(2) by (subst ul_loop.simps) simp
  next
    case True
    then obtain n where n: "len - i = Suc (Suc n)" "len - (i + 2) = n"
      using less(3) by (cases "len - i"; cases "len - i - 1") auto
    have e: "code + of_nat (i + 2) = code + of_nat i + 2" by simp
    have "cr_returns m (or_fail (cr_add_interval m cr (code + of_nat i) (code + of_nat i + 1))
        (\<lambda>cr. ul_loop m cr code (i + 2) len))
      (\<lambda>xs. xs = cr_list cr @ (code + of_nat i) # (code + of_nat i + 1) # ul_points (code + of_nat i + 2) n)"
    proof (rule interval_then[OF less(2)])
      fix cr' assume "cr_wf cr'"
      moreover have "len - (i + 2) < len - i" "even (len - (i + 2))" using n less(3) by simp_all
      ultimately have "cr_returns m (ul_loop m cr' code (i + 2) len)
          (\<lambda>xs. xs = cr_list cr' @ ul_points (code + of_nat (i + 2)) (len - (i + 2)))"
        by (intro less(1))
      then show "cr_returns m (ul_loop m cr' code (i + 2) len) (\<lambda>xs. xs = cr_list cr' @ ul_points (code + of_nat i + 2) n)"
        unfolding e n(2) .
    qed
    then show ?thesis using True n(1) by (subst ul_loop.simps) simp
  qed
qed

lemma even_unat: "even (unat x) = even (uint (x :: u32))"
proof -
  have "even (int (unat x)) = even (unat x)" by (rule even_of_nat)
  then show ?thesis by simp
qed

lemma case1_entry_returns:
  assumes "cr_wf cr" and "entry_ok (uint v)"
  shows "cr_returns m (case1_entry m cr case_mask v) (\<lambda>xs. xs = cr_list cr @ entry_points case_mask v)"
proof (cases "entry_type v = RUN_TYPE_UL")
  case True
  have "uint (entry_type v) = 4" using True by simp
  then have "even (uint (entry_len v))" using assms(2) by (simp add: entry_ok_def uint_entry_type uint_entry_len)
  then have "even (unat (entry_len v) - 0)" by (simp add: even_unat)
  from ul_loop_returns[OF assms(1) this, of m] show ?thesis
    using True cr_add_interval_returns[OF assms(1)] by (simp add: case1_entry_def entry_points_def Let_def)
next
  case False
  note add = cr_add_interval_returns
  show ?thesis
  proof (cases "entry_type v = RUN_TYPE_LSU \<and> \<not> (case_mask AND CASE_U \<noteq> 0 \<and> case_mask AND (CASE_L OR CASE_F) \<noteq> 0)")
    case True
    show ?thesis
    proof (cases "case_mask AND CASE_U = 0")
      case U: True
      have "cr_returns m (or_fail (cr_add_interval m cr (entry_code v) (entry_code v + 1))
          (\<lambda>cr. or_fail (cr_add_interval m cr (entry_code v + 1) (entry_code v + 2)) (\<lambda>cr. (0, cr))))
        (\<lambda>xs. xs = cr_list cr @ [entry_code v, entry_code v + 1, entry_code v + 1, entry_code v + 2])"
        by (intro interval_then assms(1)) simp_all
      then show ?thesis using True U by (simp add: case1_entry_def entry_points_def Let_def)
    next
      case U: False
      have "cr_returns m (or_fail (cr_add_interval m cr (entry_code v + 1) (entry_code v + 2))
          (\<lambda>cr. cr_add_interval m cr (entry_code v + 2) (entry_code v + 3)))
        (\<lambda>xs. xs = cr_list cr @ [entry_code v + 1, entry_code v + 2, entry_code v + 2, entry_code v + 3])"
        by (intro interval_then assms(1) add) simp_all
      then show ?thesis using True U by (simp add: case1_entry_def entry_points_def Let_def)
    qed
  next
    case F: False
    show ?thesis using False F add[OF assms(1)]
      unfolding case1_entry_def entry_points_def Let_def by (simp only: if_False simp_thms)
  qed
qed

lemma unicode_case1_returns:
  assumes "cr_wf cr" and "case_mask \<noteq> 0"
  shows "cr_returns m (unicode_case1 m cr case_mask) (\<lambda>xs. xs = cr_list cr @
    concat (map (entry_points case_mask) (filter (selected case_mask) case_conv_table1)))"
proof -
  have "cr_returns m (case1_loop m cr case_mask (case_types case_mask) vs) (\<lambda>xs. xs = cr_list cr @
      concat (map (entry_points case_mask) (filter (selected case_mask) vs)))"
    if "\<forall>v \<in> set vs. entry_ok (uint v)" "cr_wf cr" for vs
    using that
  proof (induction vs arbitrary: cr)
    case (Cons v vs)
    show ?case
    proof (cases "selected case_mask v")
      case True
      have "cr_returns m (or_fail (case1_entry m cr case_mask v)
          (\<lambda>cr. case1_loop m cr case_mask (case_types case_mask) vs)) (\<lambda>xs. xs = cr_list cr @
          entry_points case_mask v @ concat (map (entry_points case_mask) (filter (selected case_mask) vs)))"
      proof (rule or_fail_returns[OF case1_entry_returns])
        fix cr' assume cr': "cr_wf cr'" "cr_list cr' = cr_list cr @ entry_points case_mask v"
        have "\<forall>v \<in> set vs. entry_ok (uint v)" using Cons(2) by simp
        from Cons.IH[OF this cr'(1)]
        show "cr_returns m (case1_loop m cr' case_mask (case_types case_mask) vs) (\<lambda>xs. xs = cr_list cr @
            entry_points case_mask v @ concat (map (entry_points case_mask) (filter (selected case_mask) vs)))"
          by (simp add: cr'(2))
      qed (use Cons(2,3) in simp_all)
      then show ?thesis unfolding case1_loop.simps selected_def[symmetric] using True by simp
    next
      case False
      then show ?thesis using Cons.IH[OF _ Cons(3)] Cons(2)
        unfolding case1_loop.simps selected_def[symmetric] by simp
    qed
  qed simp
  from this[of case_conv_table1] show ?thesis
    using assms entries_ok_low[OF case_conv_table1_ok] by (simp add: unicode_case1_def)
qed

section \<open>The characters of \<open>unicode_case1\<close>\<close>

lemma chars_append: "even (length xs) \<Longrightarrow> chars (xs @ ys) = chars xs \<union> chars ys"
  by (induction xs rule: intervals.induct) (auto simp: Un_assoc)

lemma chars_concat: "\<forall>xs \<in> set xss. even (length xs) \<Longrightarrow> chars (concat xss) = (\<Union>xs \<in> set xss. chars xs)"
  by (induction xss) (auto simp: chars_append)

lemma even_ul_points: "even (length (ul_points code n))"
  by (induction code n rule: ul_points.induct) simp_all

lemma even_entry_points: "even (length (entry_points case_mask v))"
  using even_ul_points by (simp add: entry_points_def Let_def)

lemma uint_add_small: "uint (a :: u32) + k < 4294967296 \<Longrightarrow> 0 \<le> k \<Longrightarrow> uint (a + word_of_int k) = uint a + k"
proof -
  assume a: "uint a + k < 4294967296" "0 \<le> k"
  then have "k mod 4294967296 = k" using uint_nonnegative[of a] by (intro mod_pos_pos_trivial) linarith+
  then show ?thesis using a by (simp add: uint_plus_if' uint_word_of_int)
qed

lemma ul_points_props:
  assumes "uint code + int n < 4294967296" and "even n"
  shows "sorted (ul_points code n) \<and> (\<forall>p \<in> set (ul_points code n). uint code \<le> uint p \<and> uint p < uint code + int n)
    \<and> (\<forall>c. c \<in> chars (ul_points code n) \<longleftrightarrow>
      uint code \<le> uint c \<and> uint c < uint code + int n \<and> even (uint c - uint code))"
  using assms
proof (induction code n rule: ul_points.induct)
  case (1 code n)
  have u: "uint (code + 1) = uint code + 1" "uint (code + 2) = uint code + 2"
    using 1(2) uint_add_small[of code 1] uint_add_small[of code 2] by simp_all
  have ih: "sorted (ul_points (code + 2) n)"
    "\<forall>p \<in> set (ul_points (code + 2) n). uint code + 2 \<le> uint p \<and> uint p < uint code + 2 + int n"
    "\<forall>c. c \<in> chars (ul_points (code + 2) n) \<longleftrightarrow>
      uint code + 2 \<le> uint c \<and> uint c < uint code + 2 + int n \<and> even (uint c - (uint code + 2))"
    using 1 u by simp_all
  have "c \<in> {code..<code + 1} \<longleftrightarrow> uint c = uint code" for c
    using u by (auto simp: word_le_def word_less_def)
  moreover have "uint c = uint code \<or> uint code + 2 \<le> uint c \<and> uint c < uint code + 2 + int n \<and> even (uint c - (uint code + 2))
      \<longleftrightarrow> uint code \<le> uint c \<and> uint c < uint code + int (Suc (Suc n)) \<and> even (uint c - uint code)" for c :: u32
    by presburger
  ultimately have "c \<in> chars (ul_points code (Suc (Suc n))) \<longleftrightarrow>
      uint code \<le> uint c \<and> uint c < uint code + int (Suc (Suc n)) \<and> even (uint c - uint code)" for c
    using ih(3) by simp
  moreover have "sorted (ul_points code (Suc (Suc n)))"
  proof -
    have "code + 1 \<le> p" "code \<le> p" if "p \<in> set (ul_points (code + 2) n)" for p
      using ih(2) that u(1) by (auto simp: word_le_def)
    then show ?thesis using ih(1) u(1) by (auto simp: word_le_def)
  qed
  moreover have "\<forall>p \<in> set (ul_points code (Suc (Suc n))). uint code \<le> uint p \<and> uint p < uint code + int (Suc (Suc n))"
    using ih(2) u(1) by auto
  ultimately show ?case by blast
qed simp_all

text \<open>What remains of an entry that is selected.\<close>

definition entry_chars :: "u32 \<Rightarrow> u32 \<Rightarrow> u32 set" where
  "entry_chars case_mask v =
     (let both = case_mask AND CASE_U \<noteq> 0 \<and> case_mask AND (CASE_L OR CASE_F) \<noteq> 0
      in {c. covers v c \<and>
        (entry_type v = RUN_TYPE_UL \<and> \<not> both \<longrightarrow>
           (odd (uint c - uint (entry_code v)) = (case_mask AND CASE_U \<noteq> 0))) \<and>
        (entry_type v = RUN_TYPE_LSU \<and> \<not> both \<longrightarrow>
           uint c \<noteq> uint (entry_code v) + (if case_mask AND CASE_U \<noteq> 0 then 0 else 2))})"

lemma parity_window:
  fixes C L x :: int
  assumes "even L"
  shows "C + of_bool b \<le> x \<and> x < C + of_bool b + L \<and> even (x - (C + of_bool b)) \<longleftrightarrow>
    C \<le> x \<and> x < C + L \<and> odd (x - C) = b"
proof (cases b)
  case True
  then show ?thesis using assms by simp presburger
qed simp

lemma entry_points_props:
  assumes ok: "entry_ok (uint v)"
  shows "sorted (entry_points case_mask v) \<and>
    (\<forall>p \<in> set (entry_points case_mask v). uint (entry_code v) \<le> uint p \<and> uint p \<le> uint (entry_code v) + uint (entry_len v))
    \<and> chars (entry_points case_mask v) = entry_chars case_mask v"
proof -
  let ?C = "uint (entry_code v)" and ?L = "uint (entry_len v)"
  let ?both = "case_mask AND CASE_U \<noteq> 0 \<and> case_mask AND (CASE_L OR CASE_F) \<noteq> 0"
  have "uint v div 32768 < 131072" using uint_bounded[of v] by simp
  moreover have "uint v div 256 mod 128 < 128" by simp
  ultimately have small: "?C < 131072" "?L < 128" unfolding uint_entry_code uint_entry_len by simp_all
  have k: "uint (entry_code v + 1) = ?C + 1" "uint (entry_code v + 2) = ?C + 2" "uint (entry_code v + 3) = ?C + 3"
    using uint_add_small[of "entry_code v" 1] uint_add_small[of "entry_code v" 2]
      uint_add_small[of "entry_code v" 3] small by simp_all
  consider (ul) "entry_type v = RUN_TYPE_UL" "\<not> ?both" | (lsu) "entry_type v = RUN_TYPE_LSU" "\<not> ?both"
    | (run) "\<not> (entry_type v = RUN_TYPE_UL \<and> \<not> ?both)" "\<not> (entry_type v = RUN_TYPE_LSU \<and> \<not> ?both)" by blast
  then show ?thesis
  proof cases
    case ul
    have "uint (entry_type v) = 4" using ul by simp
    then have ev: "even ?L" using ok by (simp add: entry_ok_def uint_entry_type uint_entry_len)
    let ?u = "of_bool (case_mask AND CASE_U \<noteq> 0)"
    have c: "uint (entry_code v + ?u) = ?C + ?u" using k by simp
    have l: "int (unat (entry_len v)) = ?L" "even (unat (entry_len v))"
      using ev by (simp_all add: even_unat)
    have "uint (entry_code v + ?u) + int (unat (entry_len v)) < 4294967296" using small c by simp
    note P = ul_points_props[OF this l(2), unfolded c l(1)]
    have pts: "entry_points case_mask v = ul_points (entry_code v + ?u) (unat (entry_len v))"
      using ul by (simp add: entry_points_def Let_def)
    have "chars (entry_points case_mask v) = entry_chars case_mask v"
    proof (rule set_eqI)
      fix x
      have "x \<in> chars (entry_points case_mask v) \<longleftrightarrow>
          ?C \<le> uint x \<and> uint x < ?C + ?L \<and> odd (uint x - ?C) = (case_mask AND CASE_U \<noteq> 0)"
        unfolding pts parity_window[OF ev, symmetric] using P by blast
      then show "x \<in> chars (entry_points case_mask v) \<longleftrightarrow> x \<in> entry_chars case_mask v"
        using ul by (auto simp: entry_chars_def Let_def covers_uint)
    qed
    moreover have "\<forall>p \<in> set (entry_points case_mask v). ?C \<le> uint p \<and> uint p \<le> ?C + ?L"
    proof
      fix p assume "p \<in> set (entry_points case_mask v)"
      then have "?C + ?u \<le> uint p" "uint p < ?C + ?u + ?L" using P unfolding pts by blast+
      then show "?C \<le> uint p \<and> uint p \<le> ?C + ?L" by (cases "case_mask AND CASE_U = 0") simp_all
    qed
    ultimately show ?thesis using P pts by simp
  next
    case lsu
    have "uint (entry_type v) = 5" using lsu by simp
    then have l: "?L = 3" using ok by (simp add: entry_ok_def uint_entry_type uint_entry_len)
    show ?thesis
    proof (cases "case_mask AND CASE_U = 0")
      case True
      then have pts: "entry_points case_mask v = [entry_code v, entry_code v + 1, entry_code v + 1, entry_code v + 2]"
        using lsu by (auto simp: entry_points_def Let_def)
      show ?thesis unfolding pts using k l True lsu
        by (auto simp: entry_chars_def Let_def covers_uint word_le_def word_less_def)
    next
      case False
      then have pts: "entry_points case_mask v = [entry_code v + 1, entry_code v + 2, entry_code v + 2, entry_code v + 3]"
        using lsu by (auto simp: entry_points_def Let_def)
      show ?thesis unfolding pts using k l False lsu
        by (auto simp: entry_chars_def Let_def covers_uint word_le_def word_less_def)
    qed
  next
    case run
    then have pts: "entry_points case_mask v = [entry_code v, entry_code v + entry_len v]"
      by (auto simp: entry_points_def Let_def)
    have "entry_code v \<le> entry_code v + entry_len v" using uint_code_len[of v] by (simp add: word_le_def)
    then show ?thesis unfolding pts using run uint_code_len[of v]
      by (auto simp: entry_chars_def covers_def Let_def)
  qed
qed

definition case_chars' :: "u32 \<Rightarrow> u32 \<Rightarrow> u32 set" where
  "case_chars' case_mask v = (if selected case_mask v then entry_chars case_mask v else {})"

definition case_chars :: "u32 \<Rightarrow> u32 set" where
  "case_chars case_mask = (\<Union>v \<in> set case_conv_table1 \<inter> Collect (selected case_mask). entry_chars case_mask v)"

lemma even_concat: "(\<And>xs. xs \<in> set xss \<Longrightarrow> even (length xs)) \<Longrightarrow> even (length (concat xss))"
  by (induction xss) auto

lemma case1_points_props:
  defines "pts \<equiv> \<lambda>case_mask. concat (map (entry_points case_mask) (filter (selected case_mask) case_conv_table1))"
  shows "sorted (pts case_mask) \<and> even (length (pts case_mask)) \<and> chars (pts case_mask) = case_chars case_mask"
proof -
  have "sorted (concat (map (entry_points case_mask) (filter P vs))) \<and>
      (\<forall>p \<in> set (concat (map (entry_points case_mask) (filter P vs))). lo \<le> uint p)"
    if "entries_ok lo (map uint vs)" for lo vs P
    using that
  proof (induction vs arbitrary: lo)
    case (Cons v vs)
    let ?C = "uint (entry_code v)" and ?L = "uint (entry_len v)"
    have ok: "entry_ok (uint v)" "lo \<le> ?C" "entries_ok (?C + ?L) (map uint vs)"
      using Cons(2) by (simp_all add: uint_entry_code uint_entry_len)
    note ih = Cons.IH[OF ok(3)] and e = entry_points_props[OF ok(1), of case_mask]
    have up: "lo \<le> uint p" if "?C + ?L \<le> uint p" for p
      using that ok(2) uint_nonnegative[of "entry_len v"] by linarith
    show ?case
    proof (cases "P v")
      case True
      have "p \<le> q" if "p \<in> set (entry_points case_mask v)"
        "q \<in> set (concat (map (entry_points case_mask) (filter P vs)))" for p q
        using that e ih unfolding word_le_def by (meson order_trans)
      moreover have "lo \<le> uint p" if "p \<in> set (entry_points case_mask v)" for p
        using that e ok(2) by force
      moreover have "lo \<le> uint p" if "p \<in> set (concat (map (entry_points case_mask) (filter P vs)))" for p
        using that ih up by blast
      ultimately show ?thesis using True e ih by (simp add: sorted_append) blast
    next
      case False
      then show ?thesis using ih up by auto
    qed
  qed simp
  from this[OF case_conv_table1_ok] have "sorted (pts case_mask)" by (simp add: pts_def)
  moreover have "even (length (pts case_mask))"
    unfolding pts_def by (rule even_concat) (auto simp: even_entry_points)
  moreover have "chars (pts case_mask) = case_chars case_mask"
    using entries_ok_low[OF case_conv_table1_ok] entry_points_props
    by (simp add: pts_def chars_concat even_entry_points case_chars_def) auto
  ultimately show ?thesis by blast
qed

lemma type_cases:
  assumes "entry_ok (uint v)"
  obtains "entry_type v = 0" | "entry_type v = 1" | "entry_type v = 2" | "entry_type v = 3" | "entry_type v = 4"
    | "entry_type v = 5" | "entry_type v = 6" | "entry_type v = 7" | "entry_type v = 8" | "entry_type v = 9"
    | "entry_type v = 10" | "entry_type v = 11" | "entry_type v = 12" | "entry_type v = 13"
proof -
  have "uint (entry_type v) < 14" "0 \<le> uint (entry_type v)"
    using assms by (simp_all add: entry_ok_def uint_entry_type)
  then have "uint (entry_type v) \<in> set [0..13]" by auto
  then have "uint (entry_type v) \<in> {0, 1, 2, 3, 4, 5, 6, 7, 8, 9, 10, 11, 12, 13}"
    by (simp only: upto_rec1 set_simps) (simp add: upto_rec1)
  then show thesis using that unfolding word_uint_eq_iff by auto
qed

lemma case_types_values: "case_types CASE_U = 0x2BF5" "case_types CASE_L = 0x147A" "case_types CASE_F = 0x3DFC"
  by (code_simp)+

section \<open>Characters a conversion does not change\<close>

lemma covers_diff: "covers v c \<Longrightarrow> uint (c - entry_code v) = uint c - uint (entry_code v)"
  by (simp add: covers_uint uint_sub_if')

lemma and_1_word: "(x :: u32) AND 1 = (if odd (uint x) then 1 else 0)"
proof -
  have "odd x = odd (uint x)" by transfer simp
  then show ?thesis by (simp add: and_one_eq mod_2_eq_odd)
qed

lemma entry_unchanged:
  assumes ok: "entry_ok (uint v)" and c: "covers v c" "c \<notin> case_chars' (push_bit ct 1) v" and ct: "ct \<in> {0, 1, 2}"
  shows "lre_case_conv_entry c ct idx v = [c]"
proof -
  note [simp] = lre_case_conv_entry.simps Let_def selected_def case_types_values case_chars'_def entry_chars_def
    covers_diff[OF c(1)] and_1_word
  from ok show ?thesis
  proof (cases rule: type_cases)
    case 5
    then show ?thesis using c ct by auto
  next
    case 6
    have "uint (entry_type v) = 5" using 6 by simp
    then have "uint (entry_len v) = 3" using ok by (simp add: entry_ok_def uint_entry_type uint_entry_len)
    then show ?thesis using c ct 6 by (auto simp: covers_uint word_uint_eq_iff)
  qed (use c ct in \<open>auto simp: word_le_def\<close>)
qed

lemma case_conv_table1_len: "length case_conv_table1 = 378"
  by (simp add: case_conv_table1_def)

lemma ascii_entries: "case_conv_table1 ! 0 = 0x00209a30" "case_conv_table1 ! 1 = 0x00309a00"
  by (simp_all add: case_conv_table1_def)

lemma case_chars_in: "v \<in> set case_conv_table1 \<Longrightarrow> c \<in> case_chars' m v \<Longrightarrow> c \<in> case_chars m"
  by (auto simp: case_chars_def case_chars'_def split: if_splits)

lemma ascii_entry_fields:
  "entry_code 0x00209a30 = 65" "entry_len 0x00209a30 = 26" "entry_type 0x00209a30 = 3"
  "entry_code 0x00309a00 = 97" "entry_len 0x00309a00 = 26" "entry_type 0x00309a00 = 0"
  by code_simp+

lemma ascii_case_chars:
  "c \<ge> 65 \<Longrightarrow> c \<le> 90 \<Longrightarrow> c \<in> case_chars CASE_L \<and> c \<in> case_chars CASE_F"
  "c \<ge> 97 \<Longrightarrow> c \<le> 122 \<Longrightarrow> c \<in> case_chars CASE_U"
proof -
  have v: "0x00209a30 \<in> set case_conv_table1" "0x00309a00 \<in> set case_conv_table1"
    using nth_mem[of 0 case_conv_table1] nth_mem[of 1 case_conv_table1]
    unfolding ascii_entries case_conv_table1_len by simp_all
  show "c \<ge> 65 \<Longrightarrow> c \<le> 90 \<Longrightarrow> c \<in> case_chars CASE_L \<and> c \<in> case_chars CASE_F"
    "c \<ge> 97 \<Longrightarrow> c \<le> 122 \<Longrightarrow> c \<in> case_chars CASE_U"
    using case_chars_in[OF v(1), of c] case_chars_in[OF v(2), of c]
    by (auto simp: case_chars'_def selected_def case_types_values entry_chars_def ascii_entry_fields covers_def word_le_def word_less_def)
qed

theorem unchanged_outside:
  assumes "ct \<in> {0, 1, 2}" and "c \<notin> case_chars (push_bit ct 1)"
  shows "lre_case_conv c ct = [c]"
proof (cases "c < 128")
  case True
  then show ?thesis using assms ascii_case_chars[of c] by (auto simp: lre_case_conv.simps)
next
  case False
  show ?thesis
  proof (cases "find_entry c")
    case None
    then show ?thesis using False by (simp add: lre_case_conv.simps)
  next
    case (Some idx)
    then have idx: "idx < length case_conv_table1" "covers (case_conv_table1 ! idx) c"
      using find_entry_cases[of c] by simp_all
    then have "entry_ok (uint (case_conv_table1 ! idx))"
      using entries_ok_low[OF case_conv_table1_ok] nth_mem by blast
    moreover have "c \<notin> case_chars' (push_bit ct 1) (case_conv_table1 ! idx)"
      using assms(2) case_chars_in[OF nth_mem[OF idx(1)]] by blast
    ultimately show ?thesis using entry_unchanged[OF _ idx(2) _ assms(1)] Some False
      by (simp add: lre_case_conv.simps)
  qed
qed

lemma lre_case_conv_len: "length (lre_case_conv c ct) \<in> {1, 2, 3}"
  by (simp add: lre_case_conv.simps lre_case_conv_entry.simps Let_def split: option.splits)

section \<open>Characters a conversion changes\<close>

text \<open>
  What the entries must satisfy so that no run maps a character to itself. The codes of the entries are
  distinct, so for a run that is moved to another entry's code it is enough that this is another entry.
\<close>

fun at :: "int list \<Rightarrow> int \<Rightarrow> int" where
  "at (x # xs) i = (if i = 0 then x else at xs (i - 1))"
| "at [] i = 0"

definition change_ok :: "int list \<Rightarrow> int \<Rightarrow> int \<Rightarrow> int \<Rightarrow> bool" where
  "change_ok exts i n d \<longleftrightarrow>
     (let t = n div 16 mod 16; code = n div 32768; len = n div 256 mod 128; data = n mod 16 * 256 + d
      in 0 < len \<and>
        (if t \<le> 3 then data \<noteq> i \<and> data < 378
         else if t = 6 then data mod 64 < 58 \<and> at exts (data mod 64) \<noteq> code
         else if t = 7 then len = 1 \<and> data \<noteq> code \<and> data + 32 \<noteq> code
         else if t = 8 then len = 1 \<and> data < 58 \<and> at exts data \<noteq> code \<and> at exts data + 1 \<noteq> code
         else if t = 9 \<or> t = 10 then len = 1 \<and> data < 58 \<and> at exts data \<noteq> code
         else True))"

fun changes_ok :: "int list \<Rightarrow> int \<Rightarrow> int list \<Rightarrow> int list \<Rightarrow> bool" where
  "changes_ok exts i (n # ns) (d # ds) \<longleftrightarrow> change_ok exts i n d \<and> changes_ok exts (i + 1) ns ds"
| "changes_ok exts i [] ds \<longleftrightarrow> True"
| "changes_ok exts i (n # ns) [] \<longleftrightarrow> False"

lemma case_changes_ok:
  "changes_ok (map uint case_conv_ext) 0 (map uint case_conv_table1) (map uint case_conv_table2)"
  by code_simp

lemma case_conv_ext_len: "length case_conv_ext = 58"
  by (simp add: case_conv_ext_def)

lemma changes_ok_nth:
  "changes_ok exts i ns ds \<Longrightarrow> k < length ns \<Longrightarrow> change_ok exts (i + int k) (ns ! k) (ds ! k)"
proof (induction exts i ns ds arbitrary: k rule: changes_ok.induct)
  case (1 exts i n ns d ds)
  then show ?case using "1.IH"[of "k - 1"] by (cases k) (simp_all add: ac_simps)
qed simp_all

lemma at_nth: "k < length xs \<Longrightarrow> at xs (int k) = xs ! k"
  by (induction xs arbitrary: k) (auto simp: nth_Cons split: nat.splits)

lemma changes_ok_len: "changes_ok exts i ns ds \<Longrightarrow> length ns \<le> length ds"
  by (induction exts i ns ds rule: changes_ok.induct) auto

lemma change_at:
  assumes "idx < length case_conv_table1"
  shows "change_ok (map uint case_conv_ext) (int idx) (uint (case_conv_table1 ! idx)) (uint (case_conv_table2 ! idx))"
  using changes_ok_nth[OF case_changes_ok, of idx] changes_ok_len[OF case_changes_ok] assms by simp

lemma unat_less_of_uint: "uint (x :: u32) < int n \<Longrightarrow> unat x < n"
proof -
  assume "uint x < int n"
  then have "int (unat x) < int n" by simp
  then show ?thesis by (simp only: of_nat_less_iff)
qed

lemma uint_conv_ext: "uint i < 58 \<Longrightarrow> uint (conv_ext i) = at (map uint case_conv_ext) (uint i)"
proof -
  assume "uint i < 58"
  then have i: "unat i < length case_conv_ext" unfolding case_conv_ext_len by (intro unat_less_of_uint) simp
  then have "at (map uint case_conv_ext) (int (unat i)) = uint (case_conv_ext ! unat i)"
    by (subst at_nth) simp_all
  then show ?thesis by (simp add: conv_ext_def uint_up_ucast is_up)
qed

lemma uint_and_mask: "uint (x AND w) = uint (x :: u32) mod 2 ^ n" if "uint w = 2 ^ n - 1"
  using that by (simp add: uint_and take_bit_eq_mod flip: mask_eq_exp_minus_1 take_bit_eq_mask)

lemma uint_data: "uint (push_bit 8 (v AND 0xf) OR ucast (d :: u8) :: u32) = uint v mod 16 * 256 + uint d"
proof -
  have v: "uint (v AND 0xf) = uint v mod 16" using uint_and_mask[of "0xf" 4 v] by simp
  have "uint (push_bit 8 (v AND 0xf)) = take_bit 32 (push_bit 8 (uint (v AND 0xf)))"
    by (subst unsigned_push_bit_eq) simp
  then have p: "uint (push_bit 8 (v AND 0xf)) = push_bit 8 (uint v mod 16)"
    unfolding v by (simp only: take_bit_eq_mod push_bit_eq_mult) simp
  have d: "uint (ucast d :: u32) = uint d" by (simp add: uint_up_ucast is_up)
  have "push_bit 8 (uint v mod 16) AND uint d = 0"
    by (rule bit_eqI) (auto simp: bit_and_iff bit_push_bit_iff bit_uint_iff)
  then have "push_bit 8 (uint v mod 16) + uint d = push_bit 8 (uint v mod 16) OR uint d"
    by (rule disjunctive_add_eq_or)
  then show ?thesis unfolding uint_or p d by (simp add: push_bit_eq_mult)
qed


lemma case_at_unique:
  assumes "covers (case_conv_table1 ! i) c" "covers (case_conv_table1 ! j) c"
    and "i < length case_conv_table1" "j < length case_conv_table1"
  shows "i = j"
  using entries_ok_apart[OF case_conv_table1_ok, of i j] entries_ok_apart[OF case_conv_table1_ok, of j i] assms
  unfolding covers_uint by (meson le_less_trans less_le_trans linorder_cases not_less_iff_gr_or_eq)

lemma entry_code_inj:
  assumes "i \<noteq> j" "i < length case_conv_table1" "j < length case_conv_table1"
  shows "entry_code (case_conv_table1 ! i) \<noteq> entry_code (case_conv_table1 ! j)"
proof -
  have pos: "0 < uint (entry_len (case_conv_table1 ! k))" if "k < length case_conv_table1" for k
    using change_at[OF that] by (simp add: change_ok_def Let_def uint_entry_len)
  have "uint (entry_code (case_conv_table1 ! i)) < uint (entry_code (case_conv_table1 ! j))"
    if "i < j" "j < length case_conv_table1" for i j
    using entries_ok_apart[OF case_conv_table1_ok that] pos[of i] that by linarith
  from this[of i j] this[of j i] show ?thesis using assms by (cases i j rule: linorder_cases) auto
qed

lemma entry_changed:
  assumes idx: "idx < length case_conv_table1" and v: "v = case_conv_table1 ! idx"
    and c: "covers v c" "c \<in> case_chars' (push_bit ct 1) v" and ct: "ct \<in> {0, 1, 2}"
  shows "lre_case_conv_entry c ct idx v \<noteq> [c]"
proof -
  define data where "data = (push_bit 8 (v AND 0xf) OR ucast (case_conv_table2 ! idx) :: u32)"
  have chg: "change_ok (map uint case_conv_ext) (int idx) (uint v) (uint (case_conv_table2 ! idx))"
    using change_at[OF idx] v by simp
  have data: "uint data = uint v mod 16 * 256 + uint (case_conv_table2 ! idx)" unfolding data_def by (rule uint_data)
  have fold_data: "push_bit 8 v AND 3840 OR ucast (case_conv_table2 ! idx) = data" by (simp add: data_def)
  note [simp] = lre_case_conv_entry.simps Let_def selected_def case_types_values case_chars'_def entry_chars_def
    covers_diff[OF c(1)] and_1_word fold_data
  have ok: "entry_ok (uint v)" using entries_ok_low[OF case_conv_table1_ok] nth_mem[OF idx] v by blast
  have move: "c - entry_code v + entry_code (case_conv_table1 ! unat data) \<noteq> c" if "uint (entry_type v) \<le> 3"
  proof -
    have "uint data \<noteq> int idx \<and> uint data < 378"
      using chg that data by (simp add: change_ok_def uint_entry_type)
    then have "unat data \<noteq> idx" "unat data < length case_conv_table1"
      using unat_less_of_uint[of data 378] by (auto simp: case_conv_table1_len)
    then have "entry_code (case_conv_table1 ! unat data) \<noteq> entry_code v"
      using entry_code_inj[of "unat data" idx] idx v by simp
    then show ?thesis by simp
  qed
  have t: "uint (entry_type v) = uint v div 16 mod 16" "uint (entry_code v) = uint v div 32768"
    "uint (entry_len v) = uint v div 256 mod 128"
    by (rule uint_entry_type uint_entry_code uint_entry_len)+
  have single: "c = entry_code v" if "uint (entry_len v) = 1"
    using c(1) that unfolding covers_uint word_uint_eq_iff by linarith
  have "uint data < 4096" unfolding data using uint_bounded[of "case_conv_table2 ! idx"] by simp
  moreover have "uint (conv_ext data) < 65536"
    using uint_bounded[of "case_conv_ext ! unat data"] by (simp add: conv_ext_def uint_up_ucast is_up)
  ultimately have up: "uint (data + 32) = uint data + 32" "uint (conv_ext data + 1) = uint (conv_ext data) + 1"
    by (simp_all add: uint_plus_if')
  note chg = chg[unfolded change_ok_def Let_def, folded t data]
  from ok show ?thesis
  proof (cases rule: type_cases)
    case 1
    then show ?thesis using move c ct by (auto simp: word_le_def)
  next
    case 2
    then show ?thesis using move c ct by (auto simp: word_le_def)
  next
    case 3
    then show ?thesis using move c ct by (auto simp: word_le_def)
  next
    case 4
    then show ?thesis using move c ct by (auto simp: word_le_def)
  next
    case 5
    have "(x XOR 1) + entry_code v \<noteq> c" if "x = c - entry_code v" for x
    proof
      assume "(x XOR 1) + entry_code v = c"
      then have "(x XOR 1) + entry_code v - entry_code v = c - entry_code v" by simp
      then have "x XOR 1 = x" unfolding that by simp
      then have "x XOR (x XOR 1) = 0" by simp
      then show False by (simp flip: xor.assoc)
    qed
    then show ?thesis using 5 c ct by auto
  next
    case 6
    have "uint (entry_len v) = 3" using ok 6 by (auto simp: entry_ok_def simp flip: t)
    then have "uint (c - entry_code v) \<in> {0, 1, 2}" using c(1) unfolding covers_diff[OF c(1)] covers_uint by auto
    then have "c - entry_code v = 0 \<and> uint c = uint (entry_code v) \<or>
        c - entry_code v = 1 \<and> uint c = uint (entry_code v) + 1 \<or>
        c - entry_code v = 2 \<and> uint c = uint (entry_code v) + 2"
      unfolding word_uint_eq_iff by auto
    then show ?thesis using c(2) ct 6 by auto
  next
    case 7
    have "conv_ext (data AND 63) \<noteq> entry_code v"
      using chg 7 uint_conv_ext[of "data AND 63"] uint_and_mask[of 63 6 data] by auto
    then show ?thesis using c ct 7 by auto
  next
    case 8
    then have "uint (entry_type v) = 7" by simp
    then have "uint (entry_len v) = 1" "uint data \<noteq> uint (entry_code v)" "uint data + 32 \<noteq> uint (entry_code v)"
      using chg by simp_all
    then show ?thesis using c ct single up(1) 8 by (auto simp: word_uint_eq_iff[of data] word_uint_eq_iff[of "data + 32"])
  next
    case 9
    then have "uint (entry_type v) = 8" by simp
    then have "uint (entry_len v) = 1" "uint (conv_ext data) \<noteq> uint (entry_code v)"
      "uint (conv_ext data) + 1 \<noteq> uint (entry_code v)"
      using chg uint_conv_ext[of data] by simp_all
    then show ?thesis using c ct single up(2) 9
      by (auto simp: word_uint_eq_iff[of "conv_ext data"] word_uint_eq_iff[of "conv_ext data + 1"])
  next
    case 10
    then have "uint (entry_type v) = 9" by simp
    then have "uint (entry_len v) = 1" "conv_ext data \<noteq> entry_code v"
      using chg uint_conv_ext[of data] by auto
    then show ?thesis using c ct single 10 by auto
  next
    case 11
    then have "uint (entry_type v) = 10" by simp
    then have "uint (entry_len v) = 1" "conv_ext data \<noteq> entry_code v"
      using chg uint_conv_ext[of data] by auto
    then show ?thesis using c ct single 11 by auto
  qed (use c ct in \<open>auto simp: word_le_def\<close>)
qed

lemma ascii_changed:
  assumes "c < 128" and "ct \<in> {0, 1, 2}" and "c \<in> case_chars (push_bit ct 1)"
  shows "lre_case_conv c ct \<noteq> [c]"
proof -
  from assms(3) obtain v where v: "v \<in> set case_conv_table1" "c \<in> case_chars' (push_bit ct 1) v"
    by (auto simp: case_chars_def case_chars'_def)
  then obtain k where k: "k < length case_conv_table1" "v = case_conv_table1 ! k" by (auto simp: in_set_conv_nth)
  have c: "covers v c" using v(2) by (simp add: case_chars'_def entry_chars_def Let_def split: if_splits)
  have "\<not> 1 < k"
  proof
    assume "1 < k"
    then have "case_conv_table1 ! 2 = v \<or>
        uint (entry_code (case_conv_table1 ! 2)) + uint (entry_len (case_conv_table1 ! 2)) \<le> uint (entry_code v)"
      using entries_ok_apart[OF case_conv_table1_ok, of 2 k] k by (cases "k = 2") auto
    moreover have "uint (entry_code (case_conv_table1 ! 2)) = 0xB5"
      by (simp add: uint_entry_code case_conv_table1_def)
    ultimately have "181 \<le> uint (entry_code v)"
      using uint_nonnegative[of "entry_len (case_conv_table1 ! 2)"] by (elim disjE) (simp, linarith)
    then have "128 \<le> uint c" using c unfolding covers_uint by linarith
    then show False using assms(1) by (simp add: word_less_def)
  qed
  then have "k = 0 \<or> k = 1" by auto
  then have "v = 0x00209a30 \<or> v = 0x00309a00" unfolding k(2) using ascii_entries by auto
  then show ?thesis
  proof
    assume "v = 0x00209a30"
    then have "65 \<le> uint c" "uint c < 91" "ct \<noteq> 0"
      using c v(2) assms(2) by (auto simp: covers_uint ascii_entry_fields case_chars'_def selected_def case_types_values)
    then show ?thesis using assms(1,2) by (auto simp: lre_case_conv.simps word_le_def)
  next
    assume "v = 0x00309a00"
    then have "97 \<le> uint c" "uint c < 123" "ct = 0"
      using c v(2) assms(2) by (auto simp: covers_uint ascii_entry_fields case_chars'_def selected_def case_types_values)
    then show ?thesis using assms(1) by (simp add: lre_case_conv.simps word_le_def)
  qed
qed

lemma case_chars_iff:
  assumes "ct \<in> {0, 1, 2}"
  shows "c \<in> case_chars (push_bit ct 1) \<longleftrightarrow> lre_case_conv c ct \<noteq> [c]"
proof
  assume c: "c \<in> case_chars (push_bit ct 1)"
  show "lre_case_conv c ct \<noteq> [c]"
  proof (cases "c < 128")
    case True
    then show ?thesis using assms c by (rule ascii_changed)
  next
    case False
    from c obtain v where v: "v \<in> set case_conv_table1" "c \<in> case_chars' (push_bit ct 1) v"
      by (auto simp: case_chars_def case_chars'_def)
    then obtain k where k: "k < length case_conv_table1" "v = case_conv_table1 ! k" by (auto simp: in_set_conv_nth)
    have cov: "covers v c" using v(2) by (simp add: case_chars'_def entry_chars_def Let_def split: if_splits)
    then obtain idx where idx: "find_entry c = Some idx"
      using find_entry_cases[of c] v(1) by (cases "find_entry c") auto
    then have "idx = k" using case_at_unique[of idx c k] find_entry_cases[of c] k cov by simp
    then show ?thesis using entry_changed[OF k cov v(2) assms] False idx k by (simp add: lre_case_conv.simps)
  qed
qed (use unchanged_outside[OF assms] in blast)

section \<open>Properties\<close>

lemma unicode_case1_chars:
  assumes "conv_type \<in> {0, 1, 2}"
  shows "cr_returns m (unicode_case1 m cr_init (push_bit conv_type 1))
    (\<lambda>xs. sorted xs \<and> even (length xs) \<and> chars xs = {c. lre_case_conv c conv_type \<noteq> [c]})"
proof -
  have "cr_wf cr_init" "cr_list cr_init = []" by (simp_all add: cr_init_def cr_wf_def cr_list_def)
  moreover have "push_bit conv_type 1 \<noteq> (0 :: u32)" using assms by auto
  moreover have "case_chars (push_bit conv_type 1) = {c. lre_case_conv c conv_type \<noteq> [c]}"
    using case_chars_iff[OF assms] by blast
  ultimately show ?thesis
    using unicode_case1_returns[of cr_init "push_bit conv_type 1" m] case1_points_props[of "push_bit conv_type 1"]
    by (auto elim: cr_returns_mono)
qed

text \<open>
  \<^bold>\<open>C23.\<close> \<open>unicode_case1\<close> walks over the same table as the conversion but never looks at what the characters
  become. For upper case, lower case and case folding alike it returns exactly the characters that
  \<open>lre_case_conv\<close> changes, in ascending order, or -1 when memory is refused.
\<close>

theorem unicode_case1_exact:
  assumes "conv_type \<in> {0, 1, 2}"
  shows "cr_returns m (unicode_case1 m cr_init (push_bit conv_type 1))
    (\<lambda>xs. sorted xs \<and> even (length xs) \<and> chars xs = {c. lre_case_conv c conv_type \<noteq> [c]})"
  using assms by (rule unicode_case1_chars)

theorem unicode_case1_exact_witness:
  "cr_returns mem0 (unicode_case1 mem0 cr_init (push_bit 1 1))
    (\<lambda>xs. sorted xs \<and> even (length xs) \<and> chars xs = {c. lre_case_conv c 1 \<noteq> [c]})"
  by (rule unicode_case1_exact) simp

end
