(* ===== verification/Uni_Canon.thy ===== *)
theory Uni_Canon
  imports Uni_Case_Sets
begin

text \<open>
  What \<open>lre_canonicalize\<close> of \<open>libunicode.c\<close> computes, in terms of the conversions to upper case and of the case folding. The
  76 characters whose folding is several characters are found by evaluation of the 55 entries of the case
  table that hold them.
\<close>

section \<open>The canonical form\<close>

lemma lre_canonicalize_spec: 
  "lre_canonicalize c is_unicode =
     (if is_unicode then
        (case lre_case_conv c 2 of [f] \<Rightarrow> f
         | _ \<Rightarrow> if c = 0xfb06 then 0xfb05 else if c = 0x1fd3 then 0x390 else if c = 0x1fe3 then 0x3b0 else c)
      else
        (case lre_case_conv c 0 of [u] \<Rightarrow> if c \<ge> 128 \<and> u < 128 then c else u | _ \<Rightarrow> c))"
proof (cases "c < 128")
  case True
  then have "lre_case_conv c 0 = [if c \<ge> 97 \<and> c \<le> 122 then c - 97 + 65 else c]"
    "lre_case_conv c 2 = [if c \<ge> 65 \<and> c \<le> 90 then c - 65 + 97 else c]"
    by (simp_all add: lre_case_conv.simps)
  moreover have "\<not> 128 \<le> c" using True by simp
  ultimately show ?thesis
    using True by (cases is_unicode) (simp_all only: lre_canonicalize_def list.case if_True if_False simp_thms)
next
  case False
  show ?thesis
  proof (cases "find_entry c")
    case None
    then show ?thesis using False by (simp add: lre_canonicalize_def lre_case_conv.simps)
  next
    case (Some idx)
    define r where "r = lre_case_conv_entry c (if is_unicode then 2 else 0) idx (case_conv_table1 ! idx)"
    have conv: "lre_case_conv c (if is_unicode then 2 else 0) = r"
      using False Some by (simp add: lre_case_conv.simps r_def)
    have canon: "lre_canonicalize c is_unicode =
        (if is_unicode then if length r = 1 then r ! 0 else if c = 0xfb06 then 0xfb05
           else if c = 0x1fd3 then 0x390 else if c = 0x1fe3 then 0x3b0 else c
         else if length r = 1 \<and> r ! 0 \<ge> 128 then r ! 0 else c)"
      using False Some by (cases is_unicode) (simp_all add: lre_canonicalize_def lre_case_folding_entry_def r_def Let_def)
    consider x where "r = [x]" | "length r \<noteq> 1" "\<And>f (g :: u32). (case r of [x] \<Rightarrow> f x | _ \<Rightarrow> g) = g"
      by (cases r; cases "tl r") auto
    then show ?thesis
    proof cases
      case 1
      have "x < 128 \<longleftrightarrow> \<not> 128 \<le> x" "128 \<le> c" using False by auto
      with 1 show ?thesis using canon conv by (cases is_unicode) simp_all
    next
      case 2
      then show ?thesis using canon conv by (cases is_unicode) simp_all
    qed
  qed
qed


section \<open>Characters whose folding is several characters\<close>

definition multi_entries :: "(int \<times> int) list" where
  "multi_entries =
    [(0x006f81b3, 0x4d), (0x009801c3, 0x8f), (0x00a481b4, 0x11), (0x00f801b4, 0x93), (0x01c801d0, 0x12),
     (0x01d801d3, 0x12), (0x02c381b5, 0x15), (0x0f4b01b5, 0x97), (0x0f4b81b6, 0x01), (0x0f4c01b6, 0x5a),
     (0x0f4c81b6, 0xda), (0x0f4d01b7, 0x1d), (0x0fa801b0, 0xc4), (0x0fa901d3, 0x45), (0x0faa01d3, 0x42),
     (0x0fab01d3, 0x46), (0x0fc008b7, 0x80), (0x0fc808b8, 0x00), (0x0fd008b8, 0x80), (0x0fd901b9, 0x00),
     (0x0fd981b1, 0xc0), (0x0fda01b9, 0x40), (0x0fdb01b1, 0xc6), (0x0fdb81d7, 0x60), (0x0fe101b9, 0xc0),
     (0x0fe181b2, 0x00), (0x0fe201ba, 0x00), (0x0fe301b2, 0x06), (0x0fe381d8, 0x60), (0x0fe901d0, 0x15),
     (0x0fe981d0, 0x12), (0x0feb01b0, 0x06), (0x0feb81d0, 0x16), (0x0ff101d3, 0x15), (0x0ff181d3, 0x12),
     (0x0ff201ba, 0x84), (0x0ff301b0, 0xc6), (0x0ff381d3, 0x16), (0x0ff901ba, 0xc0), (0x0ff981b2, 0x40),
     (0x0ffa01bb, 0x00), (0x0ffb01b2, 0x46), (0x0ffb81d9, 0x60), (0x7d8001b2, 0x8a), (0x7d8081b2, 0x8b),
     (0x7d8101b2, 0x8c), (0x7d8181da, 0xab), (0x7d8201da, 0xac), (0x7d8281b3, 0x58), (0x7d8301b3, 0x58),
     (0x7d8981bb, 0xaf), (0x7d8a01bb, 0x94), (0x7d8a81bb, 0xb0), (0x7d8b01bc, 0x6f), (0x7d8b81bb, 0xb2)]"

lemma multi_entries_filter:
  "filter (\<lambda>(n, d). n div 16 mod 16 \<ge> 11) (zip (map uint case_conv_table1) (map uint case_conv_table2)) = multi_entries"
  by code_simp

text \<open>Each such character with its upper case, as numbers.\<close>

definition multi_rows :: "(int \<times> int) \<Rightarrow> (int \<times> int list) list" where
  "multi_rows = (\<lambda>(n, d).
     let t = n div 16 mod 16; code = n div 32768; len = n div 256 mod 128; data = n mod 16 * 256 + d;
         exts = map uint case_conv_ext
     in map (\<lambda>k. (code + k,
          if t = 12 then [code + k]
          else if t = 11 then [k + at exts (data div 64), at exts (data mod 64)]
          else [at exts (data div 256), at exts (data div 16 mod 16), at exts (data mod 16)])) [0..len - 1])"

definition upper_rows :: "(int \<times> int list) list" where
  "upper_rows = concat (map multi_rows multi_entries)"

definition multi_entry_ok :: "(int \<times> int) \<Rightarrow> bool" where
  "multi_entry_ok = (\<lambda>(n, d).
     let t = n div 16 mod 16; data = n mod 16 * 256 + d
     in t \<in> {11, 12, 13} \<and> (t = 11 \<longrightarrow> data div 64 < 58 \<and> data mod 64 < 58) \<and>
        (t = 13 \<longrightarrow> data div 256 < 58 \<and> data div 16 mod 16 < 58 \<and> data mod 16 < 58))"

lemma multi_entries_ok: "list_all multi_entry_ok multi_entries"
  by code_simp

definition fold_rep :: "int \<Rightarrow> int" where
  "fold_rep c = (if c = 0xfb06 then 0xfb05 else if c = 0x1fd3 then 0x390 else if c = 0x1fe3 then 0x3b0 else c)"

fun rows_ok :: "(int \<times> int list) list \<Rightarrow> bool" where
  "rows_ok [] \<longleftrightarrow> True"
| "rows_ok ((c, r) # xs) \<longleftrightarrow> list_all (\<lambda>(d, s). fold_rep c = fold_rep d \<longleftrightarrow> r = s) xs \<and> rows_ok xs"

lemma upper_rows_ok: "rows_ok upper_rows"
  by code_simp

lemma rows_okD: "rows_ok xs \<Longrightarrow> (c, r) \<in> set xs \<Longrightarrow> (d, s) \<in> set xs \<Longrightarrow> fold_rep c = fold_rep d \<longleftrightarrow> r = s"
  by (induction xs rule: rows_ok.induct) (auto simp: list_all_iff)

text \<open>The three representatives have the folding of the characters they stand for.\<close>

lemma rep_fb05: "lre_case_conv 0xfb06 2 = lre_case_conv 0xfb05 2"
  by code_simp

lemma rep_390: "lre_case_conv 0x1fd3 2 = lre_case_conv 0x390 2"
  by code_simp

lemma rep_3b0: "lre_case_conv 0x1fe3 2 = lre_case_conv 0x3b0 2"
  by code_simp

lemma multi_row:
  assumes "length (lre_case_conv c 2) \<noteq> 1"
  shows "(uint c, map uint (lre_case_conv c 0)) \<in> set upper_rows"
proof -
  have c: "\<not> c < 128" using assms by (auto simp: lre_case_conv.simps split: if_splits)
  then obtain idx where f: "find_entry c = Some idx"
    using assms by (cases "find_entry c") (simp_all add: lre_case_conv.simps)
  then have idx: "idx < length case_conv_table1" "covers (case_conv_table1 ! idx) c"
    using find_entry_cases[of c] by simp_all
  define v where "v = case_conv_table1 ! idx"
  define d where "d = case_conv_table2 ! idx"
  define data where "data = (push_bit 8 (v AND 0xf) OR ucast d :: u32)"
  have conv: "lre_case_conv c k = lre_case_conv_entry c k idx v" for k using c f by (simp add: lre_case_conv.simps v_def)
  have data: "uint data = uint v mod 16 * 256 + uint d" unfolding data_def by (rule uint_data)
  have "uint v mod 16 < 16" "uint d < 256" using uint_bounded[of d] by simp_all
  then have data_lt: "uint data < 4096" unfolding data by linarith
  have type: "11 \<le> uint (entry_type v)"
  proof (rule ccontr)
    assume "\<not> 11 \<le> uint (entry_type v)"
    then have "uint (entry_type v) \<in> {0, 1, 2, 3, 4, 5, 6, 7, 8, 9, 10}"
      using uint_nonnegative[of "entry_type v"] unfolding insert_iff empty_iff by presburger
    then have "entry_type v \<in> {0, 1, 2, 3, 4, 5, 6, 7, 8, 9, 10}" by (auto simp: word_uint_eq_iff)
    then have "length (lre_case_conv_entry c 2 idx v) = 1" by (auto simp: lre_case_conv_entry.simps Let_def)
    then show False using assms conv by simp
  qed
  have len2: "length case_conv_table2 = length case_conv_table1" by (simp add: case_conv_table1_def case_conv_table2_def)
  have "(uint v, uint d) \<in> set (zip (map uint case_conv_table1) (map uint case_conv_table2))"
    using idx(1) len2 by (auto simp: set_zip v_def d_def intro!: exI[of _ idx])
  then have mem: "(uint v, uint d) \<in> set multi_entries"
    unfolding multi_entries_filter[symmetric] using type by (simp add: uint_entry_type)
  then have ok: "multi_entry_ok (uint v, uint d)" using multi_entries_ok by (simp add: list_all_iff)
  define t where "t = uint (entry_type v)"
  have t: "t \<in> {11, 12, 13}" using ok by (auto simp: multi_entry_ok_def Let_def t_def uint_entry_type)
  let ?k = "uint c - uint (entry_code v)"
  have k: "0 \<le> ?k" "?k < uint (entry_len v)" using idx(2) unfolding v_def covers_uint by linarith+
  have len: "uint (entry_len v) < 128" by (simp add: uint_entry_len)
  have row: "(uint c, if t = 12 then [uint c]
      else if t = 11 then [?k + at (map uint case_conv_ext) (uint data div 64), at (map uint case_conv_ext) (uint data mod 64)]
      else [at (map uint case_conv_ext) (uint data div 256), at (map uint case_conv_ext) (uint data div 16 mod 16),
        at (map uint case_conv_ext) (uint data mod 16)]) \<in> set (multi_rows (uint v, uint d))"
    unfolding multi_rows_def Let_def prod.case uint_entry_code[symmetric] uint_entry_len[symmetric] uint_entry_type[symmetric] data[symmetric]
    using k by (auto simp: t_def image_iff intro!: bexI[of _ ?k])
  have "map uint (lre_case_conv c 0) = (if t = 12 then [uint c]
      else if t = 11 then [?k + at (map uint case_conv_ext) (uint data div 64), at (map uint case_conv_ext) (uint data mod 64)]
      else [at (map uint case_conv_ext) (uint data div 256), at (map uint case_conv_ext) (uint data div 16 mod 16),
        at (map uint case_conv_ext) (uint data mod 16)])"
  proof -
    have ok': "t = 11 \<Longrightarrow> uint data div 64 < 58 \<and> uint data mod 64 < 58"
      "t = 13 \<Longrightarrow> uint data div 256 < 58 \<and> uint data div 16 mod 16 < 58 \<and> uint data mod 16 < 58"
      using ok by (simp_all add: multi_entry_ok_def Let_def data t_def uint_entry_type)
    have ext_lt: "uint (conv_ext i) < 65536" for i
    proof -
      have "uint (case_conv_ext ! unat i) < 65536" using uint_bounded[of "case_conv_ext ! unat i"] by simp
      then show ?thesis by (simp add: conv_ext_def uint_up_ucast is_up)
    qed
    have m: "uint (data AND 0x3f) = uint data mod 64" "uint (data AND 0xf) = uint data mod 16"
      using uint_and_mask[of "0x3f" 6 data] uint_and_mask[of "0xf" 4 data] by simp_all
    have s: "uint (drop_bit 6 data) = uint data div 64" "uint (drop_bit 8 data) = uint data div 256" "uint (drop_bit 4 data) = uint data div 16"
      by (simp_all add: drop_bit_eq_div uint_div)
    have m4: "uint (drop_bit 4 data AND 0xf) = uint data div 16 mod 16"
      using uint_and_mask[of "0xf" 4 "drop_bit 4 data"] s by simp
    have sum: "uint (c - entry_code v + conv_ext i) = ?k + uint (conv_ext i)" for i
    proof -
      have "uint (c - entry_code v) = ?k" by (rule covers_diff) (use idx(2) in \<open>simp add: v_def\<close>)
      moreover have "?k + uint (conv_ext i) < 2 ^ 32" using k(2) len ext_lt[of i] by simp
      ultimately show ?thesis by (simp add: uint_plus_if')
    qed
    consider "t = 11" | "t = 12" | "t = 13" using t by auto
    then show ?thesis
    proof cases
      case 1
      then have "entry_type v = 11" by (simp add: t_def word_uint_eq_iff)
      then have "lre_case_conv c 0 = [c - entry_code v + conv_ext (drop_bit 6 data), conv_ext (data AND 0x3f)]"
        unfolding conv by (simp add: lre_case_conv_entry.simps Let_def data_def d_def)
      then show ?thesis using 1 ok'(1) by (simp add: sum uint_conv_ext m s)
    next
      case 2
      then have "entry_type v = 12" by (simp add: t_def word_uint_eq_iff)
      then have "lre_case_conv c 0 = [c]" unfolding conv by (simp add: lre_case_conv_entry.simps Let_def)
      then show ?thesis using 2 by simp
    next
      case 3
      then have "entry_type v = 13" by (simp add: t_def word_uint_eq_iff)
      then have "lre_case_conv c 0 = [conv_ext (drop_bit 8 data), conv_ext (drop_bit 4 data AND 0xf), conv_ext (data AND 0xf)]"
        unfolding conv by (simp add: lre_case_conv_entry.simps Let_def data_def d_def)
      then show ?thesis using 3 ok'(2) by (simp add: uint_conv_ext m s m4)
    qed
  qed
  then show ?thesis using row mem unfolding upper_rows_def by auto
qed

lemma multi_canonical:
  assumes "length (lre_case_conv c 2) \<noteq> 1"
  shows "uint (lre_canonicalize c True) = fold_rep (uint c)" "lre_case_conv (lre_canonicalize c True) 2 = lre_case_conv c 2"
proof -
  have "(case lre_case_conv c 2 of [f] \<Rightarrow> f | _ \<Rightarrow> r) = r" for r
    using assms by (cases "lre_case_conv c 2" rule: list.exhaust; cases "tl (lre_case_conv c 2)") auto
  then have r: "lre_canonicalize c True = (if c = 0xfb06 then 0xfb05 else if c = 0x1fd3 then 0x390 else if c = 0x1fe3 then 0x3b0 else c)"
    by (simp add: lre_canonicalize_spec)
  show "uint (lre_canonicalize c True) = fold_rep (uint c)" unfolding r fold_rep_def by (auto simp: word_uint_eq_iff)
  show "lre_case_conv (lre_canonicalize c True) 2 = lre_case_conv c 2" unfolding r by (simp add: rep_fb05 rep_390 rep_3b0)
qed

text \<open>
  \<^bold>\<open>C24.\<close> The canonical form that the regular expression compiler and matcher give a character. Without the Unicode flag it
  is the one ECMAScript prescribes: the upper case, unless that is not a single character or takes a character beyond
  ASCII into ASCII. With the flag it is the case folding where that is a single character. Where it
  is several characters, the canonical form is a character with the same folding, and two such characters get the
  same one exactly when their upper cases agree. The conversions give one to three characters, so they fit the buffers of
  the callers.
\<close>

theorem lre_canonicalize_ecmascript:
  "lre_canonicalize c False = (case lre_case_conv c 0 of [u] \<Rightarrow> if c \<ge> 128 \<and> u < 128 then c else u | _ \<Rightarrow> c) \<and>
   (length (lre_case_conv c 2) = 1 \<longrightarrow> lre_case_conv c 2 = [lre_canonicalize c True]) \<and>
   (length (lre_case_conv c 2) \<noteq> 1 \<longrightarrow> lre_case_conv (lre_canonicalize c True) 2 = lre_case_conv c 2) \<and>
   (length (lre_case_conv c 2) \<noteq> 1 \<and> length (lre_case_conv d 2) \<noteq> 1 \<longrightarrow>
      (lre_canonicalize c True = lre_canonicalize d True \<longleftrightarrow> lre_case_conv c 0 = lre_case_conv d 0)) \<and>
   length (lre_case_conv c conv_type) \<in> {1, 2, 3}"
proof -
  have "lre_canonicalize c True = lre_canonicalize d True \<longleftrightarrow> lre_case_conv c 0 = lre_case_conv d 0"
    if m: "length (lre_case_conv c 2) \<noteq> 1" "length (lre_case_conv d 2) \<noteq> 1"
  proof -
    have "map uint xs = map uint ys \<longleftrightarrow> xs = ys" for xs ys :: "u32 list"
      by (rule inj_map_eq_map) (auto intro!: injI simp: word_uint_eq_iff)
    moreover have "uint (lre_canonicalize c True) = uint (lre_canonicalize d True) \<longleftrightarrow>
        map uint (lre_case_conv c 0) = map uint (lre_case_conv d 0)"
      unfolding multi_canonical(1)[OF m(1)] multi_canonical(1)[OF m(2)]
      by (rule rows_okD[OF upper_rows_ok multi_row[OF m(1)] multi_row[OF m(2)]])
    ultimately show ?thesis by (simp add: word_uint_eq_iff)
  qed
  moreover have "lre_case_conv c 2 = [lre_canonicalize c True]" if "length (lre_case_conv c 2) = 1"
    using that by (cases "lre_case_conv c 2") (simp_all add: lre_canonicalize_spec)
  moreover have "lre_canonicalize c False = (case lre_case_conv c 0 of [u] \<Rightarrow> if c \<ge> 128 \<and> u < 128 then c else u | _ \<Rightarrow> c)"
    by (simp add: lre_canonicalize_spec)
  ultimately show ?thesis using multi_canonical(2)[of c] lre_case_conv_len[of c conv_type] by blast
qed

lemma ligature_st:
  "length (lre_case_conv 0xfb05 2) = 2" "length (lre_case_conv 0xfb06 2) = 2" "lre_case_conv 0xfb05 0 = lre_case_conv 0xfb06 0"
  by code_simp+

theorem lre_canonicalize_ecmascript_witness:
  "length (lre_case_conv 0xfb05 2) \<noteq> 1 \<and> length (lre_case_conv 0xfb06 2) \<noteq> 1 \<and>
   lre_canonicalize 0xfb05 True = lre_canonicalize 0xfb06 True"
  using lre_canonicalize_ecmascript[of "0xfb05" "0xfb06" 0] ligature_st by simp

end
