(* ===== verification/Char_Canon.thy ===== *)
theory Char_Canon
  imports Sort_Props Uni_Canon
begin

text \<open>
  \<open>cr_regexp_canonicalize\<close> of \<open>libunicode.c\<close>, which maps the characters of a class to their canonical forms, and
  the sort that merges the overlapping intervals it collects. It brings together the set operations, the case
  table, the sorting routine and \<open>unicode_case1\<close>.
\<close>

section \<open>Sorting and merging intervals\<close>

text \<open>The sort sees elements of two points; it compares the first.\<close>

fun pair_up :: "u32 list \<Rightarrow> (u32 \<times> u32) list" where
  "pair_up (a # b # xs) = (a, b) # pair_up xs"
| "pair_up _ = []"

fun unpair :: "(u32 \<times> u32) list \<Rightarrow> u32 list" where
  "unpair ((a, b) # ps) = a # b # unpair ps"
| "unpair [] = []"

definition point_cmp :: "(u32 \<times> u32) cmp_f" where
  "point_cmp p1 p2 = of_bool (fst p1 > fst p2) - of_bool (fst p1 < fst p2)"

text \<open>The inner loop swallows the intervals that start at or before \<open>end\<close>, here \<open>e\<close>.\<close>

function absorb :: "u32 list \<Rightarrow> nat \<Rightarrow> nat \<Rightarrow> u32 \<Rightarrow> nat \<times> u32" where
  "absorb pt len i e =
     (if i < len then
        (let start1 = pt ! i; end1 = pt ! (i + 1)
         in if start1 > e then (i, e)
            else if end1 \<le> e then absorb pt len (i + 2) e
            else absorb pt len (i + 2) end1)
      else (i, e))"
  by auto
termination by (relation "measure (\<lambda>(pt, len, i, e). len - i)") auto

declare absorb.simps [simp del]

lemma absorb_ge: "i \<le> fst (absorb pt len i e)"
proof (induction pt len i e rule: absorb.induct)
  case (1 pt len i e)
  then show ?case by (subst absorb.simps) (auto simp: Let_def intro: le_trans[of i "i + 2"])
qed

function overlap_loop :: "u32 list \<Rightarrow> nat \<Rightarrow> nat \<Rightarrow> nat \<Rightarrow> u32 list \<times> nat" where
  "overlap_loop pt len i j =
     (if i < len then
        (let start = pt ! i;
             (i', e) = absorb pt len (i + 2) (pt ! (i + 1));
             pt = pt[j := start];
             pt = pt[j + 1 := e]
         in overlap_loop pt len i' (j + 2))
      else (pt, j))"
  by auto
termination
proof (relation "measure (\<lambda>(pt, len, i, j). len - i)", goal_cases)
  case (2 pt len i j start r i' e pt1 pt2)
  then have "i' = fst (absorb pt len (i + 2) (pt ! (i + 1)))" by (metis fst_conv)
  then show ?case using 2(1) absorb_ge[of "i + 2" pt len "pt ! (i + 1)"] by simp
qed simp

declare overlap_loop.simps [simp del]

definition cr_sort_and_remove_overlap :: "char_range \<Rightarrow> char_range option" where
  "cr_sort_and_remove_overlap cr =
     (case rqsort point_cmp (pair_up (take (cr_len cr) (cr_points cr))) of
        Some ps \<Rightarrow>
          (let (pt, j) = overlap_loop (blit (cr_points cr) 0 (unpair ps)) (cr_len cr) 0 0
           in Some (cr\<lparr>cr_points := pt, cr_len := j\<rparr>))
      | None \<Rightarrow> None)"

section \<open>Canonicalisation\<close>

text \<open>
  The state of the loop: the cursor into the case table, the interval being built, and the result so
  far. The intervals are added to the result without a look at what \<open>cr_add_interval\<close> returns.
\<close>

record canon_state =
  cs_idx :: nat
  cs_start :: u32
  cs_end :: u32
  cs_result :: char_range

text \<open>The cursor moves on to the entry of \<open>c\<close>; \<open>None\<close> is the failed assertion at the end of the table.\<close>

function find_cursor :: "u32 \<Rightarrow> nat \<Rightarrow> nat option" where
  "find_cursor c idx =
     (if idx < length case_conv_table1 then
        (let v = case_conv_table1 ! idx; code = entry_code v; len = entry_len v
         in if c \<ge> code \<and> c < code + len then Some idx else find_cursor c (idx + 1))
      else None)"
  by auto
termination by (relation "measure (\<lambda>(c, idx). length case_conv_table1 - idx)") auto

declare find_cursor.simps [simp del]

definition canon_char :: "cr_mem \<Rightarrow> bool \<Rightarrow> u32 \<Rightarrow> canon_state \<Rightarrow> canon_state option" where
  "canon_char m is_unicode c s =
     (case find_cursor c (cs_idx s) of
        Some idx \<Rightarrow>
          (let d = lre_case_folding_entry c idx (case_conv_table1 ! idx) is_unicode;
               s = s\<lparr>cs_idx := idx\<rparr>
           in if cs_start s = - 1 then Some (s\<lparr>cs_start := d, cs_end := d + 1\<rparr>)
              else if cs_end s = d then Some (s\<lparr>cs_end := cs_end s + 1\<rparr>)
              else Some (s\<lparr>cs_result := snd (cr_add_interval m (cs_result s) (cs_start s) (cs_end s)),
                            cs_start := d, cs_end := d + 1\<rparr>))
      | None \<Rightarrow> None)"

function canon_interval :: "cr_mem \<Rightarrow> bool \<Rightarrow> u32 \<Rightarrow> u32 \<Rightarrow> canon_state \<Rightarrow> canon_state option" where
  "canon_interval m is_unicode c e s =
     (if c < e
      then (case canon_char m is_unicode c s of
              Some s \<Rightarrow> canon_interval m is_unicode (c + 1) e s
            | None \<Rightarrow> None)
      else Some s)"
  by auto
termination
proof (relation "measure (\<lambda>(m, u, c, e, s). unat (e - c))", goal_cases)
  case (2 m u c e s s')
  then have "e - c \<noteq> 0" "e - (c + 1) = (e - c) - 1" by auto
  then have "unat (e - (c + 1)) = unat (e - c) - 1" "0 < unat (e - c)"
    by (simp_all only: unat_minus_one unat_gt_0 simp_thms)
  then show ?case by simp
qed simp

declare canon_interval.simps [simp del]

fun canon_intervals :: "cr_mem \<Rightarrow> bool \<Rightarrow> u32 list \<Rightarrow> canon_state \<Rightarrow> canon_state option" where
  "canon_intervals m is_unicode (a # b # pt) s =
     (case canon_interval m is_unicode a b s of
        Some s \<Rightarrow> canon_intervals m is_unicode pt s
      | None \<Rightarrow> None)"
| "canon_intervals m is_unicode _ s = Some s"

text \<open>The result is \<open>None\<close> for a failed assertion or an access outside of the sorted array.\<close>

definition cr_regexp_canonicalize :: "cr_mem \<Rightarrow> char_range \<Rightarrow> bool \<Rightarrow> cr_result option" where
  "cr_regexp_canonicalize m cr is_unicode =
     (let (ret, mask) = unicode_case1 m cr_init (if is_unicode then CASE_F else CASE_U)
      in if ret \<noteq> 0 then Some (- 1, cr) else
      let (ret, inter) = cr_op m cr_init (cr_list mask) (cr_list cr) CR_OP_INTER
      in if ret \<noteq> 0 then Some (- 1, cr) else
      let (ret, mask) = cr_invert m mask
      in if ret \<noteq> 0 then Some (- 1, cr) else
      let (ret, sub) = cr_op m cr_init (cr_list mask) (cr_list cr) CR_OP_INTER
      in if ret \<noteq> 0 then Some (- 1, cr) else
      (case canon_intervals m is_unicode (cr_list inter)
              \<lparr>cs_idx = 0, cs_start = - 1, cs_end = - 1, cs_result = cr_init\<rparr> of
         None \<Rightarrow> None
       | Some s \<Rightarrow>
           (let (ret, result) = (if cs_start s \<noteq> - 1 then cr_add_interval m (cs_result s) (cs_start s) (cs_end s)
                                 else (0, cs_result s))
            in if ret \<noteq> 0 then Some (- 1, cr)
               else (case cr_sort_and_remove_overlap result of
                       None \<Rightarrow> None
                     | Some result \<Rightarrow>
                         Some (or_fail (cr_op m (cr\<lparr>cr_len := 0\<rparr>) (cr_list result) (cr_list sub) CR_OP_UNION)
                           (\<lambda>cr. (0, cr)))))))"

section \<open>What the merge does\<close>

interpretation points: comparator point_cmp
proof -
  have e: "point_cmp = (\<lambda>x y. of_bool (fst y < fst x) - of_bool (fst y > fst x))"
    by (intro ext) (simp add: point_cmp_def)
  show "comparator point_cmp" unfolding e by (rule comparator_order)
qed

lemma unpair_pair_up: "even (length xs) \<Longrightarrow> unpair (pair_up xs) = xs"
  by (induction xs rule: pair_up.induct) auto

lemma pair_up_unpair [simp]: "pair_up (unpair ps) = ps"
  by (induction ps rule: unpair.induct) auto

lemma length_unpair [simp]: "length (unpair ps) = 2 * length ps"
  by (induction ps rule: unpair.induct) auto

lemma length_pair_up: "length (pair_up xs) = length xs div 2"
  by (induction xs rule: pair_up.induct) auto

lemma chars_unpair: "chars (unpair ps) = (\<Union>(a, b) \<in> set ps. {a..<b})"
  by (induction ps rule: unpair.induct) auto

fun merge_to :: "u32 \<Rightarrow> (u32 \<times> u32) list \<Rightarrow> (u32 \<times> u32) list \<times> u32" where
  "merge_to e ((a, b) # ps) = (if a > e then ((a, b) # ps, e) else merge_to (if b \<le> e then e else b) ps)"
| "merge_to e [] = ([], e)"

lemma length_merge_to: "merge_to e ps = (qs, e') \<Longrightarrow> length qs \<le> length ps"
  by (induction e ps rule: merge_to.induct) (auto split: if_splits)

function merged_pairs :: "(u32 \<times> u32) list \<Rightarrow> (u32 \<times> u32) list" where
  "merged_pairs ((a, b) # ps) = (case merge_to b ps of (qs, e) \<Rightarrow> (a, e) # merged_pairs qs)"
| "merged_pairs [] = []"
  by pat_completeness auto
termination by (relation "measure length") (auto dest!: length_merge_to[OF sym])

lemma drop_two: "drop i xs = a # b # ys \<Longrightarrow> i + 1 < length xs \<and> xs ! i = a \<and> xs ! (i + 1) = b \<and> drop (i + 2) xs = ys"
proof -
  assume a: "drop i xs = a # b # ys"
  then have "length (drop i xs) \<ge> 2" by simp
  moreover have "drop i xs ! 0 = a" "drop i xs ! 1 = b" "drop 2 (drop i xs) = ys" using a by simp_all
  ultimately show ?thesis by (simp add: add.commute)
qed

lemma absorb_merge:
  assumes "drop i (take len pt) = unpair ps" and "len \<le> length pt" "i \<le> len"
  shows "\<exists>i'. absorb pt len i e = (i', snd (merge_to e ps)) \<and> drop i' (take len pt) = unpair (fst (merge_to e ps)) \<and> i' \<le> len"
  using assms
proof (induction e ps arbitrary: i rule: merge_to.induct)
  case (1 e a b ps)
  then have i: "i + 1 < len" "pt ! i = a" "pt ! (i + 1) = b" "drop (i + 2) (take len pt) = unpair ps"
    using drop_two[of i "take len pt" a b "unpair ps"] by auto
  show ?case
  proof (cases "a > e")
    case True
    then show ?thesis using i 1 by (subst absorb.simps) simp
  next
    case False
    from "1.IH"[OF False i(4) 1(3)] i False show ?thesis
      by (subst absorb.simps) (auto simp: Let_def)
  qed
next
  case (2 e)
  then show ?case by (subst absorb.simps) simp
qed

lemma overlap_loop_merged:
  assumes "drop i (take len pt) = unpair ps" and "len \<le> length pt" "j \<le> i" "i \<le> len"
  shows "\<exists>pt' j'. overlap_loop pt len i j = (pt', j') \<and> length pt' = length pt \<and> j' \<le> length pt \<and>
    take j' pt' = take j pt @ unpair (merged_pairs ps)"
  using assms
proof (induction ps arbitrary: pt i j rule: merged_pairs.induct)
  case (1 a b ps)
  then have i: "i + 1 < len" "pt ! i = a" "pt ! (i + 1) = b" "drop (i + 2) (take len pt) = unpair ps"
    using drop_two[of i "take len pt" a b "unpair ps"] by auto
  obtain qs e where m: "merge_to b ps = (qs, e)" by fastforce
  obtain i' where ab: "absorb pt len (i + 2) b = (i', e)" "drop i' (take len pt) = unpair qs" "i' \<le> len"
    using absorb_merge[OF i(4) 1(3), of b] i(1) m by auto
  have ge: "i + 2 \<le> i'" using absorb_ge[of "i + 2" pt len b] ab(1) by simp
  define pt1 where "pt1 = pt[j := a, j + 1 := e]"
  have "drop i' (take len pt1) = unpair qs"
    using ab(2) ge 1(4) unfolding pt1_def by (simp add: take_update_swap drop_update_cancel)
  from "1.IH"[OF m[symmetric] this, of "j + 2"] obtain pt' j' where
    r: "overlap_loop pt1 len i' (j + 2) = (pt', j')" "length pt' = length pt1" "j' \<le> length pt1"
      "take j' pt' = take (j + 2) pt1 @ unpair (merged_pairs qs)"
    using 1(3,4) ab(3) ge by (auto simp: pt1_def)
  have "take (j + 2) pt1 = take j pt @ [a, e]"
    using i(1) 1(3,4) by (simp add: pt1_def take_Suc_conv_app_nth numeral_2_eq_2 take_update_swap list_update_append)
  moreover have "overlap_loop pt len i j = overlap_loop pt1 len i' (j + 2)"
    using i ab(1) by (subst overlap_loop.simps) (simp add: Let_def pt1_def)
  ultimately show ?case using r m by (simp add: pt1_def)
next
  case 2
  then show ?case by (subst overlap_loop.simps) simp
qed

lemma merge_to_props:
  assumes "merge_to e ps = (qs, e')" and "\<forall>(a, b) \<in> set ps. lo \<le> a \<and> a < b" and "sorted_wrt (\<lambda>p q. fst p \<le> fst q) ps"
    and "lo < e"
  shows "e \<le> e' \<and> (\<forall>(a, b) \<in> set qs. e' < a \<and> a < b) \<and> sorted_wrt (\<lambda>p q. fst p \<le> fst q) qs \<and>
    {lo..<e} \<union> (\<Union>(a, b) \<in> set ps. {a..<b}) = {lo..<e'} \<union> (\<Union>(a, b) \<in> set qs. {a..<b})"
  using assms
proof (induction e ps rule: merge_to.induct)
  case (1 e a b ps)
  show ?case
  proof (cases "a > e")
    case True
    then have "qs = (a, b) # ps" "e' = e" using 1(2) by auto
    then show ?thesis using 1(3,4) True by fastforce
  next
    case False
    let ?e = "if b \<le> e then e else b"
    have "lo < ?e" using 1(5) by auto
    with "1.IH"[OF False] 1(2-4) False have ih: "?e \<le> e' \<and> (\<forall>(a, b) \<in> set qs. e' < a \<and> a < b) \<and>
        sorted_wrt (\<lambda>p q. fst p \<le> fst q) qs \<and>
        {lo..<?e} \<union> (\<Union>(a, b) \<in> set ps. {a..<b}) = {lo..<e'} \<union> (\<Union>(a, b) \<in> set qs. {a..<b})"
      by simp
    moreover have "e \<le> ?e" by (simp add: not_le less_imp_le)
    moreover have "{lo..<e} \<union> {a..<b} = {lo..<?e}" using 1(3,5) False by auto
    then have "{lo..<e} \<union> (\<Union>(a, b) \<in> set ((a, b) # ps). {a..<b}) = {lo..<?e} \<union> (\<Union>(a, b) \<in> set ps. {a..<b})"
      by auto
    ultimately show ?thesis using order_trans[of e ?e e'] by simp
  qed
qed auto

lemma merged_pairs_props:
  assumes "\<forall>(a, b) \<in> set ps. a < b" and "sorted_wrt (\<lambda>p q. fst p \<le> fst q) ps"
  shows "sorted_wrt (<) (unpair (merged_pairs ps)) \<and>
    (\<Union>(a, b) \<in> set (merged_pairs ps). {a..<b}) = (\<Union>(a, b) \<in> set ps. {a..<b}) \<and>
    (\<forall>x. (\<forall>(a, b) \<in> set ps. x < a) \<longrightarrow> (\<forall>y \<in> set (unpair (merged_pairs ps)). x < y))"
  using assms
proof (induction ps rule: merged_pairs.induct)
  case (1 a b ps)
  obtain qs e where m: "merge_to b ps = (qs, e)" by fastforce
  have "\<forall>(c, d) \<in> set ps. a \<le> c \<and> c < d" "a < b" using 1(2,3) by auto
  with merge_to_props[OF m, of a] 1(3) have q: "b \<le> e" "\<forall>(a, b) \<in> set qs. e < a \<and> a < b"
    "sorted_wrt (\<lambda>p q. fst p \<le> fst q) qs"
    "{a..<b} \<union> (\<Union>(a, b) \<in> set ps. {a..<b}) = {a..<e} \<union> (\<Union>(a, b) \<in> set qs. {a..<b})" by auto
  have "\<forall>(a, b) \<in> set qs. a < b" using q(2) by auto
  from "1.IH"[OF m[symmetric] this q(3)] have ih: "sorted_wrt (<) (unpair (merged_pairs qs))"
    "(\<Union>(a, b) \<in> set (merged_pairs qs). {a..<b}) = (\<Union>(a, b) \<in> set qs. {a..<b})"
    "\<And>x. (\<forall>(a, b) \<in> set qs. x < a) \<Longrightarrow> (\<forall>y \<in> set (unpair (merged_pairs qs)). x < y)" by blast+
  have "a < e" using \<open>a < b\<close> q(1) by simp
  moreover have "\<forall>y \<in> set (unpair (merged_pairs qs)). e < y" using ih(3)[of e] q(2) by auto
  moreover have "\<forall>y \<in> set (unpair (merged_pairs qs)). a < y" using calculation by force
  ultimately show ?case using ih(1,2) q(4) m by fastforce
qed simp

lemma sort_and_remove_overlap:
  assumes "cr_wf cr" and "even (cr_len cr)" and "\<forall>(a, b) \<in> set (pair_up (cr_list cr)). a < b"
  shows "\<exists>cr'. cr_sort_and_remove_overlap cr = Some cr' \<and> cr_wf cr' \<and> sorted_wrt (<) (cr_list cr') \<and>
    even (length (cr_list cr')) \<and> chars (cr_list cr') = chars (cr_list cr)"
proof -
  let ?l = "cr_len cr" and ?ps = "pair_up (cr_list cr)"
  obtain qs where qs: "rqsort point_cmp ?ps = Some qs" "mset qs = mset ?ps" "sorted_wrt (\<lambda>x y. point_cmp x y \<le> 0) qs"
    using rqsort_returns_sorted[OF points.comparator_axioms] by blast
  have "point_cmp p q \<le> 0 \<longleftrightarrow> fst p \<le> fst q" for p q by (auto simp: point_cmp_def)
  then have so: "sorted_wrt (\<lambda>p q. fst p \<le> fst q) qs" using qs(3) by simp
  have set_qs: "set qs = set ?ps" by (rule mset_eq_setD[OF qs(2)])
  have len: "length (unpair qs) = ?l"
    using mset_eq_length[OF qs(2)] assms(1,2) by (simp add: length_pair_up)
  have in_cr: "?l \<le> length (cr_points cr)" using assms(1) by (simp add: cr_wf_def)
  define pt where "pt = blit (cr_points cr) 0 (unpair qs)"
  have pt: "length pt = length (cr_points cr)" "take ?l pt = unpair qs" using len in_cr by (auto simp: pt_def blit_def)
  obtain pt' j' where o: "overlap_loop pt ?l 0 0 = (pt', j')" "length pt' = length pt" "j' \<le> length pt"
    "take j' pt' = unpair (merged_pairs qs)"
    using overlap_loop_merged[of 0 ?l pt qs 0] pt in_cr by auto
  have q: "\<forall>(a, b) \<in> set qs. a < b" using assms(3) set_qs by simp
  have "cr_sort_and_remove_overlap cr = Some (cr\<lparr>cr_points := pt', cr_len := j'\<rparr>)"
    using qs(1) o(1) by (simp add: cr_sort_and_remove_overlap_def cr_list_def[symmetric] pt_def)
  moreover have "chars (cr_list cr) = (\<Union>(a, b) \<in> set ?ps. {a..<b})"
    using chars_unpair[of ?ps] unpair_pair_up[of "cr_list cr"] assms(1,2) by simp
  ultimately show ?thesis
    using o pt merged_pairs_props[OF q so] set_qs length_unpair[of "merged_pairs qs"]
    by (auto simp: cr_wf_def chars_unpair)
qed

section \<open>What the loop over the characters does\<close>

lemma uint_code_bound: "uint (entry_code v) < 131072"
  using uint_bounded[of v] unfolding uint_entry_code by simp

lemma uint_conv_ext_bound: "uint (conv_ext i) < 65536"
  using uint_bounded[of "case_conv_ext ! unat i"] by (simp add: conv_ext_def uint_up_ucast is_up)

lemma uint_add_le: "uint (x + y :: u32) \<le> uint x + uint y"
  using uint_add_le[of x y] by simp

lemma uint_shift_bound: "covers v c \<Longrightarrow> uint (c - entry_code v) < 128"
proof -
  assume c: "covers v c"
  have "uint (entry_len v) < 128" unfolding uint_entry_len by simp
  then show ?thesis using c unfolding covers_diff[OF c] covers_uint by linarith
qed

text \<open>A conversion to a single character stays far below the marker -1 of the loop.\<close>

lemma entry_bound:
  assumes c: "covers v c" and ok: "entry_ok (uint v)" and one: "lre_case_conv_entry c ct idx v = [d]"
  shows "uint d < 262144"
proof -
  let ?a = "c - entry_code v"
  have a: "uint ?a < 128" by (rule uint_shift_bound[OF c])
  have shift: "uint (?a + x) < 262144" if "uint x < 131072" for x
    using uint_add_le[of ?a x] a that by linarith
  have near: "uint (c + x) < 262144" if "uint x < 131072 - 128" for x
    using uint_add_le[of c x] uint_code_bound[of v] a that unfolding covers_diff[OF c] by linarith
  have same: "uint c < 262144" using near[of 0] by simp
  have flip: "uint ((?a XOR 1) + entry_code v) < 262144"
  proof -
    have "uint (?a XOR 1) < 2 ^ 7" unfolding uint_xor by (rule XOR_upper) (use a in simp_all)
    then show ?thesis using uint_add_le[of "?a XOR 1" "entry_code v"] uint_code_bound[of v] by simp
  qed
  have less: "uint (c - x) < 262144" if "uint x \<le> uint ?a" for x
  proof -
    have "uint x \<le> uint c" using that uint_nonnegative[of "entry_code v"] unfolding covers_diff[OF c] by linarith
    then have "uint (c - x) = uint c - uint x" by (simp add: uint_sub_if')
    then show ?thesis using same uint_nonnegative[of x] by linarith
  qed
  have data: "uint (push_bit 8 v AND 3840 OR ucast (case_conv_table2 ! idx) :: u32) < 4096"
    using uint_data[of v "case_conv_table2 ! idx"] uint_bounded[of "case_conv_table2 ! idx"] by simp
  note simps = lre_case_conv_entry.simps Let_def
  from ok show ?thesis
  proof (cases rule: type_cases)
    case 5
    then show ?thesis using one same flip by (auto simp: simps split: if_splits)
  next
    case 6
    have "uint (c - 1) < 262144" if "?a = 1" using less[of 1] unfolding that by simp
    moreover have "uint (c - 2) < 262144" if "?a = 2" using less[of 2] unfolding that by simp
    ultimately show ?thesis using 6 one same near[of 1] near[of 2]
      by (cases "ct = 0") (auto simp: simps split: if_splits)
  next
    case 8
    have "uint ((push_bit 8 v AND 3840 OR ucast (case_conv_table2 ! idx)) + 0x20 :: u32) < 262144"
      using uint_add_le[of "push_bit 8 v AND 3840 OR ucast (case_conv_table2 ! idx)" "0x20"] data by simp
    then show ?thesis using 8 one same data by (auto simp: simps split: if_splits)
  next
    case 9
    have "uint (conv_ext i) < 262144" "uint (conv_ext i + 1) < 262144" for i
      using uint_conv_ext_bound[of i] uint_add_le[of "conv_ext i" 1] by simp_all
    then show ?thesis using 9 one same by (auto simp: simps split: if_splits)
  qed (use one same shift[OF uint_code_bound] shift[OF order_less_trans[OF uint_conv_ext_bound]]
        order_less_trans[OF uint_conv_ext_bound] in
      \<open>auto simp: simps split: if_splits\<close>)
qed

lemma folding_bound:
  assumes "k < length case_conv_table1" and "covers (case_conv_table1 ! k) c"
  shows "uint (lre_case_folding_entry c k (case_conv_table1 ! k) u) < 262144"
proof -
  have ok: "entry_ok (uint (case_conv_table1 ! k))"
    using entries_ok_low[OF case_conv_table1_ok] nth_mem[OF assms(1)] by blast
  have one: "uint (xs ! 0) < 262144" if xs: "xs = lre_case_conv_entry c ct k (case_conv_table1 ! k)" "length xs = 1" for xs ct
  proof -
    obtain e where "xs = [e]" using xs(2) by (cases xs) auto
    then show ?thesis using entry_bound[OF assms(2) ok, of ct k e] xs(1) by simp
  qed
  have c: "uint c < 262144"
    using uint_shift_bound[OF assms(2)] uint_code_bound[of "case_conv_table1 ! k"] covers_diff[OF assms(2)] by linarith
  have small: "uint (c - 32) < 262144" if "c \<ge> 97"
  proof -
    have "uint (c - 32) = uint c - 32" using that by (simp add: uint_sub_if' word_le_def)
    then show ?thesis using c by simp
  qed
  show ?thesis using one[OF refl] c small by (auto simp: lre_case_folding_entry_def Let_def)
qed

text \<open>At the entry of the character the folding of the entry is the canonical form.\<close>

lemma folding_canonical:
  assumes k: "k < length case_conv_table1" and c: "covers (case_conv_table1 ! k) c"
  shows "lre_case_folding_entry c k (case_conv_table1 ! k) u = lre_canonicalize c u"
proof (cases "c < 128")
  case False
  obtain idx where idx: "find_entry c = Some idx"
    using find_entry_cases[of c] nth_mem[OF k] c by (cases "find_entry c") auto
  then have "idx = k" using case_at_unique[of idx c k] find_entry_cases[of c] k c by simp
  then show ?thesis using False idx by (simp add: lre_canonicalize_def)
next
  case True
  show ?thesis
  proof (cases u)
    case False
    then show ?thesis using True by (simp add: lre_canonicalize_def lre_case_folding_entry_def)
  next
    case u: True
    have "\<not> 1 < k"
    proof
      assume "1 < k"
      then have "case_conv_table1 ! 2 = case_conv_table1 ! k \<or> uint (entry_code (case_conv_table1 ! 2)) +
          uint (entry_len (case_conv_table1 ! 2)) \<le> uint (entry_code (case_conv_table1 ! k))"
        using entries_ok_apart[OF case_conv_table1_ok, of 2 k] k by (cases "k = 2") auto
      moreover have "uint (entry_code (case_conv_table1 ! 2)) = 0xB5"
        by (simp add: uint_entry_code case_conv_table1_def)
      ultimately have "181 \<le> uint (entry_code (case_conv_table1 ! k))"
        using uint_nonnegative[of "entry_len (case_conv_table1 ! 2)"] by (elim disjE) (simp, linarith)
      then have "128 \<le> uint c" using c unfolding covers_uint by linarith
      then show False using True by (simp add: word_less_def)
    qed
    then have "k = 0 \<or> k = 1" by auto
    then show ?thesis
    proof
      assume k0: "k = 0"
      then have cc: "65 \<le> c" "c \<le> 90" using c by (auto simp: ascii_entries ascii_entry_fields covers_uint word_le_def)
      have data: "(push_bit 8 (0x00209a30 AND 0xf) OR ucast (case_conv_table2 ! 0) :: u32) = 1"
        by (simp add: case_conv_table2_def)
      have "lre_case_conv_entry c 2 0 0x00209a30 = [c - 65 + 97]"
        using data ascii_entries ascii_entry_fields by (simp add: lre_case_conv_entry.simps Let_def)
      then show ?thesis using k0 u True cc ascii_entries
        by (simp add: lre_canonicalize_def lre_case_folding_entry_def Let_def)
    next
      assume k1: "k = 1"
      then have cc: "97 \<le> uint c" using c unfolding k1 ascii_entries covers_uint ascii_entry_fields by simp
      have "lre_case_conv_entry c 2 1 0x00309a00 = [c]"
        using ascii_entry_fields by (simp add: lre_case_conv_entry.simps Let_def)
      then show ?thesis using k1 u True cc ascii_entries
        by (simp add: lre_canonicalize_def lre_case_folding_entry_def Let_def word_le_def)
    qed
  qed
qed

definition cursor_ok :: "nat \<Rightarrow> u32 \<Rightarrow> bool" where
  "cursor_ok idx c \<longleftrightarrow> (\<forall>k < idx. \<forall>d \<ge> c. k < length case_conv_table1 \<longrightarrow> \<not> covers (case_conv_table1 ! k) d)"

lemma find_cursor_finds:
  assumes "cursor_ok idx c" and "v \<in> set case_conv_table1" "covers v c"
  shows "\<exists>k. find_cursor c idx = Some k \<and> k < length case_conv_table1 \<and> covers (case_conv_table1 ! k) c \<and> cursor_ok k c"
  using assms(1)
proof (induction "length case_conv_table1 - idx" arbitrary: idx rule: less_induct)
  case less
  obtain j where j: "j < length case_conv_table1" "covers (case_conv_table1 ! j) c"
    using assms(2,3) by (auto simp: in_set_conv_nth)
  have "\<not> j < idx" using less(2) j unfolding cursor_ok_def by blast
  then have "idx \<le> j" by simp
  then have idx: "idx < length case_conv_table1" using j(1) by simp
  show ?case
  proof (cases "covers (case_conv_table1 ! idx) c")
    case True
    then show ?thesis using less(2) idx by (subst find_cursor.simps) (auto simp: Let_def covers_def)
  next
    case False
    have "\<not> covers (case_conv_table1 ! idx) d" if "c \<le> d" for d
    proof -
      have "idx < j" using False j(2) \<open>idx \<le> j\<close> by (cases "idx = j") auto
      then show ?thesis using entries_ok_apart[OF case_conv_table1_ok _ j(1)] j(2) that
        unfolding covers_uint word_le_def by fastforce
    qed
    then have "cursor_ok (idx + 1) c" using less(2) by (auto simp: cursor_ok_def less_Suc_eq)
    moreover have "length case_conv_table1 - (idx + 1) < length case_conv_table1 - idx" using idx by simp
    moreover have "find_cursor c idx = find_cursor c (idx + 1)"
      using idx False by (subst find_cursor.simps) (auto simp: Let_def covers_def)
    ultimately show ?thesis using less(1) by simp
  qed
qed

text \<open>
  The loop invariant: the result and the interval under construction hold the canonical forms \<open>D\<close>, unless
  the result could not grow, which it then never can.
\<close>

definition stuck :: "cr_mem \<Rightarrow> char_range \<Rightarrow> bool" where
  "stuck m cr \<longleftrightarrow> (\<forall>a b. fst (cr_add_interval m cr a b) \<noteq> 0)"

definition pending :: "canon_state \<Rightarrow> u32 set" where
  "pending s = (if cs_start s = - 1 then {} else {cs_start s..<cs_end s})"

definition canon_inv :: "cr_mem \<Rightarrow> canon_state \<Rightarrow> u32 set \<Rightarrow> bool" where
  "canon_inv m s D \<longleftrightarrow> cr_wf (cs_result s) \<and> even (cr_len (cs_result s)) \<and>
     (\<forall>(a, b) \<in> set (pair_up (cr_list (cs_result s))). a < b) \<and>
     (cs_start s \<noteq> - 1 \<longrightarrow> uint (cs_start s) < uint (cs_end s) \<and> uint (cs_end s) \<le> 262144) \<and>
     (cs_start s = - 1 \<longrightarrow> cs_result s = cr_init) \<and>
     (if stuck m (cs_result s) \<and> cs_start s \<noteq> - 1 then True
      else chars (cr_list (cs_result s)) \<union> pending s = D)"

lemma add_interval_cases:
  assumes "cr_wf cr"
  shows "stuck m cr \<and> snd (cr_add_interval m cr a b) = cr \<or>
    fst (cr_add_interval m cr a b) = 0 \<and> cr_wf (snd (cr_add_interval m cr a b)) \<and>
    cr_list (snd (cr_add_interval m cr a b)) = cr_list cr @ [a, b]"
proof (cases "fst (cr_add_interval m cr a b) = 0")
  case True
  then show ?thesis using cr_add_interval_returns[OF assms, of m a b] by (simp add: cr_returns_def)
next
  case False
  have fail: "fst (if cr_len cr + 2 > cr_size cr then cr_realloc m cr (cr_len cr + 2) else (0, cr)) \<noteq> 0 \<and>
      snd (if cr_len cr + 2 > cr_size cr then cr_realloc m cr (cr_len cr + 2) else (0, cr)) = cr"
    using False by (auto simp: cr_add_interval_def cr_realloc_def Let_def split: if_splits)
  have "or_fail r f = (- 1, snd r)" if "fst r \<noteq> 0" for r f using that by (cases r) simp
  from this[OF conjunct1[OF fail]] show ?thesis
    using fail by (auto simp: stuck_def cr_add_interval_def)
qed

lemma pair_up_append: "even (length xs) \<Longrightarrow> pair_up (xs @ ys) = pair_up xs @ pair_up ys"
  by (induction xs rule: pair_up.induct) auto

lemma uint_succ: "uint b \<le> 262144 \<Longrightarrow> uint (b + 1 :: u32) = uint b + 1"
  by (simp add: uint_plus_if')

lemma uint_max: "uint (- 1 :: u32) = 4294967295"
  by (simp add: unsigned_minus_1_eq_mask mask_eq_exp_minus_1)

lemma below_succ: "uint b \<le> 262144 \<Longrightarrow> (x :: u32) < b + 1 \<longleftrightarrow> x < b \<or> x = b"
  unfolding word_less_def word_uint_eq_iff by (simp add: uint_succ) presburger

lemma interval_extend: "uint (a :: u32) < uint b \<Longrightarrow> uint b \<le> 262144 \<Longrightarrow> {a..<b + 1} = insert b {a..<b}"
  by (rule set_eqI) (auto simp only: atLeastLessThan_iff insert_iff below_succ word_le_def)

lemma interval_single: "uint (d :: u32) < 262144 \<Longrightarrow> {d..<d + 1} = {d}"
  by (rule set_eqI) (auto simp: below_succ)

lemma canon_char_inv:
  assumes "canon_inv m s D" and "cursor_ok (cs_idx s) c" and "v \<in> set case_conv_table1" "covers v c"
  shows "\<exists>s'. canon_char m u c s = Some s' \<and> canon_inv m s' (insert (lre_canonicalize c u) D) \<and>
    cursor_ok (cs_idx s') c \<and> cs_start s' \<noteq> - 1"
proof -
  obtain k where k: "find_cursor c (cs_idx s) = Some k" "k < length case_conv_table1"
    "covers (case_conv_table1 ! k) c" "cursor_ok k c" using find_cursor_finds[OF assms(2-4)] by blast
  define d where "d = lre_canonicalize c u"
  have fold: "lre_case_folding_entry c k (case_conv_table1 ! k) u = d"
    using folding_canonical[OF k(2,3)] by (simp add: d_def)
  have d: "uint d < 262144" using folding_bound[OF k(2,3), of u] fold by simp
  then have d1: "uint (d + 1) = uint d + 1" "d \<noteq> - 1" using uint_succ[of d] uint_max by auto
  let ?r = "cs_result s"
  have inv: "cr_wf ?r" "even (cr_len ?r)" "\<forall>(a, b) \<in> set (pair_up (cr_list ?r)). a < b"
    using assms(1) by (auto simp: canon_inv_def)
  consider "cs_start s = - 1" | "cs_start s \<noteq> - 1" "cs_end s = d" | "cs_start s \<noteq> - 1" "cs_end s \<noteq> d" by blast
  then show ?thesis
  proof cases
    case 1
    then have "canon_char m u c s = Some (s\<lparr>cs_idx := k, cs_start := d, cs_end := d + 1\<rparr>)"
      using k(1) fold by (simp add: canon_char_def Let_def)
    then show ?thesis using assms(1) 1 d d1 k(4) interval_single[OF d]
      by (auto simp: canon_inv_def pending_def d_def[symmetric])
  next
    case 2
    then have s: "uint (cs_start s) < uint d" "uint d \<le> 262144" using assms(1) by (auto simp: canon_inv_def)
    have "canon_char m u c s = Some (s\<lparr>cs_idx := k, cs_end := d + 1\<rparr>)"
      using k(1) fold 2 by (simp add: canon_char_def Let_def)
    then show ?thesis using assms(1) 2 d d1 k(4) interval_extend[OF s] s(1)
      by (auto simp: canon_inv_def pending_def d_def[symmetric])
  next
    case 3
    then have s: "uint (cs_start s) < uint (cs_end s)" using assms(1) by (auto simp: canon_inv_def)
    let ?r' = "snd (cr_add_interval m ?r (cs_start s) (cs_end s))"
    have "canon_char m u c s = Some (s\<lparr>cs_idx := k, cs_result := ?r', cs_start := d, cs_end := d + 1\<rparr>)"
      using k(1) fold 3 by (simp add: canon_char_def Let_def)
    moreover from add_interval_cases[OF inv(1)]
    have "canon_inv m (s\<lparr>cs_idx := k, cs_result := ?r', cs_start := d, cs_end := d + 1\<rparr>) (insert d D)"
    proof
      assume "stuck m ?r \<and> ?r' = ?r"
      then show ?thesis using inv d d1 by (simp add: canon_inv_def)
    next
      assume a: "fst (cr_add_interval m ?r (cs_start s) (cs_end s)) = 0 \<and> cr_wf ?r' \<and>
        cr_list ?r' = cr_list ?r @ [cs_start s, cs_end s]"
      then have "\<not> stuck m ?r" by (auto simp: stuck_def)
      then have "chars (cr_list ?r) \<union> {cs_start s..<cs_end s} = D" using assms(1) 3 by (simp add: canon_inv_def pending_def)
      moreover have "even (length (cr_list ?r))" using inv by simp
      moreover have "cr_len ?r' = cr_len ?r + 2" using a inv length_cr_list[of ?r'] by simp
      then have "even (cr_len ?r')" using inv(2) by simp
      ultimately show ?thesis using a inv d d1 s interval_single[OF d] 3
        by (auto simp: canon_inv_def pending_def pair_up_append chars_append word_less_def)
    qed
    ultimately show ?thesis using k(4) d1 by (simp add: d_def)
  qed
qed

lemma cursor_ok_mono: "cursor_ok idx c \<Longrightarrow> c \<le> d \<Longrightarrow> cursor_ok idx d"
  by (auto simp: cursor_ok_def)

lemma uint_succ_below: "c < e \<Longrightarrow> uint (c + 1 :: u32) = uint c + 1"
proof -
  assume "c < e"
  then have "uint c + 1 < 4294967296" using uint_bounded[of e] by (simp add: word_less_def)
  then show ?thesis by (simp add: uint_plus_if')
qed

lemma canon_interval_inv:
  assumes "canon_inv m s D" and "cursor_ok (cs_idx s) c" and "\<And>d. c \<le> d \<Longrightarrow> d < e \<Longrightarrow> \<exists>v \<in> set case_conv_table1. covers v d"
    and "c \<le> e"
  shows "\<exists>s'. canon_interval m u c e s = Some s' \<and> canon_inv m s' ((\<lambda>c. lre_canonicalize c u) ` {c..<e} \<union> D) \<and>
    cursor_ok (cs_idx s') e"
  using assms
proof (induction m u c e s arbitrary: D rule: canon_interval.induct)
  case (1 m u c e s)
  show ?case
  proof (cases "c < e")
    case False
    then have "c = e" using 1(5) by simp
    then show ?thesis using 1(2,3) by (subst canon_interval.simps) simp
  next
    case True
    obtain v where v: "v \<in> set case_conv_table1" "covers v c" using 1(4)[of c] True by auto
    obtain s' where s': "canon_char m u c s = Some s'" "canon_inv m s' (insert (lre_canonicalize c u) D)"
      "cursor_ok (cs_idx s') c" using canon_char_inv[OF 1(2,3) v] by blast
    note u1 = uint_succ_below[OF True]
    have c1: "c \<le> c + 1" "c + 1 \<le> e" and c1': "\<And>d. c + 1 \<le> d \<Longrightarrow> c \<le> d"
      using True unfolding word_le_def word_less_def u1 by auto
    have "cursor_ok (cs_idx s') (c + 1)" by (rule cursor_ok_mono[OF s'(3) c1(1)])
    from "1.IH"[OF True s'(1) s'(2) this _ c1(2)] 1(4) c1' obtain s2 where
      s2: "canon_interval m u (c + 1) e s' = Some s2"
        "canon_inv m s2 ((\<lambda>c. lre_canonicalize c u) ` {c + 1..<e} \<union> insert (lre_canonicalize c u) D)"
        "cursor_ok (cs_idx s2) e" by blast
    have "x \<in> {c..<e} \<longleftrightarrow> x \<in> insert c {c + 1..<e}" for x
      using True unfolding atLeastLessThan_iff insert_iff word_le_def word_less_def word_uint_eq_iff u1 by auto
    then have "{c..<e} = insert c {c + 1..<e}" by blast
    then have "(\<lambda>c. lre_canonicalize c u) ` {c + 1..<e} \<union> insert (lre_canonicalize c u) D =
        (\<lambda>c. lre_canonicalize c u) ` {c..<e} \<union> D" by auto
    then show ?thesis using s' s2 True by (subst canon_interval.simps) simp
  qed
qed

lemma canon_intervals_inv:
  assumes "canon_inv m s D" and "sorted_wrt (<) pt" "even (length pt)" and "\<forall>p \<in> set pt. cursor_ok (cs_idx s) p"
    and "\<And>d. d \<in> chars pt \<Longrightarrow> \<exists>v \<in> set case_conv_table1. covers v d"
  shows "\<exists>s'. canon_intervals m u pt s = Some s' \<and> canon_inv m s' ((\<lambda>c. lre_canonicalize c u) ` chars pt \<union> D)"
  using assms
proof (induction m u pt s arbitrary: D rule: canon_intervals.induct)
  case (1 m u a b pt s)
  have "cursor_ok (cs_idx s) a" "a \<le> b" using 1(3,5) by auto
  with canon_interval_inv[OF 1(2), of a b u] 1(6) obtain s' where
    s': "canon_interval m u a b s = Some s'" "canon_inv m s' ((\<lambda>c. lre_canonicalize c u) ` {a..<b} \<union> D)"
      "cursor_ok (cs_idx s') b" by fastforce
  have "\<forall>p \<in> set pt. cursor_ok (cs_idx s') p"
    using cursor_ok_mono[OF s'(3)] 1(3) by (auto intro: less_imp_le)
  with "1.IH"[OF s'(1,2)] 1(3,4,6) obtain s2 where s2: "canon_intervals m u pt s' = Some s2"
    "canon_inv m s2 ((\<lambda>c. lre_canonicalize c u) ` chars pt \<union> ((\<lambda>c. lre_canonicalize c u) ` {a..<b} \<union> D))" by auto
  then show ?case using s'(1) by (simp add: image_Un Un_ac)
qed simp_all

lemma canonical_unchanged:
  assumes "lre_case_conv c (if u then 2 else 0) = [c]"
  shows "lre_canonicalize c u = c"
  using assms by (cases u) (auto simp: lre_canonicalize_spec)

lemma cr_returns_fail: "cr_returns m (ret, cr') P \<Longrightarrow> ret \<noteq> 0 \<Longrightarrow> cr_wf cr \<Longrightarrow> cr_returns m (- 1, cr) Q"
  by (simp add: cr_returns_def)

text \<open>Merging what was collected and adding the characters the folding leaves alone.\<close>

lemma finish_canonical:
  assumes inv: "canon_inv m s D" and cr: "cr_wf cr" and sub: "sorted sub" "even (length sub)"
  shows "\<exists>r. (let (ret, result) = (if cs_start s \<noteq> - 1 then cr_add_interval m (cs_result s) (cs_start s) (cs_end s)
                 else (0, cs_result s))
            in if ret \<noteq> 0 then Some (- 1, cr)
               else (case cr_sort_and_remove_overlap result of
                       None \<Rightarrow> None
                     | Some result \<Rightarrow>
                         Some (or_fail (cr_op m (cr\<lparr>cr_len := 0\<rparr>) (cr_list result) sub CR_OP_UNION)
                           (\<lambda>cr. (0, cr))))) = Some r \<and>
    cr_returns m r (\<lambda>xs. normal xs \<and> chars xs = D \<union> chars sub)"
proof -
  let ?r = "cs_result s" and ?add = "cr_add_interval m (cs_result s) (cs_start s) (cs_end s)"
  have wf: "cr_wf ?r" "even (cr_len ?r)" "\<forall>(a, b) \<in> set (pair_up (cr_list ?r)). a < b"
    using inv by (auto simp: canon_inv_def)
  define res where "res = (if cs_start s \<noteq> - 1 then ?add else (0, ?r))"
  have res: "fst res \<noteq> 0 \<and> (\<exists>n. \<not> can_realloc m n) \<or> fst res = 0 \<and> cr_wf (snd res) \<and> even (cr_len (snd res)) \<and>
      (\<forall>(a, b) \<in> set (pair_up (cr_list (snd res))). a < b) \<and> chars (cr_list (snd res)) = D"
  proof (cases "cs_start s = - 1")
    case True
    then show ?thesis using inv wf by (auto simp: res_def canon_inv_def pending_def)
  next
    case False
    then have s: "cs_start s < cs_end s" using inv by (auto simp: canon_inv_def word_less_def)
    from add_interval_cases[OF wf(1), of m "cs_start s" "cs_end s"] show ?thesis
    proof
      assume a: "stuck m ?r \<and> snd ?add = ?r"
      then have "fst ?add \<noteq> 0" by (simp add: stuck_def)
      then show ?thesis using cr_add_interval_returns[OF wf(1), of m "cs_start s" "cs_end s"] False
        by (auto simp: res_def cr_returns_def)
    next
      assume a: "fst ?add = 0 \<and> cr_wf (snd ?add) \<and> cr_list (snd ?add) = cr_list ?r @ [cs_start s, cs_end s]"
      then have "\<not> stuck m ?r" by (auto simp: stuck_def)
      then have "chars (cr_list ?r) \<union> {cs_start s..<cs_end s} = D" using inv False by (simp add: canon_inv_def pending_def)
      moreover have "even (length (cr_list ?r))" using wf by simp
      moreover have "cr_len (snd ?add) = cr_len ?r + 2" using a wf length_cr_list[of "snd ?add"] by simp
      then have "even (cr_len (snd ?add))" using wf(2) by simp
      ultimately show ?thesis using a wf s False by (auto simp: res_def pair_up_append chars_append)
    qed
  qed
  obtain ret result where rr: "res = (ret, result)" by fastforce
  show ?thesis
  proof (cases "ret = 0")
    case False
    then show ?thesis using res rr cr unfolding res_def[symmetric] by (simp add: cr_returns_def)
  next
    case True
    then have "cr_wf result" "even (cr_len result)" "\<forall>(a, b) \<in> set (pair_up (cr_list result)). a < b"
      "chars (cr_list result) = D" using res rr by auto
    from sort_and_remove_overlap[OF this(1-3)] this(4) obtain result' where
      r': "cr_sort_and_remove_overlap result = Some result'" "sorted_wrt (<) (cr_list result')"
        "even (length (cr_list result'))" "chars (cr_list result') = D" by blast
    have cr0: "cr_wf (cr\<lparr>cr_len := 0\<rparr>)" "cr_len (cr\<lparr>cr_len := 0\<rparr>) = 0" using cr by (simp_all add: cr_wf_def)
    have "cr_returns m (or_fail (cr_op m (cr\<lparr>cr_len := 0\<rparr>) (cr_list result') sub CR_OP_UNION) (\<lambda>cr. (0, cr)))
        (\<lambda>xs. normal xs \<and> chars xs = D \<union> chars sub)"
      by (rule or_fail_returns[OF cr_op_chars[OF cr0 _ r'(3) sub]])
        (use r' in \<open>auto simp: cr_returns_def strict_sorted_imp_sorted\<close>)
    then show ?thesis using True rr r'(1) unfolding res_def[symmetric] by simp
  qed
qed

lemma cr_regexp_canonicalize_returns:
  assumes "cr_wf cr" and "sorted_wrt (<) (cr_list cr)" "even (cr_len cr)"
  shows "\<exists>r. cr_regexp_canonicalize m cr is_unicode = Some r \<and>
    cr_returns m r (\<lambda>xs. sorted_wrt (<) xs \<and> even (length xs) \<and>
      chars xs = (\<lambda>c. lre_canonicalize c is_unicode) ` chars (cr_list cr))"
proof -
  let ?ct = "if is_unicode then 2 else 0 :: nat" and ?f = "\<lambda>c. lre_canonicalize c is_unicode"
  let ?M = "{c. lre_case_conv c ?ct \<noteq> [c]}" and ?C = "chars (cr_list cr)"
  have cr: "sorted (cr_list cr)" "even (length (cr_list cr))" using assms by (simp_all add: strict_sorted_imp_sorted)
  have init: "cr_wf cr_init" "cr_len cr_init = 0" by (simp_all add: cr_init_def cr_wf_def)
  have mask_arg: "(if is_unicode then CASE_F else CASE_U) = push_bit ?ct 1" by simp
  obtain ret1 mask where m1: "unicode_case1 m cr_init (if is_unicode then CASE_F else CASE_U) = (ret1, mask)" by fastforce
  have r1: "cr_returns m (ret1, mask) (\<lambda>xs. sorted xs \<and> even (length xs) \<and> chars xs = ?M)"
    using unicode_case1_chars[of ?ct m] unfolding m1[symmetric] mask_arg by simp
  obtain ret2 inter where m2: "cr_op m cr_init (cr_list mask) (cr_list cr) CR_OP_INTER = (ret2, inter)" by fastforce
  obtain ret3 mask3 where m3: "cr_invert m mask = (ret3, mask3)" by fastforce
  obtain ret4 sub where m4: "cr_op m cr_init (cr_list mask3) (cr_list cr) CR_OP_INTER = (ret4, sub)" by fastforce
  note def = cr_regexp_canonicalize_def[of m cr is_unicode, unfolded m1 Let_def prod.case m2 m3]
  show ?thesis
  proof (cases "ret1 = 0")
    case False
    then show ?thesis using cr_returns_fail[OF r1 False assms(1)] by (simp add: def)
  next
    case 1: True
    then have mask: "cr_wf mask" "sorted (cr_list mask)" "even (length (cr_list mask))" "chars (cr_list mask) = ?M"
      using r1 unfolding cr_returns_def by auto
    have r2: "cr_returns m (ret2, inter) (\<lambda>xs. normal xs \<and> chars xs = ?M \<inter> ?C)"
      using cr_op_chars[OF init mask(2,3) cr, of m CR_OP_INTER] unfolding m2 mask(4) by simp
    have even_mask: "even (cr_len mask)" using mask(3) mask(1)[THEN length_cr_list] by argo
    have r3: "cr_returns m (ret3, mask3) (\<lambda>xs. normal xs \<and> chars xs = - ?M - {- 1})"
      using cr_invert_returns[OF mask(1,2) even_mask, of m] unfolding m3
    proof (rule cr_returns_mono)
      fix xs assume x: "normal xs \<and> (\<forall>c. inside xs c = (if c = - 1 then inside (cr_list mask) c else \<not> inside (cr_list mask) c))"
      then have "c \<in> chars xs \<longleftrightarrow> c \<in> - ?M - {- 1}" for c
        using inside_chars[OF mask(2,3), of c] inside_chars[of xs c] not_max_char[of xs] unfolding mask(4)
        by (cases "c = - 1") (auto simp: normal_def strict_sorted_imp_sorted)
      then show "normal xs \<and> chars xs = - ?M - {- 1}" using x by blast
    qed
    show ?thesis
    proof (cases "ret2 = 0 \<and> ret3 = 0")
      case False
      then show ?thesis using cr_returns_fail[OF r2 _ assms(1)] cr_returns_fail[OF r3 _ assms(1)] 1
        by (cases "ret2 = 0") (auto simp: def)
    next
      case 23: True
      then have inter: "normal (cr_list inter)" "chars (cr_list inter) = ?M \<inter> ?C"
        and mask3: "normal (cr_list mask3)" "chars (cr_list mask3) = - ?M - {- 1}"
        using r2 r3 by (simp_all add: cr_returns_def)
      have r4: "cr_returns m (ret4, sub) (\<lambda>xs. normal xs \<and> chars xs = (- ?M - {- 1}) \<inter> ?C)"
        using cr_op_chars[OF init normal_sorted[OF mask3(1)] _ cr, of m CR_OP_INTER] mask3
        unfolding m4 by (simp add: normal_def)
      show ?thesis
      proof (cases "ret4 = 0")
        case False
        then show ?thesis using cr_returns_fail[OF r4 False assms(1)] 1 23 m4 by (simp add: def)
      next
        case 4: True
        then have sub: "normal (cr_list sub)" "chars (cr_list sub) = (- ?M - {- 1}) \<inter> ?C"
          using r4 by (simp_all add: cr_returns_def)
        let ?s0 = "\<lparr>cs_idx = 0, cs_start = - 1, cs_end = - 1, cs_result = cr_init\<rparr>"
        have "\<exists>v \<in> set case_conv_table1. covers v d" if "d \<in> ?M" for d
        proof -
          have "d \<in> case_chars (push_bit ?ct 1)" using that case_chars_iff[of ?ct d] by auto
          then show ?thesis by (auto simp: case_chars_def entry_chars_def Let_def)
        qed
        moreover have "canon_inv m ?s0 {}" by (simp add: canon_inv_def pending_def cr_init_def cr_wf_def cr_list_def)
        moreover have "cursor_ok 0 p" for p by (simp add: cursor_ok_def)
        ultimately obtain s where s: "canon_intervals m is_unicode (cr_list inter) ?s0 = Some s" "canon_inv m s (?f ` (?M \<inter> ?C))"
          using canon_intervals_inv[of m ?s0 "{}" "cr_list inter" is_unicode] inter by (auto simp: normal_def)
        have image: "?f ` (?M \<inter> ?C) \<union> ((- ?M - {- 1}) \<inter> ?C) = ?f ` ?C"
        proof -
          have "?f c = c" if "c \<notin> ?M" for c using canonical_unchanged[of c is_unicode] that by simp
          moreover have "- 1 \<notin> ?C" using not_max_char[of "cr_list cr"] assms by (simp add: normal_def)
          ultimately show ?thesis by force
        qed
        from finish_canonical[OF s(2) assms(1) normal_sorted[OF sub(1)]] sub(1) obtain r where
          "cr_regexp_canonicalize m cr is_unicode = Some r"
          "cr_returns m r (\<lambda>xs. normal xs \<and> chars xs = ?f ` (?M \<inter> ?C) \<union> chars (cr_list sub))"
          using 1 23 4 m4 s(1) by (auto simp: def normal_def Let_def)
        then show ?thesis unfolding sub(2) image normal_def by (auto intro: cr_returns_mono)
      qed
    qed
  qed
qed

section \<open>Properties\<close>

text \<open>
  \<^bold>\<open>C34.\<close> When every request for memory is served, \<open>cr_regexp_canonicalize\<close> returns 0 and has replaced the class by the set
  of canonical forms of its characters, in normal form: the cursor into the case table never passes its
  end, although the result is computed from the mask of changed characters, the entries of the table and the untouched rest
  separately. Nothing is claimed when a request is refused: the results of the calls of \<open>cr_add_interval\<close> inside
  the loop are ignored, so a single refused request there loses an interval.
\<close>

theorem cr_regexp_canonicalize_image:
  assumes "\<forall>n. can_realloc m n"
    and "cr_wf cr" "sorted_wrt (<) (cr_list cr)" "even (cr_len cr)"
  shows "\<exists>cr'. cr_regexp_canonicalize m cr is_unicode = Some (0, cr') \<and> cr_wf cr' \<and>
    sorted_wrt (<) (cr_list cr') \<and> even (length (cr_list cr')) \<and>
    chars (cr_list cr') = (\<lambda>c. lre_canonicalize c is_unicode) ` chars (cr_list cr)"
proof -
  obtain r where "cr_regexp_canonicalize m cr is_unicode = Some r"
    "cr_returns m r (\<lambda>xs. sorted_wrt (<) xs \<and> even (length xs) \<and>
      chars xs = (\<lambda>c. lre_canonicalize c is_unicode) ` chars (cr_list cr))"
    using cr_regexp_canonicalize_returns[OF assms(2-4), of m is_unicode] by blast
  then show ?thesis using assms(1) by (cases r) (auto simp: cr_returns_def split: if_splits)
qed

theorem cr_regexp_canonicalize_image_witness:
  "\<exists>cr'. cr_regexp_canonicalize mem0 \<lparr>cr_len = 2, cr_points = [65, 91]\<rparr> False = Some (0, cr') \<and>
    chars (cr_list cr') = (\<lambda>c. lre_canonicalize c False) ` chars [65, 91]"
proof -
  have "\<forall>n. can_realloc mem0 n" by (simp add: mem0_def)
  from cr_regexp_canonicalize_image[OF this, of "\<lparr>cr_len = 2, cr_points = [65, 91]\<rparr>" False]
  show ?thesis by (auto simp: cr_wf_def cr_list_def)
qed

end
