(* ===== verification/Sort_State.thy ===== *)
theory Sort_State
  imports Sort_Props
begin

text \<open>
  \<open>rqsort\<close> with a comparison function that has effects: it reads and changes the state behind its
  \<open>opaque\<close> argument and the two elements it compares. The routines are those of \<open>Sort\<close> with the
  state passed along; a comparison whose answers depend only on what it never changes sorts as the
  function without effects does.
\<close>

section \<open>Routines\<close>

text \<open>
  A comparison gets two elements and gives them back, changed or not, to their places; the state is that
  behind \<open>opaque\<close>. Exchanges move elements with all they hold and do not touch the state.
\<close>

type_synonym ('s, 'a) cmp_st = "'s \<Rightarrow> 'a \<Rightarrow> 'a \<Rightarrow> int \<times> 's \<times> 'a \<times> 'a"
type_synonym ('s, 'a) store = "'s \<times> 'a list"

definition cmp_at_st :: "('s, 'a) cmp_st \<Rightarrow> ('s, 'a) store \<Rightarrow> nat \<Rightarrow> nat \<Rightarrow> (int \<times> ('s, 'a) store) option" where
  "cmp_at_st cmp st i j =
     (case st of (s, xs) \<Rightarrow>
        if i < length xs \<and> j < length xs then
          (case cmp s (xs ! i) (xs ! j) of (d, s, a, b) \<Rightarrow> Some (d, s, xs[i := a, j := b]))
        else None)"

definition swap_st :: "('s, 'a) store \<Rightarrow> nat \<Rightarrow> nat \<Rightarrow> ('s, 'a) store option" where
  "swap_st st i j = (case st of (s, xs) \<Rightarrow> map_option (Pair s) (swap xs i j))"

definition swap_block_st :: "('s, 'a) store \<Rightarrow> nat \<Rightarrow> nat \<Rightarrow> nat \<Rightarrow> ('s, 'a) store option" where
  "swap_block_st st i j n = (case st of (s, xs) \<Rightarrow> map_option (Pair s) (swap_block xs i j n))"

function sink_st :: "('s, 'a) cmp_st \<Rightarrow> ('s, 'a) store \<Rightarrow> nat \<Rightarrow> nat \<Rightarrow> ('s, 'a) store option" where
  "sink_st cmp st r n =
     (let c = r * 2 + 1
      in if c < n then do {
           (right, st) \<leftarrow> (if c < n - 1 then map_option (\<lambda>(d, st). (d \<le> 0, st)) (cmp_at_st cmp st c (c + 1))
                           else Some (False, st));
           let c = (if right then c + 1 else c);
           (d, st) \<leftarrow> cmp_at_st cmp st r c;
           if d > 0 then Some st else do { st \<leftarrow> swap_st st r c; sink_st cmp st c n }
         }
         else Some st)"
  by auto
termination by (relation "measure (\<lambda>(cmp, st, r, n). n - r)") (auto split: if_splits)

declare sink_st.simps [simp del]

fun build_heap_st :: "('s, 'a) cmp_st \<Rightarrow> ('s, 'a) store \<Rightarrow> nat \<Rightarrow> nat \<Rightarrow> ('s, 'a) store option" where
  "build_heap_st cmp st 0 n = Some st"
| "build_heap_st cmp st (Suc i) n = do { st \<leftarrow> sink_st cmp st i n; build_heap_st cmp st i n }"

fun extract_max_st :: "('s, 'a) cmp_st \<Rightarrow> ('s, 'a) store \<Rightarrow> nat \<Rightarrow> ('s, 'a) store option" where
  "extract_max_st cmp st 0 = Some st"
| "extract_max_st cmp st (Suc i) = do {
     st \<leftarrow> swap_st st 0 (Suc i); st \<leftarrow> sink_st cmp st 0 (Suc i); extract_max_st cmp st i }"

definition heapsortx_st :: "('s, 'a) cmp_st \<Rightarrow> ('s, 'a) store \<Rightarrow> ('s, 'a) store option" where
  "heapsortx_st cmp st =
     (let n = length (snd st)
      in if n > 1 then do { st \<leftarrow> build_heap_st cmp st (n div 2) n; extract_max_st cmp st (n - 1) } else Some st)"

definition med3_st :: "('s, 'a) cmp_st \<Rightarrow> ('s, 'a) store \<Rightarrow> nat \<Rightarrow> nat \<Rightarrow> nat \<Rightarrow> (nat \<times> ('s, 'a) store) option" where
  "med3_st cmp st a b c = do {
     (ab, st) \<leftarrow> cmp_at_st cmp st a b;
     (bc, st) \<leftarrow> cmp_at_st cmp st b c;
     if ab < 0 then
       if bc < 0 then Some (b, st)
       else do { (ac, st) \<leftarrow> cmp_at_st cmp st a c; Some (if ac < 0 then c else a, st) }
     else
       if bc > 0 then Some (b, st)
       else do { (ac, st) \<leftarrow> cmp_at_st cmp st a c; Some (if ac < 0 then a else c, st) }
   }"

function scan_up_st ::
  "('s, 'a) cmp_st \<Rightarrow> ('s, 'a) store \<Rightarrow> nat \<Rightarrow> nat \<Rightarrow> nat \<Rightarrow> (('s, 'a) store \<times> nat \<times> nat) option" where
  "scan_up_st cmp st i j lt =
     (if i < j then do {
        (c, st) \<leftarrow> cmp_at_st cmp st 0 i;
        if c \<ge> 0 then
          if c = 0 then do { st \<leftarrow> swap_st st lt i; scan_up_st cmp st (i + 1) j (lt + 1) }
          else scan_up_st cmp st (i + 1) j lt
        else Some (st, i, lt)
      }
      else Some (st, i, lt))"
  by auto
termination by (relation "measure (\<lambda>(cmp, st, i, j, lt). j - i)") auto

function scan_down_st ::
  "('s, 'a) cmp_st \<Rightarrow> ('s, 'a) store \<Rightarrow> nat \<Rightarrow> nat \<Rightarrow> nat \<Rightarrow> (('s, 'a) store \<times> nat \<times> nat) option" where
  "scan_down_st cmp st i j gt =
     (let j = j - 1
      in if i < j then do {
           (c, st) \<leftarrow> cmp_at_st cmp st 0 j;
           if c \<le> 0 then
             if c = 0 then do { st \<leftarrow> swap_st st (gt - 1) j; scan_down_st cmp st i j (gt - 1) }
             else scan_down_st cmp st i j gt
           else Some (st, j, gt)
         }
         else Some (st, j, gt))"
  by auto
termination by (relation "measure (\<lambda>(cmp, st, i, j, gt). j)") auto

declare scan_up_st.simps [simp del] scan_down_st.simps [simp del]

partial_function (option) partition_loop_st ::
  "('s, 'a) cmp_st \<Rightarrow> ('s, 'a) store \<Rightarrow> nat \<Rightarrow> nat \<Rightarrow> nat \<Rightarrow> nat \<Rightarrow> (('s, 'a) store \<times> nat \<times> nat \<times> nat) option" where
  "partition_loop_st cmp st i j lt gt = do {
     (st, i, lt) \<leftarrow> scan_up_st cmp st i j lt;
     (st, j, gt) \<leftarrow> scan_down_st cmp st i j gt;
     if i \<ge> j then Some (st, i, lt, gt)
     else do { st \<leftarrow> swap_st st i j; partition_loop_st cmp st (i + 1) j lt gt }
   }"

definition partition_seg_st :: "('s, 'a) cmp_st \<Rightarrow> ('s, 'a) store \<Rightarrow> (('s, 'a) store \<times> nat \<times> nat) option" where
  "partition_seg_st cmp st = do {
     let n = length (snd st);
     let m4 = n div 4;
     (m, st) \<leftarrow> med3_st cmp st m4 (2 * m4) (3 * m4);
     st \<leftarrow> swap_st st 0 m;
     (st, i, lt, gt) \<leftarrow> partition_loop_st cmp st 1 n 1 n;
     let span = min lt (i - lt);
     st \<leftarrow> swap_block_st st 0 (i - span) span;
     let span = min (n - gt) (gt - i);
     st \<leftarrow> swap_block_st st i (n - span) span;
     Some (st, i - lt, n - (gt - i))
   }"

fun insert_down_st :: "('s, 'a) cmp_st \<Rightarrow> ('s, 'a) store \<Rightarrow> nat \<Rightarrow> ('s, 'a) store option" where
  "insert_down_st cmp st 0 = Some st"
| "insert_down_st cmp st (Suc j) = do {
     (c, st) \<leftarrow> cmp_at_st cmp st j (Suc j);
     if c > 0 then do { st \<leftarrow> swap_st st (Suc j) j; insert_down_st cmp st j } else Some st
   }"

function insertion_loop_st :: "('s, 'a) cmp_st \<Rightarrow> ('s, 'a) store \<Rightarrow> nat \<Rightarrow> nat \<Rightarrow> ('s, 'a) store option" where
  "insertion_loop_st cmp st i n =
     (if i < n then do { st \<leftarrow> insert_down_st cmp st i; insertion_loop_st cmp st (i + 1) n } else Some st)"
  by auto
termination by (relation "measure (\<lambda>(cmp, st, i, n). n - i)") auto

declare insertion_loop_st.simps [simp del]

definition on_slice_st ::
  "nat \<Rightarrow> nat \<Rightarrow> (('s, 'a) store \<Rightarrow> (('s, 'a) store \<times> 'b) option) \<Rightarrow> ('s, 'a) store \<Rightarrow> (('s, 'a) store \<times> 'b) option" where
  "on_slice_st p n f st =
     (case st of (s, xs) \<Rightarrow>
        if p + n \<le> length xs then
          map_option (\<lambda>((s, ys), r). ((s, take p xs @ ys @ drop (p + n) xs), r)) (f (s, take n (drop p xs)))
        else None)"

function split_loop_st ::
  "('s, 'a) cmp_st \<Rightarrow> nat \<Rightarrow> nat \<Rightarrow> nat \<Rightarrow> segment list \<Rightarrow> ('s, 'a) store \<Rightarrow>
    (nat \<times> nat \<times> segment list \<times> ('s, 'a) store) option"
where
  "split_loop_st cmp p n depth stack st =
     (if n > 6 then
        if depth + 1 > 50 then do {
          (st, _) \<leftarrow> on_slice_st p n (\<lambda>st. map_option (\<lambda>st. (st, ())) (heapsortx_st cmp st)) st;
          Some (p, 0, stack, st)
        }
        else do {
          (st, lt, gt) \<leftarrow> on_slice_st p n (partition_seg_st cmp) st;
          if lt > n - gt then do {
            stack \<leftarrow> push_segment (p, lt, depth + 1) stack;
            split_loop_st cmp (p + gt) (n - gt) (depth + 1) stack st
          }
          else do {
            stack \<leftarrow> push_segment (p + gt, n - gt, depth + 1) stack;
            split_loop_st cmp p lt (depth + 1) stack st
          }
        }
      else Some (p, n, stack, st))"
  by auto
termination by (relation "measure (\<lambda>(cmp, p, n, depth, stack, st). 50 - depth)") auto

declare split_loop_st.simps [simp del]

partial_function (option) sort_loop_st ::
  "('s, 'a) cmp_st \<Rightarrow> segment list \<Rightarrow> ('s, 'a) store \<Rightarrow> ('s, 'a) store option" where
  "sort_loop_st cmp stack st =
     (case stack of
        [] \<Rightarrow> Some st
      | (p, n, depth) # stack \<Rightarrow> do {
          (p, n, stack, st) \<leftarrow> split_loop_st cmp p n depth stack st;
          (st, _) \<leftarrow> on_slice_st p n (\<lambda>st. map_option (\<lambda>st. (st, ())) (insertion_loop_st cmp st 1 n)) st;
          sort_loop_st cmp stack st
        })"

definition rqsort_st :: "('s, 'a) cmp_st \<Rightarrow> 's \<Rightarrow> 'a list \<Rightarrow> ('s, 'a) store option" where
  "rqsort_st cmp s xs =
     (if length xs < 2 then Some (s, xs)
      else do { stack \<leftarrow> push_segment (0, length xs, 0) []; sort_loop_st cmp stack (s, xs) })"

section \<open>Comparisons whose answers do not change\<close>

text \<open>Two computations agree when both fail or both return related results.\<close>

lemma rel_bind:
  assumes "rel_option A m n"
    and "\<And>a b. m = Some a \<Longrightarrow> n = Some b \<Longrightarrow> A a b \<Longrightarrow> rel_option B (g a) (h b)"
  shows "rel_option B (m \<bind> g) (n \<bind> h)"
  using assms by (cases m; cases n) auto

lemma rel_option_mapI:
  assumes "rel_option A m n" and "\<And>a b. A a b \<Longrightarrow> B (f a) (g b)"
  shows "rel_option B (map_option f m) (map_option g n)"
  using assms by (cases m; cases n) auto

lemma rel_if:
  "(P \<Longrightarrow> rel_option B a c) \<Longrightarrow> (\<not> P \<Longrightarrow> rel_option B b d) \<Longrightarrow>
    rel_option B (if P then a else b) (if P then c else d)"
  by simp

text \<open>
  \<open>order\<close> answers for the keys of two elements what \<open>cmp\<close> answers for the elements, which keep their keys
  whatever \<open>cmp\<close> does to them.
\<close>

locale key_order =
  fixes cmp :: "('s, 'a) cmp_st" and order :: "'k cmp_f" and key :: "'a \<Rightarrow> 'k"
    and inv :: "'s \<Rightarrow> bool" and ok :: "'a \<Rightarrow> bool"
  assumes compare: "inv s \<Longrightarrow> ok x \<Longrightarrow> ok y \<Longrightarrow>
    \<exists>s' x' y'. cmp s x y = (order (key x) (key y), s', x', y') \<and> inv s' \<and> ok x' \<and> ok y' \<and>
      key x' = key x \<and> key y' = key y"
begin

definition agrees :: "('s, 'a) store \<Rightarrow> 'k list \<Rightarrow> bool" where
  "agrees st ks \<longleftrightarrow> inv (fst st) \<and> map key (snd st) = ks \<and> (\<forall>x \<in> set (snd st). ok x)"

lemma agrees_length: "agrees st ks \<Longrightarrow> length (snd st) = length ks"
  by (auto simp: agrees_def)

lemma cmp_at_agrees:
  assumes "agrees st ks"
  shows "rel_option (\<lambda>(d, st') d'. d = d' \<and> agrees st' ks) (cmp_at_st cmp st i j) (cmp_at order ks i j)"
proof (cases "i < length ks \<and> j < length ks")
  case True
  obtain s xs where st: "st = (s, xs)" by (cases st)
  have k: "inv s" "map key xs = ks" "\<forall>x \<in> set xs. ok x" and l: "length xs = length ks"
    using assms agrees_length[OF assms] by (auto simp: agrees_def st)
  obtain s' x' y' where c: "cmp s (xs ! i) (xs ! j) = (order (key (xs ! i)) (key (xs ! j)), s', x', y')"
    "inv s'" "ok x'" "ok y'" "key x' = key (xs ! i)" "key y' = key (xs ! j)"
    using compare[OF k(1), of "xs ! i" "xs ! j"] k(3) True l by auto
  have "map key (xs[i := x', j := y']) = ks"
    using c(5,6) k(2) True l by (auto simp: map_update list_eq_iff_nth_eq nth_list_update)
  moreover have "\<forall>x \<in> set (xs[i := x', j := y']). ok x"
    using k(3) c(3,4) set_update_subset_insert[of "xs[i := x']" j y'] set_update_subset_insert[of xs i x'] by blast
  moreover have "key (xs ! i) = ks ! i" "key (xs ! j) = ks ! j" using k(2) True l by auto
  ultimately show ?thesis using c(1,2) True l by (simp add: cmp_at_st_def cmp_at_def st agrees_def)
next
  case False
  then show ?thesis
    using agrees_length[OF assms] by (auto simp: cmp_at_st_def cmp_at_def split: prod.splits)
qed

lemma rel_answer:
  assumes "rel_option (\<lambda>(d, st') d'. d = d' \<and> agrees st' ks) m n"
    and "\<And>d st'. n = Some d \<Longrightarrow> agrees st' ks \<Longrightarrow> rel_option B (g (d, st')) (h d)"
  shows "rel_option B (m \<bind> g) (n \<bind> h)"
  using assms by (cases m; cases n) auto

lemma swap_agrees:
  assumes "agrees st ks"
  shows "rel_option agrees (swap_st st i j) (swap ks i j)"
proof -
  obtain s xs where st: "st = (s, xs)" by (cases st)
  have k: "inv s" "map key xs = ks" "\<forall>x \<in> set xs. ok x" and l: "length xs = length ks"
    using assms agrees_length[OF assms] by (auto simp: agrees_def st)
  show ?thesis
  proof (cases "i < length ks \<and> j < length ks")
    case True
    then have "set (xs[i := xs ! j, j := xs ! i]) = set xs" using l by (simp add: set_swap)
    then show ?thesis using True k l by (auto simp: swap_st_def swap_def st agrees_def map_update)
  qed (use l in \<open>auto simp: swap_st_def swap_def st\<close>)
qed

lemma swap_block_agrees: "agrees st ks \<Longrightarrow> rel_option agrees (swap_block_st st i j n) (swap_block ks i j n)"
proof (induction n arbitrary: st ks i j)
  case 0
  then show ?case by (cases st) (simp add: swap_block_st_def)
next
  case (Suc n)
  have e: "swap_block_st st i j (Suc n) = swap_st st i j \<bind> (\<lambda>st. swap_block_st st (i + 1) (j + 1) n)"
    by (cases st; cases "swap (snd st) i j") (auto simp: swap_block_st_def swap_st_def)
  show ?case unfolding e swap_block.simps by (rule rel_bind[OF swap_agrees[OF Suc(2)]]) (rule Suc(1))
qed

lemma sink_agrees: "agrees st ks \<Longrightarrow> rel_option agrees (sink_st cmp st r n) (sink order ks r n)"
proof (induction "n - r" arbitrary: st ks r rule: less_induct)
  case less
  let ?c = "r * 2 + 1"
  show ?case
  proof (cases "?c < n")
    case True
    have right: "rel_option (\<lambda>(d, st') d'. d = d' \<and> agrees st' ks)
      (if ?c < n - 1 then map_option (\<lambda>(d, st). (d \<le> 0, st)) (cmp_at_st cmp st ?c (?c + 1)) else Some (False, st))
      (if ?c < n - 1 then map_option (\<lambda>d. d \<le> 0) (cmp_at order ks ?c (?c + 1)) else Some False)"
      using less(2) by (auto intro: rel_option_mapI[OF cmp_at_agrees])
    have step: "rel_option agrees
        (if d > 0 then Some st' else do { st \<leftarrow> swap_st st' r c; sink_st cmp st c n })
        (if d > 0 then Some ks else do { xs \<leftarrow> swap ks r c; sink order xs c n })"
      if "agrees st' ks" "c \<ge> ?c" for st' c and d :: int
    proof (cases "d > 0")
      case False
      have "n - c < n - r" using that(2) True by linarith
      then show ?thesis using False by (simp) (rule rel_bind[OF swap_agrees[OF that(1)]], rule less(1))
    qed (use that in simp)
    show ?thesis
      unfolding sink_st.simps[of cmp st] sink.simps[of order ks] Let_def if_P[OF True]
      by (rule rel_answer[OF right], simp only: split_conv, rule rel_answer[OF cmp_at_agrees], assumption,
        simp only: split_conv, rule step) simp_all
  next
    case False
    then show ?thesis using less(2) by (simp add: sink_st.simps[of cmp st] sink.simps[of order ks] Let_def)
  qed
qed

lemma build_heap_agrees: "agrees st ks \<Longrightarrow> rel_option agrees (build_heap_st cmp st i n) (build_heap order ks i n)"
proof (induction i arbitrary: st ks)
  case (Suc i)
  show ?case unfolding build_heap_st.simps build_heap.simps
    by (rule rel_bind[OF sink_agrees[OF Suc(2)]]) (rule Suc(1))
qed simp

lemma extract_max_agrees: "agrees st ks \<Longrightarrow> rel_option agrees (extract_max_st cmp st i) (extract_max order ks i)"
proof (induction i arbitrary: st ks)
  case (Suc i)
  show ?case unfolding extract_max_st.simps extract_max.simps
    by (rule rel_bind[OF swap_agrees[OF Suc(2)]], rule rel_bind[OF sink_agrees], assumption) (rule Suc(1))
qed simp

lemma heapsortx_agrees: "agrees st ks \<Longrightarrow> rel_option agrees (heapsortx_st cmp st) (heapsortx order ks)"
  unfolding heapsortx_st_def heapsortx_def Let_def agrees_length
  by (auto intro: rel_bind[OF build_heap_agrees] extract_max_agrees)

lemma med3_agrees:
  assumes "agrees st ks"
  shows "rel_option (\<lambda>(m, st') m'. m = m' \<and> agrees st' ks) (med3_st cmp st a b c) (med3 order ks a b c)"
proof -
  have last: "rel_option (\<lambda>(m, st') m'. m = m' \<and> agrees st' ks)
      (cmp_at_st cmp st a c \<bind> (\<lambda>(ac, st). Some (f ac, st))) (cmp_at order ks a c \<bind> (\<lambda>ac. Some (f ac)))"
    if "agrees st ks" for st and f :: "int \<Rightarrow> nat"
    by (rule rel_answer[OF cmp_at_agrees[OF that]]) simp
  show ?thesis unfolding med3_st_def med3_def
    by (rule rel_answer[OF cmp_at_agrees[OF assms]], simp only: split_conv, rule rel_answer[OF cmp_at_agrees], assumption)
      (auto intro: last)
qed

lemma scan_up_agrees: "agrees st ks \<Longrightarrow>
    rel_option (\<lambda>(st', i, lt) (ks', i', lt'). agrees st' ks' \<and> i = i' \<and> lt = lt')
      (scan_up_st cmp st i j lt) (scan_up order ks i j lt)"
proof (induction "j - i" arbitrary: st ks i lt rule: less_induct)
  case less
  show ?case
  proof (cases "i < j")
    case True
    then have d: "j - (i + 1) < j - i" by linarith
    show ?thesis
      unfolding scan_up_st.simps[of cmp st i j lt] scan_up.simps[of order ks i j lt] if_P[OF True]
      by (rule rel_answer[OF cmp_at_agrees[OF less(2)]], simp only: split_conv,
          intro rel_if rel_bind[OF swap_agrees] less(1)[OF d]) simp_all
  qed (use less(2) in \<open>simp add: scan_up_st.simps[of cmp st i j lt] scan_up.simps[of order ks i j lt]\<close>)
qed

lemma scan_down_agrees: "agrees st ks \<Longrightarrow>
    rel_option (\<lambda>(st', j, gt) (ks', j', gt'). agrees st' ks' \<and> j = j' \<and> gt = gt')
      (scan_down_st cmp st i j gt) (scan_down order ks i j gt)"
proof (induction j arbitrary: st ks gt rule: less_induct)
  case (less j)
  show ?case
  proof (cases "i < j - 1")
    case True
    then have d: "j - 1 < j" by linarith
    show ?thesis
      unfolding scan_down_st.simps[of cmp st i j gt] scan_down.simps[of order ks i j gt] Let_def if_P[OF True]
      by (rule rel_answer[OF cmp_at_agrees[OF less(2)]], simp only: split_conv,
          intro rel_if rel_bind[OF swap_agrees] less(1)[OF d]) simp_all
  qed (use less(2) in \<open>simp add: scan_down_st.simps[of cmp st i j gt] scan_down.simps[of order ks i j gt] Let_def\<close>)
qed

lemma partition_loop_agrees: "agrees st ks \<Longrightarrow>
    rel_option (\<lambda>(st', i, lt, gt) (ks', i', lt', gt'). agrees st' ks' \<and> i = i' \<and> lt = lt' \<and> gt = gt')
      (partition_loop_st cmp st i j lt gt) (partition_loop order ks i j lt gt)"
proof (induction "j - i" arbitrary: st ks i j lt gt rule: less_induct)
  case less
  have e: "partition_loop order ks i j lt gt = scan_up order ks i j lt \<bind> (\<lambda>(ks, i, lt).
      scan_down order ks i j gt \<bind> (\<lambda>(ks, j, gt).
        if i \<ge> j then Some (ks, i, lt, gt)
        else swap ks i j \<bind> (\<lambda>ks. partition_loop order ks (i + 1) j lt gt)))"
    by (subst partition_loop.simps) (auto split: option.splits)
  show ?case unfolding e
  proof (subst partition_loop_st.simps, rule rel_bind[OF scan_up_agrees[OF less(2)]], clarify)
    fix s xs i' lt' ks'
    assume up: "scan_up order ks i j lt = Some (ks', i', lt')" and ag: "agrees (s, xs) ks'"
    show "rel_option (\<lambda>(st', i, lt, gt) (ks', i', lt', gt'). agrees st' ks' \<and> i = i' \<and> lt = lt' \<and> gt = gt')
      (scan_down_st cmp (s, xs) i' j gt \<bind> (\<lambda>(st, j, gt).
        if i' \<ge> j then Some (st, i', lt', gt)
        else swap_st st i' j \<bind> (\<lambda>st. partition_loop_st cmp st (i' + 1) j lt' gt)))
      (scan_down order ks' i' j gt \<bind> (\<lambda>(ks, j, gt).
        if i' \<ge> j then Some (ks, i', lt', gt)
        else swap ks i' j \<bind> (\<lambda>ks. partition_loop order ks (i' + 1) j lt' gt)))"
    proof (rule rel_bind[OF scan_down_agrees[OF ag]], clarify)
      fix s xs j' gt' ks''
      assume down: "scan_down order ks' i' j gt = Some (ks'', j', gt')" and ag: "agrees (s, xs) ks''"
      show "rel_option (\<lambda>(st', i, lt, gt) (ks', i', lt', gt'). agrees st' ks' \<and> i = i' \<and> lt = lt' \<and> gt = gt')
        (if i' \<ge> j' then Some ((s, xs), i', lt', gt')
         else swap_st (s, xs) i' j' \<bind> (\<lambda>st. partition_loop_st cmp st (i' + 1) j' lt' gt'))
        (if i' \<ge> j' then Some (ks'', i', lt', gt')
         else swap ks'' i' j' \<bind> (\<lambda>ks. partition_loop order ks (i' + 1) j' lt' gt'))"
      proof (cases "i' \<ge> j'")
        case False
        then have d: "j' - (i' + 1) < j - i" using scan_up_ge[OF up] scan_down_le[OF down] by linarith
        show ?thesis unfolding if_not_P[OF False] by (rule rel_bind[OF swap_agrees[OF ag]]) (rule less(1)[OF d])
      qed (use ag in simp)
    qed
  qed
qed

lemma partition_seg_agrees:
  assumes "agrees st ks"
  shows "rel_option (\<lambda>(st', r) (ks', r'). agrees st' ks' \<and> r = r') (partition_seg_st cmp st) (partition_seg order ks)"
  unfolding partition_seg_st_def partition_seg_def Let_def agrees_length[OF assms]
  by (rule rel_answer[OF med3_agrees[OF assms]], simp only: split_conv,
      rule rel_bind[OF swap_agrees], assumption, rule rel_bind[OF partition_loop_agrees], assumption, clarify,
      rule rel_bind[OF swap_block_agrees], assumption, rule rel_bind[OF swap_block_agrees], assumption) simp

lemma insert_down_agrees: "agrees st ks \<Longrightarrow> rel_option agrees (insert_down_st cmp st j) (insert_down order ks j)"
proof (induction j arbitrary: st ks)
  case (Suc j)
  show ?case unfolding insert_down_st.simps insert_down.simps
    by (rule rel_answer[OF cmp_at_agrees[OF Suc(2)]], simp only: split_conv,
        intro rel_if rel_bind[OF swap_agrees] Suc(1)) simp_all
qed simp

lemma insertion_loop_agrees:
  "agrees st ks \<Longrightarrow> rel_option agrees (insertion_loop_st cmp st i n) (insertion_loop order ks i n)"
proof (induction "n - i" arbitrary: st ks i rule: less_induct)
  case less
  show ?case
  proof (cases "i < n")
    case True
    then have d: "n - (i + 1) < n - i" by linarith
    show ?thesis
      unfolding insertion_loop_st.simps[of cmp st] insertion_loop.simps[of order ks] if_P[OF True]
      by (rule rel_bind[OF insert_down_agrees[OF less(2)]]) (rule less(1)[OF d])
  qed (use less(2) in \<open>simp add: insertion_loop_st.simps[of cmp st] insertion_loop.simps[of order ks]\<close>)
qed

lemma on_slice_agrees:
  assumes "agrees st ks"
    and f: "\<And>st ks. agrees st ks \<Longrightarrow> rel_option (\<lambda>(st', r) (ks', r'). agrees st' ks' \<and> r = r') (f st) (g ks)"
  shows "rel_option (\<lambda>(st', r) (ks', r'). agrees st' ks' \<and> r = r') (on_slice_st p n f st) (on_slice p n g ks)"
proof -
  obtain s xs where st: "st = (s, xs)" by (cases st)
  have k: "inv s" "map key xs = ks" "\<forall>x \<in> set xs. ok x" and l: "length xs = length ks"
    using assms agrees_length[OF assms(1)] by (auto simp: agrees_def st)
  have m: "agrees (s, take n (drop p xs)) (take n (drop p ks))"
    using k by (auto simp: agrees_def take_map drop_map dest: in_set_takeD in_set_dropD)
  have "agrees (s', take p xs @ ys @ drop (p + n) xs) (take p ks @ ms @ drop (p + n) ks)"
    if "agrees (s', ys) ms" for s' ys ms
    using that k by (auto simp: agrees_def take_map drop_map dest: in_set_takeD in_set_dropD)
  then show ?thesis
    using l by (auto simp: on_slice_st_def on_slice_def st intro!: rel_option_mapI[OF f[OF m]])
qed

lemma split_loop_agrees: "agrees st ks \<Longrightarrow>
    rel_option (\<lambda>(p, n, stack, st') (p', n', stack', ks'). p = p' \<and> n = n' \<and> stack = stack' \<and> agrees st' ks')
      (split_loop_st cmp p n depth stack st) (split_loop order p n depth stack ks)"
proof (induction "50 - depth" arbitrary: p n depth stack st ks rule: less_induct)
  case less
  show ?case
  proof (cases "n > 6")
    case n: True
    show ?thesis
    proof (cases "depth + 1 > 50")
      case True
      have "rel_option (\<lambda>(st', r) (ks', r'). agrees st' ks' \<and> r = r')
          (map_option (\<lambda>st. (st, ())) (heapsortx_st cmp st)) (map_option (\<lambda>ks. (ks, ())) (heapsortx order ks))"
        if "agrees st ks" for st ks
        by (rule rel_option_mapI[OF heapsortx_agrees[OF that]]) simp
      then show ?thesis
        unfolding split_loop_st.simps[of cmp p n depth stack st] split_loop.simps[of order p n depth stack ks]
          if_P[OF n] if_P[OF True]
        by (intro rel_bind[OF on_slice_agrees[OF less(2)]]) auto
    next
      case False
      then have d: "50 - (depth + 1) < 50 - depth" by linarith
      have push: "rel_option (=) (push_segment s stack) (push_segment s stack)" for s
        by (simp add: option.rel_eq)
      show ?thesis
        unfolding split_loop_st.simps[of cmp p n depth stack st] split_loop.simps[of order p n depth stack ks]
          if_P[OF n] if_not_P[OF False]
        by (rule rel_bind[OF on_slice_agrees[OF less(2) partition_seg_agrees]], assumption, clarify,
            intro rel_if rel_bind[OF push]) (simp_all only: less(1)[OF d])
    qed
  qed (use less(2) in \<open>simp add: split_loop_st.simps[of cmp p n depth stack st] split_loop.simps[of order p n depth stack ks]\<close>)
qed

lemma sort_loop_agrees:
  "agrees st ks \<Longrightarrow> sort_loop order stack ks = Some ks' \<Longrightarrow>
    \<exists>st'. sort_loop_st cmp stack st = Some st' \<and> agrees st' ks'"
proof (induction "weight stack" arbitrary: stack st ks rule: less_induct)
  case less
  show ?case
  proof (cases stack)
    case Nil
    then show ?thesis using less(2,3) by (subst sort_loop_st.simps) simp
  next
    case (Cons s rest)
    obtain p n depth where s: "s = (p, n, depth)" by (cases s)
    obtain p' n' st1 ys where sp: "split_loop order p n depth rest ks = Some (p', n', st1, ys)"
      using less(3) by (auto simp: Cons s split: option.splits)
    then obtain st2 where sp': "split_loop_st cmp p n depth rest st = Some (p', n', st1, st2)" and ag: "agrees st2 ys"
      using split_loop_agrees[OF less(2), of p n depth rest] by (auto simp: option_rel_Some2)
    have sim: "rel_option (\<lambda>(st', r) (ks', r'). agrees st' ks' \<and> r = r')
        (on_slice_st p' n' (\<lambda>st. map_option (\<lambda>st. (st, ())) (insertion_loop_st cmp st 1 n')) st2)
        (on_slice p' n' (\<lambda>ks. map_option (\<lambda>ks. (ks, ())) (insertion_loop order ks 1 n')) ys)"
      by (rule on_slice_agrees[OF ag], rule rel_option_mapI[OF insertion_loop_agrees], assumption) simp
    obtain zs where sl: "on_slice p' n' (\<lambda>ks. map_option (\<lambda>ks. (ks, ())) (insertion_loop order ks 1 n')) ys = Some (zs, ())"
      and rest: "sort_loop order st1 zs = Some ks'"
      using less(3) by (auto simp: Cons s sp split: Option.bind_splits)
    obtain st3 where sl': "on_slice_st p' n' (\<lambda>st. map_option (\<lambda>st. (st, ())) (insertion_loop_st cmp st 1 n')) st2 = Some (st3, ())"
      and ag3: "agrees st3 zs"
      using sim unfolding sl by (auto simp: option_rel_Some2)
    have "weight st1 < weight stack" using split_loop_weight[OF sp] by (simp add: Cons s)
    from less(1)[OF this ag3 rest] show ?thesis
      by (subst sort_loop_st.simps) (simp add: Cons s sp' sl' del: One_nat_def)
  qed
qed

lemma rqsort_agrees:
  assumes "agrees (s, xs) ks" "rqsort order ks = Some ks'"
  shows "\<exists>st. rqsort_st cmp s xs = Some st \<and> agrees st ks'"
proof (cases "length ks < 2")
  case True
  then show ?thesis using assms agrees_length[OF assms(1)] by (simp add: rqsort_st_def rqsort_def)
next
  case False
  then show ?thesis
    using assms sort_loop_agrees[OF assms(1), of _ ks'] agrees_length[OF assms(1)]
    by (auto simp: rqsort_st_def rqsort_def split: Option.bind_splits)
qed

lemma rqsort_by_key:
  assumes "comparator order" "inv s" "\<forall>x \<in> set xs. ok x"
  shows "\<exists>s' ys. rqsort_st cmp s xs = Some (s', ys) \<and> inv s' \<and> mset (map key ys) = mset (map key xs) \<and>
    sorted_wrt (\<lambda>a b. order (key a) (key b) \<le> 0) ys"
proof -
  obtain ks where ks: "rqsort order (map key xs) = Some ks" "mset ks = mset (map key xs)"
    "sorted_wrt (\<lambda>x y. order x y \<le> 0) ks"
    using rqsort_returns_sorted[OF assms(1), of "map key xs"] by blast
  have "agrees (s, xs) (map key xs)" using assms(2,3) by (simp add: agrees_def)
  from rqsort_agrees[OF this ks(1)] show ?thesis
    using ks(2,3) by (auto simp: agrees_def sorted_wrt_map)
qed

end

end
