(* ===== verification/Sort_Uses.thy ===== *)
theory Sort_Uses
  imports Sort_State "HOL-Library.List_Lexorder"

begin

text \<open>
  The comparison functions \<open>quickjs.c\<close> passes to \<open>rqsort\<close>: those of the integer typed arrays and the one of
  \<open>Array.prototype.sort\<close>, which may call the script, convert values to strings and fail.
\<close>

section \<open>Typed arrays\<close>

definition js_TA_cmp_int8 :: "u8 cmp_f" where "js_TA_cmp_int8 a b = sint a - sint b"
definition js_TA_cmp_uint8 :: "u8 cmp_f" where "js_TA_cmp_uint8 a b = uint a - uint b"
definition js_TA_cmp_int16 :: "u16 cmp_f" where "js_TA_cmp_int16 a b = sint a - sint b"
definition js_TA_cmp_uint16 :: "u16 cmp_f" where "js_TA_cmp_uint16 a b = uint a - uint b"

definition js_TA_cmp_int32 :: "u32 cmp_f" where
  "js_TA_cmp_int32 x y = of_bool (sint y < sint x) - of_bool (sint y > sint x)"

definition js_TA_cmp_uint32 :: "u32 cmp_f" where
  "js_TA_cmp_uint32 x y = of_bool (y < x) - of_bool (y > x)"

definition js_TA_cmp_int64 :: "u64 cmp_f" where
  "js_TA_cmp_int64 x y = of_bool (sint y < sint x) - of_bool (sint y > sint x)"

definition js_TA_cmp_uint64 :: "u64 cmp_f" where
  "js_TA_cmp_uint64 x y = of_bool (y < x) - of_bool (y > x)"

interpretation int8: comparator js_TA_cmp_int8
  unfolding js_TA_cmp_int8_def by (rule comparator_difference)

interpretation uint8: comparator js_TA_cmp_uint8
  unfolding js_TA_cmp_uint8_def by (rule comparator_difference)

interpretation int16: comparator js_TA_cmp_int16
  unfolding js_TA_cmp_int16_def by (rule comparator_difference)

interpretation uint16: comparator js_TA_cmp_uint16
  unfolding js_TA_cmp_uint16_def by (rule comparator_difference)

interpretation int32: comparator js_TA_cmp_int32
  unfolding js_TA_cmp_int32_def by (rule comparator_order)

interpretation uint32: comparator js_TA_cmp_uint32
  unfolding js_TA_cmp_uint32_def by (rule comparator_order[of "\<lambda>x. x"])

interpretation int64: comparator js_TA_cmp_int64
  unfolding js_TA_cmp_int64_def by (rule comparator_order)

interpretation uint64: comparator js_TA_cmp_uint64
  unfolding js_TA_cmp_uint64_def by (rule comparator_order[of "\<lambda>x. x"])

section \<open>Strings\<close>

text \<open>
  A string has 8-bit or 16-bit units. The comparisons are called with a length that both strings have;
  of \<open>memcmp\<close> only the sign is documented.
\<close>

datatype js_string = Str8 "u8 list" | Str16 "u16 list"

fun units :: "js_string \<Rightarrow> int list" where
  "units (Str8 xs) = map uint xs"
| "units (Str16 xs) = map uint xs"

fun units_cmp :: "'a :: len word list \<Rightarrow> 'b :: len word list \<Rightarrow> nat \<Rightarrow> int" where
  "units_cmp (x # xs) (y # ys) (Suc n) = (let c = uint x - uint y in if c \<noteq> 0 then c else units_cmp xs ys n)"
| "units_cmp xs ys n = 0"

definition memcmp8 :: "u8 list \<Rightarrow> u8 list \<Rightarrow> nat \<Rightarrow> int" where "memcmp8 xs ys n = sgn (units_cmp xs ys n)"
definition memcmp16_8 :: "u16 list \<Rightarrow> u8 list \<Rightarrow> nat \<Rightarrow> int" where "memcmp16_8 xs ys n = units_cmp xs ys n"
definition memcmp16 :: "u16 list \<Rightarrow> u16 list \<Rightarrow> nat \<Rightarrow> int" where "memcmp16 xs ys n = units_cmp xs ys n"

fun js_string_memcmp :: "js_string \<Rightarrow> js_string \<Rightarrow> nat \<Rightarrow> int" where
  "js_string_memcmp (Str8 p1) (Str8 p2) n = memcmp8 p1 p2 n"
| "js_string_memcmp (Str8 p1) (Str16 p2) n = - memcmp16_8 p2 p1 n"
| "js_string_memcmp (Str16 p1) (Str8 p2) n = memcmp16_8 p1 p2 n"
| "js_string_memcmp (Str16 p1) (Str16 p2) n = memcmp16 p1 p2 n"

definition compare_u32 :: "nat \<Rightarrow> nat \<Rightarrow> int" where
  "compare_u32 a b = - of_bool (a < b) + of_bool (b < a)"

definition js_string_compare :: "js_string \<Rightarrow> js_string \<Rightarrow> int" where
  "js_string_compare p1 p2 =
     (let l1 = length (units p1); l2 = length (units p2); res = js_string_memcmp p1 p2 (min l1 l2)
      in if res = 0 then compare_u32 l1 l2 else res)"

definition then_length :: "int \<Rightarrow> nat \<Rightarrow> nat \<Rightarrow> int" where
  "then_length r m n = (if r = 0 then compare_u32 m n else r)"

lemma units_cmp_lexicographic:
  fixes xs :: "'a :: len word list" and ys :: "'b :: len word list"
  shows "(then_length (units_cmp xs ys (min (length xs) (length ys))) (length xs) (length ys) < 0 \<longleftrightarrow>
      map uint xs < map uint ys) \<and>
    (then_length (units_cmp xs ys (min (length xs) (length ys))) (length xs) (length ys) = 0 \<longleftrightarrow>
      map uint xs = map uint ys)"
proof (induction xs arbitrary: ys)
  case Nil
  show ?case by (cases ys) (auto simp: then_length_def compare_u32_def)
next
  case (Cons x xs)
  show ?case
  proof (cases ys)
    case Nil
    then show ?thesis by (simp add: then_length_def compare_u32_def)
  next
    case (Cons y zs)
    have l: "then_length r (Suc m) (Suc n) = then_length r m n" for r m n
      by (simp add: then_length_def compare_u32_def)
    show ?thesis
    proof (cases "uint x = uint y")
      case True
      then show ?thesis using Cons.IH[of zs] by (simp add: Cons l)
    next
      case False
      then show ?thesis by (auto simp: Cons then_length_def)
    qed
  qed
qed

lemma units_cmp_swap: "- units_cmp ys xs n = units_cmp xs ys n"
  by (induction ys xs n rule: units_cmp.induct) (auto simp: Let_def)

lemma js_string_compare_units:
  "(js_string_compare p q < 0 \<longleftrightarrow> units p < units q) \<and> (js_string_compare p q = 0 \<longleftrightarrow> units p = units q)"
proof -
  have c: "js_string_compare p q = then_length (js_string_memcmp p q (min (length (units p)) (length (units q))))
      (length (units p)) (length (units q))"
    by (simp add: js_string_compare_def then_length_def Let_def)
  have s: "then_length (sgn r) m n < 0 \<longleftrightarrow> then_length r m n < 0" "then_length (sgn r) m n = 0 \<longleftrightarrow> then_length r m n = 0"
    for r m n by (auto simp: then_length_def sgn_if)
  show ?thesis unfolding c
    by (cases p; cases q)
      (simp_all only: s units.simps length_map js_string_memcmp.simps memcmp8_def memcmp16_8_def memcmp16_def
        units_cmp_swap units_cmp_lexicographic simp_thms)
qed

lemma comparator_strings: "comparator (\<lambda>x y. js_string_compare (s x) (s y))"
proof -
  have "js_string_compare p q > 0 \<longleftrightarrow> units q < units p" "js_string_compare p q \<le> 0 \<longleftrightarrow> units p \<le> units q" for p q
    using js_string_compare_units[of p q] by auto
  then show ?thesis by unfold_locales (auto simp: js_string_compare_units)
qed

section \<open>Sorting an array\<close>

text \<open>
  What \<open>js_array_cmp_generic\<close> asks of the interpreter, whose state is \<open>'w\<close>: the comparison of the
  representation of two values by \<open>memcmp\<close>, the call of the function the script passed, the integer
  a value of tag \<open>JS_TAG_INT\<close> holds, and the conversions to a number (the bits of a \<open>double\<close>) and to a string. \<open>None\<close> is an exception.
\<close>

record ('w, 'v) script =
  same_value :: "'v \<Rightarrow> 'v \<Rightarrow> bool"
  JS_Call :: "'w \<Rightarrow> 'v \<Rightarrow> 'v \<Rightarrow> 'v option \<times> 'w"
  int_tag :: "'v \<Rightarrow> u32 option"
  JS_ToFloat64Free :: "'w \<Rightarrow> 'v \<Rightarrow> u64 option \<times> 'w"
  JS_ToString :: "'w \<Rightarrow> 'v \<Rightarrow> js_string option \<times> 'w"

record 'v value_slot =
  slot_val :: 'v
  slot_str :: "js_string option"
  slot_pos :: int

record 'w array_sort_context =
  ctx :: 'w
  exception :: bool
  has_method :: bool

text \<open>The comparisons of a \<open>double\<close> with zero, which are false for a NaN.\<close>

definition double_pos :: "u64 \<Rightarrow> bool" where "double_pos d \<longleftrightarrow> 0 < d \<and> d \<le> 0x7FF0000000000000"
definition double_neg :: "u64 \<Rightarrow> bool" where
  "double_neg d \<longleftrightarrow> 0x8000000000000000 < d \<and> d \<le> 0xFFF0000000000000"

definition call_method :: "('w, 'v) script \<Rightarrow> 'w \<Rightarrow> 'v \<Rightarrow> 'v \<Rightarrow> int option \<times> 'w" where
  "call_method js w x y =
     (case JS_Call js w x y of
        (None, w) \<Rightarrow> (None, w)
      | (Some res, w) \<Rightarrow>
          (case int_tag js res of
             Some val \<Rightarrow> (Some (of_bool (sint val > 0) - of_bool (sint val < 0)), w)
           | None \<Rightarrow>
               (case JS_ToFloat64Free js w res of
                  (None, w) \<Rightarrow> (None, w)
                | (Some val, w) \<Rightarrow> (Some (of_bool (double_pos val) - of_bool (double_neg val)), w))))"

text \<open>The string of a slot is converted once and kept.\<close>

definition slot_string ::
  "('w, 'v) script \<Rightarrow> 'w \<Rightarrow> 'v value_slot \<Rightarrow> js_string option \<times> 'w \<times> 'v value_slot" where
  "slot_string js w a =
     (case slot_str a of
        Some str \<Rightarrow> (Some str, w, a)
      | None \<Rightarrow>
          (case JS_ToString js w (slot_val a) of
             (None, w) \<Rightarrow> (None, w, a)
           | (Some str, w) \<Rightarrow> (Some str, w, a\<lparr>slot_str := Some str\<rparr>)))"

definition js_array_cmp_generic :: "('w, 'v) script \<Rightarrow> ('w array_sort_context, 'v value_slot) cmp_st" where
  "js_array_cmp_generic js psc a b =
     (let pos_cmp = of_bool (slot_pos a > slot_pos b) - of_bool (slot_pos a < slot_pos b)
      in if exception psc then (0, psc, a, b)
         else if has_method psc then
           if same_value js (slot_val a) (slot_val b) then (pos_cmp, psc, a, b)
           else
             (case call_method js (ctx psc) (slot_val a) (slot_val b) of
                (None, w) \<Rightarrow> (0, psc\<lparr>ctx := w, exception := True\<rparr>, a, b)
              | (Some cmp, w) \<Rightarrow> (if cmp \<noteq> 0 then cmp else pos_cmp, psc\<lparr>ctx := w\<rparr>, a, b))
         else
           (case slot_string js (ctx psc) a of
              (None, w, a) \<Rightarrow> (0, psc\<lparr>ctx := w, exception := True\<rparr>, a, b)
            | (Some p, w, a) \<Rightarrow>
                (case slot_string js w b of
                   (None, w, b) \<Rightarrow> (0, psc\<lparr>ctx := w, exception := True\<rparr>, a, b)
                 | (Some q, w, b) \<Rightarrow>
                     (let cmp = js_string_compare p q
                      in (if cmp \<noteq> 0 then cmp else pos_cmp, psc\<lparr>ctx := w\<rparr>, a, b)))))"

text \<open>
  The order of values a sort follows: \<open>c\<close> is what the function of the script answers for the values in
  \<open>V\<close>, or the comparison of the strings \<open>s\<close> they convert to, whatever the state of the interpreter.
\<close>

definition answers ::
  "('w, 'v) script \<Rightarrow> bool \<Rightarrow> 'v set \<Rightarrow> ('v \<Rightarrow> js_string) \<Rightarrow> ('v \<Rightarrow> 'v \<Rightarrow> int) \<Rightarrow> bool" where
  "answers js hm V s c \<longleftrightarrow>
     (if hm then \<forall>x \<in> V. \<forall>y \<in> V. (same_value js x y \<longrightarrow> c x y = 0) \<and> (\<forall>w. fst (call_method js w x y) = Some (c x y))
      else (\<forall>x \<in> V. \<forall>w. fst (JS_ToString js w x) = Some (s x)) \<and> c = (\<lambda>x y. js_string_compare (s x) (s y)))"

definition slot_order :: "('v \<Rightarrow> 'v \<Rightarrow> int) \<Rightarrow> ('v \<times> int) cmp_f" where
  "slot_order c = (\<lambda>(x, i) (y, j). if c x y \<noteq> 0 then c x y else of_bool (i > j) - of_bool (i < j))"

definition slot_ok :: "'v set \<Rightarrow> ('v \<Rightarrow> js_string) \<Rightarrow> 'v value_slot \<Rightarrow> bool" where
  "slot_ok V s a \<longleftrightarrow> slot_val a \<in> V \<and> slot_str a \<in> {None, Some (s (slot_val a))}"

lemma slot_string_ok:
  assumes "\<forall>x \<in> V. \<forall>w. fst (JS_ToString js w x) = Some (s x)" "slot_ok V s a"
  shows "\<exists>w' a'. slot_string js w a = (Some (s (slot_val a)), w', a') \<and> slot_ok V s a' \<and>
    slot_val a' = slot_val a \<and> slot_pos a' = slot_pos a"
proof -
  obtain w' where "JS_ToString js w (slot_val a) = (Some (s (slot_val a)), w')"
    using assms by (cases "JS_ToString js w (slot_val a)") (auto simp: slot_ok_def dest!: spec[of _ w] bspec)
  then show ?thesis using assms(2) by (auto simp: slot_string_def slot_ok_def)
qed

interpretation sort_slots: key_order "js_array_cmp_generic js" "slot_order c" "\<lambda>a. (slot_val a, slot_pos a)"
  "\<lambda>psc. \<not> exception psc \<and> has_method psc = hm \<and> answers js hm V s c" "slot_ok V s"
  for js :: "('w, 'v) script" and c hm V s
proof (unfold_locales, elim conjE)
  fix psc :: "'w array_sort_context" and a b :: "'v value_slot"
  assume e: "\<not> exception psc" and hm: "has_method psc = hm" and ans: "answers js hm V s c"
    and ok: "slot_ok V s a" "slot_ok V s b"
  have V: "slot_val a \<in> V" "slot_val b \<in> V" using ok by (auto simp: slot_ok_def)
  show "\<exists>psc' a' b'. js_array_cmp_generic js psc a b = (slot_order c (slot_val a, slot_pos a) (slot_val b, slot_pos b), psc', a', b') \<and>
    (\<not> exception psc' \<and> has_method psc' = hm \<and> answers js hm V s c) \<and> slot_ok V s a' \<and> slot_ok V s b' \<and>
    (slot_val a', slot_pos a') = (slot_val a, slot_pos a) \<and> (slot_val b', slot_pos b') = (slot_val b, slot_pos b)"
  proof (cases hm)
    case True
    then have c: "same_value js (slot_val a) (slot_val b) \<Longrightarrow> c (slot_val a) (slot_val b) = 0"
      "fst (call_method js (ctx psc) (slot_val a) (slot_val b)) = Some (c (slot_val a) (slot_val b))"
      using ans V by (auto simp: answers_def)
    obtain w where "call_method js (ctx psc) (slot_val a) (slot_val b) = (Some (c (slot_val a) (slot_val b)), w)"
      using c(2) by (cases "call_method js (ctx psc) (slot_val a) (slot_val b)") auto
    then show ?thesis using e hm True c(1) ans ok
      by (auto simp: js_array_cmp_generic_def slot_order_def Let_def)
  next
    case False
    then have str: "\<forall>x \<in> V. \<forall>w. fst (JS_ToString js w x) = Some (s x)"
      and c: "c = (\<lambda>x y. js_string_compare (s x) (s y))" using ans by (auto simp: answers_def)
    obtain w a' where a: "slot_string js (ctx psc) a = (Some (s (slot_val a)), w, a')" "slot_ok V s a'"
      "slot_val a' = slot_val a" "slot_pos a' = slot_pos a" using slot_string_ok[OF str ok(1)] by blast
    obtain w' b' where b: "slot_string js w b = (Some (s (slot_val b)), w', b')" "slot_ok V s b'"
      "slot_val b' = slot_val b" "slot_pos b' = slot_pos b" using slot_string_ok[OF str ok(2)] by blast
    have "js_array_cmp_generic js psc a b =
        (slot_order c (slot_val a, slot_pos a) (slot_val b, slot_pos b), psc\<lparr>ctx := w'\<rparr>, a', b')"
      using e hm False by (simp add: js_array_cmp_generic_def slot_order_def c a(1) b(1) Let_def)
    then show ?thesis using e hm ans a b by auto
  qed
qed

lemma comparator_slots:
  assumes "comparator c"
  shows "comparator (slot_order c)"
proof -
  note sym = comparator.sym[OF assms] and trans = comparator.trans[OF assms]
  have c: "slot_order c (x, i) (y, j) \<le> 0 \<longleftrightarrow> c x y < 0 \<or> c x y = 0 \<and> i \<le> j"
    "slot_order c (x, i) (y, j) < 0 \<longleftrightarrow> c x y < 0 \<or> c x y = 0 \<and> i < j"
    "slot_order c (x, i) (y, j) > 0 \<longleftrightarrow> c x y > 0 \<or> c x y = 0 \<and> i > j" for x y i j
    by (auto simp: slot_order_def)
  have eq: "c x y = 0 \<longleftrightarrow> c y x = 0" for x y using sym[of x y] sym[of y x] by linarith
  have less: "c x z < 0" if "c x y < 0" "c y z \<le> 0" for x y z
    using that trans[of y z x] sym[of x z] sym[of x y] by linarith
  have less': "c x z < 0" if "c x y \<le> 0" "c y z < 0" for x y z
    using that trans[of z x y] sym[of x z] sym[of y z] by linarith
  have zero: "c x z = 0" if "c x y = 0" "c y z = 0" for x y z
    using that trans[of x y z] trans[of z y x] eq[of x y] eq[of y z] sym[of x z] by linarith
  show ?thesis
  proof unfold_locales
    show "slot_order c k m < 0 \<longleftrightarrow> slot_order c m k > 0" for k m
      by (cases k; cases m) (use c sym eq in auto)
  next
    fix k m n assume a: "slot_order c k m \<le> 0" "slot_order c m n \<le> 0"
    obtain x i y j z l where k: "k = (x, i)" "m = (y, j)" "n = (z, l)" by (cases k; cases m; cases n)
    show "slot_order c k n \<le> 0"
      using a unfolding k c using less[of x y z] less'[of x y z] zero[of x y z] by force
  qed
qed

lemma sort_slots_run:
  assumes "comparator c" "answers js hm V s c" "\<forall>a \<in> set xs. slot_val a \<in> V \<and> slot_str a = None"
  shows "\<exists>w' ys. rqsort_st (js_array_cmp_generic js) \<lparr>ctx = w, exception = False, has_method = hm\<rparr> xs =
      Some (\<lparr>ctx = w', exception = False, has_method = hm\<rparr>, ys) \<and>
    mset (map (\<lambda>a. (slot_val a, slot_pos a)) ys) = mset (map (\<lambda>a. (slot_val a, slot_pos a)) xs) \<and>
    sorted_wrt (\<lambda>a b. c (slot_val a) (slot_val b) < 0 \<or>
      c (slot_val a) (slot_val b) = 0 \<and> slot_pos a \<le> slot_pos b) ys"
proof -
  have c: "slot_order c (x, i) (y, j) \<le> 0 \<longleftrightarrow> c x y < 0 \<or> c x y = 0 \<and> i \<le> j" for x y i j
    by (auto simp: slot_order_def)
  have ok: "\<forall>a \<in> set xs. slot_ok V s a" using assms(3) by (auto simp: slot_ok_def)
  obtain psc ys where r: "rqsort_st (js_array_cmp_generic js) \<lparr>ctx = w, exception = False, has_method = hm\<rparr> xs = Some (psc, ys)"
    "\<not> exception psc" "has_method psc = hm"
    "mset (map (\<lambda>a. (slot_val a, slot_pos a)) ys) = mset (map (\<lambda>a. (slot_val a, slot_pos a)) xs)"
    "sorted_wrt (\<lambda>a b. slot_order c (slot_val a, slot_pos a) (slot_val b, slot_pos b) \<le> 0) ys"
    using sort_slots.rqsort_by_key[OF comparator_slots[OF assms(1)], of "\<lparr>ctx = w, exception = False, has_method = hm\<rparr>" hm js V s xs]
      assms(2) ok by auto
  have "psc = \<lparr>ctx = ctx psc, exception = False, has_method = hm\<rparr>" using r(2,3) by simp
  then show ?thesis using r(1,4,5) unfolding c by (intro exI[of _ "ctx psc"] exI[of _ ys] conjI) simp_all
qed

text \<open>
  What \<open>Array.prototype.sort\<close> may assume of a script for the values in \<open>V\<close>: its function never throws and
  answers as one total preorder, 0 for identical values, or every value converts to one string.
  \<open>before\<close> is the order of the values, for strings that of their units.
\<close>

definition orders :: "('w, 'v) script \<Rightarrow> bool \<Rightarrow> 'v set \<Rightarrow> ('v \<Rightarrow> 'v \<Rightarrow> bool) \<Rightarrow> bool" where
  "orders js hm V before \<longleftrightarrow>
     (if hm then \<exists>c. comparator c \<and> before = (\<lambda>x y. c x y \<le> 0) \<and>
        (\<forall>x \<in> V. \<forall>y \<in> V. (same_value js x y \<longrightarrow> c x y = 0) \<and> (\<forall>w. fst (call_method js w x y) = Some (c x y)))
      else \<exists>s. before = (\<lambda>x y. units (s x) \<le> units (s y)) \<and>
        (\<forall>x \<in> V. \<forall>w. fst (JS_ToString js w x) = Some (s x)))"

lemma orders_answers:
  assumes "orders js hm V before"
  shows "\<exists>c s. comparator c \<and> answers js hm V s c \<and> (\<forall>x y. before x y \<longleftrightarrow> c x y \<le> 0)"
proof (cases hm)
  case True
  with assms show ?thesis by (auto simp: orders_def answers_def)
next
  case False
  then obtain s where s: "before = (\<lambda>x y. units (s x) \<le> units (s y))"
    "\<forall>x \<in> V. \<forall>w. fst (JS_ToString js w x) = Some (s x)" using assms by (auto simp: orders_def)
  have "js_string_compare p q \<le> 0 \<longleftrightarrow> units p \<le> units q" for p q
    using js_string_compare_units[of p q] by auto
  then show ?thesis using False s comparator_strings[of s]
    by (intro exI[of _ "\<lambda>x y. js_string_compare (s x) (s y)"] exI[of _ s]) (simp add: answers_def)
qed

text \<open>
  \<^bold>\<open>C32.\<close> \<open>Array.prototype.sort\<close> is stable although \<open>rqsort\<close> is not, with a function of the script and
  without one: no exception is recorded, the slots keep their values and positions, values come out in
  ascending order, for strings in the order of their units whether they are stored in 8 or in 16 bits, and
  those that compare equal in the order of their positions. The comparison runs inside \<open>rqsort\<close> with all its
  effects, the strings it keeps in the slots and the state of the script.
\<close>

theorem js_array_sort_stable:
  assumes "orders js hm V before" and "\<forall>a \<in> set xs. slot_val a \<in> V \<and> slot_str a = None"
  shows "\<exists>w' ys. rqsort_st (js_array_cmp_generic js) \<lparr>ctx = w, exception = False, has_method = hm\<rparr> xs =
      Some (\<lparr>ctx = w', exception = False, has_method = hm\<rparr>, ys) \<and>
    mset (map (\<lambda>a. (slot_val a, slot_pos a)) ys) = mset (map (\<lambda>a. (slot_val a, slot_pos a)) xs) \<and>
    sorted_wrt (\<lambda>a b. before (slot_val a) (slot_val b) \<and>
      (before (slot_val b) (slot_val a) \<longrightarrow> slot_pos a \<le> slot_pos b)) ys"
proof -
  obtain c s where c: "comparator c" "answers js hm V s c" "\<forall>x y. before x y \<longleftrightarrow> c x y \<le> 0"
    using orders_answers[OF assms(1)] by blast
  obtain w' ys where r: "rqsort_st (js_array_cmp_generic js) \<lparr>ctx = w, exception = False, has_method = hm\<rparr> xs =
      Some (\<lparr>ctx = w', exception = False, has_method = hm\<rparr>, ys)"
    "mset (map (\<lambda>a. (slot_val a, slot_pos a)) ys) = mset (map (\<lambda>a. (slot_val a, slot_pos a)) xs)"
    "sorted_wrt (\<lambda>a b. c (slot_val a) (slot_val b) < 0 \<or>
      c (slot_val a) (slot_val b) = 0 \<and> slot_pos a \<le> slot_pos b) ys"
    using sort_slots_run[OF c(1,2) assms(2), of w] by blast
  have "sorted_wrt (\<lambda>a b. before (slot_val a) (slot_val b) \<and>
      (before (slot_val b) (slot_val a) \<longrightarrow> slot_pos a \<le> slot_pos b)) ys"
    by (rule sorted_wrt_mono_rel[OF _ r(3)]) (use c(3) comparator.sym[OF c(1)] in \<open>force simp: not_le\<close>)
  with r(1,2) show ?thesis by blast
qed

text \<open>A script whose function compares the lengths, with a script function or with the strings.\<close>

definition length_script :: "(unit, u8 list) script" where
  "length_script = \<lparr>same_value = (=),
     JS_Call = (\<lambda>w x y. (Some (if length x < length y then [1] else if length y < length x then [2] else [3]), w)),
     int_tag = (\<lambda>r. if r = [1] then Some (- 1) else if r = [2] then Some 1 else Some 0),
     JS_ToFloat64Free = (\<lambda>w r. (None, w)), JS_ToString = (\<lambda>w x. (Some (Str8 x), w))\<rparr>"

definition by_length :: "u8 list \<Rightarrow> u8 list \<Rightarrow> bool" where "by_length x y \<longleftrightarrow> length x \<le> length y"
definition by_string :: "u8 list \<Rightarrow> u8 list \<Rightarrow> bool" where "by_string x y \<longleftrightarrow> units (Str8 x) \<le> units (Str8 y)"

lemma length_script_by_length: "orders length_script True UNIV by_length"
proof -
  have e: "by_length = (\<lambda>x y. of_bool (length y < length x) - of_bool (length y > length x) \<le> (0 :: int))"
    by (auto simp: by_length_def fun_eq_iff)
  show ?thesis unfolding orders_def if_True e
    by (rule exI, rule conjI[OF comparator_order[of length]]) (auto simp: length_script_def call_method_def)
qed

lemma length_script_by_string: "orders length_script False UNIV by_string"
  by (auto simp: orders_def length_script_def by_string_def fun_eq_iff intro!: exI[of _ Str8])

definition two_slots :: "u8 list value_slot list" where
  "two_slots = [\<lparr>slot_val = [57, 57], slot_str = None, slot_pos = 0\<rparr>, \<lparr>slot_val = [49], slot_str = None, slot_pos = 1\<rparr>]"

theorem js_array_sort_stable_witness:
  "(\<exists>w' ys. rqsort_st (js_array_cmp_generic length_script) \<lparr>ctx = (), exception = False, has_method = True\<rparr> two_slots =
      Some (\<lparr>ctx = w', exception = False, has_method = True\<rparr>, ys) \<and>
    mset (map (\<lambda>a. (slot_val a, slot_pos a)) ys) = mset (map (\<lambda>a. (slot_val a, slot_pos a)) two_slots) \<and>
    sorted_wrt (\<lambda>a b. by_length (slot_val a) (slot_val b) \<and>
      (by_length (slot_val b) (slot_val a) \<longrightarrow> slot_pos a \<le> slot_pos b)) ys) \<and>
   (\<exists>w' ys. rqsort_st (js_array_cmp_generic length_script) \<lparr>ctx = (), exception = False, has_method = False\<rparr> two_slots =
      Some (\<lparr>ctx = w', exception = False, has_method = False\<rparr>, ys) \<and>
    mset (map (\<lambda>a. (slot_val a, slot_pos a)) ys) = mset (map (\<lambda>a. (slot_val a, slot_pos a)) two_slots) \<and>
    sorted_wrt (\<lambda>a b. by_string (slot_val a) (slot_val b) \<and>
      (by_string (slot_val b) (slot_val a) \<longrightarrow> slot_pos a \<le> slot_pos b)) ys)"
  by (rule conjI; rule js_array_sort_stable[where V = UNIV])
    (simp_all add: length_script_by_length length_script_by_string two_slots_def)

end
