(* ===== verification/Exchange.thy ===== *)
theory Exchange
  imports Qjs_Prelude
begin

text \<open>
  The element exchanges below the sorting routines of \<open>cutils.h\<close>. Memory is a list of bytes; a routine for
  a wider integer type moves units of its size, and \<open>exchange_func\<close> selects the widest one that the
  alignment of the array and the size allow. All of them exchange two disjoint blocks, which is what \<open>swap\<close> and
  \<open>swap_block\<close> of \<open>Sort\<close> do to the elements.
\<close>

section \<open>Exchanging elements in memory\<close>

text \<open>One unit of \<open>k\<close> bytes at the addresses \<open>a\<close> and \<open>b\<close> is read into a temporary and exchanged.\<close>

definition exchange_unit :: "nat \<Rightarrow> u8 list \<Rightarrow> nat \<Rightarrow> nat \<Rightarrow> u8 list" where
  "exchange_unit k mem a b =
     (let t = take k (drop a mem) in blit (blit mem a (take k (drop b mem))) b t)"

fun exchange_units :: "nat \<Rightarrow> u8 list \<Rightarrow> nat \<Rightarrow> nat \<Rightarrow> nat \<Rightarrow> u8 list" where
  "exchange_units k mem a b 0 = mem"
| "exchange_units k mem a b (Suc n) = exchange_units k (exchange_unit k mem a b) (a + k) (b + k) n"

type_synonym exchange_f = "u8 list \<Rightarrow> nat \<Rightarrow> nat \<Rightarrow> nat \<Rightarrow> u8 list"

definition exchange_bytes :: exchange_f where "exchange_bytes mem a b sz = exchange_units 1 mem a b sz"
definition exchange_one_byte :: exchange_f where "exchange_one_byte mem a b sz = exchange_unit 1 mem a b"
definition exchange_int16s :: exchange_f where "exchange_int16s mem a b sz = exchange_units 2 mem a b (sz div 2)"
definition exchange_one_int16 :: exchange_f where "exchange_one_int16 mem a b sz = exchange_unit 2 mem a b"
definition exchange_int32s :: exchange_f where "exchange_int32s mem a b sz = exchange_units 4 mem a b (sz div 4)"
definition exchange_one_int32 :: exchange_f where "exchange_one_int32 mem a b sz = exchange_unit 4 mem a b"
definition exchange_int64s :: exchange_f where "exchange_int64s mem a b sz = exchange_units 8 mem a b (sz div 8)"
definition exchange_one_int64 :: exchange_f where "exchange_one_int64 mem a b sz = exchange_unit 8 mem a b"
definition exchange_int128s :: exchange_f where "exchange_int128s mem a b sz = exchange_units 16 mem a b (sz div 16)"
definition exchange_one_int128 :: exchange_f where "exchange_one_int128 mem a b sz = exchange_unit 16 mem a b"

definition exchange_func :: "nat \<Rightarrow> nat \<Rightarrow> exchange_f" where
  "exchange_func base sz =
     (let m = (base OR sz) AND 15
      in if m = 0 then if sz = 16 then exchange_one_int128 else exchange_int128s
         else if m = 8 then if sz = 8 then exchange_one_int64 else exchange_int64s
         else if m = 4 \<or> m = 12 then if sz = 4 then exchange_one_int32 else exchange_int32s
         else if m = 2 \<or> m = 6 \<or> m = 10 \<or> m = 14 then if sz = 2 then exchange_one_int16 else exchange_int16s
         else if sz = 1 then exchange_one_byte else exchange_bytes)"

text \<open>The reference: the bytes of two disjoint blocks trade places.\<close>

definition exchanged :: "u8 list \<Rightarrow> nat \<Rightarrow> nat \<Rightarrow> nat \<Rightarrow> u8 list" where
  "exchanged mem a b n = map (\<lambda>k. if a \<le> k \<and> k < a + n then mem ! (b + (k - a))
     else if b \<le> k \<and> k < b + n then mem ! (a + (k - b)) else mem ! k) [0..<length mem]"

lemma length_exchanged [simp]: "length (exchanged mem a b n) = length mem"
  by (simp add: exchanged_def)

lemma nth_exchanged: "k < length mem \<Longrightarrow> exchanged mem a b n ! k =
    (if a \<le> k \<and> k < a + n then mem ! (b + (k - a)) else if b \<le> k \<and> k < b + n then mem ! (a + (k - b)) else mem ! k)"
  by (simp add: exchanged_def)

definition disjoint_blocks :: "u8 list \<Rightarrow> nat \<Rightarrow> nat \<Rightarrow> nat \<Rightarrow> bool" where
  "disjoint_blocks mem a b n \<longleftrightarrow> a + n \<le> length mem \<and> b + n \<le> length mem \<and> (a + n \<le> b \<or> b + n \<le> a)"

lemma nth_blit: "i + length ys \<le> length xs \<Longrightarrow> k < length xs \<Longrightarrow>
    blit xs i ys ! k = (if i \<le> k \<and> k < i + length ys then ys ! (k - i) else xs ! k)"
proof -
  assume a: "i + length ys \<le> length xs" "k < length xs"
  consider "k < i" | "i \<le> k" "k < i + length ys" | "i + length ys \<le> k" by linarith
  then show ?thesis using a by cases (simp_all add: blit_def nth_append less_diff_conv2)
qed

lemma exchange_unit_exchanged:
  assumes "disjoint_blocks mem a b k"
  shows "exchange_unit k mem a b = exchanged mem a b k"
proof -
  let ?m = "blit mem a (take k (drop b mem))" and ?t = "take k (drop a mem)"
  have d: "a + k \<le> length mem" "b + k \<le> length mem" "a + k \<le> b \<or> b + k \<le> a"
    using assms by (auto simp: disjoint_blocks_def)
  have l: "length (take k (drop b mem)) = k" "length ?t = k" "length ?m = length mem" using d by auto
  have "blit ?m b ?t ! i = exchanged mem a b k ! i" if i: "i < length mem" for i
  proof -
    have "blit ?m b ?t ! i = (if b \<le> i \<and> i < b + k then ?t ! (i - b) else ?m ! i)"
      using nth_blit[of b ?t ?m i] d(2) i l by simp
    also have "?m ! i = (if a \<le> i \<and> i < a + k then take k (drop b mem) ! (i - a) else mem ! i)"
      using nth_blit[of a "take k (drop b mem)" mem i] d(1) i l by simp
    finally have e: "blit ?m b ?t ! i = (if b \<le> i \<and> i < b + k then ?t ! (i - b)
        else if a \<le> i \<and> i < a + k then take k (drop b mem) ! (i - a) else mem ! i)" .
    consider "b \<le> i" "i < b + k" "\<not> (a \<le> i \<and> i < a + k)" | "a \<le> i" "i < a + k" "\<not> (b \<le> i \<and> i < b + k)"
      | "\<not> (a \<le> i \<and> i < a + k)" "\<not> (b \<le> i \<and> i < b + k)" using d(3) by linarith
    then show ?thesis unfolding e nth_exchanged[OF i] using d(1,2) by cases (auto simp: less_diff_conv2)
  qed
  then show ?thesis using d l by (intro nth_equalityI) (simp_all add: exchange_unit_def)
qed

lemma exchange_units_exchanged:
  "disjoint_blocks mem a b (n * k) \<Longrightarrow> exchange_units k mem a b n = exchanged mem a b (n * k)"
proof (induction n arbitrary: mem a b)
  case 0
  show ?case by (rule nth_equalityI) (auto simp: nth_exchanged)
next
  case (Suc n)
  define r where "r = n * k"
  have r: "Suc n * k = k + r" by (simp add: r_def)
  have d: "disjoint_blocks mem a b k" "disjoint_blocks (exchanged mem a b k) (a + k) (b + k) r"
    using Suc(2) unfolding r by (auto simp: disjoint_blocks_def)
  have "exchanged (exchanged mem a b k) (a + k) (b + k) r = exchanged mem a b (k + r)"
  proof (rule nth_equalityI)
    fix i assume "i < length (exchanged (exchanged mem a b k) (a + k) (b + k) r)"
    then have i: "i < length mem" by simp
    have b: "a + k + r \<le> length mem" "b + k + r \<le> length mem" "a + k + r \<le> b \<or> b + k + r \<le> a"
      using Suc(2) unfolding r disjoint_blocks_def by auto
    have shift: "x + k + (i - (y + k)) = x + (i - y)" if "y + k \<le> i" for x y :: nat using that by arith
    have outer: "exchanged (exchanged mem a b k) (a + k) (b + k) r ! i =
      (if a + k \<le> i \<and> i < a + k + r then exchanged mem a b k ! (b + (i - a))
       else if b + k \<le> i \<and> i < b + k + r then exchanged mem a b k ! (a + (i - b)) else exchanged mem a b k ! i)"
      using i by (subst nth_exchanged) (simp_all add: shift cong: if_cong)
    let ?A = "a \<le> i \<and> i < a + k + r" and ?B = "b \<le> i \<and> i < b + k + r"
    have goal: "exchanged mem a b (k + r) ! i = (if ?A then mem ! (b + (i - a)) else if ?B then mem ! (a + (i - b)) else mem ! i)"
      using i by (simp add: nth_exchanged add.assoc)
    consider "a \<le> i" "i < a + k" "\<not> ?B" | "a + k \<le> i" "i < a + k + r" "\<not> ?B"
      | "b \<le> i" "i < b + k" "\<not> ?A" | "b + k \<le> i" "i < b + k + r" "\<not> ?A" | "\<not> ?A" "\<not> ?B"
      using b(3) by linarith
    then show "exchanged (exchanged mem a b k) (a + k) (b + k) r ! i = exchanged mem a b (k + r) ! i"
    proof cases
      case 1
      then show ?thesis unfolding outer goal using i by (auto simp: nth_exchanged)
    next
      case 2
      then have "b + (i - a) < length mem" "\<not> (a \<le> b + (i - a) \<and> b + (i - a) < a + k)" "\<not> (b + (i - a) < b + k)"
        using b by linarith+
      then show ?thesis unfolding outer goal using 2 by (auto simp: nth_exchanged)
    next
      case 3
      then show ?thesis unfolding outer goal using i by (auto simp: nth_exchanged)
    next
      case 4
      then have "a + (i - b) < length mem" "\<not> (b \<le> a + (i - b) \<and> a + (i - b) < b + k)" "\<not> (a + (i - b) < a + k)"
        "\<not> (a + k \<le> i \<and> i < a + k + r)" using b by linarith+
      then show ?thesis unfolding outer goal using 4 by (auto simp: nth_exchanged)
    next
      case 5
      then have "\<not> (a \<le> i \<and> i < a + k)" "\<not> (b \<le> i \<and> i < b + k)" "\<not> (a + k \<le> i \<and> i < a + k + r)"
        "\<not> (b + k \<le> i \<and> i < b + k + r)" by linarith+
      then show ?thesis unfolding outer goal nth_exchanged[OF i] using 5 by auto
    qed
  qed simp
  then show ?case using Suc.IH[of "exchanged mem a b k" "a + k" "b + k"] d(2)
    unfolding r by (simp add: exchange_unit_exchanged[OF d(1)] r_def)
qed

lemma zero_low_bits: "(x OR y) mod 2 ^ k = 0 \<Longrightarrow> 2 ^ k dvd (y :: nat)"
proof -
  assume "(x OR y) mod 2 ^ k = 0"
  then have "take_bit k (x OR y) = 0" by (simp add: take_bit_eq_mod)
  then have "take_bit k y = 0" by (auto simp: bit_eq_iff bit_take_bit_iff bit_or_iff)
  then show ?thesis by (simp add: take_bit_eq_mod dvd_eq_mod_eq_0)
qed

lemma exchange_func_exchanged:
  assumes "disjoint_blocks mem a b n" and units: "\<And>k. 2 ^ k dvd s \<Longrightarrow> k \<le> 4 \<Longrightarrow> 2 ^ k dvd n"
    and one: "s \<in> {1, 2, 4, 8, 16} \<Longrightarrow> n = s"
  shows "exchange_func base s mem a b n = exchanged mem a b n"
proof -
  define m where "m = (base OR s) AND 15"
  have m: "m = (base OR s) mod 2 ^ 4" using nat_and_mask[of "base OR s" 4] by (simp add: m_def mask_eq_exp_minus_1)
  have dvd: "2 ^ k dvd n" if "m mod 2 ^ k = 0" "k \<le> 4" for k
  proof -
    have "(base OR s) mod 2 ^ k = m mod 2 ^ k"
      unfolding m by (rule mod_mod_cancel[OF le_imp_power_dvd[OF that(2)], symmetric])
    then show ?thesis using zero_low_bits units that by metis
  qed
  have unit: "exchange_units k mem a b (n div k) = exchanged mem a b n" if "k dvd n" for k
    using exchange_units_exchanged[of mem a b "n div k" k] assms(1) that by simp
  have single: "exchange_unit n mem a b = exchanged mem a b n" by (rule exchange_unit_exchanged[OF assms(1)])
  note d = dvd[of 4] dvd[of 3] dvd[of 2] dvd[of 1] unit[of 1]
  note f = exchange_func_def Let_def m_def[symmetric] exchange_int128s_def exchange_int64s_def exchange_int32s_def
    exchange_int16s_def exchange_bytes_def exchange_one_int128_def exchange_one_int64_def exchange_one_int32_def
    exchange_one_int16_def exchange_one_byte_def
  consider "m = 0" | "m = 8" | "m \<in> {4, 12}" | "m \<in> {2, 6, 10, 14}" | "m \<notin> {0, 2, 4, 6, 8, 10, 12, 14}" by auto
  then show ?thesis
  proof cases
    case 1
    then show ?thesis using d(1) unit[of 16] single one by (auto simp: f)
  next
    case 2
    then show ?thesis using d(2) unit[of 8] single one by (auto simp: f)
  next
    case 3
    then show ?thesis using d(3) unit[of 4] single one by (auto simp: f)
  next
    case 4
    then show ?thesis using d(4) unit[of 2] single one by (auto simp: f)
  next
    case 5
    then show ?thesis using d(5) single one by (auto simp: f)
  qed
qed

text \<open>
  \<^bold>\<open>C33.\<close> At every alignment of the array and for every element size the routine that \<open>exchange_func\<close> selects
  exchanges exactly the bytes of two elements, and the one \<open>rqsort\<close> selects for blocks, by setting bit 7 of the
  size, exchanges any number of elements.
\<close>

theorem exchange_func_exchanges:
  assumes "disjoint_blocks mem a b (num * sz)"
  shows "(num = 1 \<longrightarrow> exchange_func base sz mem a b sz = exchanged mem a b sz) \<and>
    exchange_func base (sz OR 128) mem a b (num * sz) = exchanged mem a b (num * sz)"
proof
  show "num = 1 \<longrightarrow> exchange_func base sz mem a b sz = exchanged mem a b sz"
    using assms by (auto intro: exchange_func_exchanged)
  show "exchange_func base (sz OR 128) mem a b (num * sz) = exchanged mem a b (num * sz)"
  proof (rule exchange_func_exchanged[OF assms])
    fix k assume "2 ^ k dvd sz OR (128 :: nat)"
    then have "(128 OR sz) mod 2 ^ k = 0" by (simp add: or.commute dvd_eq_mod_eq_0)
    then have "2 ^ k dvd sz" by (rule zero_low_bits)
    then show "2 ^ k dvd num * sz" by simp
  next
    have "bit (128 :: nat) 7" by (simp add: bit_nat_def)
    then have "bit (sz OR 128) 7" by (simp only: bit_or_iff simp_thms)
    moreover assume "sz OR 128 \<in> {1, 2, 4, 8, 16 :: nat}"
    ultimately show "num * sz = sz OR 128" by (auto simp: bit_nat_def)
  qed
qed

theorem exchange_func_exchanges_witness:
  "exchange_func 6 (2 OR 128) [1, 2, 3, 4, 5, 6, 7, 8] 0 4 4 = exchanged [1, 2, 3, 4, 5, 6, 7, 8] 0 4 4"
  using exchange_func_exchanges[of "[1, 2, 3, 4, 5, 6, 7, 8]" 0 4 2 2 6] by (simp add: disjoint_blocks_def)

end
