(* ===== verification/List_Head.thy ===== *)
theory List_Head
  imports Main "HOL-Library.Monad_Syntax"
begin

text \<open>
  The intrusive doubly linked lists of \<open>list.h\<close>. Memory is explicit: a store gives the \<open>prev\<close> and \<open>next\<close> fields of
  every allocated \<open>struct list_head\<close>, a field may be \<open>NULL\<close>, and reading or writing a freed node is an error, so
  that an operation of the model returns only when the C code stays inside valid memory.
\<close>

section \<open>The operations\<close>

type_synonym 'a links = "'a \<Rightarrow> ('a option \<times> 'a option) option"

definition list_prev :: "'a links \<Rightarrow> 'a \<Rightarrow> 'a option" where
  "list_prev s el = Option.bind (s el) fst"

definition list_next :: "'a links \<Rightarrow> 'a \<Rightarrow> 'a option" where
  "list_next s el = Option.bind (s el) snd"

definition set_prev :: "'a links \<Rightarrow> 'a \<Rightarrow> 'a option \<Rightarrow> 'a links option" where
  "set_prev s el v = do { (_, n) \<leftarrow> s el; Some (s(el \<mapsto> (v, n))) }"

definition set_next :: "'a links \<Rightarrow> 'a \<Rightarrow> 'a option \<Rightarrow> 'a links option" where
  "set_next s el v = do { (p, _) \<leftarrow> s el; Some (s(el \<mapsto> (p, v))) }"

definition init_list_head :: "'a links \<Rightarrow> 'a \<Rightarrow> 'a links option" where
  "init_list_head s head = do {
     s \<leftarrow> set_prev s head (Some head);
     set_next s head (Some head) }"

definition list_insert :: "'a links \<Rightarrow> 'a \<Rightarrow> 'a \<Rightarrow> 'a \<Rightarrow> 'a links option" where
  "list_insert s el prev nxt = do {
     s \<leftarrow> set_next s prev (Some el);
     s \<leftarrow> set_prev s el (Some prev);
     s \<leftarrow> set_next s el (Some nxt);
     set_prev s nxt (Some el) }"

definition list_add :: "'a links \<Rightarrow> 'a \<Rightarrow> 'a \<Rightarrow> 'a links option" where
  "list_add s el head = do { nxt \<leftarrow> list_next s head; list_insert s el head nxt }"

definition list_add_tail :: "'a links \<Rightarrow> 'a \<Rightarrow> 'a \<Rightarrow> 'a links option" where
  "list_add_tail s el head = do { prev \<leftarrow> list_prev s head; list_insert s el prev head }"

definition list_del :: "'a links \<Rightarrow> 'a \<Rightarrow> 'a links option" where
  "list_del s el = do {
     prev \<leftarrow> list_prev s el;
     nxt \<leftarrow> list_next s el;
     s \<leftarrow> set_next s prev (Some nxt);
     s \<leftarrow> set_prev s nxt (Some prev);
     s \<leftarrow> set_prev s el None;
     set_next s el None }"

definition list_empty :: "'a links \<Rightarrow> 'a \<Rightarrow> bool option" where
  "list_empty s el = do { nxt \<leftarrow> list_next s el; Some (nxt = el) }"

section \<open>The list a ring of nodes stands for\<close>

fun linked :: "'a links \<Rightarrow> 'a list \<Rightarrow> bool" where
  "linked s (a # b # xs) \<longleftrightarrow> list_next s a = Some b \<and> list_prev s b = Some a \<and> linked s (b # xs)"
| "linked s _ \<longleftrightarrow> True"

definition ring :: "'a links \<Rightarrow> 'a \<Rightarrow> 'a list \<Rightarrow> bool" where
  "ring s h xs \<longleftrightarrow> distinct (h # xs) \<and> linked s (h # xs @ [h])"

lemma linked_append:
  "xs \<noteq> [] \<Longrightarrow> ys \<noteq> [] \<Longrightarrow> linked s (xs @ ys) \<longleftrightarrow>
    linked s xs \<and> list_next s (last xs) = Some (hd ys) \<and> list_prev s (hd ys) = Some (last xs) \<and> linked s ys"
proof (induction xs)
  case (Cons a xs)
  then show ?case by (cases xs; cases ys) auto
qed simp

lemma linked_cong:
  assumes "linked s xs" "\<And>x. x \<in> set (butlast xs) \<Longrightarrow> list_next s' x = list_next s x"
    "\<And>x. x \<in> set (tl xs) \<Longrightarrow> list_prev s' x = list_prev s x"
  shows "linked s' xs"
  using assms by (induction s xs rule: linked.induct) auto

lemma ring_cong:
  assumes "ring s h xs" "\<And>x. x \<in> set (h # xs) \<Longrightarrow> s' x = s x"
  shows "ring s' h xs"
  using assms(1) linked_cong[of s "h # xs @ [h]" s'] assms(2)
  by (auto simp: ring_def list_next_def list_prev_def butlast_append)

lemma ring_distinct: "ring s h xs \<Longrightarrow> distinct (h # xs)"
  by (simp add: ring_def)

lemma linked_middle:
  assumes "linked s (xs @ a # ys)" "xs \<noteq> []" "ys \<noteq> []"
  shows "list_prev s a = Some (last xs)" "list_next s a = Some (hd ys)"
    "list_next s (last xs) = Some a" "list_prev s (hd ys) = Some a"
  using assms linked_append[of xs "a # ys" s] linked_append[of "[a]" ys s] by auto

lemma ring_next: "ring s h xs \<Longrightarrow> list_next s h = Some (hd (xs @ [h]))"
  by (cases xs) (auto simp: ring_def)

lemma ring_next_element: "ring s h (xs @ el # ys) \<Longrightarrow> list_next s el = Some (hd (ys @ [h]))"
  using linked_middle(2)[of s "h # xs" el "ys @ [h]"] by (simp add: ring_def)

lemma ring_prev: "ring s h xs \<Longrightarrow> list_prev s h = Some (last (h # xs))"
  using linked_append[of "h # xs" "[h]" s] by (simp add: ring_def)

lemma ring_allocated:
  assumes "ring s h xs" "x \<in> set (h # xs)"
  shows "x \<in> dom s"
proof (cases "x = h")
  case True
  then show ?thesis using ring_next[OF assms(1)] by (auto simp: list_next_def bind_eq_Some_conv)
next
  case False
  then obtain ys zs where "xs = ys @ x # zs" using assms(2) by (auto dest: split_list)
  then show ?thesis using ring_next_element[of s h ys x zs] assms(1)
    by (auto simp: list_next_def bind_eq_Some_conv)
qed

lemma ring_unique:
  assumes "ring s h xs" "ring s h ys"
  shows "xs = ys"
proof -
  have *: "zs = ws" if "linked s (a # zs @ [h])" "linked s (a # ws @ [h])" "h \<notin> set zs" "h \<notin> set ws" for a zs ws
    using that
  proof (induction zs arbitrary: a ws)
    case Nil
    then show ?case by (cases ws) auto
  next
    case (Cons z zs)
    then show ?case by (cases ws) auto
  qed
  show ?thesis by (rule *[of h]) (use assms in \<open>auto simp: ring_def\<close>)
qed

section \<open>What the operations do to the fields\<close>

lemma set_prev_fields:
  assumes "el \<in> dom s"
  obtains s' where "set_prev s el v = Some s'" "list_prev s' = (list_prev s)(el := v)" "list_next s' = list_next s"
    "dom s' = dom s" "\<And>x. x \<noteq> el \<Longrightarrow> s' x = s x"
  using assms by (fastforce simp: set_prev_def list_prev_def list_next_def)

lemma set_next_fields:
  assumes "el \<in> dom s"
  obtains s' where "set_next s el v = Some s'" "list_next s' = (list_next s)(el := v)" "list_prev s' = list_prev s"
    "dom s' = dom s" "\<And>x. x \<noteq> el \<Longrightarrow> s' x = s x"
  using assms by (fastforce simp: set_next_def list_prev_def list_next_def)

lemma list_insert_fields:
  assumes "el \<in> dom s" "p \<in> dom s" "n \<in> dom s"
  obtains s' where "list_insert s el p n = Some s'"
    "list_next s' = (list_next s)(p := Some el, el := Some n)" "list_prev s' = (list_prev s)(el := Some p, n := Some el)"
    "dom s' = dom s" "\<And>x. x \<notin> {p, el, n} \<Longrightarrow> s' x = s x"
proof -
  obtain s1 where 1: "set_next s p (Some el) = Some s1" "list_next s1 = (list_next s)(p := Some el)"
    "list_prev s1 = list_prev s" "dom s1 = dom s" "\<And>x. x \<noteq> p \<Longrightarrow> s1 x = s x"
    using set_next_fields[OF assms(2), of "Some el"] by metis
  obtain s2 where 2: "set_prev s1 el (Some p) = Some s2" "list_prev s2 = (list_prev s1)(el := Some p)"
    "list_next s2 = list_next s1" "dom s2 = dom s1" "\<And>x. x \<noteq> el \<Longrightarrow> s2 x = s1 x"
    using set_prev_fields[of el s1 "Some p"] assms(1) 1(4) by metis
  obtain s3 where 3: "set_next s2 el (Some n) = Some s3" "list_next s3 = (list_next s2)(el := Some n)"
    "list_prev s3 = list_prev s2" "dom s3 = dom s2" "\<And>x. x \<noteq> el \<Longrightarrow> s3 x = s2 x"
    using set_next_fields[of el s2 "Some n"] assms(1) 1(4) 2(4) by metis
  obtain s4 where 4: "set_prev s3 n (Some el) = Some s4" "list_prev s4 = (list_prev s3)(n := Some el)"
    "list_next s4 = list_next s3" "dom s4 = dom s3" "\<And>x. x \<noteq> n \<Longrightarrow> s4 x = s3 x"
    using set_prev_fields[of n s3 "Some el"] assms(3) 1(4) 2(4) 3(4) by metis
  show thesis
    by (rule that[of s4]) (use 1 2 3 4 in \<open>auto simp: list_insert_def\<close>)
qed

lemma list_del_fields:
  assumes "list_prev s el = Some p" "list_next s el = Some n" "p \<in> dom s" "n \<in> dom s"
  obtains s' where "list_del s el = Some s'"
    "list_next s' = (list_next s)(p := Some n, el := None)" "list_prev s' = (list_prev s)(n := Some p, el := None)"
    "dom s' = dom s" "\<And>x. x \<notin> {p, el, n} \<Longrightarrow> s' x = s x"
proof -
  have el: "el \<in> dom s" using assms(1) by (auto simp: list_prev_def bind_eq_Some_conv)
  obtain s1 where 1: "set_next s p (Some n) = Some s1" "list_next s1 = (list_next s)(p := Some n)"
    "list_prev s1 = list_prev s" "dom s1 = dom s" "\<And>x. x \<noteq> p \<Longrightarrow> s1 x = s x"
    using set_next_fields[OF assms(3), of "Some n"] by metis
  obtain s2 where 2: "set_prev s1 n (Some p) = Some s2" "list_prev s2 = (list_prev s1)(n := Some p)"
    "list_next s2 = list_next s1" "dom s2 = dom s1" "\<And>x. x \<noteq> n \<Longrightarrow> s2 x = s1 x"
    using set_prev_fields[of n s1 "Some p"] assms(4) 1(4) by metis
  obtain s3 where 3: "set_prev s2 el None = Some s3" "list_prev s3 = (list_prev s2)(el := None)"
    "list_next s3 = list_next s2" "dom s3 = dom s2" "\<And>x. x \<noteq> el \<Longrightarrow> s3 x = s2 x"
    using set_prev_fields[of el s2 None] el 1(4) 2(4) by metis
  obtain s4 where 4: "set_next s3 el None = Some s4" "list_next s4 = (list_next s3)(el := None)"
    "list_prev s4 = list_prev s3" "dom s4 = dom s3" "\<And>x. x \<noteq> el \<Longrightarrow> s4 x = s3 x"
    using set_next_fields[of el s3 None] el 1(4) 2(4) 3(4) by metis
  show thesis
    by (rule that[of s4]) (use 1 2 3 4 assms in \<open>auto simp: list_del_def\<close>)
qed

section \<open>The operations as list operations\<close>

lemma ring_insert:
  assumes "ring s h (xs @ ys)" "el \<notin> set (h # xs @ ys)" "el \<in> dom s"
  obtains s' where "list_insert s el (last (h # xs)) (hd (ys @ [h])) = Some s'" "ring s' h (xs @ el # ys)"
    "dom s' = dom s" "\<And>x. x \<notin> set (h # xs @ el # ys) \<Longrightarrow> s' x = s x"
proof -
  let ?A = "h # xs" and ?B = "ys @ [h]"
  let ?p = "last ?A" and ?n = "hd ?B"
  have p: "?p \<in> set ?A" and n: "?n \<in> set ?B" by (rule last_in_set, simp) (rule hd_in_set, simp)
  have d: "distinct ?A" "distinct ?B" "distinct (h # xs @ ys)" using ring_distinct[OF assms(1)] by auto
  have l: "linked s ?A" "linked s ?B" using assms(1) linked_append[of ?A ?B s] by (simp_all add: ring_def)
  have "?p \<in> set (h # xs @ ys)" "?n \<in> set (h # xs @ ys)" using p n by auto
  then have "?p \<in> dom s" "?n \<in> dom s" using ring_allocated[OF assms(1)] by blast+
  from list_insert_fields[OF assms(3) this] obtain s' where s': "list_insert s el ?p ?n = Some s'"
    "list_next s' = (list_next s)(?p := Some el, el := Some ?n)"
    "list_prev s' = (list_prev s)(el := Some ?p, ?n := Some el)" "dom s' = dom s" "\<And>x. x \<notin> {?p, el, ?n} \<Longrightarrow> s' x = s x"
    by metis
  have el: "el \<noteq> ?p" "el \<noteq> ?n" "el \<notin> set ?A" "el \<notin> set ?B" using assms(2) p n by auto
  have "linked s' ?A"
  proof (rule linked_cong[OF l(1)])
    fix x assume x: "x \<in> set (butlast ?A)"
    have "?A = butlast ?A @ [?p]" by simp
    then have "?p \<notin> set (butlast ?A)" using d(1) by (metis distinct_append not_distinct_conv_prefix)
    then show "list_next s' x = list_next s x" using x el s'(2) by (auto dest: in_set_butlastD)
  next
    fix x assume x: "x \<in> set (tl ?A)"
    have "?n \<notin> set (tl ?A)" using d(3) n by (cases ys) auto
    then show "list_prev s' x = list_prev s x" using x el s'(3) by (auto dest: in_set_butlastD)
  qed
  moreover have "linked s' ?B"
  proof (rule linked_cong[OF l(2)])
    fix x assume x: "x \<in> set (butlast ?B)"
    then have "x \<in> set ys" by simp
    then have "x \<noteq> ?p" using d(3) p by auto
    then show "list_next s' x = list_next s x" using \<open>x \<in> set ys\<close> el s'(2) by auto
  next
    fix x assume x: "x \<in> set (tl ?B)"
    have "?n \<notin> set (tl ?B)" using d(2) by (cases ys) auto
    moreover have "x \<in> set ?B" using x by (cases ys) auto
    ultimately show "list_prev s' x = list_prev s x" using x el s'(3) by auto
  qed
  moreover have "linked s' (el # ?B)"
    using \<open>linked s' ?B\<close> s'(2,3) el by (cases ys) auto
  moreover have "list_next s' ?p = Some el" "list_prev s' el = Some ?p" using s'(2,3) el by auto
  ultimately have "linked s' (?A @ el # ?B)" by (subst linked_append) auto
  then have "ring s' h (xs @ el # ys)" using d(3) assms(2) by (auto simp: ring_def)
  moreover have "s' x = s x" if "x \<notin> set (h # xs @ el # ys)" for x
  proof (rule s'(5))
    have "?p \<noteq> x" "?n \<noteq> x" using that p n by auto
    then show "x \<notin> {?p, el, ?n}" using that by auto
  qed
  ultimately show thesis using that s'(1,4) by blast
qed

lemma ring_add_tail:
  assumes "ring s h xs" "el \<notin> set (h # xs)" "el \<in> dom s"
  obtains s' where "list_add_tail s el h = Some s'" "ring s' h (xs @ [el])" "dom s' = dom s"
    "\<And>x. x \<notin> set (h # xs @ [el]) \<Longrightarrow> s' x = s x"
proof -
  have r: "ring s h (xs @ [])" "el \<notin> set (h # xs @ [])" using assms by simp_all
  show thesis
    by (rule ring_insert[OF r assms(3)]) (use that ring_prev[OF assms(1)] in \<open>auto simp: list_add_tail_def\<close>)
qed

lemma ring_add:
  assumes "ring s h xs" "el \<notin> set (h # xs)" "el \<in> dom s"
  obtains s' where "list_add s el h = Some s'" "ring s' h (el # xs)" "dom s' = dom s"
    "\<And>x. x \<notin> set (h # el # xs) \<Longrightarrow> s' x = s x"
proof -
  have r: "ring s h ([] @ xs)" "el \<notin> set (h # [] @ xs)" using assms by simp_all
  show thesis
    by (rule ring_insert[OF r assms(3)]) (use that ring_next[OF assms(1)] in \<open>auto simp: list_add_def\<close>)
qed

lemma ring_del:
  assumes "ring s h (xs @ el # ys)"
  obtains s' where "list_del s el = Some s'" "ring s' h (xs @ ys)" "dom s' = dom s"
    "\<And>x. x \<notin> set (h # xs @ el # ys) \<Longrightarrow> s' x = s x" "s' el = Some (None, None)"
proof -
  let ?A = "h # xs" and ?B = "ys @ [h]"
  let ?p = "last ?A" and ?n = "hd ?B"
  have p: "?p \<in> set ?A" and n: "?n \<in> set ?B" by (rule last_in_set, simp) (rule hd_in_set, simp)
  have d: "distinct ?A" "distinct ?B" "distinct (h # xs @ el # ys)" using ring_distinct[OF assms(1)] by auto
  have l: "linked s (?A @ el # ?B)" using assms(1) by (simp add: ring_def)
  note m = linked_middle[OF l]
  have lA: "linked s ?A" using l linked_append[of ?A "el # ?B" s] by simp
  have lB: "linked s ?B" using l linked_append[of "?A @ [el]" ?B s] by simp
  have "?p \<in> set (h # xs @ el # ys)" "?n \<in> set (h # xs @ el # ys)" using p n by auto
  then have dm: "?p \<in> dom s" "?n \<in> dom s" using ring_allocated[OF assms(1)] by blast+
  obtain s' where s': "list_del s el = Some s'"
    "list_next s' = (list_next s)(?p := Some ?n, el := None)"
    "list_prev s' = (list_prev s)(?n := Some ?p, el := None)" "dom s' = dom s" "\<And>x. x \<notin> {?p, el, ?n} \<Longrightarrow> s' x = s x"
    using list_del_fields[OF m(1,2) dm] by auto
  have el: "el \<noteq> ?p" "el \<noteq> ?n" "el \<notin> set ?A" "el \<notin> set ?B" using d(3) p n by auto
  have "linked s' ?A"
  proof (rule linked_cong[OF lA])
    fix x assume x: "x \<in> set (butlast ?A)"
    have "?A = butlast ?A @ [?p]" by simp
    then have "?p \<notin> set (butlast ?A)" using d(1) by (metis distinct_append not_distinct_conv_prefix)
    then show "list_next s' x = list_next s x" using x el s'(2) by (auto dest: in_set_butlastD)
  next
    fix x assume x: "x \<in> set (tl ?A)"
    have "?n \<notin> set (tl ?A)" using d(3) n by (cases ys) auto
    then show "list_prev s' x = list_prev s x" using x el s'(3) by auto
  qed
  moreover have "linked s' ?B"
  proof (rule linked_cong[OF lB])
    fix x assume x: "x \<in> set (butlast ?B)"
    then have "x \<in> set ys" by simp
    then have "x \<noteq> ?p" using d(3) p by auto
    then show "list_next s' x = list_next s x" using \<open>x \<in> set ys\<close> el s'(2) by auto
  next
    fix x assume x: "x \<in> set (tl ?B)"
    have "?n \<notin> set (tl ?B)" using d(2) by (cases ys) auto
    moreover have "x \<in> set ?B" using x by (cases ys) auto
    ultimately show "list_prev s' x = list_prev s x" using x el s'(3) by auto
  qed
  moreover have "list_next s' ?p = Some ?n" "list_prev s' ?n = Some ?p" using s'(2,3) el by auto
  ultimately have "linked s' (?A @ ?B)" by (subst linked_append) auto
  then have "ring s' h (xs @ ys)" using d(3) by (auto simp: ring_def)
  moreover have "s' x = s x" if "x \<notin> set (h # xs @ el # ys)" for x
  proof (rule s'(5))
    have "?p \<noteq> x" "?n \<noteq> x" using that p n by auto
    then show "x \<notin> {?p, el, ?n}" using that by auto
  qed
  moreover have "el \<in> dom s'" using ring_allocated[OF assms] s'(4) by auto
  then have "s' el = Some (None, None)"
    using fun_cong[OF s'(2), of el] fun_cong[OF s'(3), of el] by (auto simp: list_next_def list_prev_def)
  ultimately show thesis using that s'(1,4) by blast
qed

lemma ring_init:
  assumes "h \<in> dom s"
  obtains s' where "init_list_head s h = Some s'" "ring s' h []" "dom s' = dom s" "\<And>x. x \<noteq> h \<Longrightarrow> s' x = s x"
  using assms by (fastforce simp: init_list_head_def set_prev_def set_next_def ring_def list_next_def list_prev_def)

lemma ring_empty: "ring s h xs \<Longrightarrow> list_empty s h = Some (xs = [])"
  using ring_next[of s h xs] ring_distinct[of s h xs] by (cases xs) (auto simp: list_empty_def)

section \<open>The operations are those of lists\<close>

lemma ring_frame:
  assumes "ring s g ys" "set (g # ys) \<inter> A = {}" "\<And>x. x \<notin> A \<Longrightarrow> s' x = s x"
  shows "ring s' g ys"
  by (rule ring_cong[OF assms(1)]) (use assms(2,3) in auto)

lemma add_refines:
  assumes "ring s h xs" "el \<in> dom s" "el \<notin> set (h # xs)"
  shows "\<exists>s'. list_add s el h = Some s' \<and> ring s' h (el # xs) \<and> dom s' = dom s \<and>
    (\<forall>g ys. ring s g ys \<and> set (g # ys) \<inter> set (h # el # xs) = {} \<longrightarrow> ring s' g ys)"
proof -
  obtain s' where "list_add s el h = Some s'" "ring s' h (el # xs)" "dom s' = dom s"
    "\<And>x. x \<notin> set (h # el # xs) \<Longrightarrow> s' x = s x" by (rule ring_add[OF assms(1,3,2)]; rule that)
  then show ?thesis using ring_frame by metis
qed

lemma add_tail_refines:
  assumes "ring s h xs" "el \<in> dom s" "el \<notin> set (h # xs)"
  shows "\<exists>s'. list_add_tail s el h = Some s' \<and> ring s' h (xs @ [el]) \<and> dom s' = dom s \<and>
    (\<forall>g ys. ring s g ys \<and> set (g # ys) \<inter> set (h # el # xs) = {} \<longrightarrow> ring s' g ys)"
proof -
  obtain s' where s': "list_add_tail s el h = Some s'" "ring s' h (xs @ [el])" "dom s' = dom s"
    "\<And>x. x \<notin> set (h # xs @ [el]) \<Longrightarrow> s' x = s x" by (rule ring_add_tail[OF assms(1,3,2)]; rule that)
  have "set (h # xs @ [el]) = set (h # el # xs)" by auto
  then show ?thesis using s' ring_frame by metis
qed

lemma del_refines:
  assumes "ring s h xs" "el \<in> set xs"
  shows "\<exists>s'. list_del s el = Some s' \<and> ring s' h (remove1 el xs) \<and> s' el = Some (None, None) \<and> dom s' = dom s \<and>
    (\<forall>g ys. ring s g ys \<and> set (g # ys) \<inter> set (h # xs) = {} \<longrightarrow> ring s' g ys)"
proof -
  obtain as bs where xs: "xs = as @ el # bs" "el \<notin> set as" using assms(2) split_list_first by metis
  obtain s' where "list_del s el = Some s'" "ring s' h (as @ bs)" "dom s' = dom s"
    "\<And>x. x \<notin> set (h # xs) \<Longrightarrow> s' x = s x" "s' el = Some (None, None)"
    using ring_del[of s h as el bs] assms(1) unfolding xs(1) by metis
  moreover have "remove1 el xs = as @ bs" using xs by (simp add: remove1_append)
  ultimately show ?thesis using ring_frame by metis
qed

text \<open>
  \<^bold>\<open>C39.\<close> \<open>list_add\<close>, \<open>list_add_tail\<close>, \<open>list_del\<close> and \<open>list_empty\<close> implement adding at the front, adding at the end, removing
  and testing of the list the nodes stand for, stay inside allocated memory, and leave every list without a common node
  as it was.
\<close>

theorem list_operations_refine:
  assumes "ring s h xs"
  shows "list_empty s h = Some (xs = []) \<and>
    (\<forall>el. el \<in> dom s \<and> el \<notin> set (h # xs) \<longrightarrow>
       (\<exists>s'. list_add s el h = Some s' \<and> ring s' h (el # xs) \<and> dom s' = dom s \<and>
          (\<forall>g ys. ring s g ys \<and> set (g # ys) \<inter> set (h # el # xs) = {} \<longrightarrow> ring s' g ys)) \<and>
       (\<exists>s'. list_add_tail s el h = Some s' \<and> ring s' h (xs @ [el]) \<and> dom s' = dom s \<and>
          (\<forall>g ys. ring s g ys \<and> set (g # ys) \<inter> set (h # el # xs) = {} \<longrightarrow> ring s' g ys))) \<and>
    (\<forall>el \<in> set xs. \<exists>s'. list_del s el = Some s' \<and> ring s' h (remove1 el xs) \<and> s' el = Some (None, None) \<and> dom s' = dom s \<and>
       (\<forall>g ys. ring s g ys \<and> set (g # ys) \<inter> set (h # xs) = {} \<longrightarrow> ring s' g ys))"
  using ring_empty[OF assms] add_refines[OF assms] add_tail_refines[OF assms] del_refines[OF assms] by blast

theorem list_operations_refine_witness:
  "\<exists>s'. list_add_tail [0 \<mapsto> (Some 1, Some 1), 1 \<mapsto> (Some 0, Some 0), 2 \<mapsto> (None, None)] 2 (0::nat) = Some s' \<and> ring s' 0 [1, 2]"
proof -
  let ?s = "[0::nat \<mapsto> (Some 1, Some 1), 1 \<mapsto> (Some 0, Some 0), 2 \<mapsto> (None, None)]"
  have "ring ?s 0 [1]" by (simp add: ring_def list_next_def list_prev_def)
  from list_operations_refine[OF this] have "\<exists>s'. list_add_tail ?s 2 0 = Some s' \<and> ring s' 0 ([1] @ [2])" by auto
  then show ?thesis by simp
qed

end
