(* ===== verification/Gc.thy ===== *)
theory Gc
  imports List_Head
begin

text \<open>
  Reference counting and the collection of cycles (\<open>quickjs.c\<close>): the heap of garbage collected structures with their
  headers, the freeing of values, objects, shapes, variable references, bytecode and contexts, and the trial deletion
  of \<open>JS_RunGC\<close>. Memory is explicit: a cell that was freed is absent, and reading it, freeing it again, following a
  \<open>NULL\<close> link, a failing \<open>assert\<close> or \<open>abort\<close> make the operation return \<open>None\<close>.
\<close>

section \<open>Data\<close>

type_synonym ptr = nat

text \<open>The tags of a \<open>JSValue\<close> the collector distinguishes; \<open>JS_TAG_OTHER\<close> stands for the tags \<open>JS_MarkValue\<close> ignores.\<close>

datatype js_value = JS_TAG_OBJECT ptr | JS_TAG_FUNCTION_BYTECODE ptr | JS_TAG_OTHER

text \<open>The kind of a property is in the flags of the shape, the contents are in the untagged union of the object.\<close>

datatype prop_kind = JS_PROP_NORMAL | JS_PROP_GETSET | JS_PROP_VARREF | JS_PROP_AUTOINIT

record shape_property =
  sp_flags :: prop_kind
  sp_atom :: nat

definition JS_ATOM_NULL :: nat where "JS_ATOM_NULL = 0"

datatype js_property =
    U_value js_value
  | U_getset "ptr option" "ptr option"
  | U_var_ref ptr
  | U_init ptr

datatype class_id = JS_CLASS_NONE | JS_CLASS_OBJECT | JS_CLASS_ARRAY | JS_CLASS_ERROR | JS_CLASS_NUMBER
  | JS_CLASS_STRING | JS_CLASS_BOOLEAN | JS_CLASS_SYMBOL | JS_CLASS_ARGUMENTS | JS_CLASS_MAPPED_ARGUMENTS | JS_CLASS_DATE
  | JS_CLASS_MODULE_NS | JS_CLASS_C_FUNCTION
  | JS_CLASS_BYTECODE_FUNCTION | JS_CLASS_BOUND_FUNCTION | JS_CLASS_C_FUNCTION_DATA
  | JS_CLASS_C_CLOSURE | JS_CLASS_GENERATOR_FUNCTION
  | JS_CLASS_FOR_IN_ITERATOR | JS_CLASS_BIG_INT | JS_CLASS_ITERATOR | JS_CLASS_ARRAY_ITERATOR
  | JS_CLASS_STRING_ITERATOR | JS_CLASS_PROXY

text \<open>
  The union \<open>u\<close> of an object. For mapped arguments the flag \<open>fast_array\<close> of the object stands beside the array; for a
  bytecode function there are the home object, the closure variables and the bytecode.
\<close>

datatype class_data =
    U_NULL
  | U_array "js_value list"
  | U_mapped_arguments bool "ptr option list option"
  | U_object_data js_value
  | U_cfunc "ptr option"
  | U_func "ptr option" "ptr option list option" "ptr option"
  | U_bound_function js_value js_value "js_value list"
  | U_c_function_data "js_value list"
  | U_for_in_iterator js_value
  | U_array_iterator js_value
  | U_proxy js_value js_value

record js_object =
  obj_shape :: "ptr option"
  obj_prop :: "js_property list"
  obj_class :: class_id
  obj_u :: class_data
  free_mark :: bool

record js_shape =
  sh_proto :: "ptr option"
  sh_prop :: "shape_property list"

record js_function_bytecode =
  bc_cpool :: "js_value list"
  bc_realm :: "ptr option"
  closure_var_count :: nat

record js_var_ref =
  is_detached :: bool
  var_value :: js_value

record js_context =
  global_obj :: js_value
  global_var_obj :: js_value
  throw_type_error :: js_value
  eval_obj :: js_value
  array_proto_values :: js_value
  native_error_proto :: "js_value list"
  error_ctor :: js_value
  error_back_trace :: js_value
  error_prepare_stack :: js_value
  error_stack_trace_limit :: js_value
  class_proto :: "js_value list"
  iterator_ctor :: js_value
  iterator_ctor_getset :: js_value
  async_iterator_proto :: js_value
  promise_ctor :: js_value
  array_ctor :: js_value
  regexp_ctor :: js_value
  function_ctor :: js_value
  function_proto :: js_value
  array_shape :: "ptr option"
  arguments_shape :: "ptr option"
  mapped_arguments_shape :: "ptr option"
  regexp_shape :: "ptr option"
  regexp_result_shape :: "ptr option"

datatype gc_obj_type = JS_GC_OBJ_TYPE_JS_OBJECT | JS_GC_OBJ_TYPE_FUNCTION_BYTECODE | JS_GC_OBJ_TYPE_SHAPE
  | JS_GC_OBJ_TYPE_VAR_REF | JS_GC_OBJ_TYPE_JS_CONTEXT

datatype gc_body = JSObject js_object | JSFunctionBytecode js_function_bytecode | JSShape js_shape
  | JSVarRef js_var_ref | JSContext js_context

fun gc_type :: "gc_body \<Rightarrow> gc_obj_type" where
  "gc_type (JSObject _) = JS_GC_OBJ_TYPE_JS_OBJECT"
| "gc_type (JSFunctionBytecode _) = JS_GC_OBJ_TYPE_FUNCTION_BYTECODE"
| "gc_type (JSShape _) = JS_GC_OBJ_TYPE_SHAPE"
| "gc_type (JSVarRef _) = JS_GC_OBJ_TYPE_VAR_REF"
| "gc_type (JSContext _) = JS_GC_OBJ_TYPE_JS_CONTEXT"

record cell =
  ref_count :: int
  mark :: bool
  body :: gc_body

text \<open>The places of a \<open>struct list_head\<close>: three heads in the runtime and one field per header.\<close>

datatype link = gc_obj_list | gc_zero_ref_count_list | tmp_obj_list | Link ptr

datatype gc_phase_enum = JS_GC_PHASE_NONE | JS_GC_PHASE_DECREF | JS_GC_PHASE_REMOVE_CYCLES

record gc_rt =
  links :: "link links"
  heap :: "ptr \<Rightarrow> cell option"
  gc_phase :: gc_phase_enum

section \<open>Access to the memory\<close>

primrec each :: "('a \<Rightarrow> 's \<Rightarrow> 's option) \<Rightarrow> 'a list \<Rightarrow> 's \<Rightarrow> 's option" where
  "each f [] s = Some s"
| "each f (x # xs) s = do { s \<leftarrow> f x s; each f xs s }"

primrec collect :: "('a \<Rightarrow> 'b list option) \<Rightarrow> 'a list \<Rightarrow> 'b list option" where
  "collect f [] = Some []"
| "collect f (x # xs) = do { ys \<leftarrow> f x; zs \<leftarrow> collect f xs; Some (ys @ zs) }"

definition check :: "bool \<Rightarrow> unit option" where
  "check b = (if b then Some () else None)"

definition update_cell :: "ptr \<Rightarrow> (cell \<Rightarrow> cell) \<Rightarrow> gc_rt \<Rightarrow> gc_rt option" where
  "update_cell p f rt = do { c \<leftarrow> heap rt p; Some (rt\<lparr>heap := (heap rt)(p \<mapsto> f c)\<rparr>) }"

definition add_ref :: "ptr \<Rightarrow> int \<Rightarrow> gc_rt \<Rightarrow> (int \<times> gc_rt) option" where
  "add_ref p k rt = do {
     rt \<leftarrow> update_cell p (\<lambda>c. c\<lparr>ref_count := ref_count c + k\<rparr>) rt;
     c \<leftarrow> heap rt p;
     Some (ref_count c, rt) }"

definition rt_list_del :: "ptr \<Rightarrow> gc_rt \<Rightarrow> gc_rt option" where
  "rt_list_del p rt = do { l \<leftarrow> list_del (links rt) (Link p); Some (rt\<lparr>links := l\<rparr>) }"

definition rt_list_add :: "ptr \<Rightarrow> link \<Rightarrow> gc_rt \<Rightarrow> gc_rt option" where
  "rt_list_add p h rt = do { l \<leftarrow> list_add (links rt) (Link p) h; Some (rt\<lparr>links := l\<rparr>) }"

definition rt_list_add_tail :: "ptr \<Rightarrow> link \<Rightarrow> gc_rt \<Rightarrow> gc_rt option" where
  "rt_list_add_tail p h rt = do { l \<leftarrow> list_add_tail (links rt) (Link p) h; Some (rt\<lparr>links := l\<rparr>) }"

definition rt_init_list_head :: "link \<Rightarrow> gc_rt \<Rightarrow> gc_rt option" where
  "rt_init_list_head h rt = do { l \<leftarrow> init_list_head (links rt) h; Some (rt\<lparr>links := l\<rparr>) }"

fun list_entry :: "link \<Rightarrow> ptr option" where
  "list_entry (Link p) = Some p"
| "list_entry _ = None"

text \<open>Freeing a cell also takes away the list field it contains.\<close>

definition js_free_rt :: "ptr \<Rightarrow> gc_rt \<Rightarrow> gc_rt option" where
  "js_free_rt p rt = do {
     _ \<leftarrow> heap rt p;
     Some (rt\<lparr>heap := (heap rt)(p := None), links := (links rt)(Link p := None)\<rparr>) }"

definition remove_gc_object :: "ptr \<Rightarrow> gc_rt \<Rightarrow> gc_rt option" where
  "remove_gc_object p rt = rt_list_del p rt"

section \<open>The references the collector marks\<close>

text \<open>Each marking function is the list of structures it passes to \<open>mark_func\<close>, in the order of the calls.\<close>

fun JS_MarkValue :: "js_value \<Rightarrow> ptr list" where
  "JS_MarkValue (JS_TAG_OBJECT p) = [p]"
| "JS_MarkValue (JS_TAG_FUNCTION_BYTECODE p) = [p]"
| "JS_MarkValue JS_TAG_OTHER = []"

definition opt_list :: "'a option \<Rightarrow> 'a list" where
  "opt_list x = (case x of None \<Rightarrow> [] | Some y \<Rightarrow> [y])"

definition mark_var_ref :: "gc_rt \<Rightarrow> ptr \<Rightarrow> ptr list option" where
  "mark_var_ref rt p = do {
     c \<leftarrow> heap rt p;
     case body c of JSVarRef v \<Rightarrow> Some (if is_detached v then [p] else []) | _ \<Rightarrow> None }"

definition mark_property :: "gc_rt \<Rightarrow> js_property \<times> shape_property \<Rightarrow> ptr list option" where
  "mark_property rt = (\<lambda>(pr, prs).
     if sp_atom prs = JS_ATOM_NULL then Some []
     else (case (sp_flags prs, pr) of
       (JS_PROP_GETSET, U_getset getter setter) \<Rightarrow> Some (opt_list getter @ opt_list setter)
     | (JS_PROP_VARREF, U_var_ref v) \<Rightarrow> mark_var_ref rt v
     | (JS_PROP_AUTOINIT, U_init realm) \<Rightarrow> Some [realm]
     | (JS_PROP_NORMAL, U_value v) \<Rightarrow> Some (JS_MarkValue v)
     | _ \<Rightarrow> None))"

fun js_array_mark :: "class_data \<Rightarrow> ptr list option" where
  "js_array_mark (U_array values) = Some (concat (map JS_MarkValue values))"
| "js_array_mark _ = None"

definition mark_var_refs :: "gc_rt \<Rightarrow> ptr option list \<Rightarrow> ptr list option" where
  "mark_var_refs rt vs = collect (\<lambda>v. case v of None \<Rightarrow> Some [] | Some v \<Rightarrow> mark_var_ref rt v) vs"

fun js_mapped_arguments_mark :: "gc_rt \<Rightarrow> class_data \<Rightarrow> ptr list option" where
  "js_mapped_arguments_mark rt (U_mapped_arguments fast_array var_refs) =
     (if fast_array then (case var_refs of None \<Rightarrow> Some [] | Some vs \<Rightarrow> mark_var_refs rt vs) else Some [])"
| "js_mapped_arguments_mark rt _ = None"

fun js_object_data_mark :: "class_data \<Rightarrow> ptr list option" where
  "js_object_data_mark (U_object_data v) = Some (JS_MarkValue v)"
| "js_object_data_mark _ = None"

fun js_c_function_mark :: "class_data \<Rightarrow> ptr list option" where
  "js_c_function_mark (U_cfunc realm) = Some (opt_list realm)"
| "js_c_function_mark _ = None"

definition get_bytecode :: "gc_rt \<Rightarrow> ptr \<Rightarrow> js_function_bytecode option" where
  "get_bytecode rt b = do { c \<leftarrow> heap rt b; case body c of JSFunctionBytecode bc \<Rightarrow> Some bc | _ \<Rightarrow> None }"

fun js_bytecode_function_mark :: "gc_rt \<Rightarrow> class_data \<Rightarrow> ptr list option" where
  "js_bytecode_function_mark rt (U_func home var_refs b) = (case b of
       None \<Rightarrow> Some (opt_list home)
     | Some b \<Rightarrow> (case var_refs of
           None \<Rightarrow> Some (opt_list home @ [b])
         | Some vs \<Rightarrow> do {
             bc \<leftarrow> get_bytecode rt b;
             check (closure_var_count bc \<le> length vs);
             ms \<leftarrow> mark_var_refs rt (take (closure_var_count bc) vs);
             Some (opt_list home @ ms @ [b]) }))"
| "js_bytecode_function_mark rt _ = None"

fun js_bound_function_mark :: "class_data \<Rightarrow> ptr list option" where
  "js_bound_function_mark (U_bound_function f this_val argv) =
     Some (JS_MarkValue f @ JS_MarkValue this_val @ concat (map JS_MarkValue argv))"
| "js_bound_function_mark _ = None"

fun js_c_function_data_mark :: "class_data \<Rightarrow> ptr list option" where
  "js_c_function_data_mark (U_c_function_data vs) = Some (concat (map JS_MarkValue vs))"
| "js_c_function_data_mark U_NULL = Some []"
| "js_c_function_data_mark _ = None"

fun js_for_in_iterator_mark :: "class_data \<Rightarrow> ptr list option" where
  "js_for_in_iterator_mark (U_for_in_iterator v) = Some (JS_MarkValue v)"
| "js_for_in_iterator_mark _ = None"

fun js_array_iterator_mark :: "class_data \<Rightarrow> ptr list option" where
  "js_array_iterator_mark (U_array_iterator v) = Some (JS_MarkValue v)"
| "js_array_iterator_mark U_NULL = Some []"
| "js_array_iterator_mark _ = None"

fun js_proxy_mark :: "class_data \<Rightarrow> ptr list option" where
  "js_proxy_mark (U_proxy target handler) = Some (JS_MarkValue target @ JS_MarkValue handler)"
| "js_proxy_mark U_NULL = Some []"
| "js_proxy_mark _ = None"

text \<open>The column \<open>gc_mark\<close> of \<open>js_std_class_def\<close> (and \<open>js_proxy_class_def\<close>).\<close>

fun class_gc_mark :: "class_id \<Rightarrow> (gc_rt \<Rightarrow> class_data \<Rightarrow> ptr list option) option" where
  "class_gc_mark JS_CLASS_ARRAY = Some (\<lambda>_. js_array_mark)"
| "class_gc_mark JS_CLASS_ARGUMENTS = Some (\<lambda>_. js_array_mark)"
| "class_gc_mark JS_CLASS_MAPPED_ARGUMENTS = Some js_mapped_arguments_mark"
| "class_gc_mark JS_CLASS_NUMBER = Some (\<lambda>_. js_object_data_mark)"
| "class_gc_mark JS_CLASS_STRING = Some (\<lambda>_. js_object_data_mark)"
| "class_gc_mark JS_CLASS_BOOLEAN = Some (\<lambda>_. js_object_data_mark)"
| "class_gc_mark JS_CLASS_SYMBOL = Some (\<lambda>_. js_object_data_mark)"
| "class_gc_mark JS_CLASS_DATE = Some (\<lambda>_. js_object_data_mark)"
| "class_gc_mark JS_CLASS_BIG_INT = Some (\<lambda>_. js_object_data_mark)"
| "class_gc_mark JS_CLASS_C_FUNCTION = Some (\<lambda>_. js_c_function_mark)"
| "class_gc_mark JS_CLASS_BYTECODE_FUNCTION = Some js_bytecode_function_mark"
| "class_gc_mark JS_CLASS_GENERATOR_FUNCTION = Some js_bytecode_function_mark"
| "class_gc_mark JS_CLASS_BOUND_FUNCTION = Some (\<lambda>_. js_bound_function_mark)"
| "class_gc_mark JS_CLASS_C_FUNCTION_DATA = Some (\<lambda>_. js_c_function_data_mark)"
| "class_gc_mark JS_CLASS_FOR_IN_ITERATOR = Some (\<lambda>_. js_for_in_iterator_mark)"
| "class_gc_mark JS_CLASS_ARRAY_ITERATOR = Some (\<lambda>_. js_array_iterator_mark)"
| "class_gc_mark JS_CLASS_STRING_ITERATOR = Some (\<lambda>_. js_array_iterator_mark)"
| "class_gc_mark JS_CLASS_PROXY = Some (\<lambda>_. js_proxy_mark)"
| "class_gc_mark _ = None"

definition context_values :: "js_context \<Rightarrow> js_value list" where
  "context_values ctx = [global_obj ctx, global_var_obj ctx, throw_type_error ctx, eval_obj ctx, array_proto_values ctx]
     @ native_error_proto ctx
     @ [error_ctor ctx, error_back_trace ctx, error_prepare_stack ctx, error_stack_trace_limit ctx]
     @ class_proto ctx
     @ [iterator_ctor ctx, iterator_ctor_getset ctx, async_iterator_proto ctx, promise_ctor ctx, array_ctor ctx,
        regexp_ctor ctx, function_ctor ctx, function_proto ctx]"

definition context_shapes :: "js_context \<Rightarrow> ptr list" where
  "context_shapes ctx = opt_list (array_shape ctx) @ opt_list (arguments_shape ctx) @
     opt_list (mapped_arguments_shape ctx) @ opt_list (regexp_shape ctx) @ opt_list (regexp_result_shape ctx)"

definition JS_MarkContext :: "js_context \<Rightarrow> ptr list" where
  "JS_MarkContext ctx = concat (map JS_MarkValue (context_values ctx)) @ context_shapes ctx"

definition get_shape :: "gc_rt \<Rightarrow> ptr \<Rightarrow> js_shape option" where
  "get_shape rt p = do { c \<leftarrow> heap rt p; case body c of JSShape sh \<Rightarrow> Some sh | _ \<Rightarrow> None }"

definition object_children :: "gc_rt \<Rightarrow> js_object \<Rightarrow> ptr list option" where
  "object_children rt p = do {
     sp \<leftarrow> obj_shape p;
     sh \<leftarrow> get_shape rt sp;
     check (length (sh_prop sh) \<le> length (obj_prop p));
     ms \<leftarrow> collect (mark_property rt) (zip (obj_prop p) (sh_prop sh));
     us \<leftarrow> (if obj_class p = JS_CLASS_OBJECT then Some []
           else (case class_gc_mark (obj_class p) of None \<Rightarrow> Some [] | Some f \<Rightarrow> f rt (obj_u p)));
     Some (sp # ms @ us) }"

definition children :: "gc_rt \<Rightarrow> gc_body \<Rightarrow> ptr list option" where
  "children rt b = (case b of
       JSObject p \<Rightarrow> object_children rt p
     | JSFunctionBytecode bc \<Rightarrow> Some (concat (map JS_MarkValue (bc_cpool bc)) @ opt_list (bc_realm bc))
     | JSVarRef v \<Rightarrow> do { check (is_detached v); Some (JS_MarkValue (var_value v)) }
     | JSShape sh \<Rightarrow> Some (opt_list (sh_proto sh))
     | JSContext ctx \<Rightarrow> Some (JS_MarkContext ctx))"

definition mark_children :: "ptr \<Rightarrow> (ptr \<Rightarrow> gc_rt \<Rightarrow> gc_rt option) \<Rightarrow> gc_rt \<Rightarrow> gc_rt option" where
  "mark_children gp mark_func rt = do {
     c \<leftarrow> heap rt gp;
     ps \<leftarrow> children rt (body c);
     each mark_func ps rt }"

section \<open>Releasing references\<close>

text \<open>
  \<open>js_free_value_rt\<close> calls \<open>free_zero_refcount\<close> only in the phase \<open>JS_GC_PHASE_NONE\<close>, and everything below
  \<open>free_gc_object\<close> runs in another phase. The function to call there is therefore a parameter: \<open>free_zero_refcount\<close> for
  the calls from outside, and an error for the calls from inside, which thus are shown never to reach it.
\<close>

definition js_free_value_rt :: "(gc_rt \<Rightarrow> gc_rt option) \<Rightarrow> ptr \<Rightarrow> gc_rt \<Rightarrow> gc_rt option" where
  "js_free_value_rt free_zero p rt =
    (if gc_phase rt \<noteq> JS_GC_PHASE_REMOVE_CYCLES then do {
       rt \<leftarrow> rt_list_del p rt;
       rt \<leftarrow> rt_list_add p gc_zero_ref_count_list rt;
       if gc_phase rt = JS_GC_PHASE_NONE then free_zero rt else Some rt }
     else Some rt)"

fun JS_FreeValueRT :: "(gc_rt \<Rightarrow> gc_rt option) \<Rightarrow> js_value \<Rightarrow> gc_rt \<Rightarrow> gc_rt option" where
  "JS_FreeValueRT free_zero (JS_TAG_OBJECT p) rt = do {
     (n, rt) \<leftarrow> add_ref p (- 1) rt;
     if n \<le> 0 then js_free_value_rt free_zero p rt else Some rt }"
| "JS_FreeValueRT free_zero (JS_TAG_FUNCTION_BYTECODE p) rt = do {
     (n, rt) \<leftarrow> add_ref p (- 1) rt;
     if n \<le> 0 then js_free_value_rt free_zero p rt else Some rt }"
| "JS_FreeValueRT free_zero JS_TAG_OTHER rt = Some rt"

definition free_value :: "js_value \<Rightarrow> gc_rt \<Rightarrow> gc_rt option" where
  "free_value = JS_FreeValueRT (\<lambda>_. None)"

definition free_object_pointer :: "ptr option \<Rightarrow> gc_rt \<Rightarrow> gc_rt option" where
  "free_object_pointer x rt = (case x of None \<Rightarrow> Some rt | Some p \<Rightarrow> free_value (JS_TAG_OBJECT p) rt)"

definition free_var_ref :: "ptr option \<Rightarrow> gc_rt \<Rightarrow> gc_rt option" where
  "free_var_ref x rt = (case x of None \<Rightarrow> Some rt | Some p \<Rightarrow> do {
     c \<leftarrow> heap rt p;
     check (ref_count c > 0);
     (n, rt) \<leftarrow> add_ref p (- 1) rt;
     if n = 0 then
       (case body c of
          JSVarRef v \<Rightarrow> do {
            rt \<leftarrow> (if is_detached v then do {
                     rt \<leftarrow> free_value (var_value v) rt;
                     remove_gc_object p rt }
                  else Some rt);
            js_free_rt p rt }
        | _ \<Rightarrow> None)
     else Some rt })"

definition js_free_shape0 :: "ptr \<Rightarrow> gc_rt \<Rightarrow> gc_rt option" where
  "js_free_shape0 p rt = do {
     c \<leftarrow> heap rt p;
     check (ref_count c = 0);
     sh \<leftarrow> get_shape rt p;
     rt \<leftarrow> free_object_pointer (sh_proto sh) rt;
     rt \<leftarrow> remove_gc_object p rt;
     js_free_rt p rt }"

definition js_free_shape :: "ptr \<Rightarrow> gc_rt \<Rightarrow> gc_rt option" where
  "js_free_shape p rt = do {
     (n, rt) \<leftarrow> add_ref p (- 1) rt;
     if n \<le> 0 then js_free_shape0 p rt else Some rt }"

definition js_free_shape_null :: "ptr option \<Rightarrow> gc_rt \<Rightarrow> gc_rt option" where
  "js_free_shape_null x rt = (case x of None \<Rightarrow> Some rt | Some p \<Rightarrow> js_free_shape p rt)"

definition JS_FreeContext :: "ptr \<Rightarrow> gc_rt \<Rightarrow> gc_rt option" where
  "JS_FreeContext p rt = do {
     (n, rt) \<leftarrow> add_ref p (- 1) rt;
     if n > 0 then Some rt
     else do {
       check (n = 0);
       c \<leftarrow> heap rt p;
       ctx \<leftarrow> (case body c of JSContext ctx \<Rightarrow> Some ctx | _ \<Rightarrow> None);
       rt \<leftarrow> each free_value (context_values ctx) rt;
       rt \<leftarrow> js_free_shape_null (array_shape ctx) rt;
       rt \<leftarrow> js_free_shape_null (arguments_shape ctx) rt;
       rt \<leftarrow> js_free_shape_null (mapped_arguments_shape ctx) rt;
       rt \<leftarrow> js_free_shape_null (regexp_shape ctx) rt;
       rt \<leftarrow> js_free_shape_null (regexp_result_shape ctx) rt;
       rt \<leftarrow> remove_gc_object p rt;
       js_free_rt p rt } }"

definition free_realm :: "ptr option \<Rightarrow> gc_rt \<Rightarrow> gc_rt option" where
  "free_realm x rt = (case x of None \<Rightarrow> Some rt | Some p \<Rightarrow> JS_FreeContext p rt)"

definition free_property :: "js_property \<times> shape_property \<Rightarrow> gc_rt \<Rightarrow> gc_rt option" where
  "free_property = (\<lambda>(pr, prs) rt. (case (sp_flags prs, pr) of
       (JS_PROP_GETSET, U_getset getter setter) \<Rightarrow> do {
         rt \<leftarrow> free_object_pointer getter rt;
         free_object_pointer setter rt }
     | (JS_PROP_VARREF, U_var_ref v) \<Rightarrow> free_var_ref (Some v) rt
     | (JS_PROP_AUTOINIT, U_init realm) \<Rightarrow> JS_FreeContext realm rt
     | (JS_PROP_NORMAL, U_value v) \<Rightarrow> free_value v rt
     | _ \<Rightarrow> None))"

section \<open>Finalizers\<close>

fun js_array_finalizer :: "class_data \<Rightarrow> gc_rt \<Rightarrow> gc_rt option" where
  "js_array_finalizer (U_array values) rt = each free_value values rt"
| "js_array_finalizer _ rt = None"

fun js_mapped_arguments_finalizer :: "class_data \<Rightarrow> gc_rt \<Rightarrow> gc_rt option" where
  "js_mapped_arguments_finalizer (U_mapped_arguments fast_array var_refs) rt =
     (if fast_array then (case var_refs of None \<Rightarrow> Some rt | Some vs \<Rightarrow> each free_var_ref vs rt) else Some rt)"
| "js_mapped_arguments_finalizer _ rt = None"

fun js_object_data_finalizer :: "class_data \<Rightarrow> gc_rt \<Rightarrow> gc_rt option" where
  "js_object_data_finalizer (U_object_data v) rt = free_value v rt"
| "js_object_data_finalizer _ rt = None"

fun js_c_function_finalizer :: "class_data \<Rightarrow> gc_rt \<Rightarrow> gc_rt option" where
  "js_c_function_finalizer (U_cfunc realm) rt = free_realm realm rt"
| "js_c_function_finalizer _ rt = None"

fun js_bytecode_function_finalizer :: "class_data \<Rightarrow> gc_rt \<Rightarrow> gc_rt option" where
  "js_bytecode_function_finalizer (U_func home var_refs b) rt = do {
     rt \<leftarrow> free_object_pointer home rt;
     case b of
       None \<Rightarrow> Some rt
     | Some b \<Rightarrow> do {
         rt \<leftarrow> (case var_refs of
             None \<Rightarrow> Some rt
           | Some vs \<Rightarrow> do {
               bc \<leftarrow> get_bytecode rt b;
               check (closure_var_count bc \<le> length vs);
               each free_var_ref (take (closure_var_count bc) vs) rt });
         free_value (JS_TAG_FUNCTION_BYTECODE b) rt } }"
| "js_bytecode_function_finalizer _ rt = None"

fun js_bound_function_finalizer :: "class_data \<Rightarrow> gc_rt \<Rightarrow> gc_rt option" where
  "js_bound_function_finalizer (U_bound_function f this_val argv) rt = do {
     rt \<leftarrow> free_value f rt;
     rt \<leftarrow> free_value this_val rt;
     each free_value argv rt }"
| "js_bound_function_finalizer _ rt = None"

fun js_c_function_data_finalizer :: "class_data \<Rightarrow> gc_rt \<Rightarrow> gc_rt option" where
  "js_c_function_data_finalizer (U_c_function_data vs) rt = each free_value vs rt"
| "js_c_function_data_finalizer U_NULL rt = Some rt"
| "js_c_function_data_finalizer _ rt = None"

fun js_for_in_iterator_finalizer :: "class_data \<Rightarrow> gc_rt \<Rightarrow> gc_rt option" where
  "js_for_in_iterator_finalizer (U_for_in_iterator v) rt = free_value v rt"
| "js_for_in_iterator_finalizer _ rt = None"

fun js_array_iterator_finalizer :: "class_data \<Rightarrow> gc_rt \<Rightarrow> gc_rt option" where
  "js_array_iterator_finalizer (U_array_iterator v) rt = free_value v rt"
| "js_array_iterator_finalizer U_NULL rt = Some rt"
| "js_array_iterator_finalizer _ rt = None"

fun js_proxy_finalizer :: "class_data \<Rightarrow> gc_rt \<Rightarrow> gc_rt option" where
  "js_proxy_finalizer (U_proxy target handler) rt = do { rt \<leftarrow> free_value target rt; free_value handler rt }"
| "js_proxy_finalizer U_NULL rt = Some rt"
| "js_proxy_finalizer _ rt = None"

text \<open>The column \<open>finalizer\<close>. The finalizer of a C closure releases memory of the host only.\<close>

fun class_finalizer :: "class_id \<Rightarrow> (class_data \<Rightarrow> gc_rt \<Rightarrow> gc_rt option) option" where
  "class_finalizer JS_CLASS_ARRAY = Some js_array_finalizer"
| "class_finalizer JS_CLASS_ARGUMENTS = Some js_array_finalizer"
| "class_finalizer JS_CLASS_MAPPED_ARGUMENTS = Some js_mapped_arguments_finalizer"
| "class_finalizer JS_CLASS_NUMBER = Some js_object_data_finalizer"
| "class_finalizer JS_CLASS_STRING = Some js_object_data_finalizer"
| "class_finalizer JS_CLASS_BOOLEAN = Some js_object_data_finalizer"
| "class_finalizer JS_CLASS_SYMBOL = Some js_object_data_finalizer"
| "class_finalizer JS_CLASS_DATE = Some js_object_data_finalizer"
| "class_finalizer JS_CLASS_BIG_INT = Some js_object_data_finalizer"
| "class_finalizer JS_CLASS_C_FUNCTION = Some js_c_function_finalizer"
| "class_finalizer JS_CLASS_BYTECODE_FUNCTION = Some js_bytecode_function_finalizer"
| "class_finalizer JS_CLASS_GENERATOR_FUNCTION = Some js_bytecode_function_finalizer"
| "class_finalizer JS_CLASS_BOUND_FUNCTION = Some js_bound_function_finalizer"
| "class_finalizer JS_CLASS_C_FUNCTION_DATA = Some js_c_function_data_finalizer"
| "class_finalizer JS_CLASS_FOR_IN_ITERATOR = Some js_for_in_iterator_finalizer"
| "class_finalizer JS_CLASS_ARRAY_ITERATOR = Some js_array_iterator_finalizer"
| "class_finalizer JS_CLASS_STRING_ITERATOR = Some js_array_iterator_finalizer"
| "class_finalizer JS_CLASS_PROXY = Some js_proxy_finalizer"
| "class_finalizer _ = None"

section \<open>Freeing objects and bytecode\<close>

definition get_object :: "gc_rt \<Rightarrow> ptr \<Rightarrow> js_object option" where
  "get_object rt p = do { c \<leftarrow> heap rt p; case body c of JSObject ob \<Rightarrow> Some ob | _ \<Rightarrow> None }"

definition update_object :: "ptr \<Rightarrow> (js_object \<Rightarrow> js_object) \<Rightarrow> gc_rt \<Rightarrow> gc_rt option" where
  "update_object p f rt = do {
     ob \<leftarrow> get_object rt p;
     update_cell p (\<lambda>c. c\<lparr>body := JSObject (f ob)\<rparr>) rt }"

text \<open>The end of \<open>free_object\<close> and \<open>free_function_bytecode\<close>: memory that is still referenced waits in the list.\<close>

definition free_or_keep :: "ptr \<Rightarrow> gc_rt \<Rightarrow> gc_rt option" where
  "free_or_keep p rt = do {
     rt \<leftarrow> remove_gc_object p rt;
     c \<leftarrow> heap rt p;
     if gc_phase rt = JS_GC_PHASE_REMOVE_CYCLES \<and> ref_count c \<noteq> 0
     then rt_list_add_tail p gc_zero_ref_count_list rt
     else js_free_rt p rt }"

definition free_object :: "ptr \<Rightarrow> gc_rt \<Rightarrow> gc_rt option" where
  "free_object p rt = do {
     rt \<leftarrow> update_object p (\<lambda>ob. ob\<lparr>free_mark := True\<rparr>) rt;
     ob \<leftarrow> get_object rt p;
     sp \<leftarrow> obj_shape ob;
     sh \<leftarrow> get_shape rt sp;
     check (length (sh_prop sh) \<le> length (obj_prop ob));
     rt \<leftarrow> each free_property (zip (obj_prop ob) (sh_prop sh)) rt;
     rt \<leftarrow> js_free_shape sp rt;
     rt \<leftarrow> update_object p (\<lambda>ob. ob\<lparr>obj_shape := None, obj_prop := []\<rparr>) rt;
     rt \<leftarrow> (case class_finalizer (obj_class ob) of None \<Rightarrow> Some rt | Some f \<Rightarrow> f (obj_u ob) rt);
     rt \<leftarrow> update_object p (\<lambda>ob. ob\<lparr>obj_class := JS_CLASS_NONE, obj_u := U_NULL\<rparr>) rt;
     free_or_keep p rt }"

definition free_function_bytecode :: "ptr \<Rightarrow> gc_rt \<Rightarrow> gc_rt option" where
  "free_function_bytecode p rt = do {
     bc \<leftarrow> get_bytecode rt p;
     rt \<leftarrow> each free_value (bc_cpool bc) rt;
     rt \<leftarrow> free_realm (bc_realm bc) rt;
     free_or_keep p rt }"

definition free_gc_object :: "ptr \<Rightarrow> gc_rt \<Rightarrow> gc_rt option" where
  "free_gc_object p rt = do {
     c \<leftarrow> heap rt p;
     case gc_type (body c) of
       JS_GC_OBJ_TYPE_JS_OBJECT \<Rightarrow> free_object p rt
     | JS_GC_OBJ_TYPE_FUNCTION_BYTECODE \<Rightarrow> free_function_bytecode p rt
     | _ \<Rightarrow> None }"

partial_function (option) free_zero_loop :: "gc_rt \<Rightarrow> gc_rt option" where
  "free_zero_loop rt = do {
     el \<leftarrow> list_next (links rt) gc_zero_ref_count_list;
     if el = gc_zero_ref_count_list then Some rt
     else do {
       p \<leftarrow> list_entry el;
       c \<leftarrow> heap rt p;
       check (ref_count c = 0);
       rt \<leftarrow> free_gc_object p rt;
       free_zero_loop rt } }"

definition free_zero_refcount :: "gc_rt \<Rightarrow> gc_rt option" where
  "free_zero_refcount rt = do {
     rt \<leftarrow> free_zero_loop (rt\<lparr>gc_phase := JS_GC_PHASE_DECREF\<rparr>);
     Some (rt\<lparr>gc_phase := JS_GC_PHASE_NONE\<rparr>) }"

definition JS_FreeValue :: "js_value \<Rightarrow> gc_rt \<Rightarrow> gc_rt option" where
  "JS_FreeValue v rt = JS_FreeValueRT free_zero_refcount v rt"

section \<open>Collecting cycles\<close>

definition gc_decref_child :: "ptr \<Rightarrow> gc_rt \<Rightarrow> gc_rt option" where
  "gc_decref_child p rt = do {
     c \<leftarrow> heap rt p;
     check (ref_count c > 0);
     (n, rt) \<leftarrow> add_ref p (- 1) rt;
     if n = 0 \<and> mark c then do {
       rt \<leftarrow> rt_list_del p rt;
       rt_list_add_tail p tmp_obj_list rt }
     else Some rt }"

partial_function (option) gc_decref_loop :: "link \<Rightarrow> link \<Rightarrow> gc_rt \<Rightarrow> gc_rt option" where
  "gc_decref_loop el el1 rt =
    (if el = gc_obj_list then Some rt
     else do {
       p \<leftarrow> list_entry el;
       c \<leftarrow> heap rt p;
       check (\<not> mark c);
       rt \<leftarrow> mark_children p gc_decref_child rt;
       rt \<leftarrow> update_cell p (\<lambda>c. c\<lparr>mark := True\<rparr>) rt;
       c \<leftarrow> heap rt p;
       rt \<leftarrow> (if ref_count c = 0 then do {
                rt \<leftarrow> rt_list_del p rt;
                rt_list_add_tail p tmp_obj_list rt }
              else Some rt);
       el2 \<leftarrow> list_next (links rt) el1;
       gc_decref_loop el1 el2 rt })"

definition gc_decref :: "gc_rt \<Rightarrow> gc_rt option" where
  "gc_decref rt = do {
     rt \<leftarrow> rt_init_list_head tmp_obj_list rt;
     el \<leftarrow> list_next (links rt) gc_obj_list;
     el1 \<leftarrow> list_next (links rt) el;
     gc_decref_loop el el1 rt }"

definition gc_scan_incref_child :: "ptr \<Rightarrow> gc_rt \<Rightarrow> gc_rt option" where
  "gc_scan_incref_child p rt = do {
     (n, rt) \<leftarrow> add_ref p 1 rt;
     if n = 1 then do {
       rt \<leftarrow> rt_list_del p rt;
       rt \<leftarrow> rt_list_add_tail p gc_obj_list rt;
       update_cell p (\<lambda>c. c\<lparr>mark := False\<rparr>) rt }
     else Some rt }"

definition gc_scan_incref_child2 :: "ptr \<Rightarrow> gc_rt \<Rightarrow> gc_rt option" where
  "gc_scan_incref_child2 p rt = do { (_, rt) \<leftarrow> add_ref p 1 rt; Some rt }"

partial_function (option) gc_scan_loop :: "link \<Rightarrow> gc_rt \<Rightarrow> gc_rt option" where
  "gc_scan_loop el rt =
    (if el = gc_obj_list then Some rt
     else do {
       p \<leftarrow> list_entry el;
       c \<leftarrow> heap rt p;
       check (ref_count c > 0);
       rt \<leftarrow> update_cell p (\<lambda>c. c\<lparr>mark := False\<rparr>) rt;
       rt \<leftarrow> mark_children p gc_scan_incref_child rt;
       el \<leftarrow> list_next (links rt) el;
       gc_scan_loop el rt })"

partial_function (option) gc_restore_loop :: "link \<Rightarrow> gc_rt \<Rightarrow> gc_rt option" where
  "gc_restore_loop el rt =
    (if el = tmp_obj_list then Some rt
     else do {
       p \<leftarrow> list_entry el;
       rt \<leftarrow> mark_children p gc_scan_incref_child2 rt;
       el \<leftarrow> list_next (links rt) el;
       gc_restore_loop el rt })"

definition gc_scan :: "gc_rt \<Rightarrow> gc_rt option" where
  "gc_scan rt = do {
     el \<leftarrow> list_next (links rt) gc_obj_list;
     rt \<leftarrow> gc_scan_loop el rt;
     el \<leftarrow> list_next (links rt) tmp_obj_list;
     gc_restore_loop el rt }"

partial_function (option) gc_cycles_loop :: "gc_rt \<Rightarrow> gc_rt option" where
  "gc_cycles_loop rt = do {
     el \<leftarrow> list_next (links rt) tmp_obj_list;
     if el = tmp_obj_list then Some rt
     else do {
       p \<leftarrow> list_entry el;
       c \<leftarrow> heap rt p;
       rt \<leftarrow> (if gc_type (body c) \<in> {JS_GC_OBJ_TYPE_JS_OBJECT, JS_GC_OBJ_TYPE_FUNCTION_BYTECODE}
             then free_gc_object p rt
             else do {
               rt \<leftarrow> rt_list_del p rt;
               rt_list_add_tail p gc_zero_ref_count_list rt });
       gc_cycles_loop rt } }"

partial_function (option) gc_free_kept_loop :: "link \<Rightarrow> link \<Rightarrow> gc_rt \<Rightarrow> gc_rt option" where
  "gc_free_kept_loop el el1 rt =
    (if el = gc_zero_ref_count_list then Some rt
     else do {
       p \<leftarrow> list_entry el;
       c \<leftarrow> heap rt p;
       check (gc_type (body c) \<in> {JS_GC_OBJ_TYPE_JS_OBJECT, JS_GC_OBJ_TYPE_FUNCTION_BYTECODE});
       rt \<leftarrow> js_free_rt p rt;
       el2 \<leftarrow> list_next (links rt) el1;
       gc_free_kept_loop el1 el2 rt })"

definition gc_free_cycles :: "gc_rt \<Rightarrow> gc_rt option" where
  "gc_free_cycles rt = do {
     rt \<leftarrow> gc_cycles_loop (rt\<lparr>gc_phase := JS_GC_PHASE_REMOVE_CYCLES\<rparr>);
     let rt = rt\<lparr>gc_phase := JS_GC_PHASE_NONE\<rparr>;
     el \<leftarrow> list_next (links rt) gc_zero_ref_count_list;
     el1 \<leftarrow> list_next (links rt) el;
     rt \<leftarrow> gc_free_kept_loop el el1 rt;
     rt_init_list_head gc_zero_ref_count_list rt }"

definition JS_RunGC :: "gc_rt \<Rightarrow> gc_rt option" where
  "JS_RunGC rt = do {
     rt \<leftarrow> gc_decref rt;
     rt \<leftarrow> gc_scan rt;
     gc_free_cycles rt }"

end
