(* ===== verification/Gc_Refs.thy ===== *)
theory Gc_Refs
  imports Gc
begin

text \<open>
  The references a structure owns, read off its contents, and the proof that marking reports and freeing releases
  exactly these. Freeing becomes a sequence of releases of single references.
\<close>

section \<open>Owned references\<close>

type_synonym gc_ref = "gc_obj_type \<times> ptr"

definition object_ref :: "ptr option \<Rightarrow> gc_ref list" where
  "object_ref x = map (Pair JS_GC_OBJ_TYPE_JS_OBJECT) (opt_list x)"

definition context_ref :: "ptr option \<Rightarrow> gc_ref list" where
  "context_ref x = map (Pair JS_GC_OBJ_TYPE_JS_CONTEXT) (opt_list x)"

definition var_refs_of :: "ptr option list \<Rightarrow> gc_ref list" where
  "var_refs_of vs = map (Pair JS_GC_OBJ_TYPE_VAR_REF) (concat (map opt_list vs))"

fun value_refs :: "js_value \<Rightarrow> gc_ref list" where
  "value_refs (JS_TAG_OBJECT p) = [(JS_GC_OBJ_TYPE_JS_OBJECT, p)]"
| "value_refs (JS_TAG_FUNCTION_BYTECODE p) = [(JS_GC_OBJ_TYPE_FUNCTION_BYTECODE, p)]"
| "value_refs JS_TAG_OTHER = []"

definition values_refs :: "js_value list \<Rightarrow> gc_ref list" where
  "values_refs vs = concat (map value_refs vs)"

fun property_refs :: "js_property \<Rightarrow> gc_ref list" where
  "property_refs (U_value v) = value_refs v"
| "property_refs (U_getset getter setter) = object_ref getter @ object_ref setter"
| "property_refs (U_var_ref v) = [(JS_GC_OBJ_TYPE_VAR_REF, v)]"
| "property_refs (U_init realm) = [(JS_GC_OBJ_TYPE_JS_CONTEXT, realm)]"

fun class_refs :: "class_data \<Rightarrow> gc_ref list" where
  "class_refs U_NULL = []"
| "class_refs (U_array vs) = values_refs vs"
| "class_refs (U_mapped_arguments fast_array vs) =
     (if fast_array then (case vs of None \<Rightarrow> [] | Some vs \<Rightarrow> var_refs_of vs) else [])"
| "class_refs (U_object_data v) = value_refs v"
| "class_refs (U_cfunc realm) = context_ref realm"
| "class_refs (U_func home vs b) = object_ref home @ (case b of None \<Rightarrow> [] | Some b \<Rightarrow>
     (case vs of None \<Rightarrow> [] | Some vs \<Rightarrow> var_refs_of vs) @ [(JS_GC_OBJ_TYPE_FUNCTION_BYTECODE, b)])"
| "class_refs (U_bound_function f this_val argv) = value_refs f @ value_refs this_val @ values_refs argv"
| "class_refs (U_c_function_data vs) = values_refs vs"
| "class_refs (U_for_in_iterator v) = value_refs v"
| "class_refs (U_array_iterator v) = value_refs v"
| "class_refs (U_proxy target handler) = value_refs target @ value_refs handler"

definition shape_refs :: "js_context \<Rightarrow> gc_ref list" where
  "shape_refs ctx = map (Pair JS_GC_OBJ_TYPE_SHAPE) (context_shapes ctx)"

fun refs :: "gc_body \<Rightarrow> gc_ref list" where
  "refs (JSObject ob) = concat (map property_refs (obj_prop ob)) @
     map (Pair JS_GC_OBJ_TYPE_SHAPE) (opt_list (obj_shape ob)) @ class_refs (obj_u ob)"
| "refs (JSFunctionBytecode bc) = values_refs (bc_cpool bc) @ context_ref (bc_realm bc)"
| "refs (JSShape sh) = object_ref (sh_proto sh)"
| "refs (JSVarRef v) = (if is_detached v then value_refs (var_value v) else [])"
| "refs (JSContext ctx) = values_refs (context_values ctx) @ shape_refs ctx"

text \<open>The structures that are in the lists of the collector: all but the variable references of active frames.\<close>

fun collectable :: "gc_body \<Rightarrow> bool" where
  "collectable (JSVarRef v) = is_detached v"
| "collectable _ = True"

section \<open>Well-typed heaps\<close>

text \<open>The kinds in a shape describe the unions of its objects, the class describes the union \<open>u\<close>.\<close>

fun kind_ok :: "prop_kind \<Rightarrow> js_property \<Rightarrow> bool" where
  "kind_ok JS_PROP_NORMAL (U_value _) = True"
| "kind_ok JS_PROP_GETSET (U_getset _ _) = True"
| "kind_ok JS_PROP_VARREF (U_var_ref _) = True"
| "kind_ok JS_PROP_AUTOINIT (U_init _) = True"
| "kind_ok _ _ = False"

definition property_ok :: "js_property \<Rightarrow> shape_property \<Rightarrow> bool" where
  "property_ok pr prs \<longleftrightarrow> kind_ok (sp_flags prs) pr \<and> (sp_atom prs = JS_ATOM_NULL \<longrightarrow> property_refs pr = [])"

fun class_ok :: "class_id \<Rightarrow> class_data \<Rightarrow> bool" where
  "class_ok c (U_array _) \<longleftrightarrow> c \<in> {JS_CLASS_ARRAY, JS_CLASS_ARGUMENTS}"
| "class_ok c (U_mapped_arguments _ _) \<longleftrightarrow> c = JS_CLASS_MAPPED_ARGUMENTS"
| "class_ok c (U_object_data _) \<longleftrightarrow> c \<in> {JS_CLASS_NUMBER, JS_CLASS_STRING, JS_CLASS_BOOLEAN, JS_CLASS_SYMBOL,
     JS_CLASS_DATE, JS_CLASS_BIG_INT}"
| "class_ok c (U_cfunc _) \<longleftrightarrow> c = JS_CLASS_C_FUNCTION"
| "class_ok c (U_func _ _ _) \<longleftrightarrow> c \<in> {JS_CLASS_BYTECODE_FUNCTION, JS_CLASS_GENERATOR_FUNCTION}"
| "class_ok c (U_bound_function _ _ _) \<longleftrightarrow> c = JS_CLASS_BOUND_FUNCTION"
| "class_ok c (U_c_function_data _) \<longleftrightarrow> c = JS_CLASS_C_FUNCTION_DATA"
| "class_ok c (U_for_in_iterator _) \<longleftrightarrow> c = JS_CLASS_FOR_IN_ITERATOR"
| "class_ok c (U_array_iterator _) \<longleftrightarrow> c \<in> {JS_CLASS_ARRAY_ITERATOR, JS_CLASS_STRING_ITERATOR}"
| "class_ok c (U_proxy _ _) \<longleftrightarrow> c = JS_CLASS_PROXY"
| "class_ok c U_NULL \<longleftrightarrow> c \<in> {JS_CLASS_NONE, JS_CLASS_OBJECT, JS_CLASS_ERROR, JS_CLASS_MODULE_NS, JS_CLASS_C_CLOSURE,
     JS_CLASS_ITERATOR, JS_CLASS_C_FUNCTION_DATA, JS_CLASS_ARRAY_ITERATOR, JS_CLASS_STRING_ITERATOR, JS_CLASS_PROXY}"

fun closure_ok :: "(ptr \<Rightarrow> gc_body option) \<Rightarrow> class_data \<Rightarrow> bool" where
  "closure_ok B (U_func _ (Some vs) (Some b)) \<longleftrightarrow>
     (case B b of Some (JSFunctionBytecode bc) \<Rightarrow> closure_var_count bc = length vs | _ \<Rightarrow> False)"
| "closure_ok B _ \<longleftrightarrow> True"

fun body_ok :: "(ptr \<Rightarrow> gc_body option) \<Rightarrow> gc_body \<Rightarrow> bool" where
  "body_ok B (JSObject ob) \<longleftrightarrow> (case obj_shape ob of None \<Rightarrow> False | Some sp \<Rightarrow>
     (case B sp of Some (JSShape sh) \<Rightarrow> list_all2 property_ok (obj_prop ob) (sh_prop sh) | _ \<Rightarrow> False)) \<and>
     class_ok (obj_class ob) (obj_u ob) \<and> closure_ok B (obj_u ob)"
| "body_ok B _ \<longleftrightarrow> True"

definition typed :: "(ptr \<Rightarrow> gc_body option) \<Rightarrow> bool" where
  "typed B \<longleftrightarrow> (\<forall>p b. B p = Some b \<longrightarrow> body_ok B b \<and>
     (\<forall>(k, q) \<in> set (refs b). \<exists>b'. B q = Some b' \<and> gc_type b' = k))"

definition bodies :: "gc_rt \<Rightarrow> ptr \<Rightarrow> gc_body option" where
  "bodies rt p = map_option body (heap rt p)"

section \<open>Marking reports the owned references\<close>

lemma each_append: "each f (xs @ ys) s = Option.bind (each f xs s) (each f ys)"
  by (induction xs arbitrary: s) (auto split: bind_split)

definition marked_refs :: "(ptr \<Rightarrow> gc_body option) \<Rightarrow> gc_ref list \<Rightarrow> ptr list" where
  "marked_refs B rs = map snd (filter (\<lambda>(k, q). case B q of None \<Rightarrow> False | Some b \<Rightarrow> collectable b) rs)"

lemma marked_refs_simps [simp]:
  "marked_refs B [] = []" "marked_refs B (rs @ rs') = marked_refs B rs @ marked_refs B rs'"
  by (simp_all add: marked_refs_def)

lemma marked_refs_Cons: "marked_refs B (r # rs) = marked_refs B [r] @ marked_refs B rs"
  by (simp add: marked_refs_def)

definition refs_ok :: "(ptr \<Rightarrow> gc_body option) \<Rightarrow> gc_ref list \<Rightarrow> bool" where
  "refs_ok B rs \<longleftrightarrow> (\<forall>(k, q) \<in> set rs. \<exists>b'. B q = Some b' \<and> gc_type b' = k)"

lemma refs_ok_simps [simp]:
  "refs_ok B []" "refs_ok B (rs @ rs') \<longleftrightarrow> refs_ok B rs \<and> refs_ok B rs'"
  "refs_ok B ((k, q) # rs) \<longleftrightarrow> (\<exists>b. B q = Some b \<and> gc_type b = k) \<and> refs_ok B rs"
  by (simp_all add: refs_ok_def ball_Un)

lemma collectable_type: "gc_type b \<noteq> JS_GC_OBJ_TYPE_VAR_REF \<Longrightarrow> collectable b"
  by (cases b) auto

lemma marked_pairs:
  assumes "refs_ok B (map (Pair k) ps)" "k \<noteq> JS_GC_OBJ_TYPE_VAR_REF"
  shows "marked_refs B (map (Pair k) ps) = ps"
  using assms by (induction ps) (auto simp: marked_refs_def collectable_type)

lemma marked_object_ref: "refs_ok B (object_ref x) \<Longrightarrow> marked_refs B (object_ref x) = opt_list x"
  unfolding object_ref_def by (rule marked_pairs) simp_all

lemma marked_context_ref: "refs_ok B (context_ref x) \<Longrightarrow> marked_refs B (context_ref x) = opt_list x"
  unfolding context_ref_def by (rule marked_pairs) simp_all

lemma marked_value: "refs_ok B (value_refs v) \<Longrightarrow> marked_refs B (value_refs v) = JS_MarkValue v"
  by (cases v) (auto simp: marked_refs_def collectable_type)

lemma marked_values: "refs_ok B (values_refs vs) \<Longrightarrow> marked_refs B (values_refs vs) = concat (map JS_MarkValue vs)"
  by (induction vs) (simp_all add: values_refs_def marked_value)

lemma mark_var_ref_refs:
  assumes "bodies rt = B" "refs_ok B [(JS_GC_OBJ_TYPE_VAR_REF, v)]"
  shows "mark_var_ref rt v = Some (marked_refs B [(JS_GC_OBJ_TYPE_VAR_REF, v)])"
proof -
  obtain b where b: "B v = Some b" "gc_type b = JS_GC_OBJ_TYPE_VAR_REF" using assms(2) by auto
  have "map_option body (heap rt v) = B v" using assms(1) by (auto simp: bodies_def)
  then obtain c r where c: "heap rt v = Some c" "body c = JSVarRef r"
    using b by (cases b; cases "heap rt v") auto
  moreover have "B v = Some (JSVarRef r)" using c assms(1) by (auto simp: bodies_def)
  ultimately show ?thesis by (simp add: mark_var_ref_def marked_refs_def)
qed

lemma mark_var_refs_refs:
  assumes "bodies rt = B" "refs_ok B (var_refs_of vs)"
  shows "mark_var_refs rt vs = Some (marked_refs B (var_refs_of vs))"
  using assms(2)
proof (induction vs)
  case (Cons v vs)
  show ?case
  proof (cases v)
    case None
    then show ?thesis using Cons by (simp add: mark_var_refs_def var_refs_of_def opt_list_def)
  next
    case (Some p)
    have "var_refs_of (v # vs) = [(JS_GC_OBJ_TYPE_VAR_REF, p)] @ var_refs_of vs"
      using Some by (simp add: var_refs_of_def opt_list_def)
    moreover have "refs_ok B [(JS_GC_OBJ_TYPE_VAR_REF, p)]" "refs_ok B (var_refs_of vs)"
      using Cons.prems unfolding calculation by simp_all
    ultimately show ?thesis using mark_var_ref_refs[OF assms(1)] Cons.IH Some
        marked_refs_Cons[of B "(JS_GC_OBJ_TYPE_VAR_REF, p)" "var_refs_of vs"]
      by (simp add: mark_var_refs_def)
  qed
qed (simp add: mark_var_refs_def var_refs_of_def)

lemma mark_property_refs:
  assumes "bodies rt = B" "property_ok pr prs" "refs_ok B (property_refs pr)"
  shows "mark_property rt (pr, prs) = Some (marked_refs B (property_refs pr))"
proof (cases "sp_atom prs = JS_ATOM_NULL")
  case True
  then show ?thesis using assms(2) by (simp add: mark_property_def property_ok_def)
next
  case False
  have k: "kind_ok (sp_flags prs) pr" using assms(2) by (simp add: property_ok_def)
  show ?thesis
  proof (cases pr)
    case (U_var_ref v)
    then show ?thesis using False k assms(3) mark_var_ref_refs[OF assms(1), of v]
      by (cases "sp_flags prs") (simp_all add: mark_property_def)
  next
    case (U_init r)
    then show ?thesis using False k assms(3)
      by (cases "sp_flags prs") (auto simp: mark_property_def marked_refs_def collectable_type)
  next
    case (U_getset g s)
    then show ?thesis using False k assms(3)
      by (cases "sp_flags prs") (simp_all add: mark_property_def marked_object_ref)
  next
    case (U_value v)
    then show ?thesis using False k assms(3)
      by (cases "sp_flags prs") (simp_all add: mark_property_def marked_value)
  qed
qed

lemma mark_properties_refs:
  assumes "bodies rt = B" "list_all2 property_ok prs shs" "refs_ok B (concat (map property_refs prs))"
  shows "collect (mark_property rt) (zip prs shs) = Some (marked_refs B (concat (map property_refs prs)))"
  using assms(2,3) by (induction rule: list_all2_induct) (simp_all add: mark_property_refs[OF assms(1)])

lemma class_mark_refs:
  assumes B: "bodies rt = B" and "class_ok c u" "closure_ok B u" "refs_ok B (class_refs u)"
  shows "(if c = JS_CLASS_OBJECT then Some [] else (case class_gc_mark c of None \<Rightarrow> Some [] | Some f \<Rightarrow> f rt u)) =
    Some (marked_refs B (class_refs u))"
proof (cases u)
  case (U_func home vs b)
  show ?thesis
  proof (cases b)
    case None
    then show ?thesis using U_func assms by (auto simp: marked_object_ref)
  next
    case (Some b')
    have bc: "marked_refs B [(JS_GC_OBJ_TYPE_FUNCTION_BYTECODE, b')] = [b']"
      using U_func Some assms(4) by (auto simp: marked_refs_def collectable_type split: option.splits)
    show ?thesis
    proof (cases vs)
      case None
      then show ?thesis using U_func Some assms bc by (auto simp: marked_object_ref)
    next
      case vs: (Some vs')
      obtain bc' where bc': "B b' = Some (JSFunctionBytecode bc')" "closure_var_count bc' = length vs'"
        using assms(3) U_func Some vs by (auto split: option.splits gc_body.splits)
      then have "get_bytecode rt b' = Some bc'"
        using B by (auto simp: get_bytecode_def bodies_def split: bind_split)
      then show ?thesis using U_func Some vs assms bc bc' mark_var_refs_refs[OF B, of vs']
        by (auto simp: marked_object_ref check_def)
    qed
  qed
next
  case (U_mapped_arguments fast vs)
  then show ?thesis using assms mark_var_refs_refs[OF B] by (auto split: option.splits)
qed (use assms in \<open>auto simp: marked_value marked_values marked_context_ref\<close>)

lemma shape_of_typed:
  assumes "typed B" "B p = Some (JSObject ob)"
  obtains sp sh where "obj_shape ob = Some sp" "B sp = Some (JSShape sh)"
    "list_all2 property_ok (obj_prop ob) (sh_prop sh)" "class_ok (obj_class ob) (obj_u ob)" "closure_ok B (obj_u ob)"
proof -
  have "body_ok B (JSObject ob)" using assms unfolding typed_def by blast
  then show thesis using that by (auto split: option.splits gc_body.splits)
qed

lemma children_refs:
  assumes B: "bodies rt = B" and t: "typed B" and b: "B p = Some b" "collectable b"
  obtains ps where "children rt b = Some ps" "\<And>q. count_list ps q = count_list (marked_refs B (refs b)) q"
proof -
  have r: "refs_ok B (refs b)" using t b(1) by (simp add: typed_def refs_ok_def)
  show thesis
  proof (cases b)
    case (JSObject ob)
    obtain sp sh where sh: "obj_shape ob = Some sp" "B sp = Some (JSShape sh)"
      "list_all2 property_ok (obj_prop ob) (sh_prop sh)" "class_ok (obj_class ob) (obj_u ob)" "closure_ok B (obj_u ob)"
      using shape_of_typed[OF t] b(1) JSObject by metis
    have "get_shape rt sp = Some sh" using B sh(2) by (auto simp: get_shape_def bodies_def split: bind_split)
    moreover have "length (sh_prop sh) = length (obj_prop ob)" using sh(3) by (auto dest: list_all2_lengthD)
    moreover have ps: "collect (mark_property rt) (zip (obj_prop ob) (sh_prop sh)) =
        Some (marked_refs B (concat (map property_refs (obj_prop ob))))"
      by (rule mark_properties_refs[OF B sh(3)]) (use r JSObject in simp)
    moreover have us: "(if obj_class ob = JS_CLASS_OBJECT then Some []
        else (case class_gc_mark (obj_class ob) of None \<Rightarrow> Some [] | Some f \<Rightarrow> f rt (obj_u ob))) =
        Some (marked_refs B (class_refs (obj_u ob)))"
      by (rule class_mark_refs[OF B sh(4,5)]) (use r JSObject in simp)
    ultimately have ch: "children rt b = Some (sp # marked_refs B (concat (map property_refs (obj_prop ob))) @
        marked_refs B (class_refs (obj_u ob)))"
      using sh(1) JSObject by (simp add: children_def object_children_def check_def)
    have "marked_refs B [(JS_GC_OBJ_TYPE_SHAPE, sp)] = [sp]" using sh(2) by (simp add: marked_refs_def)
    then have "marked_refs B (refs b) = marked_refs B (concat (map property_refs (obj_prop ob))) @ sp #
        marked_refs B (class_refs (obj_u ob))"
      using JSObject sh(1) marked_refs_Cons[of B "(JS_GC_OBJ_TYPE_SHAPE, sp)" "class_refs (obj_u ob)"] by (simp add: opt_list_def)
    then show thesis by (intro that[OF ch]) simp
  next
    case (JSFunctionBytecode bc)
    then show thesis using r that[of "marked_refs B (refs b)"]
      by (simp add: children_def marked_values marked_context_ref)
  next
    case (JSShape sh)
    then show thesis using r that[of "marked_refs B (refs b)"] by (simp add: children_def marked_object_ref)
  next
    case (JSVarRef v)
    then show thesis using r b(2) that[of "marked_refs B (refs b)"] by (simp add: children_def marked_value check_def)
  next
    case (JSContext ctx)
    have "marked_refs B (shape_refs ctx) = context_shapes ctx"
      unfolding shape_refs_def by (rule marked_pairs) (use r JSContext in \<open>simp_all add: shape_refs_def\<close>)
    then show thesis using JSContext r that[of "marked_refs B (refs b)"]
      by (simp add: children_def JS_MarkContext_def marked_values)
  qed
qed

section \<open>Freeing releases the owned references\<close>

fun release :: "gc_ref \<Rightarrow> gc_rt \<Rightarrow> gc_rt option" where
  "release (JS_GC_OBJ_TYPE_JS_OBJECT, p) rt = free_value (JS_TAG_OBJECT p) rt"
| "release (JS_GC_OBJ_TYPE_FUNCTION_BYTECODE, p) rt = free_value (JS_TAG_FUNCTION_BYTECODE p) rt"
| "release (JS_GC_OBJ_TYPE_SHAPE, p) rt = js_free_shape p rt"
| "release (JS_GC_OBJ_TYPE_VAR_REF, p) rt = free_var_ref (Some p) rt"
| "release (JS_GC_OBJ_TYPE_JS_CONTEXT, p) rt = JS_FreeContext p rt"

lemma free_value_release: "free_value v rt = each release (value_refs v) rt"
  by (cases v) (simp_all add: free_value_def split: bind_split)

lemma free_values_release: "each free_value vs rt = each release (values_refs vs) rt"
proof (induction vs arbitrary: rt)
  case (Cons v vs)
  have "values_refs (v # vs) = value_refs v @ values_refs vs" by (simp add: values_refs_def)
  then show ?case using Cons by (simp add: each_append free_value_release cong: Option.bind_cong)
qed (simp add: values_refs_def)

lemma free_object_pointer_release: "free_object_pointer x rt = each release (object_ref x) rt"
  by (cases x) (simp_all add: free_object_pointer_def object_ref_def opt_list_def split: bind_split)

lemma free_realm_release: "free_realm x rt = each release (context_ref x) rt"
  by (cases x) (simp_all add: free_realm_def context_ref_def opt_list_def split: bind_split)

lemma free_shape_null_release: "js_free_shape_null x rt = each release (map (Pair JS_GC_OBJ_TYPE_SHAPE) (opt_list x)) rt"
  by (cases x) (simp_all add: js_free_shape_null_def opt_list_def split: bind_split)

lemma free_var_refs_release: "each free_var_ref vs rt = each release (var_refs_of vs) rt"
proof (induction vs arbitrary: rt)
  case (Cons v vs)
  have "var_refs_of (v # vs) = map (Pair JS_GC_OBJ_TYPE_VAR_REF) (opt_list v) @ var_refs_of vs"
    by (simp add: var_refs_of_def)
  moreover have "free_var_ref v rt = each release (map (Pair JS_GC_OBJ_TYPE_VAR_REF) (opt_list v)) rt" for rt
    by (cases v) (simp_all add: opt_list_def free_var_ref_def split: bind_split)
  ultimately show ?case using Cons by (simp add: each_append cong: Option.bind_cong)
qed (simp add: var_refs_of_def)

lemma free_property_release:
  "kind_ok (sp_flags prs) pr \<Longrightarrow> free_property (pr, prs) rt = each release (property_refs pr) rt"
  by (cases pr; cases "sp_flags prs")
    (simp_all add: free_property_def free_value_release free_object_pointer_release each_append split: bind_split)

lemma free_properties_release:
  "list_all2 property_ok prs shs \<Longrightarrow> each free_property (zip prs shs) rt = each release (concat (map property_refs prs)) rt"
proof (induction arbitrary: rt rule: list_all2_induct)
  case (Cons x xs y ys)
  then show ?case by (simp add: each_append free_property_release property_ok_def cong: Option.bind_cong)
qed simp

text \<open>The finalizers. That of a bytecode function reads the number of closure variables after a first release.\<close>

lemma finalizer_release:
  assumes "class_ok c u" "\<And>home vs b. u \<noteq> U_func home vs (Some b)"
  shows "(case class_finalizer c of None \<Rightarrow> Some rt | Some f \<Rightarrow> f u rt) = each release (class_refs u) rt"
proof (cases u)
  case (U_func home vs b)
  then show ?thesis using assms
    by (cases b) (auto simp: free_object_pointer_release split: bind_split)
qed (use assms in \<open>auto simp: free_value_release free_values_release free_realm_release free_var_refs_release each_append
        split: option.splits bind_split cong: Option.bind_cong\<close>)

declare release.simps [simp del]

lemma function_finalizer_release:
  assumes "class_ok c (U_func home vs (Some b))" "each release (object_ref home) rt = Some rt'"
    "\<And>vs'. vs = Some vs' \<Longrightarrow> \<exists>bc. get_bytecode rt' b = Some bc \<and> closure_var_count bc = length vs'"
  shows "(case class_finalizer c of None \<Rightarrow> Some rt | Some f \<Rightarrow> f (U_func home vs (Some b)) rt) =
    each release (class_refs (U_func home vs (Some b))) rt"
proof -
  let ?U = "U_func home vs (Some b)" and ?R = "\<lambda>rs. each release rs"
  have f: "class_finalizer c = Some js_bytecode_function_finalizer" using assms(1) by auto
  have home: "free_object_pointer home rt = Some rt'" using assms(2) by (simp add: free_object_pointer_release)
  show ?thesis
  proof (cases vs)
    case None
    have "js_bytecode_function_finalizer ?U rt = ?R [(JS_GC_OBJ_TYPE_FUNCTION_BYTECODE, b)] rt'"
      using None home by (simp add: free_value_release)
    then show ?thesis using f None assms(2) by (simp add: each_append)
  next
    case (Some vs')
    obtain bc where bc: "get_bytecode rt' b = Some bc" "closure_var_count bc = length vs'" using assms(3)[OF Some] by blast
    have "js_bytecode_function_finalizer ?U rt =
        Option.bind (?R (var_refs_of vs') rt') (?R [(JS_GC_OBJ_TYPE_FUNCTION_BYTECODE, b)])"
      using Some home bc by (simp add: check_def free_var_refs_release free_value_release cong: Option.bind_cong)
    then show ?thesis using f Some assms(2) by (simp add: each_append)
  qed
qed

text \<open>Releasing an object pointer changes counts and lists only.\<close>

lemma free_object_pointer_bodies:
  assumes "free_object_pointer x rt = Some rt'"
  shows "bodies rt' = bodies rt"
proof (cases x)
  case None
  then show ?thesis using assms by (simp add: free_object_pointer_def)
next
  case (Some p)
  obtain n rt1 where 1: "add_ref p (- 1) rt = Some (n, rt1)"
    "(if n \<le> 0 then js_free_value_rt (\<lambda>_. None) p rt1 else Some rt1) = Some rt'"
    using assms Some by (auto simp: free_object_pointer_def free_value_def split: bind_split_asm)
  have "bodies rt1 = bodies rt"
    using 1(1) by (auto simp: add_ref_def update_cell_def bodies_def split: bind_split_asm)
  moreover have "bodies rt' = bodies rt1"
    using 1(2) by (auto simp: js_free_value_rt_def rt_list_del_def rt_list_add_def bodies_def split: if_splits bind_split_asm)
  ultimately show ?thesis by simp
qed

lemma typed_finalizer_release:
  assumes "class_ok c u" "closure_ok B u" "\<And>home vs b. u = U_func home vs (Some b) \<Longrightarrow> bodies rt b = B b"
  shows "(case class_finalizer c of None \<Rightarrow> Some rt | Some f \<Rightarrow> f u rt) = each release (class_refs u) rt"
proof (cases "\<exists>home vs b. u = U_func home vs (Some b)")
  case False
  then show ?thesis using finalizer_release[OF assms(1)] by blast
next
  case True
  then obtain home vs b where u: "u = U_func home vs (Some b)" by blast
  show ?thesis
  proof (cases "each release (object_ref home) rt")
    case None
    have "class_finalizer c = Some js_bytecode_function_finalizer" using assms(1) u by auto
    then show ?thesis using None u by (simp add: free_object_pointer_release each_append)
  next
    case (Some rt')
    then have b: "bodies rt' b = B b" using free_object_pointer_bodies[of home rt rt'] assms(3)[OF u]
      by (simp add: free_object_pointer_release)
    have "\<exists>bc. get_bytecode rt' b = Some bc \<and> closure_var_count bc = length vs'" if "vs = Some vs'" for vs'
      using assms(2) b u that by (auto simp: get_bytecode_def bodies_def split: option.splits gc_body.splits)
    then show ?thesis unfolding u by (intro function_finalizer_release[OF _ Some]) (use assms(1) u in auto)
  qed
qed

end
