(* ===== verification/Gc_Free.thy ===== *)
theory Gc_Free
  imports Gc_Refs
begin

text \<open>
  Freeing keeps the counts exact: at every moment the count of a structure is the number of references from outside,
  from structures not yet released, and still to be released.
\<close>

section \<open>The lists of the collector\<close>

definition rings :: "link links \<Rightarrow> link set \<Rightarrow> (link \<Rightarrow> ptr list) \<Rightarrow> bool" where
  "rings l Hs ls \<longleftrightarrow> tmp_obj_list \<in> dom l \<and> (\<forall>h \<in> Hs. h \<notin> range Link \<and> ring l h (map Link (ls h))) \<and>
     (\<forall>h \<in> Hs. \<forall>h' \<in> Hs. h \<noteq> h' \<longrightarrow> set (ls h) \<inter> set (ls h') = {})"

text \<open>The head of \<open>tmp_obj_list\<close> is allocated, but it is a list only during a collection.\<close>

lemma rings_ring: "rings l Hs ls \<Longrightarrow> h \<in> Hs \<Longrightarrow> ring l h (map Link (ls h))"
  by (simp add: rings_def)

lemma rings_distinct: "rings l Hs ls \<Longrightarrow> h \<in> Hs \<Longrightarrow> distinct (ls h)"
  using ring_distinct[OF rings_ring, of l Hs ls h] by (simp add: distinct_map)

lemma rings_cong:
  assumes "rings l Hs ls" "\<And>x. x \<in> insert tmp_obj_list (Hs \<union> {Link p |p h. h \<in> Hs \<and> p \<in> set (ls h)}) \<Longrightarrow> l' x = l x"
  shows "rings l' Hs ls"
proof -
  have "ring l' h (map Link (ls h))" if "h \<in> Hs" for h
    by (rule ring_cong[OF rings_ring[OF assms(1) that]]) (use that assms(2) in auto)
  moreover have "tmp_obj_list \<in> dom l'" using assms(1) assms(2)[of tmp_obj_list] by (auto simp: rings_def)
  ultimately show ?thesis using assms(1) by (simp add: rings_def)
qed

lemma rings_del:
  assumes r: "rings l Hs ls" and h: "h \<in> Hs" "p \<in> set (ls h)"
  obtains l' where "list_del l (Link p) = Some l'" "rings l' Hs (ls(h := remove1 p (ls h)))" "dom l' = dom l"
    "l' (Link p) = Some (None, None)"
proof -
  obtain xs ys where xy: "ls h = xs @ p # ys" "p \<notin> set xs" using split_list_first[OF h(2)] by blast
  then have rem: "remove1 p (ls h) = xs @ ys" by (simp add: remove1_append)
  have ring: "ring l h (map Link xs @ Link p # map Link ys)" using rings_ring[OF r h(1)] xy by simp
  obtain l' where l': "list_del l (Link p) = Some l'" "ring l' h (map Link xs @ map Link ys)" "dom l' = dom l"
    "\<And>x. x \<notin> set (h # map Link xs @ Link p # map Link ys) \<Longrightarrow> l' x = l x" "l' (Link p) = Some (None, None)"
    using ring_del[OF ring] by metis
  let ?ls = "ls(h := remove1 p (ls h))"
  have sub: "set (?ls g) \<subseteq> set (ls g)" for g using set_remove1_subset[of p "ls h"] by auto
  have "rings l' Hs ?ls" unfolding rings_def
  proof (intro conjI ballI impI)
    show "tmp_obj_list \<in> dom l'" using r l'(3) by (simp add: rings_def)
  next
    fix g assume g: "g \<in> Hs"
    show "g \<notin> range Link" using r g by (simp add: rings_def)
    show "ring l' g (map Link (?ls g))"
    proof (cases "g = h")
      case True
      then show ?thesis using l'(2) rem by simp
    next
      case False
      have "ring l' g (map Link (ls g))"
      proof (rule ring_cong[OF rings_ring[OF r g]])
        fix x assume x: "x \<in> set (g # map Link (ls g))"
        have "set (ls g) \<inter> set (ls h) = {}" "g \<notin> range Link" "h \<notin> range Link"
          using r g h(1) False by (simp_all add: rings_def)
        then have "x \<notin> set (h # map Link (ls h))" using x False by auto
        then show "l' x = l x" using l'(4)[of x] xy(1) by simp
      qed
      then show ?thesis using False by simp
    qed
  next
    fix g g' assume g: "g \<in> Hs" "g' \<in> Hs" "g \<noteq> g'"
    have "set (ls g) \<inter> set (ls g') = {}" using r g by (simp add: rings_def)
    then show "set (?ls g) \<inter> set (?ls g') = {}" using sub[of g] sub[of g'] by blast
  qed
  then show thesis using that l'(1,3,5) by blast
qed

lemma rings_add:
  assumes r: "rings l Hs ls" and h: "h \<in> Hs" "\<And>g. g \<in> Hs \<Longrightarrow> p \<notin> set (ls g)" "Link p \<in> dom l"
    and xs: "(f, xs) = (list_add, p # ls h) \<or> (f, xs) = (list_add_tail, ls h @ [p])"
  obtains l' where "f l (Link p) h = Some l'" "rings l' Hs (ls(h := xs))" "dom l' = dom l"
proof -
  have p: "Link p \<notin> set (h # map Link (ls h))" using r h by (auto simp: rings_def)
  have "\<exists>l'. f l (Link p) h = Some l' \<and> ring l' h (map Link xs) \<and> dom l' = dom l \<and>
      (\<forall>x. x \<notin> set (h # Link p # map Link (ls h)) \<longrightarrow> l' x = l x)"
  proof (cases "f = list_add \<and> xs = p # ls h")
    case True
    obtain l' where "list_add l (Link p) h = Some l'" "ring l' h (Link p # map Link (ls h))" "dom l' = dom l"
      "\<And>x. x \<notin> set (h # Link p # map Link (ls h)) \<Longrightarrow> l' x = l x"
      using ring_add[OF rings_ring[OF r h(1)] p h(3)] by metis
    then show ?thesis using True by auto
  next
    case False
    then have f: "f = list_add_tail" "xs = ls h @ [p]" using xs by auto
    obtain l' where "list_add_tail l (Link p) h = Some l'" "ring l' h (map Link (ls h) @ [Link p])" "dom l' = dom l"
      "\<And>x. x \<notin> set (h # map Link (ls h) @ [Link p]) \<Longrightarrow> l' x = l x"
      using ring_add_tail[OF rings_ring[OF r h(1)] p h(3)] by metis
    then show ?thesis using f by auto
  qed
  then obtain l' where l': "f l (Link p) h = Some l'" "ring l' h (map Link xs)" "dom l' = dom l"
    "\<And>x. x \<notin> set (h # Link p # map Link (ls h)) \<Longrightarrow> l' x = l x" by blast
  have "rings l' Hs (ls(h := xs))" unfolding rings_def
  proof (intro conjI ballI impI)
    show "tmp_obj_list \<in> dom l'" using r l'(3) by (simp add: rings_def)
  next
    fix g assume g: "g \<in> Hs"
    show "g \<notin> range Link" using r g by (simp add: rings_def)
    show "ring l' g (map Link ((ls(h := xs)) g))"
    proof (cases "g = h")
      case True
      then show ?thesis using l'(2) by simp
    next
      case False
      have "ring l' g (map Link (ls g))"
      proof (rule ring_cong[OF rings_ring[OF r g]])
        fix x assume x: "x \<in> set (g # map Link (ls g))"
        have "set (ls g) \<inter> set (ls h) = {}" "g \<notin> range Link" "h \<notin> range Link" "p \<notin> set (ls g)"
          using r g h False by (simp_all add: rings_def)
        then have "x \<notin> set (h # Link p # map Link (ls h))" using x False by auto
        then show "l' x = l x" using l'(4) by simp
      qed
      then show ?thesis using False by simp
    qed
  next
    fix g g' assume g: "g \<in> Hs" "g' \<in> Hs" "g \<noteq> g'"
    have d: "set (ls g) \<inter> set (ls g') = {}" using r g by (simp add: rings_def)
    have "set xs = insert p (set (ls h))" using xs by auto
    then show "set ((ls(h := xs)) g) \<inter> set ((ls(h := xs)) g') = {}" using d h(2) g by auto
  qed
  then show thesis using that l'(1,3) by blast
qed

text \<open>Moving a structure from one list to the front or the end of another.\<close>

fun put_at :: "bool \<Rightarrow> 'a \<Rightarrow> 'a list \<Rightarrow> 'a list" where
  "put_at True x xs = x # xs"
| "put_at False x xs = xs @ [x]"

lemma set_put_at [simp]: "set (put_at front x xs) = insert x (set xs)"
  by (cases front) auto

lemma rings_move:
  fixes front :: bool
  assumes r: "rings l Hs ls" and h: "h \<in> Hs" "p \<in> set (ls h)" and g: "g \<in> Hs"
  defines "ls1 \<equiv> ls(h := remove1 p (ls h))"
  defines "ls2 \<equiv> ls1(g := put_at front p (ls1 g))"
  obtains l1 l2 where "list_del l (Link p) = Some l1" "(if front then list_add else list_add_tail) l1 (Link p) g = Some l2"
    "rings l2 Hs ls2" "\<And>x. (\<exists>h \<in> Hs. x \<in> set (ls2 h)) \<longleftrightarrow> (\<exists>h \<in> Hs. x \<in> set (ls h))"
proof -
  obtain l1 where l1: "list_del l (Link p) = Some l1" "rings l1 Hs ls1" "dom l1 = dom l" "l1 (Link p) = Some (None, None)"
    using rings_del[OF r h] unfolding ls1_def by metis
  have s: "set (remove1 p (ls h)) = set (ls h) - {p}" by (rule set_remove1_eq[OF rings_distinct[OF r h(1)]])
  have not: "p \<notin> set (ls1 x)" if "x \<in> Hs" for x
  proof (cases "x = h")
    case True
    then show ?thesis using s by (simp add: ls1_def)
  next
    case False
    then have "set (ls x) \<inter> set (ls h) = {}" using r that h(1) by (simp add: rings_def)
    then show ?thesis using h(2) False by (auto simp: ls1_def)
  qed
  have "Link p \<in> dom l1" using l1(4) by auto
  note add = rings_add[OF l1(2) g not this, of "if front then list_add else list_add_tail" "put_at front p (ls1 g)"]
  obtain l2 where l2: "(if front then list_add else list_add_tail) l1 (Link p) g = Some l2" "rings l2 Hs ls2" "dom l2 = dom l1"
    by (rule add) (auto simp: ls2_def split: if_splits)
  have "(\<exists>h \<in> Hs. x \<in> set (ls2 h)) \<longleftrightarrow> (\<exists>h \<in> Hs. x \<in> set (ls h))" for x
  proof (cases "x = p")
    case True
    then show ?thesis using g h by (auto simp: ls2_def)
  next
    case False
    then have "x \<in> set (ls2 y) \<longleftrightarrow> x \<in> set (ls y)" for y using s by (auto simp: ls2_def ls1_def)
    then show ?thesis by simp
  qed
  then show thesis using that l1 l2 by auto
qed

section \<open>The invariant of freeing\<close>

definition value_type :: "gc_body \<Rightarrow> bool" where
  "value_type b \<longleftrightarrow> gc_type b \<in> {JS_GC_OBJ_TYPE_JS_OBJECT, JS_GC_OBJ_TYPE_FUNCTION_BYTECODE}"

definition ref_ptrs :: "(ptr \<Rightarrow> gc_body option) \<Rightarrow> ptr \<Rightarrow> ptr list" where
  "ref_ptrs B p = (case B p of None \<Rightarrow> [] | Some b \<Rightarrow> map snd (refs b))"

definition in_refs :: "(ptr \<Rightarrow> gc_body option) \<Rightarrow> ptr set \<Rightarrow> ptr \<Rightarrow> nat" where
  "in_refs B U q = (\<Sum>p\<in>U. count_list (ref_ptrs B p) q)"

text \<open>
  \<open>B\<close> gives the contents at the beginning, \<open>ext\<close> the references from outside, \<open>Live\<close> a set that supports itself, \<open>M\<close>
  the structures known to be unmarked. \<open>U\<close>
  are the structures not yet released, \<open>cur\<close> the object or bytecode being released, \<open>pend\<close> what it still has to
  release. In the phase of decrements objects with count zero wait in the list of zero counts; while cycles are
  removed the dead ones wait in \<open>tmp_obj_list\<close> and \<open>L\<close> is the list of the living.
\<close>

definition phase_inv :: "ptr set \<Rightarrow> ptr list \<Rightarrow> gc_rt \<Rightarrow> link set \<Rightarrow> (link \<Rightarrow> ptr list) \<Rightarrow> ptr set \<Rightarrow> ptr set \<Rightarrow> bool" where
  "phase_inv Live L rt Hs ls U cur \<longleftrightarrow>
    (case gc_phase rt of
       JS_GC_PHASE_NONE \<Rightarrow> False
     | JS_GC_PHASE_DECREF \<Rightarrow> Hs = {gc_obj_list, gc_zero_ref_count_list} \<and>
         (\<forall>p c. heap rt p = Some c \<and> value_type (body c) \<longrightarrow>
            (if p \<in> U then p \<in> set (ls gc_zero_ref_count_list) \<longleftrightarrow> ref_count c = 0 else p \<in> cur \<and> ref_count c = 0)) \<and>
         (\<forall>p \<in> set (ls gc_zero_ref_count_list). \<exists>c. heap rt p = Some c \<and> value_type (body c))
     | JS_GC_PHASE_REMOVE_CYCLES \<Rightarrow> Hs = {gc_obj_list, gc_zero_ref_count_list, tmp_obj_list} \<and>
         ls gc_obj_list = L \<and> set L \<subseteq> Live \<and>
         (\<forall>p c. heap rt p = Some c \<and> value_type (body c) \<longrightarrow>
            (if p \<in> U then p \<in> set (ls tmp_obj_list) \<longleftrightarrow> p \<notin> Live
             else p \<in> set (ls tmp_obj_list) \<longrightarrow> p \<in> cur)))"

lemma decref_invD:
  assumes "phase_inv Live L rt Hs ls U cur" "gc_phase rt = JS_GC_PHASE_DECREF"
  shows "Hs = {gc_obj_list, gc_zero_ref_count_list}"
    "\<And>p c. heap rt p = Some c \<Longrightarrow> value_type (body c) \<Longrightarrow> p \<in> U \<Longrightarrow>
      p \<in> set (ls gc_zero_ref_count_list) \<longleftrightarrow> ref_count c = 0"
    "\<And>p c. heap rt p = Some c \<Longrightarrow> value_type (body c) \<Longrightarrow> p \<notin> U \<Longrightarrow> p \<in> cur"
    "\<And>p c. heap rt p = Some c \<Longrightarrow> value_type (body c) \<Longrightarrow> p \<notin> U \<Longrightarrow> ref_count c = 0"
    "\<And>p. p \<in> set (ls gc_zero_ref_count_list) \<Longrightarrow> \<exists>c. heap rt p = Some c \<and> value_type (body c)"
  by (use assms in \<open>simp add: phase_inv_def\<close>)+

lemma decref_invI:
  assumes "gc_phase rt = JS_GC_PHASE_DECREF" "Hs = {gc_obj_list, gc_zero_ref_count_list}"
    "\<And>p c. heap rt p = Some c \<Longrightarrow> value_type (body c) \<Longrightarrow> p \<in> U \<Longrightarrow>
      p \<in> set (ls gc_zero_ref_count_list) \<longleftrightarrow> ref_count c = 0"
    "\<And>p c. heap rt p = Some c \<Longrightarrow> value_type (body c) \<Longrightarrow> p \<notin> U \<Longrightarrow> p \<in> cur \<and> ref_count c = 0"
    "\<And>p. p \<in> set (ls gc_zero_ref_count_list) \<Longrightarrow> \<exists>c. heap rt p = Some c \<and> value_type (body c)"
  shows "phase_inv Live L rt Hs ls U cur"
  using assms by (auto simp: phase_inv_def)

lemma cycles_invD:
  assumes "phase_inv Live L rt Hs ls U cur" "gc_phase rt = JS_GC_PHASE_REMOVE_CYCLES"
  shows "Hs = {gc_obj_list, gc_zero_ref_count_list, tmp_obj_list}" "ls gc_obj_list = L" "set L \<subseteq> Live"
    "\<And>p c. heap rt p = Some c \<Longrightarrow> value_type (body c) \<Longrightarrow> p \<in> U \<Longrightarrow> p \<in> set (ls tmp_obj_list) \<longleftrightarrow> p \<notin> Live"
    "\<And>p c. heap rt p = Some c \<Longrightarrow> value_type (body c) \<Longrightarrow> p \<notin> U \<Longrightarrow> p \<in> set (ls tmp_obj_list) \<Longrightarrow> p \<in> cur"
  by (use assms in \<open>simp add: phase_inv_def\<close>)+

lemma cycles_invI:
  assumes "gc_phase rt = JS_GC_PHASE_REMOVE_CYCLES" "Hs = {gc_obj_list, gc_zero_ref_count_list, tmp_obj_list}"
    "ls gc_obj_list = L" "set L \<subseteq> Live"
    "\<And>p c. heap rt p = Some c \<Longrightarrow> value_type (body c) \<Longrightarrow> p \<in> U \<Longrightarrow> p \<in> set (ls tmp_obj_list) \<longleftrightarrow> p \<notin> Live"
    "\<And>p c. heap rt p = Some c \<Longrightarrow> value_type (body c) \<Longrightarrow> p \<notin> U \<Longrightarrow> p \<in> set (ls tmp_obj_list) \<Longrightarrow> p \<in> cur"
  shows "phase_inv Live L rt Hs ls U cur"
  using assms by (auto simp: phase_inv_def)

lemma phase_cases:
  assumes "phase_inv Live L rt Hs ls U cur"
  obtains "gc_phase rt = JS_GC_PHASE_DECREF" | "gc_phase rt = JS_GC_PHASE_REMOVE_CYCLES"
  using assms by (cases "gc_phase rt") (simp_all add: phase_inv_def)

definition cell_ok :: "(ptr \<Rightarrow> gc_body option) \<Rightarrow> (ptr \<Rightarrow> nat) \<Rightarrow> ptr set \<Rightarrow> ptr set \<Rightarrow> gc_ref list \<Rightarrow> ptr \<Rightarrow> cell \<Rightarrow> bool" where
  "cell_ok B ext M U pend p c \<longleftrightarrow>
    (\<exists>b. B p = Some b \<and> gc_type (body c) = gc_type b \<and>
       (body c = b \<or> p \<notin> U \<and> gc_type b = JS_GC_OBJ_TYPE_JS_OBJECT)) \<and>
    ref_count c = int (ext p + in_refs B U p + count_list (map snd pend) p) \<and>
    (\<not> value_type (body c) \<longrightarrow> (ref_count c > 0 \<longleftrightarrow> p \<in> U)) \<and>
    (p \<in> M \<longrightarrow> \<not> mark c)"

definition free_core :: "(ptr \<Rightarrow> gc_body option) \<Rightarrow> (ptr \<Rightarrow> nat) \<Rightarrow> ptr set \<Rightarrow> ptr set \<Rightarrow> gc_rt \<Rightarrow> link set \<Rightarrow>
    (link \<Rightarrow> ptr list) \<Rightarrow> ptr set \<Rightarrow> gc_ref list \<Rightarrow> bool" where
  "free_core B ext M Live rt Hs ls U pend \<longleftrightarrow>
    typed B \<and> finite U \<and> U \<subseteq> dom (heap rt) \<and>
    Live \<subseteq> U \<and> (\<forall>p \<in> Live. ext p > 0 \<or> (\<exists>q \<in> Live. p \<in> set (ref_ptrs B q))) \<and>
    rings (links rt) Hs ls \<and>
    (\<forall>p. (\<exists>h \<in> Hs. p \<in> set (ls h)) \<longleftrightarrow> (\<exists>c. heap rt p = Some c \<and> collectable (body c))) \<and>
    (\<forall>p c. heap rt p = Some c \<longrightarrow> cell_ok B ext M U pend p c) \<and>
    (\<forall>p \<in> U. set (ref_ptrs B p) \<subseteq> dom (heap rt)) \<and>
    snd ` set pend \<subseteq> dom (heap rt) \<and> refs_ok B pend"

definition free_inv :: "(ptr \<Rightarrow> gc_body option) \<Rightarrow> (ptr \<Rightarrow> nat) \<Rightarrow> ptr set \<Rightarrow> ptr set \<Rightarrow> ptr list \<Rightarrow> gc_rt \<Rightarrow> link set \<Rightarrow>
    (link \<Rightarrow> ptr list) \<Rightarrow> ptr set \<Rightarrow> ptr set \<Rightarrow> gc_ref list \<Rightarrow> bool" where
  "free_inv B ext M Live L rt Hs ls U cur pend \<longleftrightarrow>
    free_core B ext M Live rt Hs ls U pend \<and> phase_inv Live L rt Hs ls U cur"

lemma free_coreD:
  assumes "free_core B ext M Live rt Hs ls U pend"
  shows "typed B" "finite U" "U \<subseteq> dom (heap rt)" "Live \<subseteq> U" "rings (links rt) Hs ls"
    "\<And>p. p \<in> Live \<Longrightarrow> ext p > 0 \<or> (\<exists>q \<in> Live. p \<in> set (ref_ptrs B q))"
    "\<And>p. (\<exists>h \<in> Hs. p \<in> set (ls h)) \<longleftrightarrow> (\<exists>c. heap rt p = Some c \<and> collectable (body c))"
    "\<And>p c. heap rt p = Some c \<Longrightarrow> cell_ok B ext M U pend p c"
    "\<And>p. p \<in> U \<Longrightarrow> set (ref_ptrs B p) \<subseteq> dom (heap rt)"
    "snd ` set pend \<subseteq> dom (heap rt)" "refs_ok B pend"
  by (use assms in \<open>simp add: free_core_def\<close>)+

lemma free_coreI:
  assumes "typed B" "finite U" "U \<subseteq> dom (heap rt)" "Live \<subseteq> U" "rings (links rt) Hs ls"
    "\<And>p. p \<in> Live \<Longrightarrow> ext p > 0 \<or> (\<exists>q \<in> Live. p \<in> set (ref_ptrs B q))"
    "\<And>p. (\<exists>h \<in> Hs. p \<in> set (ls h)) \<longleftrightarrow> (\<exists>c. heap rt p = Some c \<and> collectable (body c))"
    "\<And>p c. heap rt p = Some c \<Longrightarrow> cell_ok B ext M U pend p c"
    "\<And>p. p \<in> U \<Longrightarrow> set (ref_ptrs B p) \<subseteq> dom (heap rt)"
    "snd ` set pend \<subseteq> dom (heap rt)" "refs_ok B pend"
  shows "free_core B ext M Live rt Hs ls U pend"
  unfolding free_core_def by (intro conjI allI ballI impI assms; assumption?)

lemma typed_refs: "typed B \<Longrightarrow> B p = Some b \<Longrightarrow> refs_ok B (refs b)"
  by (simp add: typed_def refs_ok_def)

lemma in_refs_ge: "finite U \<Longrightarrow> q \<in> U \<Longrightarrow> count_list (ref_ptrs B q) p \<le> in_refs B U p"
  unfolding in_refs_def by (rule member_le_sum) simp_all

lemma in_refs_remove:
  "finite U \<Longrightarrow> q \<in> U \<Longrightarrow> in_refs B U p = in_refs B (U - {q}) p + count_list (ref_ptrs B q) p"
  by (simp add: in_refs_def sum.remove)

lemma count_list_pos: "x \<in> set xs \<Longrightarrow> 0 < count_list xs x"
  by (metis count_list_0_iff neq0_conv)

lemma live_count:
  assumes "free_core B ext M Live rt Hs ls U pend" "p \<in> Live" "heap rt p = Some c"
  shows "ref_count c > int (count_list (map snd pend) p)"
proof -
  note f = free_coreD[OF assms(1)]
  have "ext p + in_refs B U p > 0"
  proof (cases "ext p > 0")
    case False
    then obtain q where "q \<in> Live" "p \<in> set (ref_ptrs B q)" using f(6)[OF assms(2)] by auto
    then have "count_list (ref_ptrs B q) p > 0" "q \<in> U" using f(4) by (auto simp: count_list_pos)
    then show ?thesis using in_refs_ge[OF f(2), of q B p] by simp
  qed simp
  then show ?thesis using f(8)[OF assms(3)] unfolding cell_ok_def by linarith
qed

section \<open>Releasing one reference\<close>

lemma core_decrement:
  assumes f: "free_core B ext M Live rt Hs ls U ((k, p) # pend)" and c: "heap rt p = Some c"
  defines "rt' \<equiv> rt\<lparr>heap := (heap rt)(p \<mapsto> c\<lparr>ref_count := ref_count c - 1\<rparr>)\<rparr>"
  shows "ref_count c \<ge> 1" "gc_type (body c) = k"
    "value_type (body c) \<or> ref_count c > 1 \<Longrightarrow> free_core B ext M Live rt' Hs ls U pend"
    "\<not> value_type (body c) \<Longrightarrow> ref_count c = 1 \<Longrightarrow>
      p \<in> U \<and> B p = Some (body c) \<and> free_core B ext M Live rt' Hs ls (U - {p}) (refs (body c) @ pend)"
proof -
  note fd = free_coreD[OF f]
  have cp: "cell_ok B ext M U ((k, p) # pend) p c" by (rule fd(8)[OF c])
  have ok: "cell_ok B ext M U ((k, p) # pend) x cx" if "heap rt x = Some cx" for x cx by (rule fd(8)[OF that])
  show ge: "ref_count c \<ge> 1" using cp by (simp add: cell_ok_def)
  show "gc_type (body c) = k" using cp fd(11) by (auto simp: cell_ok_def)
  have dom: "dom (heap rt') = dom (heap rt)" using c by (auto simp: rt'_def)
  have bodies: "(\<exists>c. heap rt' x = Some c \<and> collectable (body c)) \<longleftrightarrow> (\<exists>c. heap rt x = Some c \<and> collectable (body c))" for x
    using c by (auto simp: rt'_def)
  have links: "links rt' = links rt" by (simp add: rt'_def)
  show "free_core B ext M Live rt' Hs ls U pend" if v: "value_type (body c) \<or> ref_count c > 1"
  proof (rule free_coreI)
    fix x cx assume x: "heap rt' x = Some cx"
    show "cell_ok B ext M U pend x cx"
    proof (cases "x = p")
      case True
      then show ?thesis using x cp ge v by (auto simp: rt'_def cell_ok_def)
    next
      case False
      then show ?thesis using x ok[of x cx] by (auto simp: rt'_def cell_ok_def)
    qed
  qed (use fd dom bodies links in auto)
  assume nv: "\<not> value_type (body c)" and one: "ref_count c = 1"
  then have pU: "p \<in> U" using cp by (simp add: cell_ok_def)
  have zero: "ext p = 0" "in_refs B U p = 0" "count_list (map snd pend) p = 0"
    using cp one by (auto simp: cell_ok_def)
  have Bp: "B p = Some (body c)" using cp pU by (auto simp: cell_ok_def)
  then have rp: "ref_ptrs B p = map snd (refs (body c))" by (simp add: ref_ptrs_def)
  have "p \<notin> Live" using live_count[OF f _ c] zero one by auto
  have sum: "in_refs B U x = in_refs B (U - {p}) x + count_list (map snd (refs (body c))) x" for x
    using in_refs_remove[OF fd(2) pU, of B x] rp by simp
  have "free_core B ext M Live rt' Hs ls (U - {p}) (refs (body c) @ pend)"
  proof (rule free_coreI)
    fix x cx assume x: "heap rt' x = Some cx"
    show "cell_ok B ext M (U - {p}) (refs (body c) @ pend) x cx"
    proof (cases "x = p")
      case True
      then show ?thesis using x cp one zero sum[of p] Bp \<open>p \<notin> Live\<close> by (auto simp: rt'_def cell_ok_def)
    next
      case False
      then show ?thesis using x ok[of x cx] sum[of x] by (auto simp: rt'_def cell_ok_def)
    qed
  next
    show "snd ` set (refs (body c) @ pend) \<subseteq> dom (heap rt')" using fd(9)[OF pU] fd(10) rp dom by auto
    show "refs_ok B (refs (body c) @ pend)" using fd(11) typed_refs[OF fd(1) Bp] by simp
  qed (use fd dom bodies links \<open>p \<notin> Live\<close> in auto)
  then show "p \<in> U \<and> B p = Some (body c) \<and> free_core B ext M Live rt' Hs ls (U - {p}) (refs (body c) @ pend)"
    using pU Bp by blast
qed


lemma core_links:
  assumes "free_core B ext M Live rt Hs ls U pend" "rings l Hs ls'"
    "\<And>x. (\<exists>h \<in> Hs. x \<in> set (ls' h)) \<longleftrightarrow> (\<exists>h \<in> Hs. x \<in> set (ls h))"
  shows "free_core B ext M Live (rt\<lparr>links := l\<rparr>) Hs ls' U pend"
  by (rule free_coreI) (use free_coreD[OF assms(1)] assms(2,3) in auto)

lemma add_ref_eq:
  "heap rt p = Some c \<Longrightarrow> add_ref p k rt =
    Some (ref_count c + k, rt\<lparr>heap := (heap rt)(p \<mapsto> c\<lparr>ref_count := ref_count c + k\<rparr>)\<rparr>)"
  by (simp add: add_ref_def update_cell_def)

definition freed_to :: "gc_rt \<Rightarrow> ptr set \<Rightarrow> (link \<Rightarrow> ptr list) \<Rightarrow> gc_rt \<Rightarrow> ptr set \<Rightarrow> (link \<Rightarrow> ptr list) \<Rightarrow> bool" where
  "freed_to rt U ls rt' U' ls' \<longleftrightarrow> U' \<subseteq> U \<and> dom (heap rt) - U \<subseteq> dom (heap rt') \<and> dom (heap rt') \<subseteq> dom (heap rt) \<and>
    dom (heap rt') \<inter> U \<subseteq> U' \<and> set (ls' tmp_obj_list) \<subseteq> set (ls tmp_obj_list) \<and> gc_phase rt' = gc_phase rt"

lemma freed_to_trans:
  "freed_to rt U ls rt1 U1 ls1 \<Longrightarrow> freed_to rt1 U1 ls1 rt2 U2 ls2 \<Longrightarrow> freed_to rt U ls rt2 U2 ls2"
  unfolding freed_to_def by (elim conjE, intro conjI; (blast | simp))

lemma release_value_eq:
  "k \<in> {JS_GC_OBJ_TYPE_JS_OBJECT, JS_GC_OBJ_TYPE_FUNCTION_BYTECODE} \<Longrightarrow> heap rt p = Some c \<Longrightarrow>
    release (k, p) rt = (let rt' = rt\<lparr>heap := (heap rt)(p \<mapsto> c\<lparr>ref_count := ref_count c - 1\<rparr>)\<rparr> in
      if ref_count c \<le> 1 then js_free_value_rt (\<lambda>_. None) p rt' else Some rt')"
  by (auto simp: release.simps free_value_def add_ref_eq Let_def)

lemma value_collectable: "value_type b \<Longrightarrow> collectable b"
  by (cases b) (simp_all add: value_type_def)

lemma release_value:
  assumes inv: "free_inv B ext M Live L rt Hs ls U cur ((k, p) # pend)"
    and k: "k \<in> {JS_GC_OBJ_TYPE_JS_OBJECT, JS_GC_OBJ_TYPE_FUNCTION_BYTECODE}"
  obtains rt' ls' where "release (k, p) rt = Some rt'" "free_inv B ext M Live L rt' Hs ls' U cur pend"
    "freed_to rt U ls rt' U ls'"
proof -
  have f: "free_core B ext M Live rt Hs ls U ((k, p) # pend)" and ph: "phase_inv Live L rt Hs ls U cur"
    using inv by (simp_all add: free_inv_def)
  obtain c where c: "heap rt p = Some c" using free_coreD(10)[OF f] by auto
  let ?rt = "rt\<lparr>heap := (heap rt)(p \<mapsto> c\<lparr>ref_count := ref_count c - 1\<rparr>)\<rparr>"
  note d = core_decrement[OF f c]
  have v: "value_type (body c)" using d(2) k by (auto simp: value_type_def)
  have core: "free_core B ext M Live ?rt Hs ls U pend" using d(3) v by simp
  have rel: "release (k, p) rt = (if ref_count c \<le> 1 then js_free_value_rt (\<lambda>_. None) p ?rt else Some ?rt)"
    by (simp add: release_value_eq[OF k c] Let_def)
  have dom: "dom (heap ?rt) = dom (heap rt)" using c by auto
  have to: "freed_to rt U ls ?rt U ls" using dom by (simp add: freed_to_def)
  show thesis
  proof (cases "gc_phase rt")
    case JS_GC_PHASE_NONE
    then show ?thesis using ph by (simp add: phase_inv_def)
  next
    case JS_GC_PHASE_REMOVE_CYCLES
    then have "release (k, p) rt = Some ?rt" using rel by (simp add: js_free_value_rt_def)
    moreover have "phase_inv Live L ?rt Hs ls U cur"
      using ph c v JS_GC_PHASE_REMOVE_CYCLES by (auto simp: phase_inv_def)
    ultimately show ?thesis using that core to by (simp add: free_inv_def)
  next
    case JS_GC_PHASE_DECREF
    then have pi: "Hs = {gc_obj_list, gc_zero_ref_count_list}"
      "\<And>x cx. heap rt x = Some cx \<Longrightarrow> value_type (body cx) \<Longrightarrow>
         if x \<in> U then x \<in> set (ls gc_zero_ref_count_list) \<longleftrightarrow> ref_count cx = 0 else x \<in> cur \<and> ref_count cx = 0"
      "\<And>x. x \<in> set (ls gc_zero_ref_count_list) \<Longrightarrow> \<exists>cx. heap rt x = Some cx \<and> value_type (body cx)"
      using ph by (simp_all add: phase_inv_def)
    have p: "p \<in> U" "p \<notin> set (ls gc_zero_ref_count_list)" using pi(2)[OF c v] d(1) by (auto split: if_splits)
    show ?thesis
    proof (cases "ref_count c \<le> 1")
      case False
      have "phase_inv Live L ?rt Hs ls U cur"
        using pi(1,2) pi(3) c v p False JS_GC_PHASE_DECREF by (auto simp: phase_inv_def)
      then show ?thesis using that core to rel False by (simp add: free_inv_def)
    next
      case True
      have "\<exists>h \<in> Hs. p \<in> set (ls h)" using free_coreD(7)[OF f, of p] c value_collectable[OF v] by auto
      then have p2: "p \<in> set (ls gc_obj_list)" using p pi(1) by auto
      let ?ls = "(ls(gc_obj_list := remove1 p (ls gc_obj_list)))(gc_zero_ref_count_list :=
        put_at True p ((ls(gc_obj_list := remove1 p (ls gc_obj_list))) gc_zero_ref_count_list))"
      have r: "rings (links rt) Hs ls" by (rule free_coreD(5)[OF f])
      have h: "gc_obj_list \<in> Hs" "gc_zero_ref_count_list \<in> Hs" using pi(1) by simp_all
      obtain l1 l2 where l: "list_del (links rt) (Link p) = Some l1"
        "(if True then list_add else list_add_tail) l1 (Link p) gc_zero_ref_count_list = Some l2"
        "rings l2 Hs ?ls" "\<And>x. (\<exists>h \<in> Hs. x \<in> set (?ls h)) \<longleftrightarrow> (\<exists>h \<in> Hs. x \<in> set (ls h))"
        by (rule rings_move[OF r h(1) p2 h(2), where front = True]; rule that)
      let ?rt2 = "?rt\<lparr>links := l2\<rparr>"
      have "release (k, p) rt = Some ?rt2"
        using rel True l(1,2) JS_GC_PHASE_DECREF by (simp add: js_free_value_rt_def rt_list_del_def rt_list_add_def)
      moreover have "free_core B ext M Live ?rt2 Hs ?ls U pend" by (rule core_links[OF core l(3,4)])
      moreover have "phase_inv Live L ?rt2 Hs ?ls U cur"
        using pi(1,2) pi(3) c v p True d(1) JS_GC_PHASE_DECREF by (auto simp: phase_inv_def)
      moreover have "freed_to rt U ls ?rt2 U ?ls" using dom by (simp add: freed_to_def)
      ultimately show ?thesis using that by (simp add: free_inv_def)
    qed
  qed
qed


section \<open>Structures that are freed at once\<close>

lemma release_other_eq:
  assumes c: "heap rt p = Some c" "gc_type (body c) = k" and nv: "\<not> value_type (body c)" and ge: "ref_count c \<ge> 1"
  shows "release (k, p) rt = (let rt1 = rt\<lparr>heap := (heap rt)(p \<mapsto> c\<lparr>ref_count := ref_count c - 1\<rparr>)\<rparr> in
    if ref_count c > 1 then Some rt1 else do {
      rt2 \<leftarrow> each release (refs (body c)) rt1;
      rt3 \<leftarrow> (if collectable (body c) then remove_gc_object p rt2 else Some rt2);
      js_free_rt p rt3 })"
proof (cases "body c")
  case (JSShape sh)
  then have k: "k = JS_GC_OBJ_TYPE_SHAPE" using c(2) by simp
  show ?thesis using c(1) JSShape ge unfolding k
    by (auto simp: release.simps js_free_shape_def js_free_shape0_def add_ref_eq Let_def check_def get_shape_def
        free_object_pointer_release)
next
  case (JSVarRef v)
  then have k: "k = JS_GC_OBJ_TYPE_VAR_REF" using c(2) by simp
  show ?thesis using c(1) JSVarRef ge unfolding k
    by (auto simp: release.simps free_var_ref_def add_ref_eq Let_def check_def free_value_release split: bind_split)
next
  case (JSContext ctx)
  then have k: "k = JS_GC_OBJ_TYPE_JS_CONTEXT" using c(2) by simp
  have "each release (shape_refs ctx) rt = do {
       rt \<leftarrow> js_free_shape_null (array_shape ctx) rt;
       rt \<leftarrow> js_free_shape_null (arguments_shape ctx) rt;
       rt \<leftarrow> js_free_shape_null (mapped_arguments_shape ctx) rt;
       rt \<leftarrow> js_free_shape_null (regexp_shape ctx) rt;
       js_free_shape_null (regexp_result_shape ctx) rt }" for rt
    unfolding shape_refs_def context_shapes_def map_append each_append free_shape_null_release[symmetric]
    by (simp cong: Option.bind_cong)
  then show ?thesis using c(1) JSContext ge unfolding k
    by (auto simp: release.simps JS_FreeContext_def add_ref_eq Let_def check_def free_values_release each_append
        cong: Option.bind_cong)
qed (use nv in \<open>simp_all add: value_type_def\<close>)

lemma core_delete:
  assumes inv: "free_inv B ext M Live L rt Hs ls U cur pend" and x: "x \<notin> U" "heap rt x = Some c" "ref_count c = 0"
    and cur: "cur - {x} \<subseteq> cur'"
  obtains rt' ls' where
    "(do { rt3 \<leftarrow> (if collectable (body c) then remove_gc_object x rt else Some rt); js_free_rt x rt3 }) = Some rt'"
    "free_inv B ext M Live L rt' Hs ls' U cur' pend" "heap rt' = (heap rt)(x := None)" "gc_phase rt' = gc_phase rt"
    "ls' = (\<lambda>g. remove1 x (ls g))"
proof -
  have f: "free_core B ext M Live rt Hs ls U pend" and ph: "phase_inv Live L rt Hs ls U cur"
    using inv by (simp_all add: free_inv_def)
  note fd = free_coreD[OF f]
  have zero: "in_refs B U x = 0" "count_list (map snd pend) x = 0"
    using fd(8)[OF x(2)] x(3) by (auto simp: cell_ok_def)
  have nopend: "x \<notin> snd ` set pend" using zero(2) by (auto simp: count_list_0_iff)
  have norefs: "x \<notin> set (ref_ptrs B p)" if "p \<in> U" for p
    using in_refs_ge[OF fd(2) that, of B x] zero(1) by (auto simp: count_list_0_iff[symmetric])
  let ?ls = "\<lambda>g. remove1 x (ls g)"
  have r: "rings (links rt) Hs ls" by (rule fd(5))
  have sets: "set (?ls g) = set (ls g) - {x}" if "g \<in> Hs" for g by (rule set_remove1_eq[OF rings_distinct[OF r that]])
  have "\<exists>l. (if collectable (body c) then remove_gc_object x rt else Some rt) = Some (rt\<lparr>links := l\<rparr>) \<and> rings l Hs ?ls"
  proof (cases "collectable (body c)")
    case True
    then obtain h where h: "h \<in> Hs" "x \<in> set (ls h)" using fd(7)[of x] x(2) by auto
    obtain l where l: "list_del (links rt) (Link x) = Some l" "rings l Hs (ls(h := remove1 x (ls h)))"
      by (rule rings_del[OF r h]; rule that)
    have "(ls(h := remove1 x (ls h))) g = ?ls g" if "g \<in> Hs" for g
    proof (cases "g = h")
      case False
      then have "set (ls g) \<inter> set (ls h) = {}" using r that h(1) by (simp add: rings_def)
      then have "x \<notin> set (ls g)" using h(2) by blast
      then show ?thesis using False by (simp add: remove1_idem)
    qed simp
    then have "rings l Hs ?ls" using l(2) by (simp add: rings_def)
    then show ?thesis using l(1) True by (intro exI[of _ l]) (simp add: remove_gc_object_def rt_list_del_def)
  next
    case False
    then have "\<not> (\<exists>g \<in> Hs. x \<in> set (ls g))" using fd(7)[of x] x(2) by simp
    then have "?ls g = ls g" if "g \<in> Hs" for g using that by (simp add: remove1_idem)
    then have "rings (links rt) Hs ?ls" using r by (simp add: rings_def)
    then show ?thesis using False by (intro exI[of _ "links rt"]) simp
  qed
  then obtain l where l: "(if collectable (body c) then remove_gc_object x rt else Some rt) = Some (rt\<lparr>links := l\<rparr>)"
    "rings l Hs ?ls" by blast
  let ?rt = "rt\<lparr>links := l(Link x := None), heap := (heap rt)(x := None)\<rparr>"
  have rings: "rings (l(Link x := None)) Hs ?ls"
  proof (rule rings_cong[OF l(2)])
    fix y assume "y \<in> insert tmp_obj_list (Hs \<union> {Link p |p h. h \<in> Hs \<and> p \<in> set (?ls h)})"
    then have "y \<noteq> Link x" using sets l(2) by (auto simp: rings_def)
    then show "(l(Link x := None)) y = l y" by simp
  qed
  have mem: "(\<exists>h \<in> Hs. p \<in> set (?ls h)) \<longleftrightarrow> p \<noteq> x \<and> (\<exists>h \<in> Hs. p \<in> set (ls h))" for p using sets by auto
  have core: "free_core B ext M Live ?rt Hs ?ls U pend"
  proof (rule free_coreI)
    fix p
    show "(\<exists>h \<in> Hs. p \<in> set (?ls h)) \<longleftrightarrow> (\<exists>c. heap ?rt p = Some c \<and> collectable (body c))"
      using mem[of p] fd(7)[of p] by auto
  next
    fix p assume "p \<in> U"
    then show "set (ref_ptrs B p) \<subseteq> dom (heap ?rt)" using fd(9) norefs by auto
  next
    show "snd ` set pend \<subseteq> dom (heap ?rt)" using fd(10) nopend by auto
    show "U \<subseteq> dom (heap ?rt)" using fd(3) x(1) by auto
    fix p cp assume "heap ?rt p = Some cp"
    then show "cell_ok B ext M U pend p cp" using fd(8)[of p cp] by (auto split: if_splits)
  qed (use fd rings in auto)
  have "phase_inv Live L ?rt Hs ?ls U cur'"
  proof (cases "gc_phase rt")
    case JS_GC_PHASE_NONE
    then show ?thesis using ph by (simp add: phase_inv_def)
  next
    case JS_GC_PHASE_DECREF
    then have pi: "Hs = {gc_obj_list, gc_zero_ref_count_list}"
      "\<And>x cx. heap rt x = Some cx \<Longrightarrow> value_type (body cx) \<Longrightarrow>
         if x \<in> U then x \<in> set (ls gc_zero_ref_count_list) \<longleftrightarrow> ref_count cx = 0 else x \<in> cur \<and> ref_count cx = 0"
      "\<And>x. x \<in> set (ls gc_zero_ref_count_list) \<Longrightarrow> \<exists>cx. heap rt x = Some cx \<and> value_type (body cx)"
      using ph by (simp_all add: phase_inv_def)
    have z: "set (?ls gc_zero_ref_count_list) = set (ls gc_zero_ref_count_list) - {x}" using sets pi(1) by simp
    show ?thesis using JS_GC_PHASE_DECREF pi cur x(1) unfolding phase_inv_def z by (auto split: if_splits)
  next
    case JS_GC_PHASE_REMOVE_CYCLES
    then have pi: "Hs = {gc_obj_list, gc_zero_ref_count_list, tmp_obj_list}" "ls gc_obj_list = L" "set L \<subseteq> Live"
      "\<And>p c. heap rt p = Some c \<Longrightarrow> value_type (body c) \<Longrightarrow>
            if p \<in> U then p \<in> set (ls tmp_obj_list) \<longleftrightarrow> p \<notin> Live else p \<in> set (ls tmp_obj_list) \<longrightarrow> p \<in> cur"
      using ph by (simp_all add: phase_inv_def)
    have z: "set (?ls tmp_obj_list) = set (ls tmp_obj_list) - {x}" using sets pi(1) by simp
    have "x \<notin> set L" using pi(3) fd(4) x(1) by auto
    then have "remove1 x L = L" by (simp add: remove1_idem)
    then show ?thesis using JS_GC_PHASE_REMOVE_CYCLES pi cur x(1) unfolding phase_inv_def z
      by (auto split: if_splits)
  qed
  then have "free_inv B ext M Live L ?rt Hs ?ls U cur' pend" using core by (simp add: free_inv_def)
  moreover have "js_free_rt x (rt\<lparr>links := l\<rparr>) = Some ?rt" using x(2) by (simp add: js_free_rt_def)
  ultimately show thesis using that[of ?rt ?ls] l(1) by simp
qed


section \<open>Releasing references\<close>

text \<open>Freeing a context releases shapes, freeing a shape or a variable reference releases values, which frees nothing.\<close>

fun depth :: "gc_obj_type \<Rightarrow> nat" where
  "depth JS_GC_OBJ_TYPE_JS_OBJECT = 0"
| "depth JS_GC_OBJ_TYPE_FUNCTION_BYTECODE = 0"
| "depth JS_GC_OBJ_TYPE_SHAPE = 1"
| "depth JS_GC_OBJ_TYPE_VAR_REF = 1"
| "depth JS_GC_OBJ_TYPE_JS_CONTEXT = 2"

definition releases :: "(ptr \<Rightarrow> gc_body option) \<Rightarrow> (ptr \<Rightarrow> nat) \<Rightarrow> ptr set \<Rightarrow> ptr set \<Rightarrow> ptr list \<Rightarrow> link set \<Rightarrow> ptr set \<Rightarrow> nat \<Rightarrow> bool" where
  "releases B ext M Live L Hs cur n \<longleftrightarrow>
    (\<forall>k p pend rt ls U. depth k < n \<longrightarrow> free_inv B ext M Live L rt Hs ls U cur ((k, p) # pend) \<longrightarrow>
      (\<exists>rt' ls' U'. release (k, p) rt = Some rt' \<and> free_inv B ext M Live L rt' Hs ls' U' cur pend \<and>
        freed_to rt U ls rt' U' ls'))"

lemma freed_to_refl: "freed_to rt U ls rt U ls"
  by (simp add: freed_to_def)

lemma each_releases:
  assumes "releases B ext M Live L Hs cur n" "\<forall>(k, p) \<in> set rs. depth k < n"
    "free_inv B ext M Live L rt Hs ls U cur (rs @ pend)"
  shows "\<exists>rt' ls' U'. each release rs rt = Some rt' \<and> free_inv B ext M Live L rt' Hs ls' U' cur pend \<and>
    freed_to rt U ls rt' U' ls'"
  using assms(2,3)
proof (induction rs arbitrary: rt ls U)
  case Nil
  then show ?case using freed_to_refl[of rt U ls] by (intro exI[of _ rt] exI[of _ ls] exI[of _ U]) simp
next
  case (Cons r rs)
  obtain k p where r: "r = (k, p)" by fastforce
  have "depth k < n" "free_inv B ext M Live L rt Hs ls U cur ((k, p) # rs @ pend)" using Cons.prems r by simp_all
  then obtain rt1 ls1 U1 where 1: "release (k, p) rt = Some rt1" "free_inv B ext M Live L rt1 Hs ls1 U1 cur (rs @ pend)"
    "freed_to rt U ls rt1 U1 ls1" using assms(1) unfolding releases_def by blast
  obtain rt2 ls2 U2 where 2: "each release rs rt1 = Some rt2" "free_inv B ext M Live L rt2 Hs ls2 U2 cur pend"
    "freed_to rt1 U1 ls1 rt2 U2 ls2" using Cons.IH[OF _ 1(2)] Cons.prems(1) by auto
  show ?case using 1(1) 2(1,2) freed_to_trans[OF 1(3) 2(3)] r by auto
qed

lemma depth_values: "(k, q) \<in> set (value_refs v) \<Longrightarrow> depth k = 0"
  by (cases v) auto

lemma depth_refs:
  assumes "\<not> value_type b" "(k, q) \<in> set (refs b)"
  shows "depth k < depth (gc_type b)"
  using assms by (cases b) (auto simp: value_type_def object_ref_def values_refs_def shape_refs_def
      split: if_splits dest!: depth_values)

lemma phase_inv_dec:
  assumes "phase_inv Live L rt Hs ls U cur" "heap rt p = Some c" "\<not> value_type (body c)" "U' \<union> {p} = U \<union> {p}"
  shows "phase_inv Live L (rt\<lparr>heap := (heap rt)(p \<mapsto> c\<lparr>ref_count := n\<rparr>)\<rparr>) Hs ls U' cur"
proof -
  have "x \<in> U' \<longleftrightarrow> x \<in> U" if "x \<noteq> p" for x using assms(4) that by blast
  then show ?thesis using assms(1-3) unfolding phase_inv_def
    by (cases "gc_phase rt") (auto split: if_splits)
qed

lemma releases_step:
  assumes IH: "releases B ext M Live L Hs cur n" and k: "depth k = n" "0 < n"
    and inv: "free_inv B ext M Live L rt Hs ls U cur ((k, p) # pend)"
  shows "\<exists>rt' ls' U'. release (k, p) rt = Some rt' \<and> free_inv B ext M Live L rt' Hs ls' U' cur pend \<and>
    freed_to rt U ls rt' U' ls'"
proof -
  have f: "free_core B ext M Live rt Hs ls U ((k, p) # pend)" and ph: "phase_inv Live L rt Hs ls U cur"
    using inv by (simp_all add: free_inv_def)
  obtain c where c: "heap rt p = Some c" using free_coreD(10)[OF f] by auto
  note d = core_decrement[OF f c]
  let ?rt = "rt\<lparr>heap := (heap rt)(p \<mapsto> c\<lparr>ref_count := ref_count c - 1\<rparr>)\<rparr>"
  have nv: "\<not> value_type (body c)" using d(2) k by (auto simp: value_type_def)
  note eq = release_other_eq[OF c d(2) nv d(1), unfolded Let_def]
  have dom: "dom (heap ?rt) = dom (heap rt)" using c by auto
  show ?thesis
  proof (cases "ref_count c > 1")
    case True
    have "free_inv B ext M Live L ?rt Hs ls U cur pend"
      using d(3) True phase_inv_dec[OF ph c nv, of U] by (simp add: free_inv_def)
    moreover have "freed_to rt U ls ?rt U ls" using dom by (simp add: freed_to_def)
    ultimately show ?thesis using eq True by auto
  next
    case False
    then have "ref_count c = 1" using d(1) by simp
    note e = d(4)[OF nv this]
    have inv1: "free_inv B ext M Live L ?rt Hs ls (U - {p}) cur (refs (body c) @ pend)"
      using e phase_inv_dec[OF ph c nv, of "U - {p}"] by (simp add: free_inv_def)
    have "\<forall>(k', q) \<in> set (refs (body c)). depth k' < n" using depth_refs[OF nv] d(2) k(1) by auto
    from each_releases[OF IH this inv1] obtain rt2 ls2 U2 where 2: "each release (refs (body c)) ?rt = Some rt2"
      "free_inv B ext M Live L rt2 Hs ls2 U2 cur pend" "freed_to ?rt (U - {p}) ls rt2 U2 ls2" by blast
    have f2: "free_core B ext M Live rt2 Hs ls2 U2 pend" using 2(2) by (simp add: free_inv_def)
    have p2: "p \<notin> U2" "p \<in> dom (heap rt2)" using 2(3) c dom by (auto simp: freed_to_def)
    then obtain c2 where c2: "heap rt2 p = Some c2" by auto
    have ok2: "cell_ok B ext M U2 pend p c2" by (rule free_coreD(8)[OF f2 c2])
    have body2: "body c2 = body c" using ok2 e d(2) k by (auto simp: cell_ok_def)
    then have "ref_count c2 = 0" using ok2 nv p2(1) by (auto simp: cell_ok_def)
    then obtain rt3 where 3: "(do { rt3 \<leftarrow> (if collectable (body c2) then remove_gc_object p rt2 else Some rt2);
        js_free_rt p rt3 }) = Some rt3"
      "free_inv B ext M Live L rt3 Hs (\<lambda>g. remove1 p (ls2 g)) U2 cur pend" "heap rt3 = (heap rt2)(p := None)"
      "gc_phase rt3 = gc_phase rt2"
      using core_delete[OF 2(2) p2(1) c2, of cur] by auto
    have "release (k, p) rt = Some rt3" using eq False 2(1) 3(1) body2 by simp
    moreover have "freed_to rt U ls rt3 U2 (\<lambda>g. remove1 p (ls2 g))"
    proof -
      have "p \<in> U" using e by blast
      then have "dom (heap rt) - U \<subseteq> dom (heap rt3)" using 2(3) 3(3) dom by (auto simp: freed_to_def)
      moreover have "dom (heap rt3) \<subseteq> dom (heap rt)" using 2(3) 3(3) dom unfolding freed_to_def by auto
      moreover have "set (remove1 p (ls2 tmp_obj_list)) \<subseteq> set (ls tmp_obj_list)"
        using 2(3) set_remove1_subset[of p "ls2 tmp_obj_list"] by (auto simp: freed_to_def)
      moreover have "dom (heap rt3) \<inter> U \<subseteq> U2" using 2(3) 3(3) unfolding freed_to_def by auto
      ultimately show ?thesis using 2(3) 3(4) by (auto simp: freed_to_def)
    qed
    ultimately show ?thesis using 3(2) by blast
  qed
qed

lemma releases_all: "releases B ext M Live L Hs cur n"
proof (induction n)
  case (Suc n)
  show ?case unfolding releases_def
  proof (intro allI impI)
    fix k p pend rt ls U
    assume k: "depth k < Suc n" and inv: "free_inv B ext M Live L rt Hs ls U cur ((k, p) # pend)"
    consider "depth k < n" | "depth k = n" "0 < n" | "depth k = 0" using k by linarith
    then show "\<exists>rt' ls' U'. release (k, p) rt = Some rt' \<and> free_inv B ext M Live L rt' Hs ls' U' cur pend \<and>
        freed_to rt U ls rt' U' ls'"
    proof cases
      case 1
      then show ?thesis using Suc.IH inv unfolding releases_def by blast
    next
      case 2
      then show ?thesis by (rule releases_step[OF Suc.IH _ _ inv])
    next
      case 3
      then have "k \<in> {JS_GC_OBJ_TYPE_JS_OBJECT, JS_GC_OBJ_TYPE_FUNCTION_BYTECODE}" by (cases k) auto
      then show ?thesis using release_value[OF inv] by metis
    qed
  qed
qed (simp add: releases_def)

lemma release_each:
  assumes "free_inv B ext M Live L rt Hs ls U cur (rs @ pend)"
  obtains rt' ls' U' where "each release rs rt = Some rt'" "free_inv B ext M Live L rt' Hs ls' U' cur pend"
    "freed_to rt U ls rt' U' ls'"
proof -
  have "\<forall>(k, p) \<in> set rs. depth k < 3"
  proof safe
    fix k p show "depth k < 3" by (cases k) simp_all
  qed
  from each_releases[OF releases_all this assms] show thesis using that by blast
qed


section \<open>Freeing an object or bytecode\<close>

lemma update_zombie:
  assumes inv: "free_inv B ext M Live L rt Hs ls U cur pend" and p: "p \<notin> U" "heap rt p = Some c" "body c = JSObject ob"
  obtains rt' where "update_object p f rt = Some rt'" "free_inv B ext M Live L rt' Hs ls U cur pend"
    "heap rt' = (heap rt)(p \<mapsto> c\<lparr>body := JSObject (f ob)\<rparr>)" "gc_phase rt' = gc_phase rt"
proof -
  let ?rt = "rt\<lparr>heap := (heap rt)(p \<mapsto> c\<lparr>body := JSObject (f ob)\<rparr>)\<rparr>"
  have f: "free_core B ext M Live rt Hs ls U pend" and ph: "phase_inv Live L rt Hs ls U cur"
    using inv by (simp_all add: free_inv_def)
  note fd = free_coreD[OF f]
  have cp: "cell_ok B ext M U pend p c" by (rule fd(8)[OF p(2)])
  have dom: "dom (heap ?rt) = dom (heap rt)" using p(2) by auto
  have coll: "(\<exists>c. heap ?rt x = Some c \<and> collectable (body c)) \<longleftrightarrow> (\<exists>c. heap rt x = Some c \<and> collectable (body c))" for x
    using p by auto
  have "free_core B ext M Live ?rt Hs ls U pend"
  proof (rule free_coreI)
    fix x cx assume x: "heap ?rt x = Some cx"
    show "cell_ok B ext M U pend x cx"
    proof (cases "x = p")
      case True
      then have cx: "cx = c\<lparr>body := JSObject (f ob)\<rparr>" using x by simp
      have "gc_type (body c) = JS_GC_OBJ_TYPE_JS_OBJECT" using p(3) by simp
      then show ?thesis using cp p(1) True unfolding cx by (auto simp: cell_ok_def value_type_def)
    next
      case False
      then show ?thesis using x fd(8)[of x cx] by simp
    qed
  qed (use fd dom coll in auto)
  moreover have "phase_inv Live L ?rt Hs ls U cur"
  proof (rule phase_cases[OF ph])
    have vp: "value_type (body c)" using p(3) by (simp add: value_type_def)
    have old: "heap rt x = Some cx" if "heap ?rt x = Some cx" "x \<in> U" for x cx using that p(1) by (auto split: if_splits)
    have oldp: "x = p \<and> ref_count cx = ref_count c \<or> heap rt x = Some cx" if "heap ?rt x = Some cx" for x cx
      using that by (auto split: if_splits)
    show ?thesis if dec: "gc_phase rt = JS_GC_PHASE_DECREF"
    proof (rule decref_invI)
      fix x cx assume x: "heap ?rt x = Some cx" "value_type (body cx)"
      show "x \<in> set (ls gc_zero_ref_count_list) \<longleftrightarrow> ref_count cx = 0" if "x \<in> U"
        by (rule decref_invD(2)[OF ph dec old[OF x(1) that] x(2) that])
      show "x \<in> cur \<and> ref_count cx = 0" if "x \<notin> U"
        using oldp[OF x(1)] decref_invD(3,4)[OF ph dec p(2) vp p(1)] decref_invD(3,4)[OF ph dec _ x(2) that] by auto
    next
      fix x assume "x \<in> set (ls gc_zero_ref_count_list)"
      from decref_invD(5)[OF ph dec this] show "\<exists>c. heap ?rt x = Some c \<and> value_type (body c)"
        by (cases "x = p") (simp_all add: value_type_def)
    qed (use dec decref_invD(1)[OF ph dec] in simp_all)
    show ?thesis if rem: "gc_phase rt = JS_GC_PHASE_REMOVE_CYCLES"
    proof (rule cycles_invI)
      fix x cx assume x: "heap ?rt x = Some cx" "value_type (body cx)"
      show "x \<in> set (ls tmp_obj_list) \<longleftrightarrow> x \<notin> Live" if "x \<in> U"
        by (rule cycles_invD(4)[OF ph rem old[OF x(1) that] x(2) that])
      show "x \<in> cur" if "x \<notin> U" "x \<in> set (ls tmp_obj_list)"
        using oldp[OF x(1)] cycles_invD(5)[OF ph rem p(2) vp p(1)] cycles_invD(5)[OF ph rem _ x(2) that] that(2) by auto
    qed (use rem cycles_invD(1-3)[OF ph rem] in simp_all)
  qed
  ultimately have "free_inv B ext M Live L ?rt Hs ls U cur pend" by (simp add: free_inv_def)
  moreover have "update_object p f rt = Some ?rt"
    using p by (simp add: update_object_def get_object_def update_cell_def)
  ultimately show thesis using that by simp
qed

lemma free_or_keep_inv:
  assumes inv: "free_inv B ext M Live L rt Hs ls U {p} []" and p: "p \<notin> U" "heap rt p = Some c" "value_type (body c)"
  obtains rt' ls' where "free_or_keep p rt = Some rt'" "free_inv B ext M Live L rt' Hs ls' U {} []"
    "gc_phase rt' = gc_phase rt" "dom (heap rt') \<subseteq> dom (heap rt)" "set (ls' tmp_obj_list) \<subseteq> set (ls tmp_obj_list)"
proof -
  have f: "free_core B ext M Live rt Hs ls U []" and ph: "phase_inv Live L rt Hs ls U {p}"
    using inv by (simp_all add: free_inv_def)
  note fd = free_coreD[OF f]
  note coll = value_collectable[OF p(3)]
  obtain h where h: "h \<in> Hs" "p \<in> set (ls h)" using fd(7)[of p] p(2) coll by auto
  have r: "rings (links rt) Hs ls" by (rule fd(5))
  show thesis
  proof (cases "gc_phase rt = JS_GC_PHASE_REMOVE_CYCLES \<and> ref_count c \<noteq> 0")
    case True
    then have pi: "Hs = {gc_obj_list, gc_zero_ref_count_list, tmp_obj_list}" "ls gc_obj_list = L" "set L \<subseteq> Live"
      using cycles_invD[OF ph] by simp_all
    have g: "gc_zero_ref_count_list \<in> Hs" using pi(1) by simp
    let ?ls1 = "ls(h := remove1 p (ls h))"
    let ?ls = "?ls1(gc_zero_ref_count_list := put_at False p (?ls1 gc_zero_ref_count_list))"
    obtain l1 l2 where l: "list_del (links rt) (Link p) = Some l1"
      "(if False then list_add else list_add_tail) l1 (Link p) gc_zero_ref_count_list = Some l2" "rings l2 Hs ?ls"
      "\<And>x. (\<exists>h \<in> Hs. x \<in> set (?ls h)) \<longleftrightarrow> (\<exists>h \<in> Hs. x \<in> set (ls h))"
      by (rule rings_move[OF r h g, where front = False]; rule that)
    let ?rt = "rt\<lparr>links := l2\<rparr>"
    have "free_or_keep p rt = Some ?rt" using l(1,2) True p(2)
      by (simp add: free_or_keep_def remove_gc_object_def rt_list_del_def rt_list_add_tail_def)
    moreover have "free_core B ext M Live ?rt Hs ?ls U []" by (rule core_links[OF f l(3,4)])
    moreover have "phase_inv Live L ?rt Hs ?ls U {}"
    proof -
      have "h \<noteq> gc_obj_list" using h(2) pi(2,3) fd(4) p(1) by auto
      then have "?ls gc_obj_list = L" using pi(2) by simp
      moreover have tmp: "set (?ls tmp_obj_list) = set (ls tmp_obj_list) - {p}"
      proof (cases "h = tmp_obj_list")
        case True
        then show ?thesis using set_remove1_eq[OF rings_distinct[OF r h(1)]] by simp
      next
        case False
        have "set (ls h) \<inter> set (ls tmp_obj_list) = {}" using r h(1) False pi(1) unfolding rings_def by blast
        then show ?thesis using False h(2) by auto
      qed
      ultimately show ?thesis
        by (intro cycles_invI) (use True pi(1,3) cycles_invD(4,5)[OF ph] p(1) in auto)
    qed
    moreover have "set (?ls tmp_obj_list) \<subseteq> set (ls tmp_obj_list)" using set_remove1_subset[of p "ls h"] by auto
    ultimately show ?thesis using that[of ?rt ?ls] by (simp add: free_inv_def)
  next
    case False
    have zero: "ref_count c = 0"
    proof (cases "gc_phase rt")
      case JS_GC_PHASE_NONE
      then show ?thesis using ph by (simp add: phase_inv_def)
    next
      case JS_GC_PHASE_DECREF
      then have "if p \<in> U then p \<in> set (ls gc_zero_ref_count_list) \<longleftrightarrow> ref_count c = 0 else p \<in> {p} \<and> ref_count c = 0"
        using ph p(2,3) unfolding phase_inv_def by simp
      then show ?thesis using p(1) by simp
    qed (use False in simp)
    obtain rt' where rt': "(do { rt3 \<leftarrow> (if collectable (body c) then remove_gc_object p rt else Some rt);
        js_free_rt p rt3 }) = Some rt'"
      "free_inv B ext M Live L rt' Hs (\<lambda>g. remove1 p (ls g)) U {} []" "gc_phase rt' = gc_phase rt"
      "heap rt' = (heap rt)(p := None)"
      using core_delete[OF inv p(1,2) zero, of "{}"] by auto
    obtain l1 where l1: "list_del (links rt) (Link p) = Some l1" using rings_del[OF r h] by metis
    have "free_or_keep p rt = Some rt'"
      using rt'(1) coll False p(2) l1 by (auto simp: free_or_keep_def remove_gc_object_def rt_list_del_def)
    moreover have "dom (heap rt') \<subseteq> dom (heap rt)" using rt'(4) by auto
    ultimately show ?thesis using that rt'(2,3) set_remove1_subset[of p "ls tmp_obj_list"] by blast
  qed
qed

lemma begin_release_core:
  assumes f: "free_core B ext M Live rt Hs ls U []" and p: "p \<in> U" "p \<notin> Live" "heap rt p = Some c" "value_type (body c)"
  shows "B p = Some (body c)" "free_core B ext M Live rt Hs ls (U - {p}) (refs (body c))"
proof -
  note fd = free_coreD[OF f]
  have cp: "cell_ok B ext M U [] p c" by (rule fd(8)[OF p(3)])
  show Bp: "B p = Some (body c)" using cp p(1) by (auto simp: cell_ok_def)
  then have rp: "ref_ptrs B p = map snd (refs (body c))" by (simp add: ref_ptrs_def)
  have sum: "in_refs B U x = in_refs B (U - {p}) x + count_list (map snd (refs (body c))) x" for x
    using in_refs_remove[OF fd(2) p(1), of B x] rp by simp
  show "free_core B ext M Live rt Hs ls (U - {p}) (refs (body c))"
  proof (rule free_coreI)
    fix x cx assume x: "heap rt x = Some cx"
    show "cell_ok B ext M (U - {p}) (refs (body c)) x cx"
    proof (cases "x = p")
      case True
      then have "cx = c" using x p(3) by simp
      then show ?thesis using cp p(2,4) Bp sum[of p] True unfolding cell_ok_def by simp
    next
      case False
      then have "cell_ok B ext M U [] x cx \<longleftrightarrow> cell_ok B ext M (U - {p}) (refs (body c)) x cx"
        unfolding cell_ok_def sum[of x] by (simp add: add.assoc)
      then show ?thesis using fd(8)[OF x] by simp
    qed
  next
    show "snd ` set (refs (body c)) \<subseteq> dom (heap rt)" using fd(9)[OF p(1)] rp by simp
    show "refs_ok B (refs (body c))" by (rule typed_refs[OF fd(1) Bp])
    show "Live \<subseteq> U - {p}" "U - {p} \<subseteq> dom (heap rt)" using fd(3,4) p(2) by blast+
    show "\<And>p. (\<exists>h \<in> Hs. p \<in> set (ls h)) \<longleftrightarrow> (\<exists>c. heap rt p = Some c \<and> collectable (body c))" by (rule fd(7))
    show "\<And>p. p \<in> Live \<Longrightarrow> ext p > 0 \<or> (\<exists>q \<in> Live. p \<in> set (ref_ptrs B q))" by (rule fd(6))
    show "\<And>x. x \<in> U - {p} \<Longrightarrow> set (ref_ptrs B x) \<subseteq> dom (heap rt)" using fd(9) by blast
  qed (use fd(1,2,5) in simp_all)
qed

lemma begin_release:
  assumes inv: "free_inv B ext M Live L rt Hs ls U {} []" and p: "p \<in> U" "p \<notin> Live" "heap rt p = Some c" "value_type (body c)"
    and zero: "gc_phase rt = JS_GC_PHASE_DECREF \<Longrightarrow> ref_count c = 0"
  shows "B p = Some (body c)" "free_inv B ext M Live L rt Hs ls (U - {p}) {p} (refs (body c))"
proof -
  have f: "free_core B ext M Live rt Hs ls U []" and ph: "phase_inv Live L rt Hs ls U {}"
    using inv by (simp_all add: free_inv_def)
  show "B p = Some (body c)" by (rule begin_release_core(1)[OF f p])
  have "phase_inv Live L rt Hs ls (U - {p}) {p}"
  proof (rule phase_cases[OF ph])
    show ?thesis if dec: "gc_phase rt = JS_GC_PHASE_DECREF"
    proof (rule decref_invI)
      fix x cx assume x: "heap rt x = Some cx" "value_type (body cx)"
      show "x \<in> set (ls gc_zero_ref_count_list) \<longleftrightarrow> ref_count cx = 0" if "x \<in> U - {p}"
        by (rule decref_invD(2)[OF ph dec x]) (use that in simp)
      show "x \<in> {p} \<and> ref_count cx = 0" if "x \<notin> U - {p}"
        using decref_invD(3)[OF ph dec x] that zero[OF dec] p(3) x(1) by (cases "x = p") simp_all
    qed (use dec decref_invD(1,5)[OF ph dec] in simp_all)
    show ?thesis if rem: "gc_phase rt = JS_GC_PHASE_REMOVE_CYCLES"
    proof (rule cycles_invI)
      fix x cx assume x: "heap rt x = Some cx" "value_type (body cx)"
      show "x \<in> set (ls tmp_obj_list) \<longleftrightarrow> x \<notin> Live" if "x \<in> U - {p}"
        by (rule cycles_invD(4)[OF ph rem x]) (use that in simp)
      show "x \<in> {p}" if "x \<notin> U - {p}" "x \<in> set (ls tmp_obj_list)"
        using cycles_invD(5)[OF ph rem x _ that(2)] that(1) by (cases "x = p") simp_all
    qed (use rem cycles_invD(1-3)[OF ph rem] in simp_all)
  qed
  then show "free_inv B ext M Live L rt Hs ls (U - {p}) {p} (refs (body c))"
    using begin_release_core(2)[OF f p] by (simp add: free_inv_def)
qed


lemma cell_body:
  assumes inv: "free_inv B ext M Live L rt Hs ls U cur pend" and q: "B q = Some b" "q \<in> dom (heap rt)"
    and ne: "gc_type b \<noteq> JS_GC_OBJ_TYPE_JS_OBJECT"
  shows "\<exists>c. heap rt q = Some c \<and> body c = b"
proof -
  obtain c where c: "heap rt q = Some c" using q(2) by auto
  have "cell_ok B ext M U pend q c" using inv free_coreD(8)[OF _ c] by (auto simp: free_inv_def)
  then show ?thesis using q(1) ne c by (auto simp: cell_ok_def)
qed

lemma pending_targets:
  "free_inv B ext M Live L rt Hs ls U cur pend \<Longrightarrow> (k, q) \<in> set pend \<Longrightarrow> q \<in> dom (heap rt)"
  using free_coreD(10)[of B ext M Live rt Hs ls U pend] by (force simp: free_inv_def)

lemma finalizer_inv:
  assumes inv: "free_inv B ext M Live L rt Hs ls U cur (class_refs u)" and t: "class_ok k u" "closure_ok B u"
  obtains rt' ls' U' where "(case class_finalizer k of None \<Rightarrow> Some rt | Some f \<Rightarrow> f u rt) = Some rt'"
    "free_inv B ext M Live L rt' Hs ls' U' cur []" "freed_to rt U ls rt' U' ls'"
proof -
  have "(case class_finalizer k of None \<Rightarrow> Some rt | Some f \<Rightarrow> f u rt) = each release (class_refs u) rt"
  proof (cases "\<exists>home vs b. u = U_func home vs (Some b)")
    case False
    then show ?thesis using finalizer_release[OF t(1)] by blast
  next
    case True
    then obtain home vs b where u: "u = U_func home vs (Some b)" by blast
    let ?rest = "(case vs of None \<Rightarrow> [] | Some vs \<Rightarrow> var_refs_of vs) @ [(JS_GC_OBJ_TYPE_FUNCTION_BYTECODE, b)]"
    have "free_inv B ext M Live L rt Hs ls U cur (object_ref home @ ?rest)" using inv u by simp
    from release_each[OF this] obtain rt1 ls1 U1 where 1: "each release (object_ref home) rt = Some rt1"
      "free_inv B ext M Live L rt1 Hs ls1 U1 cur ?rest" by metis
    have "\<exists>bc. get_bytecode rt1 b = Some bc \<and> closure_var_count bc = length vs'" if vs: "vs = Some vs'" for vs'
    proof -
      obtain bc where bc: "B b = Some (JSFunctionBytecode bc)" "closure_var_count bc = length vs'"
        using t(2) u vs by (auto split: option.splits gc_body.splits)
      have "b \<in> dom (heap rt1)" by (rule pending_targets[OF 1(2), of JS_GC_OBJ_TYPE_FUNCTION_BYTECODE]) simp
      then obtain c where "heap rt1 b = Some c" "body c = JSFunctionBytecode bc" using cell_body[OF 1(2) bc(1)] by auto
      then show ?thesis using bc(2) by (simp add: get_bytecode_def)
    qed
    then show ?thesis unfolding u by (intro function_finalizer_release[OF _ 1(1)]) (use t(1) u in auto)
  qed
  moreover obtain rt' ls' U' where "each release (class_refs u) rt = Some rt'"
    "free_inv B ext M Live L rt' Hs ls' U' cur []" "freed_to rt U ls rt' U' ls'"
    using release_each[of B ext M Live L rt Hs ls U cur "class_refs u" "[]"] inv by auto
  ultimately show thesis using that by simp
qed

lemma freed_to_keeps: "freed_to rt U ls rt' U' ls' \<Longrightarrow> p \<notin> U \<Longrightarrow> p \<in> dom (heap rt) \<Longrightarrow> p \<in> dom (heap rt') \<and> p \<notin> U'"
  by (auto simp: freed_to_def)

lemma zombie_object:
  assumes inv: "free_inv B ext M Live L rt Hs ls U cur pend" and p: "p \<in> dom (heap rt)" "B p = Some (JSObject ob)"
  obtains c ob' where "heap rt p = Some c" "body c = JSObject ob'"
proof -
  obtain c where c: "heap rt p = Some c" using p(1) by auto
  have "cell_ok B ext M U pend p c" using inv free_coreD(8)[OF _ c] by (auto simp: free_inv_def)
  then have "gc_type (body c) = JS_GC_OBJ_TYPE_JS_OBJECT" using p(2) by (auto simp: cell_ok_def)
  then show thesis using that[OF c] by (cases "body c") auto
qed

lemma free_object_inv:
  assumes inv: "free_inv B ext M Live L rt Hs ls U {} []" and p: "p \<in> U" "p \<notin> Live" "heap rt p = Some c"
    and body: "body c = JSObject ob" and zero: "gc_phase rt = JS_GC_PHASE_DECREF \<Longrightarrow> ref_count c = 0"
  obtains rt' ls' U' where "free_object p rt = Some rt'" "free_inv B ext M Live L rt' Hs ls' U' {} []"
    "U' \<subseteq> U - {p}" "gc_phase rt' = gc_phase rt" "set (ls' tmp_obj_list) \<subseteq> set (ls tmp_obj_list)"
    "dom (heap rt') \<subseteq> dom (heap rt)" "dom (heap rt') \<inter> (U - {p}) \<subseteq> U'"
proof -
  have "value_type (body c)" using body by (simp add: value_type_def)
  note b = begin_release[OF inv p this zero]
  have Bp: "B p = Some (JSObject ob)" using b(1) body by simp
  have tB: "typed B" using inv by (simp add: free_inv_def free_core_def)
  obtain sp sh where sh: "obj_shape ob = Some sp" "B sp = Some (JSShape sh)"
    "list_all2 property_ok (obj_prop ob) (sh_prop sh)" "class_ok (obj_class ob) (obj_u ob)" "closure_ok B (obj_u ob)"
    by (rule shape_of_typed[OF tB Bp])
  let ?props = "concat (map property_refs (obj_prop ob))" and ?sp = "(JS_GC_OBJ_TYPE_SHAPE, sp)"
  let ?us = "class_refs (obj_u ob)"
  have refs: "refs (body c) = ?props @ ?sp # ?us" using body sh(1) by (simp add: opt_list_def)
  have nU: "p \<notin> U - {p}" by simp
  obtain rt0 where 0: "update_object p (\<lambda>ob. ob\<lparr>free_mark := True\<rparr>) rt = Some rt0"
    "free_inv B ext M Live L rt0 Hs ls (U - {p}) {p} (?props @ ?sp # ?us)"
    "heap rt0 = (heap rt)(p \<mapsto> c\<lparr>body := JSObject (ob\<lparr>free_mark := True\<rparr>)\<rparr>)" "gc_phase rt0 = gc_phase rt"
    using update_zombie[OF b(2)[unfolded refs] nU p(3) body, of "\<lambda>ob. ob\<lparr>free_mark := True\<rparr>"] by metis
  have ob0: "get_object rt0 p = Some (ob\<lparr>free_mark := True\<rparr>)" using 0(3) by (simp add: get_object_def)
  have "sp \<in> dom (heap rt0)" by (rule pending_targets[OF 0(2), of JS_GC_OBJ_TYPE_SHAPE]) simp
  then have sh0: "get_shape rt0 sp = Some sh" using cell_body[OF 0(2) sh(2)] by (auto simp: get_shape_def)
  have len: "length (sh_prop sh) = length (obj_prop ob)" using sh(3) by (auto dest: list_all2_lengthD)
  obtain rt1 ls1 U1 where 1: "each release ?props rt0 = Some rt1" "free_inv B ext M Live L rt1 Hs ls1 U1 {p} (?sp # ?us)"
    "freed_to rt0 (U - {p}) ls rt1 U1 ls1" by (rule release_each[OF 0(2)]; rule that)
  have "free_inv B ext M Live L rt1 Hs ls1 U1 {p} ([?sp] @ ?us)" using 1(2) by simp
  from release_each[OF this] obtain rt2 ls2 U2 where 2: "each release [?sp] rt1 = Some rt2"
    "free_inv B ext M Live L rt2 Hs ls2 U2 {p} ?us" "freed_to rt1 U1 ls1 rt2 U2 ls2" by metis
  have 12: "freed_to rt0 (U - {p}) ls rt2 U2 ls2" by (rule freed_to_trans[OF 1(3) 2(3)])
  have p2: "p \<in> dom (heap rt2)" "p \<notin> U2" using freed_to_keeps[OF 12 nU] 0(3) by simp_all
  obtain c2 ob2 where c2: "heap rt2 p = Some c2" "body c2 = JSObject ob2" by (rule zombie_object[OF 2(2) p2(1) Bp])
  obtain rt3 where 3: "update_object p (\<lambda>ob. ob\<lparr>obj_shape := None, obj_prop := []\<rparr>) rt2 = Some rt3"
    "free_inv B ext M Live L rt3 Hs ls2 U2 {p} ?us"
    "heap rt3 = (heap rt2)(p \<mapsto> c2\<lparr>body := JSObject (ob2\<lparr>obj_shape := None, obj_prop := []\<rparr>)\<rparr>)"
    "gc_phase rt3 = gc_phase rt2"
    using update_zombie[OF 2(2) p2(2) c2, of "\<lambda>ob. ob\<lparr>obj_shape := None, obj_prop := []\<rparr>"] by metis
  obtain rt4 ls4 U4 where 4: "(case class_finalizer (obj_class ob) of None \<Rightarrow> Some rt3 | Some f \<Rightarrow> f (obj_u ob) rt3) = Some rt4"
    "free_inv B ext M Live L rt4 Hs ls4 U4 {p} []" "freed_to rt3 U2 ls2 rt4 U4 ls4"
    by (rule finalizer_inv[OF 3(2) sh(4,5)]; rule that)
  have p4: "p \<in> dom (heap rt4)" "p \<notin> U4" using freed_to_keeps[OF 4(3) p2(2)] 3(3) by simp_all
  obtain c4 ob4 where c4: "heap rt4 p = Some c4" "body c4 = JSObject ob4" by (rule zombie_object[OF 4(2) p4(1) Bp])
  obtain rt5 where 5: "update_object p (\<lambda>ob. ob\<lparr>obj_class := JS_CLASS_NONE, obj_u := U_NULL\<rparr>) rt4 = Some rt5"
    "free_inv B ext M Live L rt5 Hs ls4 U4 {p} []"
    "heap rt5 = (heap rt4)(p \<mapsto> c4\<lparr>body := JSObject (ob4\<lparr>obj_class := JS_CLASS_NONE, obj_u := U_NULL\<rparr>)\<rparr>)"
    "gc_phase rt5 = gc_phase rt4"
    using update_zombie[OF 4(2) p4(2) c4, of "\<lambda>ob. ob\<lparr>obj_class := JS_CLASS_NONE, obj_u := U_NULL\<rparr>"] by metis
  let ?c5 = "c4\<lparr>body := JSObject (ob4\<lparr>obj_class := JS_CLASS_NONE, obj_u := U_NULL\<rparr>)\<rparr>"
  have c5: "heap rt5 p = Some ?c5" "value_type (body ?c5)" using 5(3) by (simp_all add: value_type_def)
  obtain rt6 ls6 where 6: "free_or_keep p rt5 = Some rt6" "free_inv B ext M Live L rt6 Hs ls6 U4 {} []"
    "gc_phase rt6 = gc_phase rt5" "dom (heap rt6) \<subseteq> dom (heap rt5)" "set (ls6 tmp_obj_list) \<subseteq> set (ls4 tmp_obj_list)"
    by (rule free_or_keep_inv[OF 5(2) p4(2) c5]; rule that)
  have "free_object p rt = Some rt6"
    using 0(1) ob0 sh(1) sh0 len 1(1) 2(1) 3(1) 4(1) 5(1) 6(1)
    by (simp add: free_object_def check_def free_properties_release[OF sh(3)] release.simps cong: option.case_cong)
  moreover have "U4 \<subseteq> U - {p}" "gc_phase rt6 = gc_phase rt" "set (ls6 tmp_obj_list) \<subseteq> set (ls tmp_obj_list)"
    using 12 4(3) 0(4) 3(4) 5(4) 6(3,5) by (auto simp: freed_to_def)
  moreover have "dom (heap rt6) \<subseteq> dom (heap rt)" "dom (heap rt6) \<inter> (U - {p}) \<subseteq> U4"
  proof -
    have doms: "dom (heap rt0) = dom (heap rt)" "dom (heap rt3) = dom (heap rt2)" "dom (heap rt5) = dom (heap rt4)"
      using 0(3) 3(3) 5(3) p(3) c2(1) c4(1) by (simp_all add: insert_absorb domI)
    have "dom (heap rt6) \<subseteq> dom (heap rt4)" "dom (heap rt4) \<subseteq> dom (heap rt2)" "dom (heap rt2) \<subseteq> dom (heap rt)"
      "dom (heap rt2) \<inter> (U - {p}) \<subseteq> U2" "dom (heap rt4) \<inter> U2 \<subseteq> U4"
      using 6(4) 12 4(3) unfolding freed_to_def doms by simp_all
    then show "dom (heap rt6) \<subseteq> dom (heap rt)" "dom (heap rt6) \<inter> (U - {p}) \<subseteq> U4" by (blast intro: subset_trans)+
  qed
  ultimately show thesis using that 6(2) by blast
qed


lemma free_function_bytecode_inv:
  assumes inv: "free_inv B ext M Live L rt Hs ls U {} []" and p: "p \<in> U" "p \<notin> Live" "heap rt p = Some c"
    and body: "body c = JSFunctionBytecode bc" and zero: "gc_phase rt = JS_GC_PHASE_DECREF \<Longrightarrow> ref_count c = 0"
  obtains rt' ls' U' where "free_function_bytecode p rt = Some rt'" "free_inv B ext M Live L rt' Hs ls' U' {} []"
    "U' \<subseteq> U - {p}" "gc_phase rt' = gc_phase rt" "set (ls' tmp_obj_list) \<subseteq> set (ls tmp_obj_list)"
    "dom (heap rt') \<subseteq> dom (heap rt)" "dom (heap rt') \<inter> (U - {p}) \<subseteq> U'"
proof -
  have v: "value_type (body c)" using body by (simp add: value_type_def)
  note b = begin_release[OF inv p v zero]
  have Bp: "B p = Some (JSFunctionBytecode bc)" using b(1) body by simp
  have nU: "p \<notin> U - {p}" by simp
  have "free_inv B ext M Live L rt Hs ls (U - {p}) {p} (refs (body c) @ [])" using b(2) by simp
  from release_each[OF this] obtain rt1 ls1 U1 where 1: "each release (refs (body c)) rt = Some rt1"
    "free_inv B ext M Live L rt1 Hs ls1 U1 {p} []" "freed_to rt (U - {p}) ls rt1 U1 ls1" by metis
  have p1: "p \<in> dom (heap rt1)" "p \<notin> U1" using freed_to_keeps[OF 1(3) nU] p(3) by auto
  obtain c1 where c1: "heap rt1 p = Some c1" "body c1 = JSFunctionBytecode bc" using cell_body[OF 1(2) Bp p1(1)] by auto
  have v1: "value_type (body c1)" using c1(2) by (simp add: value_type_def)
  obtain rt2 ls2 where 2: "free_or_keep p rt1 = Some rt2" "free_inv B ext M Live L rt2 Hs ls2 U1 {} []"
    "gc_phase rt2 = gc_phase rt1" "dom (heap rt2) \<subseteq> dom (heap rt1)" "set (ls2 tmp_obj_list) \<subseteq> set (ls1 tmp_obj_list)"
    by (rule free_or_keep_inv[OF 1(2) p1(2) c1(1) v1]; rule that)
  have "free_function_bytecode p rt = Some rt2" using p(3) body 1(1) 2(1)
    by (simp add: free_function_bytecode_def get_bytecode_def free_values_release free_realm_release each_append
        bind_eq_Some_conv cong: Option.bind_cong) auto
  moreover have "U1 \<subseteq> U - {p}" "gc_phase rt2 = gc_phase rt" "set (ls2 tmp_obj_list) \<subseteq> set (ls tmp_obj_list)"
    using 1(3) 2(3,5) by (auto simp: freed_to_def)
  moreover have "dom (heap rt2) \<subseteq> dom (heap rt)" "dom (heap rt2) \<inter> (U - {p}) \<subseteq> U1"
    using 1(3) 2(4) unfolding freed_to_def by blast+
  ultimately show thesis using that 2(2) by blast
qed

lemma free_gc_object_inv:
  assumes inv: "free_inv B ext M Live L rt Hs ls U {} []" and p: "p \<in> U" "p \<notin> Live" "heap rt p = Some c"
    and v: "value_type (body c)" and zero: "gc_phase rt = JS_GC_PHASE_DECREF \<Longrightarrow> ref_count c = 0"
  obtains rt' ls' U' where "free_gc_object p rt = Some rt'" "free_inv B ext M Live L rt' Hs ls' U' {} []"
    "U' \<subseteq> U - {p}" "gc_phase rt' = gc_phase rt" "set (ls' tmp_obj_list) \<subseteq> set (ls tmp_obj_list)"
    "dom (heap rt') \<subseteq> dom (heap rt)" "dom (heap rt') \<inter> (U - {p}) \<subseteq> U'"
proof (cases "body c")
  case (JSObject ob)
  have "free_gc_object p rt = free_object p rt" using p(3) JSObject by (simp add: free_gc_object_def)
  then show thesis using free_object_inv[OF inv p JSObject zero] that by metis
next
  case (JSFunctionBytecode bc)
  have "free_gc_object p rt = free_function_bytecode p rt" using p(3) JSFunctionBytecode by (simp add: free_gc_object_def)
  then show thesis using free_function_bytecode_inv[OF inv p JSFunctionBytecode zero] that by metis
qed (use v in \<open>simp_all add: value_type_def\<close>)

end
