(* ===== verification/Gc_Count.thy ===== *)
theory Gc_Count
  imports Gc_Free
begin

text \<open>
  What a heap between two operations satisfies, and the effect of \<open>JS_FreeValue\<close> on it.
\<close>

section \<open>Consistent heaps\<close>

inductive reachable :: "(ptr \<Rightarrow> gc_body option) \<Rightarrow> (ptr \<Rightarrow> nat) \<Rightarrow> ptr \<Rightarrow> bool" for B ext where
  root: "B p \<noteq> None \<Longrightarrow> ext p > 0 \<Longrightarrow> reachable B ext p"
| step: "reachable B ext q \<Longrightarrow> p \<in> set (ref_ptrs B q) \<Longrightarrow> reachable B ext p"

text \<open>
  \<open>ext\<close> counts the references from outside the heap: the stack, the C code of the embedder, running frames. A heap is
  consistent when its contents are well typed, its structures are in the list of the collector, none waits to be freed
  or is marked, and the count of each is exact and positive.
\<close>

definition gc_ok :: "gc_rt \<Rightarrow> (ptr \<Rightarrow> nat) \<Rightarrow> bool" where
  "gc_ok rt ext \<longleftrightarrow> finite (dom (heap rt)) \<and> gc_phase rt = JS_GC_PHASE_NONE \<and> typed (bodies rt) \<and>
    (\<exists>ps. ring (links rt) gc_obj_list (map Link ps) \<and> set ps = {p. \<exists>c. heap rt p = Some c \<and> collectable (body c)}) \<and>
    ring (links rt) gc_zero_ref_count_list [] \<and> tmp_obj_list \<in> dom (links rt) \<and>
    (\<forall>p c. heap rt p = Some c \<longrightarrow>
       ref_count c = int (ext p + in_refs (bodies rt) (dom (heap rt)) p) \<and> ref_count c > 0 \<and> \<not> mark c)"

lemma bodies_update [simp]: "bodies (rt\<lparr>links := l\<rparr>) = bodies rt" "bodies (rt\<lparr>gc_phase := ph\<rparr>) = bodies rt"
  by (simp_all add: bodies_def fun_eq_iff)

lemma dom_bodies [simp]: "dom (bodies rt) = dom (heap rt)"
  by (auto simp: bodies_def)

lemma gc_okD:
  assumes "gc_ok rt ext"
  shows "finite (dom (heap rt))" "gc_phase rt = JS_GC_PHASE_NONE" "typed (bodies rt)"
    "\<exists>ps. ring (links rt) gc_obj_list (map Link ps) \<and> set ps = {p. \<exists>c. heap rt p = Some c \<and> collectable (body c)}"
    "ring (links rt) gc_zero_ref_count_list []" "tmp_obj_list \<in> dom (links rt)"
    "\<And>p c. heap rt p = Some c \<Longrightarrow> ref_count c = int (ext p + in_refs (bodies rt) (dom (heap rt)) p)"
    "\<And>p c. heap rt p = Some c \<Longrightarrow> ref_count c > 0" "\<And>p c. heap rt p = Some c \<Longrightarrow> \<not> mark c"
  by (use assms in \<open>simp add: gc_ok_def\<close>)+

lemma gc_okI:
  assumes "finite (dom (heap rt))" "gc_phase rt = JS_GC_PHASE_NONE" "typed (bodies rt)"
    "ring (links rt) gc_obj_list (map Link ps)" "set ps = {p. \<exists>c. heap rt p = Some c \<and> collectable (body c)}"
    "ring (links rt) gc_zero_ref_count_list []" "tmp_obj_list \<in> dom (links rt)"
    "\<And>p c. heap rt p = Some c \<Longrightarrow> ref_count c = int (ext p + in_refs (bodies rt) (dom (heap rt)) p)"
    "\<And>p c. heap rt p = Some c \<Longrightarrow> ref_count c > 0" "\<And>p c. heap rt p = Some c \<Longrightarrow> \<not> mark c"
  shows "gc_ok rt ext"
  using assms by (auto simp: gc_ok_def)

lemma typed_targets: "typed B \<Longrightarrow> set (ref_ptrs B p) \<subseteq> dom B"
  by (force simp: typed_def ref_ptrs_def split: option.splits)

lemma reachable_dom: "reachable B ext p \<Longrightarrow> typed B \<Longrightarrow> p \<in> dom B"
  by (induction rule: reachable.induct) (use typed_targets in blast)+

lemma reachable_support:
  assumes "typed B"
  shows "Collect (reachable B ext) \<subseteq> dom B"
    "\<forall>p \<in> Collect (reachable B ext). ext p > 0 \<or> (\<exists>q \<in> Collect (reachable B ext). p \<in> set (ref_ptrs B q))"
  using reachable_dom[OF _ assms] by (auto elim: reachable.cases)

section \<open>The loop over the list of zero counts\<close>

lemma free_core_all:
  assumes t: "typed (bodies rt)" "finite (dom (heap rt))"
    and r: "rings (links rt) Hs ls" "\<And>p. (\<exists>h \<in> Hs. p \<in> set (ls h)) \<longleftrightarrow> (\<exists>c. heap rt p = Some c \<and> collectable (body c))"
    and cells: "\<And>p c. heap rt p = Some c \<Longrightarrow> ref_count c = int (ext p + in_refs (bodies rt) (dom (heap rt)) p)"
      "\<And>p c. heap rt p = Some c \<Longrightarrow> \<not> value_type (body c) \<Longrightarrow> ref_count c > 0"
      "\<And>p c. heap rt p = Some c \<Longrightarrow> p \<in> M \<Longrightarrow> \<not> mark c"
  shows "free_core (bodies rt) ext M (Collect (reachable (bodies rt) ext)) rt Hs ls (dom (heap rt)) []"
proof (rule free_coreI)
  note s = reachable_support[OF t(1), of ext]
  show "Collect (reachable (bodies rt) ext) \<subseteq> dom (heap rt)" using s(1) by simp
  show "ext p > 0 \<or> (\<exists>q \<in> Collect (reachable (bodies rt) ext). p \<in> set (ref_ptrs (bodies rt) q))"
    if "p \<in> Collect (reachable (bodies rt) ext)" for p using s(2) that by blast
  show "set (ref_ptrs (bodies rt) p) \<subseteq> dom (heap rt)" for p using typed_targets[OF t(1), of p] by simp
  fix p c assume c: "heap rt p = Some c"
  have "bodies rt p = Some (body c)" using c by (simp add: bodies_def)
  then show "cell_ok (bodies rt) ext M (dom (heap rt)) [] p c"
    using cells[OF c] c by (auto simp: cell_ok_def)
qed (use t r in auto)

lemma free_zero_loop_inv:
  assumes "free_inv B ext M Live L rt Hs ls U {} []" "gc_phase rt = JS_GC_PHASE_DECREF"
    "\<And>q. q \<in> dom (heap rt) \<Longrightarrow> q \<in> U"
  shows "\<exists>rt' ls'. free_zero_loop rt = Some rt' \<and> dom (heap rt') \<subseteq> dom (heap rt) \<and> free_inv B ext M Live L rt' Hs ls' (dom (heap rt')) {} [] \<and>
    gc_phase rt' = JS_GC_PHASE_DECREF \<and> ls' gc_zero_ref_count_list = []"
  using assms
proof (induction "card U" arbitrary: rt ls U rule: less_induct)
  case less
  have f: "free_core B ext M Live rt Hs ls U []" and ph: "phase_inv Live L rt Hs ls U {}"
    using less.prems(1) by (simp_all add: free_inv_def)
  note fd = free_coreD[OF f] and pd = decref_invD[OF ph less.prems(2)]
  have UD: "U = dom (heap rt)" using fd(3) less.prems(3) by blast
  have ring: "ring (links rt) gc_zero_ref_count_list (map Link (ls gc_zero_ref_count_list))"
    by (rule rings_ring[OF fd(5)]) (simp add: pd(1))
  show ?case
  proof (cases "ls gc_zero_ref_count_list")
    case Nil
    have "free_zero_loop rt = Some rt"
      by (subst free_zero_loop.simps) (use ring_next[OF ring] Nil in simp)
    then show ?thesis using less.prems(1,2) Nil UD by auto
  next
    case (Cons p ps)
    then obtain c where c: "heap rt p = Some c" "value_type (body c)" using pd(5)[of p] by auto
    have pU: "p \<in> U" using c(1) UD by auto
    have zero: "ref_count c = 0" using pd(2)[OF c pU] Cons by simp
    have dead: "p \<notin> Live" using live_count[OF f _ c(1)] zero by auto
    obtain rt1 ls1 U1 where 1: "free_gc_object p rt = Some rt1" "free_inv B ext M Live L rt1 Hs ls1 U1 {} []"
      "U1 \<subseteq> U - {p}" "gc_phase rt1 = gc_phase rt" "dom (heap rt1) \<subseteq> dom (heap rt)" "dom (heap rt1) \<inter> (U - {p}) \<subseteq> U1"
      using free_gc_object_inv[OF less.prems(1) pU dead c zero] by metis
    have f1: "free_core B ext M Live rt1 Hs ls1 U1 []" and ph1: "phase_inv Live L rt1 Hs ls1 U1 {}"
      using 1(2) by (simp_all add: free_inv_def)
    have dec1: "gc_phase rt1 = JS_GC_PHASE_DECREF" using 1(4) less.prems(2) by simp
    have gone: "p \<notin> dom (heap rt1)"
    proof
      assume "p \<in> dom (heap rt1)"
      then obtain c1 where c1: "heap rt1 p = Some c1" by auto
      have "cell_ok B ext M U1 [] p c1" "cell_ok B ext M U [] p c" using free_coreD(8)[OF f1 c1] fd(8)[OF c(1)] by simp_all
      then have "value_type (body c1)" using c(2) by (auto simp: cell_ok_def value_type_def)
      then show False using decref_invD(3)[OF ph1 dec1 c1] 1(3) by auto
    qed
    have in1: "q \<in> U1" if "q \<in> dom (heap rt1)" for q
    proof -
      have "q \<noteq> p" using that gone by auto
      then show ?thesis using that 1(5,6) UD by blast
    qed
    have "card U1 < card U" using 1(3) pU fd(2) by (intro psubset_card_mono) auto
    from less.hyps[OF this 1(2) dec1 in1] obtain rt' ls' where r: "free_zero_loop rt1 = Some rt'" "dom (heap rt') \<subseteq> dom (heap rt1)"
      "free_inv B ext M Live L rt' Hs ls' (dom (heap rt')) {} []" "gc_phase rt' = JS_GC_PHASE_DECREF"
      "ls' gc_zero_ref_count_list = []" by blast
    have "dom (heap rt') \<subseteq> dom (heap rt)" using r(2) 1(5) by blast
    moreover have "free_zero_loop rt = Some rt'"
      by (subst free_zero_loop.simps)
        (use ring_next[OF ring] Cons c(1) zero 1(1) r(1) in \<open>simp add: check_def\<close>)
    ultimately show ?thesis using r by blast
  qed
qed

lemma typed_restrict:
  assumes t: "typed B" and D: "\<And>p. p \<in> dom B' \<Longrightarrow> B' p = B p" "\<And>p. p \<in> dom B' \<Longrightarrow> set (ref_ptrs B p) \<subseteq> dom B'"
  shows "typed B'"
  unfolding typed_def
proof (intro allI impI conjI)
  fix p b assume b: "B' p = Some b"
  then have bB: "B p = Some b" using D(1)[of p] by (simp add: domI)
  have tgt: "B' q = B q" if "(k, q) \<in> set (refs b)" for k q
  proof -
    have "q \<in> set (ref_ptrs B p)" using that bB by (force simp: ref_ptrs_def)
    then have "q \<in> dom B'" using D(2)[of p] b by auto
    then show ?thesis by (rule D(1))
  qed
  show "\<forall>(k, q) \<in> set (refs b). \<exists>b'. B' q = Some b' \<and> gc_type b' = k"
    using typed_refs[OF t bB] tgt by (fastforce simp: refs_ok_def)
  have ok: "body_ok B b" using t bB by (simp add: typed_def)
  show "body_ok B' b"
  proof (cases b)
    case (JSObject ob)
    have "closure_ok B' (obj_u ob)"
    proof (cases "\<exists>home vs b'. obj_u ob = U_func home (Some vs) (Some b')")
      case True
      then obtain home vs b' where u: "obj_u ob = U_func home (Some vs) (Some b')" by blast
      then have "B' b' = B b'" using tgt[of JS_GC_OBJ_TYPE_FUNCTION_BYTECODE b'] JSObject by simp
      then show ?thesis using ok JSObject u by (simp split: option.splits)
    next
      case False
      then show ?thesis by (cases "(B', obj_u ob)" rule: closure_ok.cases) auto
    qed
    moreover have "B' sp = B sp" if "obj_shape ob = Some sp" for sp
      using tgt[of JS_GC_OBJ_TYPE_SHAPE sp] JSObject that by (simp add: opt_list_def)
    ultimately show ?thesis using ok JSObject by (auto split: option.splits gc_body.splits)
  qed simp_all
qed


text \<open>The structures not released form a consistent heap, once the others are gone.\<close>

lemma remaining_heap:
  assumes f: "free_core B ext M Live rt Hs ls U []" and h: "heap rt' = heap rt |` U"
    and in_U: "\<forall>p \<in> U. set (ref_ptrs B p) \<subseteq> U"
  shows "dom (heap rt') = U" "typed (bodies rt')" "\<And>p. p \<in> U \<Longrightarrow> bodies rt' p = B p"
    "\<And>p c. heap rt' p = Some c \<Longrightarrow> ref_count c = int (ext p + in_refs (bodies rt') (dom (heap rt')) p)"
    "\<And>p c. heap rt' p = Some c \<Longrightarrow> \<not> value_type (body c) \<Longrightarrow> ref_count c > 0"
    "\<And>p c. heap rt' p = Some c \<Longrightarrow> p \<in> M \<Longrightarrow> \<not> mark c"
proof -
  note fd = free_coreD[OF f]
  have get: "heap rt p = Some c" "p \<in> U" if "heap rt' p = Some c" for p c
    using that unfolding h by (auto simp: restrict_map_def split: if_splits)
  have ok: "cell_ok B ext M U [] p c" if "heap rt' p = Some c" for p c by (rule fd(8)[OF get(1)[OF that]])
  show dom: "dom (heap rt') = U" using fd(3) h by auto
  show B: "bodies rt' p = B p" if "p \<in> U" for p
  proof -
    have "p \<in> dom (heap rt')" using that by (simp only: dom)
    then obtain c where c: "heap rt' p = Some c" by auto
    then show ?thesis using ok[OF c] that by (auto simp: cell_ok_def bodies_def)
  qed
  show "typed (bodies rt')"
  proof (rule typed_restrict[OF fd(1)])
    fix p assume "p \<in> dom (bodies rt')"
    then have "p \<in> U" using dom by simp
    then show "bodies rt' p = B p" "set (ref_ptrs B p) \<subseteq> dom (bodies rt')" using B in_U dom by simp_all
  qed
  have "in_refs (bodies rt') (dom (heap rt')) p = in_refs B U p" for p
    unfolding in_refs_def dom by (rule sum.cong) (simp_all add: ref_ptrs_def B)
  then show "ref_count c = int (ext p + in_refs (bodies rt') (dom (heap rt')) p)" if "heap rt' p = Some c" for p c
    using ok[OF that] by (simp add: cell_ok_def)
  show "ref_count c > 0" if "heap rt' p = Some c" "\<not> value_type (body c)" for p c
    using ok[OF that(1)] that(2) get(2)[OF that(1)] by (simp add: cell_ok_def)
  show "\<not> mark c" if "heap rt' p = Some c" "p \<in> M" for p c
    using ok[OF that(1)] that(2) by (simp add: cell_ok_def)
qed


section \<open>Releasing a reference from outside\<close>

lemma reachable_mono:
  assumes "reachable B ext q" "\<And>p. ext p \<le> ext' p"
  shows "reachable B ext' q"
  using assms(1)
proof (induction rule: reachable.induct)
  case (root p)
  then show ?case using reachable.root[of B p ext'] assms(2)[of p] by linarith
qed (rule reachable.step)

text \<open>The state after the count of \<open>p\<close> was decremented, with what \<open>gc_ok\<close> says of it.\<close>

lemma decremented:
  assumes ok: "gc_ok rt ext" and p: "heap rt p = Some c" "ext p > 0"
  defines "rt1 \<equiv> rt\<lparr>heap := (heap rt)(p \<mapsto> c\<lparr>ref_count := ref_count c - 1\<rparr>)\<rparr>"
  defines "ext' \<equiv> ext(p := ext p - 1)"
  shows "bodies rt1 = bodies rt" "dom (heap rt1) = dom (heap rt)"
    "\<And>q c. heap rt1 q = Some c \<Longrightarrow> ref_count c = int (ext' q + in_refs (bodies rt) (dom (heap rt)) q)"
    "\<And>q c. heap rt1 q = Some c \<Longrightarrow> q \<noteq> p \<Longrightarrow> ref_count c > 0"
    "\<And>q c. heap rt1 q = Some c \<Longrightarrow> \<not> mark c"
    "\<And>q. (\<exists>c. heap rt1 q = Some c \<and> collectable (body c)) \<longleftrightarrow> (\<exists>c. heap rt q = Some c \<and> collectable (body c))"
proof -
  note g = gc_okD[OF ok]
  show "bodies rt1 = bodies rt" using p(1) by (auto simp: rt1_def bodies_def)
  show "dom (heap rt1) = dom (heap rt)" using p(1) by (auto simp: rt1_def)
  show "(\<exists>c. heap rt1 q = Some c \<and> collectable (body c)) \<longleftrightarrow> (\<exists>c. heap rt q = Some c \<and> collectable (body c))" for q
    using p(1) by (auto simp: rt1_def)
  fix q cq assume q: "heap rt1 q = Some cq"
  show "ref_count cq = int (ext' q + in_refs (bodies rt) (dom (heap rt)) q)"
  proof (cases "q = p")
    case True
    then have "cq = c\<lparr>ref_count := ref_count c - 1\<rparr>" using q by (simp add: rt1_def)
    then show ?thesis using g(7)[OF p(1)] p(2) True by (simp add: ext'_def)
  next
    case False
    then show ?thesis using q g(7)[of q cq] by (simp add: rt1_def ext'_def)
  qed
  show "ref_count cq > 0" if "q \<noteq> p" using q that g(8)[of q cq] by (simp add: rt1_def)
  show "\<not> mark cq" using q g(9)[of q cq] g(9)[OF p(1)] by (auto simp: rt1_def split: if_splits)
qed

lemma free_value_moved:
  assumes ok: "gc_ok rt ext" and p: "heap rt p = Some c" "ext p > 0" "value_type (body c)" "ref_count c \<le> 1"
  defines "rt1 \<equiv> rt\<lparr>heap := (heap rt)(p \<mapsto> c\<lparr>ref_count := ref_count c - 1\<rparr>)\<rparr>"
  defines "ext' \<equiv> ext(p := ext p - 1)"
  obtains rt2 ls where "(do { rt \<leftarrow> rt_list_del p rt1; rt_list_add p gc_zero_ref_count_list rt }) = Some rt2"
    "gc_phase rt2 = JS_GC_PHASE_NONE" "dom (heap rt2) = dom (heap rt)" "bodies rt2 = bodies rt"
    "free_inv (bodies rt) ext' (dom (heap rt)) (Collect (reachable (bodies rt) ext')) []
       (rt2\<lparr>gc_phase := JS_GC_PHASE_DECREF\<rparr>) {gc_obj_list, gc_zero_ref_count_list} ls (dom (heap rt)) {} []"
proof -
  note g = gc_okD[OF ok] and d = decremented[OF ok p(1,2), folded rt1_def ext'_def]
  let ?Hs = "{gc_obj_list, gc_zero_ref_count_list}" and ?B = "bodies rt"
  obtain ps where ps: "ring (links rt) gc_obj_list (map Link ps)"
    "set ps = {p. \<exists>c. heap rt p = Some c \<and> collectable (body c)}" using g(4) by blast
  let ?ls = "(\<lambda>_. [])(gc_obj_list := ps)"
  have r: "rings (links rt1) ?Hs ?ls" using ps(1) g(5,6) by (auto simp: rings_def rt1_def)
  have pin: "p \<in> set (?ls gc_obj_list)" using ps(2) p(1) value_collectable[OF p(3)] by auto
  have h: "gc_obj_list \<in> ?Hs" "gc_zero_ref_count_list \<in> ?Hs" by simp_all
  let ?ls1 = "?ls(gc_obj_list := remove1 p (?ls gc_obj_list))"
  let ?ls2 = "?ls1(gc_zero_ref_count_list := put_at True p (?ls1 gc_zero_ref_count_list))"
  obtain l1 l2 where l: "list_del (links rt1) (Link p) = Some l1"
    "(if True then list_add else list_add_tail) l1 (Link p) gc_zero_ref_count_list = Some l2" "rings l2 ?Hs ?ls2"
    "\<And>x. (\<exists>h \<in> ?Hs. x \<in> set (?ls2 h)) \<longleftrightarrow> (\<exists>h \<in> ?Hs. x \<in> set (?ls h))"
    by (rule rings_move[OF r h(1) pin h(2), where front = True]; rule that)
  let ?rt2 = "rt1\<lparr>links := l2\<rparr>"
  let ?rt3 = "?rt2\<lparr>gc_phase := JS_GC_PHASE_DECREF\<rparr>"
  have b3: "bodies ?rt3 = ?B" "dom (heap ?rt3) = dom (heap rt)" using d(1,2) by simp_all
  have p3: "heap ?rt3 p = Some (c\<lparr>ref_count := ref_count c - 1\<rparr>)" by (simp add: rt1_def)
  have "ref_count c > 0" by (rule g(8)[OF p(1)])
  then have zero: "ref_count c - 1 = 0" using p(4) by simp
  have "free_core (bodies ?rt3) ext' (dom (heap rt)) (Collect (reachable (bodies ?rt3) ext')) ?rt3 ?Hs ?ls2 (dom (heap ?rt3)) []"
  proof (rule free_core_all)
    show "typed (bodies ?rt3)" "finite (dom (heap ?rt3))" using b3 g(1,3) by simp_all
    show "rings (links ?rt3) ?Hs ?ls2" using l(3) by simp
    show "(\<exists>h \<in> ?Hs. x \<in> set (?ls2 h)) \<longleftrightarrow> (\<exists>c. heap ?rt3 x = Some c \<and> collectable (body c))" for x
      using l(4)[of x] d(6)[of x] ps(2) by simp
    fix q cq assume q: "heap ?rt3 q = Some cq"
    then have q1: "heap rt1 q = Some cq" by simp
    show "ref_count cq = int (ext' q + in_refs (bodies ?rt3) (dom (heap ?rt3)) q)" using d(3)[OF q1] b3 by simp
    show "\<not> mark cq" by (rule d(5)[OF q1])
    show "ref_count cq > 0" if nv: "\<not> value_type (body cq)"
    proof (rule d(4)[OF q1])
      show "q \<noteq> p" using nv q p3 p(3) by auto
    qed
  qed
  moreover have "phase_inv (Collect (reachable (bodies ?rt3) ext')) [] ?rt3 ?Hs ?ls2 (dom (heap ?rt3)) {}"
  proof (rule decref_invI)
    fix q cq assume q: "heap ?rt3 q = Some cq" "value_type (body cq)"
    have q1: "heap rt1 q = Some cq" using q(1) by simp
    show "q \<in> set (?ls2 gc_zero_ref_count_list) \<longleftrightarrow> ref_count cq = 0"
    proof (cases "q = p")
      case True
      then show ?thesis using q(1) p3 zero by simp
    next
      case False
      then show ?thesis using d(4)[OF q1] by simp
    qed
    show "q \<in> {} \<and> ref_count cq = 0" if "q \<notin> dom (heap ?rt3)" using that q(1) by auto
  next
    fix q assume "q \<in> set (?ls2 gc_zero_ref_count_list)"
    then have "q = p" by simp
    then show "\<exists>c. heap ?rt3 q = Some c \<and> value_type (body c)" using p3 p(3) by simp
  qed simp_all
  ultimately have inv: "free_inv ?B ext' (dom (heap rt)) (Collect (reachable ?B ext')) [] ?rt3 ?Hs ?ls2 (dom (heap rt)) {} []"
    unfolding b3 by (simp add: free_inv_def)
  show thesis
  proof (rule that)
    show "(do { rt \<leftarrow> rt_list_del p rt1; rt_list_add p gc_zero_ref_count_list rt }) = Some ?rt2"
      using l(1,2) by (simp add: rt_list_del_def rt_list_add_def)
    show "gc_phase ?rt2 = JS_GC_PHASE_NONE" using g(2) by (simp add: rt1_def)
    show "dom (heap ?rt2) = dom (heap rt)" "bodies ?rt2 = bodies rt" using d(1,2) by simp_all
  qed (rule inv)
qed


lemma free_value_exact:
  assumes ok: "gc_ok rt ext" and v: "value_refs v = [(k, p)]" and p: "bodies rt p = Some b" "gc_type b = k" "ext p > 0"
  defines "ext' \<equiv> ext(p := ext p - 1)"
  shows "\<exists>rt'. JS_FreeValue v rt = Some rt' \<and> gc_ok rt' ext' \<and> dom (heap rt') \<subseteq> dom (heap rt) \<and>
    (\<forall>q \<in> dom (heap rt'). bodies rt' q = bodies rt q) \<and> (\<forall>q. reachable (bodies rt) ext' q \<longrightarrow> q \<in> dom (heap rt'))"
proof -
  obtain c where c: "heap rt p = Some c" "body c = b" using p(1) by (auto simp: bodies_def)
  let ?rt1 = "rt\<lparr>heap := (heap rt)(p \<mapsto> c\<lparr>ref_count := ref_count c - 1\<rparr>)\<rparr>"
  note g = gc_okD[OF ok] and d = decremented[OF ok c(1) p(3), folded ext'_def]
  have val: "value_type (body c)" using v p(2) c(2) by (cases v) (auto simp: value_type_def)
  have free: "JS_FreeValue v rt = (if ref_count c \<le> 1 then js_free_value_rt free_zero_refcount p ?rt1 else Some ?rt1)"
    using v c(1) by (cases v) (auto simp: JS_FreeValue_def add_ref_eq)
  have live: "q \<in> dom (heap rt)" if "reachable (bodies rt) ext' q" for q
    using reachable_dom[OF that g(3)] by simp
  show ?thesis
  proof (cases "ref_count c \<le> 1")
    case False
    obtain ps where ps: "ring (links rt) gc_obj_list (map Link ps)"
      "set ps = {p. \<exists>c. heap rt p = Some c \<and> collectable (body c)}" using g(4) by blast
    have "gc_ok ?rt1 ext'"
    proof (rule gc_okI)
      show "ring (links ?rt1) gc_obj_list (map Link ps)" using ps(1) by simp
      show "set ps = {p. \<exists>c. heap ?rt1 p = Some c \<and> collectable (body c)}" using ps(2) d(6) by blast
      fix q cq assume q: "heap ?rt1 q = Some cq"
      show "ref_count cq = int (ext' q + in_refs (bodies ?rt1) (dom (heap ?rt1)) q)" using d(1,2) d(3)[OF q] by simp
      show "\<not> mark cq" by (rule d(5)[OF q])
      show "ref_count cq > 0"
      proof (cases "q = p")
        case True
        then show ?thesis using q False by auto
      qed (rule d(4)[OF q])
    qed (use g d(1,2) in simp_all)
    then show ?thesis using free False d(1,2) live by auto
  next
    case True
    let ?Hs = "{gc_obj_list, gc_zero_ref_count_list}" and ?Live = "Collect (reachable (bodies rt) ext')"
    obtain rt2 ls where 2: "(do { rt \<leftarrow> rt_list_del p ?rt1; rt_list_add p gc_zero_ref_count_list rt }) = Some rt2"
      "gc_phase rt2 = JS_GC_PHASE_NONE" "dom (heap rt2) = dom (heap rt)" "bodies rt2 = bodies rt"
      "free_inv (bodies rt) ext' (dom (heap rt)) ?Live [] (rt2\<lparr>gc_phase := JS_GC_PHASE_DECREF\<rparr>) ?Hs ls (dom (heap rt)) {} []"
      by (rule free_value_moved[OF ok c(1) p(3) val True, folded ext'_def]; rule that)
    have "js_free_value_rt free_zero_refcount p ?rt1 = free_zero_refcount rt2"
      using 2(1,2) g(2) by (auto simp: js_free_value_rt_def bind_eq_Some_conv)
    moreover obtain rt3 ls3 where 3: "free_zero_loop (rt2\<lparr>gc_phase := JS_GC_PHASE_DECREF\<rparr>) = Some rt3"
      "dom (heap rt3) \<subseteq> dom (heap rt)" "gc_phase rt3 = JS_GC_PHASE_DECREF" "ls3 gc_zero_ref_count_list = []"
      "free_inv (bodies rt) ext' (dom (heap rt)) ?Live [] rt3 ?Hs ls3 (dom (heap rt3)) {} []"
      using free_zero_loop_inv[OF 2(5)] 2(3) by auto
    let ?rt = "rt3\<lparr>gc_phase := JS_GC_PHASE_NONE\<rparr>"
    have f: "free_core (bodies rt) ext' (dom (heap rt)) ?Live rt3 ?Hs ls3 (dom (heap rt3)) []"
      and ph: "phase_inv ?Live [] rt3 ?Hs ls3 (dom (heap rt3)) {}"
      using 3(5) by (simp_all add: free_inv_def)
    note fd = free_coreD[OF f]
    have restr: "heap ?rt = heap rt3 |` dom (heap rt3)" by (simp add: restrict_map_insert fun_eq_iff restrict_map_def domIff)
    have closed: "\<forall>p \<in> dom (heap rt3). set (ref_ptrs (bodies rt) p) \<subseteq> dom (heap rt3)" using fd(9) by blast
    note rem = remaining_heap[OF f restr closed]
    have "gc_ok ?rt ext'"
    proof (rule gc_okI)
      have rings: "rings (links rt3) ?Hs ls3" by (rule fd(5))
      show "ring (links ?rt) gc_obj_list (map Link (ls3 gc_obj_list))" using rings_ring[OF rings] by simp
      show "ring (links ?rt) gc_zero_ref_count_list []" using rings_ring[OF rings, of gc_zero_ref_count_list] 3(4) by simp
      show "tmp_obj_list \<in> dom (links ?rt)" using rings by (simp add: rings_def)
      have "q \<in> set (ls3 gc_obj_list) \<longleftrightarrow> (\<exists>c. heap ?rt q = Some c \<and> collectable (body c))" for q
        using fd(7)[of q] 3(4) by simp
      then show "set (ls3 gc_obj_list) = {p. \<exists>c. heap ?rt p = Some c \<and> collectable (body c)}" by blast
      fix q cq assume q: "heap ?rt q = Some cq"
      show "ref_count cq = int (ext' q + in_refs (bodies ?rt) (dom (heap ?rt)) q)" by (rule rem(4)[OF q])
      show "\<not> mark cq" using rem(6)[OF q] q 3(2) by auto
      show "ref_count cq > 0"
      proof (cases "value_type (body cq)")
        case True
        have "q \<in> dom (heap rt3)" "heap rt3 q = Some cq" using q by auto
        then have "ref_count cq \<noteq> 0" using decref_invD(2)[OF ph 3(3) _ True] 3(4) by simp
        moreover have "ref_count cq \<ge> 0" using rem(4)[OF q] by simp
        ultimately show ?thesis by simp
      qed (rule rem(5)[OF q])
    qed (use rem(1,2) 3(2) g(1) in \<open>auto intro: finite_subset\<close>)
    moreover have "\<forall>q \<in> dom (heap ?rt). bodies ?rt q = bodies rt q" using rem(3) by simp
    moreover have "q \<in> dom (heap ?rt)" if "reachable (bodies rt) ext' q" for q
      using fd(4) that by auto
    ultimately show ?thesis using free True 3(1,2) by (auto simp: free_zero_refcount_def)
  qed
qed

end
