(* ===== verification/Gc_Mark.thy ===== *)
theory Gc_Mark
  imports Gc_Count
begin

text \<open>
  The two passes before cycles are freed: \<open>gc_decref\<close> takes the references between structures off the counts,
  \<open>gc_scan\<close> puts them back starting from the structures still referenced, and so separates living and dead.
\<close>

section \<open>Counts while marking\<close>

definition collectables :: "(ptr \<Rightarrow> gc_body option) \<Rightarrow> ptr set" where
  "collectables B = {p. \<exists>b. B p = Some b \<and> collectable b}"

lemma count_marked:
  assumes "B q = Some b" "collectable b"
  shows "count_list (marked_refs B rs) q = count_list (map snd rs) q"
  using assms by (induction rs) (auto simp: marked_refs_def)

lemma set_marked: "set (marked_refs B rs) \<subseteq> collectables B"
  by (auto simp: marked_refs_def collectables_def split: option.splits)

lemma children_counts:
  assumes "bodies rt = B" "typed B" "p \<in> collectables B"
  obtains c ps where "heap rt p = Some c" "children rt (body c) = Some ps" "set ps \<subseteq> collectables B"
    "\<And>q. q \<in> collectables B \<Longrightarrow> count_list ps q = count_list (ref_ptrs B p) q"
proof -
  obtain b where b: "B p = Some b" "collectable b" using assms(3) by (auto simp: collectables_def)
  have "bodies rt p = Some b" using b assms(1) by simp
  then obtain c where c: "heap rt p = Some c" "body c = b" by (auto simp: bodies_def)
  obtain ps where ps: "children rt b = Some ps" "\<And>q. count_list ps q = count_list (marked_refs B (refs b)) q"
    using children_refs[OF assms(1,2) b] by metis
  have "set ps = set (marked_refs B (refs b))"
  proof (rule set_eqI)
    fix q show "q \<in> set ps \<longleftrightarrow> q \<in> set (marked_refs B (refs b))"
      using ps(2)[of q] count_list_0_iff[of ps q] count_list_0_iff[of "marked_refs B (refs b)" q] by metis
  qed
  then have "set ps \<subseteq> collectables B" using set_marked by simp
  moreover have "count_list ps q = count_list (ref_ptrs B p) q" if "q \<in> collectables B" for q
    using that ps(2)[of q] count_marked[of B q] b(1) by (auto simp: collectables_def ref_ptrs_def)
  ultimately show thesis using that c ps(1) by blast
qed

text \<open>
  \<open>A\<close> are the structures whose references are counted, \<open>pend\<close> references whose turn is still to come: they are to be
  taken off (\<open>k = 1\<close>) or to be added (\<open>k = - 1\<close>). Structures outside the lists stay as in \<open>H\<close>.
\<close>

abbreviation all_lists :: "link set" where
  "all_lists \<equiv> {gc_obj_list, gc_zero_ref_count_list, tmp_obj_list}"

definition mark_inv :: "(ptr \<Rightarrow> gc_body option) \<Rightarrow> (ptr \<Rightarrow> nat) \<Rightarrow> (ptr \<Rightarrow> cell option) \<Rightarrow> int \<Rightarrow> gc_rt \<Rightarrow>
    (link \<Rightarrow> ptr list) \<Rightarrow> ptr set \<Rightarrow> ptr list \<Rightarrow> bool" where
  "mark_inv B ext H k rt ls A pend \<longleftrightarrow>
    bodies rt = B \<and> gc_phase rt = JS_GC_PHASE_NONE \<and> rings (links rt) all_lists ls \<and>
    ls gc_zero_ref_count_list = [] \<and> set (ls gc_obj_list) \<union> set (ls tmp_obj_list) = collectables B \<and>
    (\<forall>p. p \<notin> collectables B \<longrightarrow> heap rt p = H p) \<and>
    (\<forall>p c. heap rt p = Some c \<and> p \<in> collectables B \<longrightarrow>
       ref_count c = int (ext p + in_refs B A p) + k * int (count_list pend p))"

lemma mark_invD:
  assumes "mark_inv B ext H k rt ls A pend"
  shows "bodies rt = B" "gc_phase rt = JS_GC_PHASE_NONE" "rings (links rt) all_lists ls"
    "ls gc_zero_ref_count_list = []" "set (ls gc_obj_list) \<union> set (ls tmp_obj_list) = collectables B"
    "\<And>p. p \<notin> collectables B \<Longrightarrow> heap rt p = H p"
    "\<And>p c. heap rt p = Some c \<Longrightarrow> p \<in> collectables B \<Longrightarrow>
       ref_count c = int (ext p + in_refs B A p) + k * int (count_list pend p)"
  by (use assms in \<open>simp add: mark_inv_def\<close>)+

lemma mark_invI:
  assumes "bodies rt = B" "gc_phase rt = JS_GC_PHASE_NONE" "rings (links rt) all_lists ls"
    "ls gc_zero_ref_count_list = []" "set (ls gc_obj_list) \<union> set (ls tmp_obj_list) = collectables B"
    "\<And>p. p \<notin> collectables B \<Longrightarrow> heap rt p = H p"
    "\<And>p c. heap rt p = Some c \<Longrightarrow> p \<in> collectables B \<Longrightarrow>
       ref_count c = int (ext p + in_refs B A p) + k * int (count_list pend p)"
  shows "mark_inv B ext H k rt ls A pend"
  unfolding mark_inv_def by (intro conjI allI impI assms; (elim conjE)?; assumption?)

lemma collectable_cell:
  assumes "mark_inv B ext H k rt ls A pend" "p \<in> collectables B"
  obtains c where "heap rt p = Some c"
  using assms mark_invD(1)[OF assms(1)] by (auto simp: collectables_def bodies_def)

text \<open>Counting a reference changes the count and nothing else.\<close>

lemma mark_count:
  assumes m: "mark_inv B ext H k rt ls A (q # pend)" and q: "q \<in> collectables B" and c: "heap rt q = Some c"
  shows "mark_inv B ext H k (rt\<lparr>heap := (heap rt)(q \<mapsto> c\<lparr>ref_count := ref_count c - k\<rparr>)\<rparr>) ls A pend"
proof -
  note d = mark_invD[OF m]
  let ?c = "c\<lparr>ref_count := ref_count c - k\<rparr>"
  let ?rt = "rt\<lparr>heap := (heap rt)(q \<mapsto> ?c)\<rparr>"
  have b: "bodies ?rt = bodies rt" using c by (auto simp: bodies_def)
  show ?thesis
  proof (rule mark_invI)
    show "bodies ?rt = B" using b d(1) by simp
    show "heap ?rt p = H p" if "p \<notin> collectables B" for p using d(6)[OF that] q that by auto
    fix p cp assume p: "heap ?rt p = Some cp" "p \<in> collectables B"
    show "ref_count cp = int (ext p + in_refs B A p) + k * int (count_list pend p)"
    proof (cases "p = q")
      case True
      then have "cp = ?c" using p(1) by simp
      then show ?thesis using d(7)[OF c q] True by (simp add: algebra_simps)
    next
      case False
      then have "heap rt p = Some cp" using p(1) by simp
      from d(7)[OF this p(2)] show ?thesis using False by simp
    qed
  qed (use d(2-5) in simp_all)
qed

lemma mark_links:
  assumes m: "mark_inv B ext H k rt ls A pend" and l: "rings l all_lists ls'" "ls' gc_zero_ref_count_list = []"
    "set (ls' gc_obj_list) \<union> set (ls' tmp_obj_list) = set (ls gc_obj_list) \<union> set (ls tmp_obj_list)"
  shows "mark_inv B ext H k (rt\<lparr>links := l\<rparr>) ls' A pend"
  using m l by (simp add: mark_inv_def)

lemma mark_mark:
  assumes m: "mark_inv B ext H k rt ls A pend" and q: "q \<in> collectables B" and c: "heap rt q = Some c"
  shows "mark_inv B ext H k (rt\<lparr>heap := (heap rt)(q \<mapsto> c\<lparr>mark := b\<rparr>)\<rparr>) ls A pend"
proof -
  let ?rt = "rt\<lparr>heap := (heap rt)(q \<mapsto> c\<lparr>mark := b\<rparr>)\<rparr>"
  note d = mark_invD[OF m]
  have b: "bodies ?rt = bodies rt" using c by (auto simp: bodies_def)
  show ?thesis
  proof (rule mark_invI)
    show "bodies ?rt = B" using b d(1) by simp
    show "heap ?rt p = H p" if "p \<notin> collectables B" for p using d(6)[OF that] q that by auto
    fix p cp assume p: "heap ?rt p = Some cp" "p \<in> collectables B"
    show "ref_count cp = int (ext p + in_refs B A p) + k * int (count_list pend p)"
    proof (cases "p = q")
      case True
      then have "cp = c\<lparr>mark := b\<rparr>" using p(1) by simp
      then show ?thesis using d(7)[OF c q] True by simp
    next
      case False
      then have "heap rt p = Some cp" using p(1) by simp
      from d(7)[OF this p(2)] show ?thesis .
    qed
  qed (use d(2-5) in simp_all)
qed

lemma disjoint_lists:
  assumes "rings l all_lists ls"
  shows "set (ls gc_obj_list) \<inter> set (ls tmp_obj_list) = {}"
  using assms by (simp add: rings_def)

lemma move_between:
  assumes m: "mark_inv B ext H k rt ls A pend" and h: "h \<in> {gc_obj_list, tmp_obj_list}" "g \<in> {gc_obj_list, tmp_obj_list}"
    "h \<noteq> g" "q \<in> set (ls h)"
  obtains l where "(do { rt \<leftarrow> rt_list_del q rt; rt_list_add_tail q g rt }) = Some (rt\<lparr>links := l\<rparr>)"
    "mark_inv B ext H k (rt\<lparr>links := l\<rparr>) (ls(h := remove1 q (ls h), g := ls g @ [q])) A pend"
proof -
  note d = mark_invD[OF m]
  have hg: "h \<in> all_lists" "g \<in> all_lists" using h by auto
  let ?ls1 = "ls(h := remove1 q (ls h))"
  let ?ls = "?ls1(g := put_at False q (?ls1 g))"
  obtain l1 l2 where l: "list_del (links rt) (Link q) = Some l1"
    "(if False then list_add else list_add_tail) l1 (Link q) g = Some l2" "rings l2 all_lists ?ls"
    "\<And>x. (\<exists>h \<in> all_lists. x \<in> set (?ls h)) \<longleftrightarrow> (\<exists>h \<in> all_lists. x \<in> set (ls h))"
    by (rule rings_move[OF d(3) hg(1) h(4) hg(2), where front = False]; rule that)
  have ls: "?ls = ls(h := remove1 q (ls h), g := ls g @ [q])" using h(3) by simp
  have zero: "?ls gc_zero_ref_count_list = []" using h d(4) by auto
  have two: "(\<exists>h \<in> all_lists. x \<in> set (f h)) \<longleftrightarrow> x \<in> set (f gc_obj_list) \<union> set (f tmp_obj_list)"
    if "f gc_zero_ref_count_list = []" for f :: "link \<Rightarrow> ptr list" and x using that by auto
  have "set (?ls gc_obj_list) \<union> set (?ls tmp_obj_list) = set (ls gc_obj_list) \<union> set (ls tmp_obj_list)"
    using two[of ?ls, OF zero] two[of ls, OF d(4)] l(4) by blast
  then have "mark_inv B ext H k (rt\<lparr>links := l2\<rparr>) ?ls A pend" by (rule mark_links[OF m l(3) zero])
  then show thesis using that[of l2] l(1,2) unfolding ls by (simp add: rt_list_del_def rt_list_add_tail_def)
qed

section \<open>Taking the references off\<close>

definition decref_inv :: "(ptr \<Rightarrow> gc_body option) \<Rightarrow> gc_rt \<Rightarrow> (link \<Rightarrow> ptr list) \<Rightarrow> ptr set \<Rightarrow> bool" where
  "decref_inv B rt ls Mk \<longleftrightarrow> (\<forall>p c. heap rt p = Some c \<and> p \<in> collectables B \<longrightarrow>
     (mark c \<longleftrightarrow> p \<in> Mk) \<and> (p \<in> set (ls tmp_obj_list) \<longleftrightarrow> p \<in> Mk \<and> ref_count c = 0))"

lemma marksD:
  assumes "decref_inv B rt ls Mk" "heap rt p = Some c" "p \<in> collectables B"
  shows "mark c \<longleftrightarrow> p \<in> Mk" "p \<in> set (ls tmp_obj_list) \<longleftrightarrow> p \<in> Mk \<and> ref_count c = 0"
  using assms unfolding decref_inv_def by blast+

lemma decref_child:
  assumes m: "mark_inv B ext H 1 rt ls A (q # pend)" and d: "decref_inv B rt ls Mk" and q: "q \<in> collectables B"
    and rest: "ls gc_obj_list = L1 @ rest" "set rest \<inter> Mk = {}"
  shows "\<exists>rt' ls' L1'. gc_decref_child q rt = Some rt' \<and> mark_inv B ext H 1 rt' ls' A pend \<and> decref_inv B rt' ls' Mk \<and>
    ls' gc_obj_list = L1' @ rest"
proof -
  obtain c where c: "heap rt q = Some c" by (rule collectable_cell[OF m q])
  let ?rt = "rt\<lparr>heap := (heap rt)(q \<mapsto> c\<lparr>ref_count := ref_count c - 1\<rparr>)\<rparr>"
  have m1: "mark_inv B ext H 1 ?rt ls A pend" by (rule mark_count[OF m q c])
  have pos: "ref_count c > 0" using mark_invD(7)[OF m c q] by simp
  have dq: "mark c \<longleftrightarrow> q \<in> Mk" "q \<notin> set (ls tmp_obj_list)" using d c q pos by (auto simp: decref_inv_def)
  show ?thesis
  proof (cases "ref_count c = 1 \<and> q \<in> Mk")
    case False
    have "gc_decref_child q rt = Some ?rt"
      using c pos dq(1) False by (auto simp: gc_decref_child_def check_def add_ref_eq)
    moreover have "decref_inv B ?rt ls Mk" unfolding decref_inv_def
    proof (intro allI impI)
      fix p cp assume p: "heap ?rt p = Some cp \<and> p \<in> collectables B"
      show "(mark cp \<longleftrightarrow> p \<in> Mk) \<and> (p \<in> set (ls tmp_obj_list) \<longleftrightarrow> p \<in> Mk \<and> ref_count cp = 0)"
      proof (cases "p = q")
        case True
        then show ?thesis using p dq False by auto
      next
        case False
        then show ?thesis using p d by (simp add: decref_inv_def)
      qed
    qed
    ultimately show ?thesis using m1 rest(1) by blast
  next
    case True
    have "q \<in> set (ls gc_obj_list) \<union> set (ls tmp_obj_list)" using mark_invD(5)[OF m] q by simp
    then have qo: "q \<in> set (ls gc_obj_list)" using dq(2) by simp
    let ?ls = "ls(gc_obj_list := remove1 q (ls gc_obj_list), tmp_obj_list := ls tmp_obj_list @ [q])"
    obtain l where l: "(do { rt \<leftarrow> rt_list_del q ?rt; rt_list_add_tail q tmp_obj_list rt }) = Some (?rt\<lparr>links := l\<rparr>)"
      "mark_inv B ext H 1 (?rt\<lparr>links := l\<rparr>) ?ls A pend"
      using move_between[OF m1 _ _ _ qo, of tmp_obj_list] by auto
    have "gc_decref_child q rt = Some (?rt\<lparr>links := l\<rparr>)"
      using c pos dq(1) True l(1) by (simp add: gc_decref_child_def check_def add_ref_eq)
    moreover have "decref_inv B (?rt\<lparr>links := l\<rparr>) ?ls Mk" unfolding decref_inv_def
    proof (intro allI impI)
      fix p cp assume p: "heap (?rt\<lparr>links := l\<rparr>) p = Some cp \<and> p \<in> collectables B"
      show "(mark cp \<longleftrightarrow> p \<in> Mk) \<and> (p \<in> set (?ls tmp_obj_list) \<longleftrightarrow> p \<in> Mk \<and> ref_count cp = 0)"
      proof (cases "p = q")
        case True': True
        then show ?thesis using p dq True by auto
      next
        case False
        then show ?thesis using p d by (simp add: decref_inv_def)
      qed
    qed
    moreover have "?ls gc_obj_list = remove1 q L1 @ rest"
      using rest True qo by (auto simp: remove1_append)
    ultimately show ?thesis using l(2) by blast
  qed
qed

lemma decref_children:
  assumes "mark_inv B ext H 1 rt ls A (ps @ pend)" "decref_inv B rt ls Mk" "set ps \<subseteq> collectables B"
    "ls gc_obj_list = L1 @ rest" "set rest \<inter> Mk = {}"
  shows "\<exists>rt' ls' L1'. each gc_decref_child ps rt = Some rt' \<and> mark_inv B ext H 1 rt' ls' A pend \<and> decref_inv B rt' ls' Mk \<and>
    ls' gc_obj_list = L1' @ rest"
  using assms
proof (induction ps arbitrary: rt ls L1)
  case Nil
  then show ?case by (intro exI[of _ rt] exI[of _ ls] exI[of _ L1]) simp
next
  case (Cons q ps)
  have "mark_inv B ext H 1 rt ls A (q # ps @ pend)" "q \<in> collectables B" using Cons.prems by simp_all
  from decref_child[OF this(1) Cons.prems(2) this(2) Cons.prems(4,5)] obtain rt1 ls1 L2 where
    1: "gc_decref_child q rt = Some rt1" "mark_inv B ext H 1 rt1 ls1 A (ps @ pend)" "decref_inv B rt1 ls1 Mk"
      "ls1 gc_obj_list = L2 @ rest" by blast
  from Cons.IH[OF 1(2,3) _ 1(4) Cons.prems(5)] show ?case using Cons.prems(3) 1(1) by auto
qed

lemma in_refs_insert: "finite A \<Longrightarrow> p \<notin> A \<Longrightarrow> in_refs B (insert p A) q = in_refs B A q + count_list (ref_ptrs B p) q"
  by (simp add: in_refs_def)

lemma ring_step:
  assumes "ring l h (map Link (xs @ p # ys))"
  shows "list_next l (Link p) = Some (hd (map Link ys @ [h]))"
  using ring_next_element[of l h "map Link xs" "Link p" "map Link ys"] assms by simp


lemma hd_links: "hd (map Link ys @ [h]) = (case ys of [] \<Rightarrow> h | y # _ \<Rightarrow> Link y)"
  by (cases ys) simp_all

lemma decref_step:
  assumes t: "typed B" "finite (dom B)"
    and m: "mark_inv B ext H 1 rt ls (dom B - Mk) []" and d: "decref_inv B rt ls Mk"
    and rest: "ls gc_obj_list = L1 @ p # rest" "set (p # rest) \<inter> Mk = {}"
  obtains c rt1 c1 rt' ls' L1' where "heap rt p = Some c" "\<not> mark c" "mark_children p gc_decref_child rt = Some rt1"
    "heap rt1 p = Some c1"
    "(let rt2 = rt1\<lparr>heap := (heap rt1)(p \<mapsto> c1\<lparr>mark := True\<rparr>)\<rparr> in
      if ref_count c1 = 0 then do { rt \<leftarrow> rt_list_del p rt2; rt_list_add_tail p tmp_obj_list rt } else Some rt2) = Some rt'"
    "mark_inv B ext H 1 rt' ls' (dom B - insert p Mk) []" "decref_inv B rt' ls' (insert p Mk)"
    "ls' gc_obj_list = L1' @ rest"
proof -
  note md = mark_invD[OF m]
  have pC: "p \<in> collectables B" using md(5) rest(1) by auto
  have pM: "p \<notin> Mk" using rest(2) by simp
  obtain c ps where c: "heap rt p = Some c" "children rt (body c) = Some ps" "set ps \<subseteq> collectables B"
    "\<And>q. q \<in> collectables B \<Longrightarrow> count_list ps q = count_list (ref_ptrs B p) q"
    by (rule children_counts[OF md(1) t(1) pC]; rule that)
  have "\<not> mark c" using marksD(1)[OF d c(1) pC] pM by simp
  have pA: "p \<in> dom B - Mk" using pC pM by (auto simp: collectables_def)
  have diff: "dom B - insert p Mk = dom B - Mk - {p}" by blast
  have fin: "finite (dom B - Mk)" using t(2) by simp
  have A: "in_refs B (dom B - Mk) q = in_refs B (dom B - insert p Mk) q + count_list ps q" if "q \<in> collectables B" for q
    unfolding diff c(4)[OF that] by (rule in_refs_remove[OF fin pA])
  have m1: "mark_inv B ext H 1 rt ls (dom B - insert p Mk) (ps @ [])"
  proof (rule mark_invI)
    fix q cq assume q: "heap rt q = Some cq" "q \<in> collectables B"
    show "ref_count cq = int (ext q + in_refs B (dom B - insert p Mk) q) + 1 * int (count_list (ps @ []) q)"
      using md(7)[OF q] A[OF q(2)] by simp
  qed (rule md(1-5) | erule md(6))+
  have r: "ls gc_obj_list = L1 @ (p # rest)" using rest(1) by simp
  from decref_children[OF m1 d c(3) r rest(2)] obtain rt1 ls1 L2 where 1: "each gc_decref_child ps rt = Some rt1"
    "mark_inv B ext H 1 rt1 ls1 (dom B - insert p Mk) []" "decref_inv B rt1 ls1 Mk" "ls1 gc_obj_list = L2 @ p # rest" by blast
  obtain c1 where c1: "heap rt1 p = Some c1" by (rule collectable_cell[OF 1(2) pC])
  have mc: "mark_children p gc_decref_child rt = Some rt1" using c(1,2) 1(1) by (simp add: mark_children_def)
  let ?rt2 = "rt1\<lparr>heap := (heap rt1)(p \<mapsto> c1\<lparr>mark := True\<rparr>)\<rparr>"
  have m2: "mark_inv B ext H 1 ?rt2 ls1 (dom B - insert p Mk) []" by (rule mark_mark[OF 1(2) pC c1])
  have d2: "(mark cq \<longleftrightarrow> q \<in> insert p Mk) \<and> (q \<noteq> p \<longrightarrow> (q \<in> set (ls1 tmp_obj_list) \<longleftrightarrow> q \<in> insert p Mk \<and> ref_count cq = 0))"
    if "heap ?rt2 q = Some cq" "q \<in> collectables B" for q cq
  proof (cases "q = p")
    case True
    then show ?thesis using that(1) by auto
  next
    case False
    then have q: "heap rt1 q = Some cq" using that(1) by simp
    show ?thesis using marksD[OF 1(3) q that(2)] False by simp
  qed
  have po: "p \<in> set (ls1 gc_obj_list)" using 1(4) by simp
  then have pt: "p \<notin> set (ls1 tmp_obj_list)" using disjoint_lists[OF mark_invD(3)[OF 1(2)]] by blast
  have dist: "distinct (L2 @ p # rest)"
    using rings_distinct[OF mark_invD(3)[OF 1(2)], of gc_obj_list] 1(4) by simp
  show thesis
  proof (cases "ref_count c1 = 0")
    case False
    have "decref_inv B ?rt2 ls1 (insert p Mk)" unfolding decref_inv_def
    proof (intro allI impI)
      fix q cq assume q: "heap ?rt2 q = Some cq \<and> q \<in> collectables B"
      show "(mark cq \<longleftrightarrow> q \<in> insert p Mk) \<and> (q \<in> set (ls1 tmp_obj_list) \<longleftrightarrow> q \<in> insert p Mk \<and> ref_count cq = 0)"
        using d2[of q cq] q False pt by (cases "q = p") auto
    qed
    moreover have "ls1 gc_obj_list = (L2 @ [p]) @ rest" using 1(4) by simp
    ultimately show thesis
      by (intro that[OF c(1) \<open>\<not> mark c\<close> mc c1, of ?rt2 ls1 "L2 @ [p]"]) (use m2 False in \<open>simp_all add: Let_def\<close>)
  next
    case True
    let ?ls = "ls1(gc_obj_list := remove1 p (ls1 gc_obj_list), tmp_obj_list := ls1 tmp_obj_list @ [p])"
    obtain l where l: "(do { rt \<leftarrow> rt_list_del p ?rt2; rt_list_add_tail p tmp_obj_list rt }) = Some (?rt2\<lparr>links := l\<rparr>)"
      "mark_inv B ext H 1 (?rt2\<lparr>links := l\<rparr>) ?ls (dom B - insert p Mk) []"
      using move_between[OF m2 _ _ _ po, of tmp_obj_list] by auto
    have "decref_inv B (?rt2\<lparr>links := l\<rparr>) ?ls (insert p Mk)" unfolding decref_inv_def
    proof (intro allI impI)
      fix q cq assume q: "heap (?rt2\<lparr>links := l\<rparr>) q = Some cq \<and> q \<in> collectables B"
      then show "(mark cq \<longleftrightarrow> q \<in> insert p Mk) \<and> (q \<in> set (?ls tmp_obj_list) \<longleftrightarrow> q \<in> insert p Mk \<and> ref_count cq = 0)"
        using d2[of q cq] True by (cases "q = p") auto
    qed
    moreover have "?ls gc_obj_list = L2 @ rest" using 1(4) dist by (simp add: remove1_append)
    ultimately show thesis
      by (intro that[OF c(1) \<open>\<not> mark c\<close> mc c1, of "?rt2\<lparr>links := l\<rparr>" ?ls L2]) (use l True in \<open>simp_all add: Let_def\<close>)
  qed
qed

lemma decref_loop:
  assumes t: "typed B" "finite (dom B)"
  shows "mark_inv B ext H 1 rt ls (dom B - Mk) [] \<Longrightarrow> decref_inv B rt ls Mk \<Longrightarrow> ls gc_obj_list = L1 @ rest \<Longrightarrow>
    set rest \<inter> Mk = {} \<Longrightarrow> el = hd (map Link rest @ [gc_obj_list]) \<Longrightarrow>
    (rest \<noteq> [] \<Longrightarrow> el1 = hd (map Link (tl rest) @ [gc_obj_list])) \<Longrightarrow>
    \<exists>rt' ls'. gc_decref_loop el el1 rt = Some rt' \<and> mark_inv B ext H 1 rt' ls' (dom B - (Mk \<union> set rest)) [] \<and>
      decref_inv B rt' ls' (Mk \<union> set rest)"
proof (induction rest arbitrary: rt ls Mk L1 el el1)
  case Nil
  then have "gc_decref_loop el el1 rt = Some rt" by (subst gc_decref_loop.simps) simp
  then show ?case using Nil.prems by auto
next
  case (Cons p rest)
  obtain c rt1 c1 rt2 ls2 L2 where 1: "heap rt p = Some c" "\<not> mark c" "mark_children p gc_decref_child rt = Some rt1"
    "heap rt1 p = Some c1"
    "(let rt2 = rt1\<lparr>heap := (heap rt1)(p \<mapsto> c1\<lparr>mark := True\<rparr>)\<rparr> in
      if ref_count c1 = 0 then do { rt \<leftarrow> rt_list_del p rt2; rt_list_add_tail p tmp_obj_list rt } else Some rt2) = Some rt2"
    "mark_inv B ext H 1 rt2 ls2 (dom B - insert p Mk) []" "decref_inv B rt2 ls2 (insert p Mk)"
    "ls2 gc_obj_list = L2 @ rest"
    by (rule decref_step[OF t Cons.prems(1-4)]; rule that)
  have ring: "ring (links rt2) gc_obj_list (map Link (L2 @ rest))"
    using rings_ring[OF mark_invD(3)[OF 1(6)], of gc_obj_list] 1(8) by simp
  have el1: "el1 = hd (map Link rest @ [gc_obj_list])" using Cons.prems(6) by simp
  obtain el2 where el2: "list_next (links rt2) el1 = Some el2"
    "rest \<noteq> [] \<Longrightarrow> el2 = hd (map Link (tl rest) @ [gc_obj_list])"
  proof (cases rest)
    case Nil
    then show thesis using that ring_next[OF ring] el1 by simp
  next
    case (Cons r rs)
    then show thesis using that ring_step[of "links rt2" gc_obj_list L2 r rs] ring el1 by simp
  qed
  have dist: "distinct (L1 @ p # rest)"
    using rings_distinct[OF mark_invD(3)[OF Cons.prems(1)], of gc_obj_list] Cons.prems(3) by simp
  have disj: "set rest \<inter> insert p Mk = {}" using Cons.prems(4) dist by auto
  obtain rt' ls' where r: "gc_decref_loop el1 el2 rt2 = Some rt'"
    "mark_inv B ext H 1 rt' ls' (dom B - (insert p Mk \<union> set rest)) []" "decref_inv B rt' ls' (insert p Mk \<union> set rest)"
    using Cons.IH[OF 1(6,7,8) disj el1 el2(2)] by blast
  have "el = Link p" using Cons.prems(5) by simp
  then have "gc_decref_loop el el1 rt = Some rt'"
    by (subst gc_decref_loop.simps)
      (use 1(1-5) el2(1) r(1) in \<open>auto simp: check_def update_cell_def Let_def bind_eq_Some_conv split: if_splits\<close>)
  then show ?case using r(2,3) by auto
qed


section \<open>Putting the references back\<close>

definition scan_inv :: "(ptr \<Rightarrow> gc_body option) \<Rightarrow> gc_rt \<Rightarrow> (link \<Rightarrow> ptr list) \<Rightarrow> ptr set \<Rightarrow> bool" where
  "scan_inv B rt ls D \<longleftrightarrow> (\<forall>p c. heap rt p = Some c \<and> p \<in> collectables B \<longrightarrow>
     ref_count c \<ge> 0 \<and> (p \<in> set (ls tmp_obj_list) \<longleftrightarrow> ref_count c = 0) \<and> (p \<in> D \<longrightarrow> \<not> mark c))"

lemma scan_invD:
  assumes "scan_inv B rt ls D" "heap rt p = Some c" "p \<in> collectables B"
  shows "ref_count c \<ge> 0" "p \<in> set (ls tmp_obj_list) \<longleftrightarrow> ref_count c = 0" "p \<in> D \<Longrightarrow> \<not> mark c"
  using assms unfolding scan_inv_def by blast+

lemma scan_invI:
  assumes "\<And>p c. heap rt p = Some c \<Longrightarrow> p \<in> collectables B \<Longrightarrow>
    ref_count c \<ge> 0 \<and> (p \<in> set (ls tmp_obj_list) \<longleftrightarrow> ref_count c = 0) \<and> (p \<in> D \<longrightarrow> \<not> mark c)"
  shows "scan_inv B rt ls D"
  using assms unfolding scan_inv_def by blast

lemma scan_child:
  assumes m: "mark_inv B ext H (- 1) rt ls A (q # pend)" and d: "scan_inv B rt ls D" and q: "q \<in> collectables B"
  shows "\<exists>rt' ls' xs. gc_scan_incref_child q rt = Some rt' \<and> mark_inv B ext H (- 1) rt' ls' A pend \<and> scan_inv B rt' ls' D \<and>
    ls' gc_obj_list = ls gc_obj_list @ xs \<and> set xs \<subseteq> {q}"
proof -
  obtain c where c: "heap rt q = Some c" by (rule collectable_cell[OF m q])
  let ?c = "c\<lparr>ref_count := ref_count c - - 1\<rparr>"
  let ?rt = "rt\<lparr>heap := (heap rt)(q \<mapsto> ?c)\<rparr>"
  have m1: "mark_inv B ext H (- 1) ?rt ls A pend" by (rule mark_count[OF m q c])
  note dq = scan_invD[OF d c q]
  have add: "add_ref q 1 rt = Some (ref_count c + 1, ?rt)" using add_ref_eq[of rt q c 1] c by simp
  show ?thesis
  proof (cases "ref_count c = 0")
    case False
    have "scan_inv B ?rt ls D"
    proof (rule scan_invI)
      fix p cp assume p: "heap ?rt p = Some cp" "p \<in> collectables B"
      show "ref_count cp \<ge> 0 \<and> (p \<in> set (ls tmp_obj_list) \<longleftrightarrow> ref_count cp = 0) \<and> (p \<in> D \<longrightarrow> \<not> mark cp)"
      proof (cases "p = q")
        case True
        then have "cp = ?c" using p(1) by simp
        then show ?thesis using dq False True by simp
      next
        case False
        then have "heap rt p = Some cp" using p(1) by simp
        then show ?thesis using scan_invD[OF d _ p(2)] by blast
      qed
    qed
    moreover have "gc_scan_incref_child q rt = Some ?rt" using add False by (simp add: gc_scan_incref_child_def)
    ultimately show ?thesis using m1 by (intro exI[of _ ?rt] exI[of _ ls] exI[of _ "[]"]) simp
  next
    case True
    then have qt: "q \<in> set (ls tmp_obj_list)" using dq by simp
    then have qo: "q \<notin> set (ls gc_obj_list)" using disjoint_lists[OF mark_invD(3)[OF m]] by blast
    let ?ls = "ls(tmp_obj_list := remove1 q (ls tmp_obj_list), gc_obj_list := ls gc_obj_list @ [q])"
    obtain l where l: "(do { rt \<leftarrow> rt_list_del q ?rt; rt_list_add_tail q gc_obj_list rt }) = Some (?rt\<lparr>links := l\<rparr>)"
      "mark_inv B ext H (- 1) (?rt\<lparr>links := l\<rparr>) ?ls A pend"
      using move_between[OF m1 _ _ _ qt, of gc_obj_list] by auto
    let ?rt1 = "?rt\<lparr>links := l\<rparr>"
    let ?rt2 = "?rt1\<lparr>heap := (heap ?rt1)(q \<mapsto> ?c\<lparr>mark := False\<rparr>)\<rparr>"
    have c1: "heap ?rt1 q = Some ?c" by simp
    have m2: "mark_inv B ext H (- 1) ?rt2 ?ls A pend" by (rule mark_mark[OF l(2) q c1])
    have "gc_scan_incref_child q rt = update_cell q (\<lambda>c. c\<lparr>mark := False\<rparr>) ?rt1"
      using add True l(1) by (auto simp: gc_scan_incref_child_def bind_eq_Some_conv)
    moreover have "update_cell q (\<lambda>c. c\<lparr>mark := False\<rparr>) ?rt1 = Some ?rt2" by (simp add: update_cell_def)
    moreover have "scan_inv B ?rt2 ?ls D"
    proof (rule scan_invI)
      fix p cp assume p: "heap ?rt2 p = Some cp" "p \<in> collectables B"
      have rem: "set (remove1 q (ls tmp_obj_list)) = set (ls tmp_obj_list) - {q}"
        using set_remove1_eq[OF rings_distinct[OF mark_invD(3)[OF m], of tmp_obj_list]] by simp
      show "ref_count cp \<ge> 0 \<and> (p \<in> set (?ls tmp_obj_list) \<longleftrightarrow> ref_count cp = 0) \<and> (p \<in> D \<longrightarrow> \<not> mark cp)"
      proof (cases "p = q")
        case True': True
        then have "cp = ?c\<lparr>mark := False\<rparr>" using p(1) by simp
        then show ?thesis using True True' rem by simp
      next
        case False
        then have "heap rt p = Some cp" using p(1) by simp
        from scan_invD[OF d this p(2)] show ?thesis using False rem by simp
      qed
    qed
    ultimately show ?thesis using m2 by (intro exI[of _ ?rt2] exI[of _ ?ls] exI[of _ "[q]"]) simp
  qed
qed

lemma scan_children:
  assumes "mark_inv B ext H (- 1) rt ls A (ps @ pend)" "scan_inv B rt ls D" "set ps \<subseteq> collectables B"
  shows "\<exists>rt' ls' xs. each gc_scan_incref_child ps rt = Some rt' \<and> mark_inv B ext H (- 1) rt' ls' A pend \<and> scan_inv B rt' ls' D \<and>
    ls' gc_obj_list = ls gc_obj_list @ xs \<and> set xs \<subseteq> set ps"
  using assms
proof (induction ps arbitrary: rt ls)
  case Nil
  then show ?case by (intro exI[of _ rt] exI[of _ ls] exI[of _ "[]"]) simp
next
  case (Cons q ps)
  have "mark_inv B ext H (- 1) rt ls A (q # ps @ pend)" "q \<in> collectables B" using Cons.prems by simp_all
  from scan_child[OF this(1) Cons.prems(2) this(2)] obtain rt1 ls1 xs where
    1: "gc_scan_incref_child q rt = Some rt1" "mark_inv B ext H (- 1) rt1 ls1 A (ps @ pend)" "scan_inv B rt1 ls1 D"
      "ls1 gc_obj_list = ls gc_obj_list @ xs" "set xs \<subseteq> {q}" by blast
  from Cons.IH[OF 1(2,3)] Cons.prems(3) obtain rt2 ls2 ys where
    2: "each gc_scan_incref_child ps rt1 = Some rt2" "mark_inv B ext H (- 1) rt2 ls2 A pend" "scan_inv B rt2 ls2 D"
      "ls2 gc_obj_list = ls1 gc_obj_list @ ys" "set ys \<subseteq> set ps" by auto
  show ?case using 1 2 by (intro exI[of _ rt2] exI[of _ ls2] exI[of _ "xs @ ys"]) auto
qed

lemma scan_step:
  assumes t: "typed B" "finite (dom B)"
    and m: "mark_inv B ext H (- 1) rt ls ((dom B - collectables B) \<union> set D) []" and d: "scan_inv B rt ls (set D)"
    and obj: "ls gc_obj_list = D @ p # rest" and live: "reachable B ext p"
  obtains c rt1 rt2 ls2 xs where "heap rt p = Some c" "ref_count c > 0"
    "update_cell p (\<lambda>c. c\<lparr>mark := False\<rparr>) rt = Some rt1" "mark_children p gc_scan_incref_child rt1 = Some rt2"
    "mark_inv B ext H (- 1) rt2 ls2 ((dom B - collectables B) \<union> set (D @ [p])) []" "scan_inv B rt2 ls2 (set (D @ [p]))"
    "ls2 gc_obj_list = D @ p # rest @ xs" "\<forall>q \<in> set xs. reachable B ext q"
proof -
  note md = mark_invD[OF m]
  have po: "p \<in> set (ls gc_obj_list)" using obj by simp
  then have pC: "p \<in> collectables B" using md(5) by blast
  have pt: "p \<notin> set (ls tmp_obj_list)" using po disjoint_lists[OF md(3)] by blast
  have dist: "distinct (D @ p # rest)" using rings_distinct[OF md(3), of gc_obj_list] obj by simp
  obtain c ps where c: "heap rt p = Some c" "children rt (body c) = Some ps" "set ps \<subseteq> collectables B"
    "\<And>q. q \<in> collectables B \<Longrightarrow> count_list ps q = count_list (ref_ptrs B p) q"
    by (rule children_counts[OF md(1) t(1) pC]; rule that)
  have pos: "ref_count c > 0" using scan_invD(1,2)[OF d c(1) pC] pt by simp
  let ?c = "c\<lparr>mark := False\<rparr>"
  let ?rt = "rt\<lparr>heap := (heap rt)(p \<mapsto> ?c)\<rparr>" and ?A = "(dom B - collectables B) \<union> set D"
  have up: "update_cell p (\<lambda>c. c\<lparr>mark := False\<rparr>) rt = Some ?rt" using c(1) by (simp add: update_cell_def)
  have m1: "mark_inv B ext H (- 1) ?rt ls ?A []" by (rule mark_mark[OF m pC c(1)])
  obtain c1 ps1 where c1: "heap ?rt p = Some c1" "children ?rt (body c1) = Some ps1" "set ps1 \<subseteq> collectables B"
    "\<And>q. q \<in> collectables B \<Longrightarrow> count_list ps1 q = count_list (ref_ptrs B p) q"
    by (rule children_counts[OF mark_invD(1)[OF m1] t(1) pC]; rule that)
  have fin: "finite ?A" using t(2) by simp
  have pA: "p \<notin> ?A" using pC dist by auto
  have A: "insert p ?A = (dom B - collectables B) \<union> set (D @ [p])" by auto
  have m2: "mark_inv B ext H (- 1) ?rt ls (insert p ?A) (ps1 @ [])"
  proof (rule mark_invI)
    fix q cq assume q: "heap ?rt q = Some cq" "q \<in> collectables B"
    show "ref_count cq = int (ext q + in_refs B (insert p ?A) q) + - 1 * int (count_list (ps1 @ []) q)"
      using mark_invD(7)[OF m1 q] unfolding in_refs_insert[OF fin pA] c1(4)[OF q(2), symmetric] by simp
  qed (rule mark_invD(1-5)[OF m1] | erule mark_invD(6)[OF m1])+
  have d2: "scan_inv B ?rt ls (set (D @ [p]))"
  proof (rule scan_invI)
    fix q cq assume q: "heap ?rt q = Some cq" "q \<in> collectables B"
    show "ref_count cq \<ge> 0 \<and> (q \<in> set (ls tmp_obj_list) \<longleftrightarrow> ref_count cq = 0) \<and> (q \<in> set (D @ [p]) \<longrightarrow> \<not> mark cq)"
    proof (cases "q = p")
      case True
      then have "cq = ?c" using q(1) by simp
      then show ?thesis using pos pt True by simp
    next
      case False
      then have "heap rt q = Some cq" using q(1) by simp
      from scan_invD[OF d this q(2)] show ?thesis using False by simp
    qed
  qed
  from scan_children[OF m2 d2 c1(3)] obtain rt2 ls2 xs where
    2: "each gc_scan_incref_child ps1 ?rt = Some rt2" "mark_inv B ext H (- 1) rt2 ls2 (insert p ?A) []"
      "scan_inv B rt2 ls2 (set (D @ [p]))" "ls2 gc_obj_list = ls gc_obj_list @ xs" "set xs \<subseteq> set ps1" by blast
  have "\<forall>q \<in> set xs. reachable B ext q"
  proof
    fix q assume "q \<in> set xs"
    then have q: "q \<in> set ps1" using 2(5) by blast
    then have "count_list (ref_ptrs B p) q > 0" using count_list_pos[OF q] c1(3,4) by auto
    then have "q \<in> set (ref_ptrs B p)" using count_list_0_iff[of "ref_ptrs B p" q] by auto
    then show "reachable B ext q" by (rule reachable.step[OF live])
  qed
  moreover have "mark_children p gc_scan_incref_child ?rt = Some rt2" using c1(1,2) 2(1) by (simp add: mark_children_def)
  moreover have "ls2 gc_obj_list = D @ p # rest @ xs" using 2(4) obj by simp
  ultimately show thesis using that[OF c(1) pos up _ _ 2(3)] 2(2) unfolding A by blast
qed

lemma scan_loop_live:
  assumes t: "typed B" "finite (dom B)"
  shows "mark_inv B ext H (- 1) rt ls ((dom B - collectables B) \<union> set D) [] \<Longrightarrow> scan_inv B rt ls (set D) \<Longrightarrow>
    ls gc_obj_list = D @ rest \<Longrightarrow> (\<forall>q \<in> set (D @ rest). reachable B ext q) \<Longrightarrow> el = hd (map Link rest @ [gc_obj_list]) \<Longrightarrow>
    \<exists>rt' ls'. gc_scan_loop el rt = Some rt' \<and>
      mark_inv B ext H (- 1) rt' ls' ((dom B - collectables B) \<union> set (ls' gc_obj_list)) [] \<and>
      scan_inv B rt' ls' (set (ls' gc_obj_list)) \<and> (\<forall>q \<in> set (ls' gc_obj_list). reachable B ext q)"
proof (induction "card (collectables B - set D)" arbitrary: rt ls D rest el rule: less_induct)
  case less
  show ?case
  proof (cases rest)
    case Nil
    have "gc_scan_loop el rt = Some rt" by (subst gc_scan_loop.simps) (use less.prems(5) Nil in simp)
    then show ?thesis using less.prems(1-4) Nil by auto
  next
    case (Cons p rest')
    have obj: "ls gc_obj_list = D @ p # rest'" using less.prems(3) Cons by simp
    have live: "reachable B ext p" using less.prems(4) Cons by simp
    obtain c rt1 rt2 ls2 xs where 1: "heap rt p = Some c" "ref_count c > 0"
      "update_cell p (\<lambda>c. c\<lparr>mark := False\<rparr>) rt = Some rt1" "mark_children p gc_scan_incref_child rt1 = Some rt2"
      "mark_inv B ext H (- 1) rt2 ls2 ((dom B - collectables B) \<union> set (D @ [p])) []" "scan_inv B rt2 ls2 (set (D @ [p]))"
      "ls2 gc_obj_list = D @ p # rest' @ xs" "\<forall>q \<in> set xs. reachable B ext q"
      by (rule scan_step[OF t less.prems(1,2) obj live]; rule that)
    have "p \<in> collectables B" using mark_invD(5)[OF less.prems(1)] obj by auto
    moreover have "p \<notin> set D"
      using rings_distinct[OF mark_invD(3)[OF less.prems(1)], of gc_obj_list] obj by simp
    moreover have "finite (collectables B)" using t(2) by (rule finite_subset[rotated]) (auto simp: collectables_def)
    ultimately have dec: "card (collectables B - set (D @ [p])) < card (collectables B - set D)"
      by (intro psubset_card_mono) auto
    have ring: "ring (links rt2) gc_obj_list (map Link (D @ p # rest' @ xs))"
      using rings_ring[OF mark_invD(3)[OF 1(5)], of gc_obj_list] 1(7) by simp
    have nxt: "list_next (links rt2) (Link p) = Some (hd (map Link (rest' @ xs) @ [gc_obj_list]))" by (rule ring_step[OF ring])
    have obj2: "ls2 gc_obj_list = (D @ [p]) @ (rest' @ xs)" using 1(7) by simp
    have live2: "\<forall>q \<in> set ((D @ [p]) @ (rest' @ xs)). reachable B ext q" using less.prems(4) Cons 1(8) by auto
    obtain rt' ls' where r: "gc_scan_loop (hd (map Link (rest' @ xs) @ [gc_obj_list])) rt2 = Some rt'"
      "mark_inv B ext H (- 1) rt' ls' ((dom B - collectables B) \<union> set (ls' gc_obj_list)) []"
      "scan_inv B rt' ls' (set (ls' gc_obj_list))" "\<forall>q \<in> set (ls' gc_obj_list). reachable B ext q"
      using less.hyps[OF dec 1(5,6) obj2 live2 refl] by blast
    have "el = Link p" using less.prems(5) Cons by simp
    then have "gc_scan_loop el rt = Some rt'"
      by (subst gc_scan_loop.simps) (use 1(1-4) nxt r(1) in \<open>simp add: check_def\<close>)
    then show ?thesis using r(2-4) by blast
  qed
qed


text \<open>The references of the dead are put back without moving anything.\<close>

lemma restore_children:
  assumes "mark_inv B ext H (- 1) rt ls A (ps @ pend)" "set ps \<subseteq> collectables B"
    "\<forall>p c. heap rt p = Some c \<longrightarrow> p \<in> D \<longrightarrow> \<not> mark c"
  shows "\<exists>rt'. each gc_scan_incref_child2 ps rt = Some rt' \<and> mark_inv B ext H (- 1) rt' ls A pend \<and>
    links rt' = links rt \<and> (\<forall>p c. heap rt' p = Some c \<longrightarrow> p \<in> D \<longrightarrow> \<not> mark c)"
  using assms
proof (induction ps arbitrary: rt)
  case Nil
  then show ?case by (intro exI[of _ rt]) simp
next
  case (Cons q ps)
  have m: "mark_inv B ext H (- 1) rt ls A (q # ps @ pend)" and q: "q \<in> collectables B" using Cons.prems by simp_all
  obtain c where c: "heap rt q = Some c" by (rule collectable_cell[OF m q])
  let ?rt = "rt\<lparr>heap := (heap rt)(q \<mapsto> c\<lparr>ref_count := ref_count c - - 1\<rparr>)\<rparr>"
  have m1: "mark_inv B ext H (- 1) ?rt ls A (ps @ pend)" by (rule mark_count[OF m q c])
  have marks: "\<forall>p c. heap ?rt p = Some c \<longrightarrow> p \<in> D \<longrightarrow> \<not> mark c"
    using Cons.prems(3) c by (auto split: if_splits)
  have "gc_scan_incref_child2 q rt = Some ?rt" using add_ref_eq[of rt q c 1] c by (simp add: gc_scan_incref_child2_def)
  moreover have "set ps \<subseteq> collectables B" using Cons.prems(2) by simp
  from Cons.IH[OF m1 this marks] obtain rt' where "each gc_scan_incref_child2 ps ?rt = Some rt'"
    "mark_inv B ext H (- 1) rt' ls A pend" "links rt' = links ?rt" "\<forall>p c. heap rt' p = Some c \<longrightarrow> p \<in> D \<longrightarrow> \<not> mark c" by blast
  ultimately show ?case by (intro exI[of _ rt']) simp
qed

lemma restore_loop:
  assumes t: "typed B" "finite (dom B)"
  shows "mark_inv B ext H (- 1) rt ls (A \<union> set xs) [] \<Longrightarrow> finite A \<Longrightarrow> A \<inter> set (ls tmp_obj_list) = {} \<Longrightarrow>
    ls tmp_obj_list = xs @ rest \<Longrightarrow> (\<forall>p c. heap rt p = Some c \<longrightarrow> p \<in> D \<longrightarrow> \<not> mark c) \<Longrightarrow>
    el = hd (map Link rest @ [tmp_obj_list]) \<Longrightarrow>
    \<exists>rt'. gc_restore_loop el rt = Some rt' \<and> mark_inv B ext H (- 1) rt' ls (A \<union> set (ls tmp_obj_list)) [] \<and>
      (\<forall>p c. heap rt' p = Some c \<longrightarrow> p \<in> D \<longrightarrow> \<not> mark c)"
proof (induction rest arbitrary: rt xs el)
  case Nil
  then have "gc_restore_loop el rt = Some rt" by (subst gc_restore_loop.simps) simp
  then show ?case using Nil.prems by auto
next
  case (Cons p rest)
  note md = mark_invD[OF Cons.prems(1)]
  have pC: "p \<in> collectables B" using md(5) Cons.prems(4) by auto
  obtain c ps where c: "heap rt p = Some c" "children rt (body c) = Some ps" "set ps \<subseteq> collectables B"
    "\<And>q. q \<in> collectables B \<Longrightarrow> count_list ps q = count_list (ref_ptrs B p) q"
    by (rule children_counts[OF md(1) t(1) pC]; rule that)
  have fin: "finite (A \<union> set xs)" using Cons.prems(2) by simp
  have "distinct (xs @ p # rest)" using rings_distinct[OF md(3), of tmp_obj_list] Cons.prems(4) by simp
  then have pA: "p \<notin> A \<union> set xs" using Cons.prems(3,4) by auto
  have A: "insert p (A \<union> set xs) = A \<union> set (xs @ [p])" by auto
  have m1: "mark_inv B ext H (- 1) rt ls (insert p (A \<union> set xs)) (ps @ [])"
  proof (rule mark_invI)
    fix q cq assume q: "heap rt q = Some cq" "q \<in> collectables B"
    show "ref_count cq = int (ext q + in_refs B (insert p (A \<union> set xs)) q) + - 1 * int (count_list (ps @ []) q)"
      using md(7)[OF q] unfolding in_refs_insert[OF fin pA] c(4)[OF q(2), symmetric] by simp
  qed (rule md(1-5) | erule md(6))+
  obtain rt1 where 1: "each gc_scan_incref_child2 ps rt = Some rt1"
    "mark_inv B ext H (- 1) rt1 ls (insert p (A \<union> set xs)) []" "links rt1 = links rt"
    "\<forall>p c. heap rt1 p = Some c \<longrightarrow> p \<in> D \<longrightarrow> \<not> mark c"
    using restore_children[OF m1 c(3), of D] Cons.prems(5) by blast
  have ring: "ring (links rt1) tmp_obj_list (map Link (xs @ p # rest))"
    using rings_ring[OF mark_invD(3)[OF 1(2)], of tmp_obj_list] Cons.prems(4) by simp
  have nxt: "list_next (links rt1) (Link p) = Some (hd (map Link rest @ [tmp_obj_list]))" by (rule ring_step[OF ring])
  have m2: "mark_inv B ext H (- 1) rt1 ls (A \<union> set (xs @ [p])) []" using 1(2) unfolding A .
  have tmp: "ls tmp_obj_list = (xs @ [p]) @ rest" using Cons.prems(4) by simp
  obtain rt' where r: "gc_restore_loop (hd (map Link rest @ [tmp_obj_list])) rt1 = Some rt'"
    "mark_inv B ext H (- 1) rt' ls (A \<union> set (ls tmp_obj_list)) []" "\<forall>p c. heap rt' p = Some c \<longrightarrow> p \<in> D \<longrightarrow> \<not> mark c"
    using Cons.IH[OF m2 Cons.prems(2,3) tmp 1(4) refl] by blast
  have "el = Link p" using Cons.prems(6) by simp
  then have "gc_restore_loop el rt = Some rt'"
    by (subst gc_restore_loop.simps) (use c(1,2) 1(1) nxt r(1) in \<open>simp add: mark_children_def\<close>)
  then show ?case using r(2,3) by blast
qed

section \<open>Both passes\<close>

lemma outside_refs:
  assumes "p \<notin> collectables B"
  shows "ref_ptrs B p = []"
proof (cases "B p")
  case (Some b)
  then have "\<not> collectable b" using assms by (auto simp: collectables_def)
  then show ?thesis using Some by (cases b) (auto simp: ref_ptrs_def)
qed (simp add: ref_ptrs_def)

lemma in_refs_outside: "in_refs B ((dom B - collectables B) \<union> D) q = in_refs B (D \<inter> collectables B) q" if "finite D" "finite (dom B)"
proof -
  have "in_refs B ((dom B - collectables B) \<union> D) q = in_refs B ((dom B - collectables B) \<union> D \<inter> collectables B \<union> (D - collectables B)) q"
    by (rule arg_cong[of _ _ "\<lambda>X. in_refs B X q"]) blast
  also have "\<dots> = in_refs B (D \<inter> collectables B) q"
    unfolding in_refs_def by (rule sum.mono_neutral_right) (use that outside_refs in auto)
  finally show ?thesis .
qed

lemma gc_decref_result:
  assumes ok: "gc_ok rt ext"
  defines "B \<equiv> bodies rt"
  obtains rt' ls where "gc_decref rt = Some rt'" "mark_inv B ext (heap rt) 1 rt' ls (dom B - collectables B) []"
    "decref_inv B rt' ls (collectables B)"
proof -
  note g = gc_okD[OF ok]
  obtain ps where ps: "ring (links rt) gc_obj_list (map Link ps)"
    "set ps = {p. \<exists>c. heap rt p = Some c \<and> collectable (body c)}" using g(4) by blast
  have C: "set ps = collectables B" using ps(2) by (auto simp: collectables_def B_def bodies_def)
  obtain l where l: "init_list_head (links rt) tmp_obj_list = Some l" "ring l tmp_obj_list []" "dom l = dom (links rt)"
    "\<And>x. x \<noteq> tmp_obj_list \<Longrightarrow> l x = links rt x" using ring_init[OF g(6)] by metis
  let ?rt = "rt\<lparr>links := l\<rparr>" and ?ls = "(\<lambda>_. [])(gc_obj_list := ps)"
  have "ring l gc_obj_list (map Link ps)" by (rule ring_cong[OF ps(1)]) (use l(4) in auto)
  moreover have "ring l gc_zero_ref_count_list []" by (rule ring_cong[OF g(5)]) (use l(4) in auto)
  ultimately have r: "rings l all_lists ?ls" using l(2,3) g(6) by (auto simp: rings_def)
  have m: "mark_inv B ext (heap rt) 1 ?rt ?ls (dom B - {}) []"
  proof (rule mark_invI)
    fix p c assume p: "heap ?rt p = Some c" "p \<in> collectables B"
    show "ref_count c = int (ext p + in_refs B (dom B - {}) p) + 1 * int (count_list [] p)"
      using g(7)[of p c] p(1) by (simp add: B_def)
  qed (use r g(2) C in \<open>simp_all add: B_def\<close>)
  have d: "decref_inv B ?rt ?ls {}" using g(9) by (auto simp: decref_inv_def)
  have ring: "ring l gc_obj_list (map Link ps)" using rings_ring[OF r, of gc_obj_list] by simp
  let ?el = "hd (map Link ps @ [gc_obj_list])"
  have el: "list_next l gc_obj_list = Some ?el" using ring_next[OF ring] by simp
  obtain el1 where el1: "list_next l ?el = Some el1" "ps \<noteq> [] \<Longrightarrow> el1 = hd (map Link (tl ps) @ [gc_obj_list])"
  proof (cases ps)
    case Nil
    then show thesis using that el by simp
  next
    case (Cons p ps')
    then show thesis using that ring_step[of l gc_obj_list "[]" p ps'] ring by simp
  qed
  have t: "typed B" "finite (dom B)" using g(1,3) by (simp_all add: B_def)
  have obj: "?ls gc_obj_list = [] @ ps" by simp
  obtain rt' ls where r: "gc_decref_loop ?el el1 ?rt = Some rt'" "mark_inv B ext (heap rt) 1 rt' ls (dom B - ({} \<union> set ps)) []"
    "decref_inv B rt' ls ({} \<union> set ps)"
    using decref_loop[OF t m d obj _ refl el1(2)] by auto
  have "gc_decref rt = Some rt'" using l(1) el el1(1) r(1) by (simp add: gc_decref_def rt_init_list_head_def)
  then show thesis using that r(2,3) C by simp
qed

lemma gc_scan_result:
  assumes t: "typed B" "finite (dom B)" and m: "mark_inv B ext H 1 rt ls (dom B - collectables B) []" and d: "decref_inv B rt ls (collectables B)"
  obtains rt' ls' where "gc_scan rt = Some rt'" "mark_inv B ext H (- 1) rt' ls' (dom B) []"
    "set (ls' gc_obj_list) = collectables B \<inter> Collect (reachable B ext)"
    "\<And>p c. heap rt' p = Some c \<Longrightarrow> p \<in> set (ls' gc_obj_list) \<Longrightarrow> \<not> mark c"
proof -
  have m0: "mark_inv B ext H (- 1) rt ls ((dom B - collectables B) \<union> set []) []" using m by (simp add: mark_inv_def)
  have zero: "in_refs B (dom B - collectables B) p = 0" for p
    using in_refs_outside[of "{}" B p] t(2) by (simp add: in_refs_def)
  have s0: "scan_inv B rt ls (set [])"
  proof (rule scan_invI)
    fix p c assume p: "heap rt p = Some c" "p \<in> collectables B"
    show "ref_count c \<ge> 0 \<and> (p \<in> set (ls tmp_obj_list) \<longleftrightarrow> ref_count c = 0) \<and> (p \<in> set [] \<longrightarrow> \<not> mark c)"
      using mark_invD(7)[OF m p] marksD[OF d p] p(2) by simp
  qed
  have live0: "\<forall>q \<in> set ([] @ ls gc_obj_list). reachable B ext q"
  proof
    fix q assume "q \<in> set ([] @ ls gc_obj_list)"
    then have q: "q \<in> set (ls gc_obj_list)" by simp
    then have qC: "q \<in> collectables B" using mark_invD(5)[OF m] by blast
    have qt: "q \<notin> set (ls tmp_obj_list)" using q disjoint_lists[OF mark_invD(3)[OF m]] by blast
    obtain c where c: "heap rt q = Some c" by (rule collectable_cell[OF m qC])
    have "ref_count c \<noteq> 0" using marksD(2)[OF d c qC] qt qC by simp
    then have "ext q > 0" using mark_invD(7)[OF m c qC] zero[of q] by simp
    moreover have "B q \<noteq> None" using qC by (auto simp: collectables_def)
    ultimately show "reachable B ext q" by (intro reachable.root)
  qed
  have obj0: "ls gc_obj_list = [] @ ls gc_obj_list" by simp
  let ?el = "hd (map Link (ls gc_obj_list) @ [gc_obj_list])"
  have el: "list_next (links rt) gc_obj_list = Some ?el"
    using ring_next[OF rings_ring[OF mark_invD(3)[OF m], of gc_obj_list]] by simp
  obtain rt1 ls1 where 1: "gc_scan_loop ?el rt = Some rt1"
    "mark_inv B ext H (- 1) rt1 ls1 ((dom B - collectables B) \<union> set (ls1 gc_obj_list)) []"
    "scan_inv B rt1 ls1 (set (ls1 gc_obj_list))" "\<forall>q \<in> set (ls1 gc_obj_list). reachable B ext q"
    using scan_loop_live[OF t m0 s0 obj0 live0 refl] by blast
  note m1 = mark_invD[OF 1(2)]
  let ?D = "set (ls1 gc_obj_list)"
  have found: "p \<in> ?D" if p: "p \<in> collectables B" "ext p > 0 \<or> (\<exists>q \<in> ?D. p \<in> set (ref_ptrs B q))" for p
  proof (rule ccontr)
    assume "p \<notin> ?D"
    then have "p \<in> set (ls1 tmp_obj_list)" using m1(5) p(1) by blast
    moreover obtain c where c: "heap rt1 p = Some c" by (rule collectable_cell[OF 1(2) p(1)])
    ultimately have "ref_count c = 0" using scan_invD(2)[OF 1(3) c p(1)] by simp
    then have z: "ext p = 0" "in_refs B ((dom B - collectables B) \<union> ?D) p = 0" using m1(7)[OF c p(1)] by simp_all
    then obtain q where q: "q \<in> ?D" "p \<in> set (ref_ptrs B q)" using p(2) by auto
    have "count_list (ref_ptrs B q) p \<le> in_refs B ((dom B - collectables B) \<union> ?D) p"
      by (rule in_refs_ge) (use q(1) t(2) in simp_all)
    then show False using count_list_pos[OF q(2)] z(2) by simp
  qed
  have "p \<in> collectables B \<Longrightarrow> p \<in> ?D" if "reachable B ext p" for p
    using that
  proof (induction rule: reachable.induct)
    case (root p)
    then show ?case using found by blast
  next
    case (step q p)
    have "q \<in> collectables B" using outside_refs[of q B] step.hyps(2) by (cases "q \<in> collectables B") auto
    then show ?case using found[OF step.prems] step by blast
  qed
  then have obj: "?D = collectables B \<inter> Collect (reachable B ext)" using 1(4) m1(5) by blast
  have marks: "\<forall>p c. heap rt1 p = Some c \<longrightarrow> p \<in> ?D \<longrightarrow> \<not> mark c" using scan_invD(3)[OF 1(3)] obj by blast
  let ?A = "(dom B - collectables B) \<union> ?D"
  have fin: "finite ?A" using t(2) by simp
  have dis: "?A \<inter> set (ls1 tmp_obj_list) = {}" using disjoint_lists[OF m1(3)] m1(5) by blast
  have tmp: "ls1 tmp_obj_list = [] @ ls1 tmp_obj_list" by simp
  have m1': "mark_inv B ext H (- 1) rt1 ls1 (?A \<union> set []) []" using 1(2) by simp
  let ?el2 = "hd (map Link (ls1 tmp_obj_list) @ [tmp_obj_list])"
  have el2: "list_next (links rt1) tmp_obj_list = Some ?el2"
    using ring_next[OF rings_ring[OF m1(3), of tmp_obj_list]] by simp
  obtain rt2 where 2: "gc_restore_loop ?el2 rt1 = Some rt2" "mark_inv B ext H (- 1) rt2 ls1 (?A \<union> set (ls1 tmp_obj_list)) []"
    "\<forall>p c. heap rt2 p = Some c \<longrightarrow> p \<in> ?D \<longrightarrow> \<not> mark c"
    using restore_loop[OF t m1' fin dis tmp marks refl] by blast
  have "collectables B \<subseteq> dom B" by (auto simp: collectables_def)
  then have "?A \<union> set (ls1 tmp_obj_list) = dom B" using m1(5) by blast
  moreover have "gc_scan rt = Some rt2" using el 1(1) el2 2(1) by (simp add: gc_scan_def)
  ultimately show thesis using that[of rt2 ls1] 2(2,3) obj by simp
qed

end
