(* ===== verification/Gc_Run.thy ===== *)
theory Gc_Run
  imports Gc_Mark
begin

text \<open>
  The freeing of the cycles found dead, and what a whole collection does.
\<close>

section \<open>Freeing the dead\<close>

lemma cycles_step_value:
  assumes inv: "free_inv B ext M Live L rt Hs ls U {} []" and ph: "gc_phase rt = JS_GC_PHASE_REMOVE_CYCLES"
    and zom: "\<forall>q \<in> dom (heap rt) - U. \<exists>b. B q = Some b \<and> value_type b"
    and p: "p \<in> set (ls tmp_obj_list)" "heap rt p = Some c" "value_type (body c)"
  obtains rt' ls' U' where "free_gc_object p rt = Some rt'" "free_inv B ext M Live L rt' Hs ls' U' {} []"
    "gc_phase rt' = JS_GC_PHASE_REMOVE_CYCLES" "\<forall>q \<in> dom (heap rt') - U'. \<exists>b. B q = Some b \<and> value_type b"
    "set (ls' tmp_obj_list) \<subset> set (ls tmp_obj_list)"
proof -
  have f: "free_core B ext M Live rt Hs ls U []" and inv2: "phase_inv Live L rt Hs ls U {}"
    using inv by (simp_all add: free_inv_def)
  note cd = cycles_invD[OF inv2 ph]
  have pU: "p \<in> U" using cd(5)[OF p(2,3)] p(1) by blast
  have dead: "p \<notin> Live" using cd(4)[OF p(2,3) pU] p(1) by simp
  have zero: "gc_phase rt = JS_GC_PHASE_DECREF \<Longrightarrow> ref_count c = 0" using ph by simp
  obtain rt1 ls1 U1 where 1: "free_gc_object p rt = Some rt1" "free_inv B ext M Live L rt1 Hs ls1 U1 {} []"
    "U1 \<subseteq> U - {p}" "gc_phase rt1 = gc_phase rt" "set (ls1 tmp_obj_list) \<subseteq> set (ls tmp_obj_list)"
    "dom (heap rt1) \<subseteq> dom (heap rt)" "dom (heap rt1) \<inter> (U - {p}) \<subseteq> U1"
    using free_gc_object_inv[OF inv pU dead p(2,3) zero] by metis
  have f1: "free_core B ext M Live rt1 Hs ls1 U1 []" and ph1: "phase_inv Live L rt1 Hs ls1 U1 {}"
    using 1(2) by (simp_all add: free_inv_def)
  have rem1: "gc_phase rt1 = JS_GC_PHASE_REMOVE_CYCLES" using 1(4) ph by simp
  have Bp: "\<exists>b. B p = Some b \<and> value_type b"
    using free_coreD(8)[OF f p(2)] p(3) by (auto simp: cell_ok_def value_type_def)
  have "p \<notin> set (ls1 tmp_obj_list)"
  proof
    assume t: "p \<in> set (ls1 tmp_obj_list)"
    then have "\<exists>h \<in> Hs. p \<in> set (ls1 h)" using cd(1) by auto
    then obtain c1 where c1: "heap rt1 p = Some c1" using free_coreD(7)[OF f1, of p] by blast
    have "value_type (body c1)" using free_coreD(8)[OF f1 c1] Bp by (auto simp: cell_ok_def value_type_def)
    then show False using cycles_invD(5)[OF ph1 rem1 c1 _ _ t] 1(3) by blast
  qed
  then have "set (ls1 tmp_obj_list) \<subset> set (ls tmp_obj_list)" using 1(5) p(1) by blast
  moreover have "\<forall>q \<in> dom (heap rt1) - U1. \<exists>b. B q = Some b \<and> value_type b"
  proof
    fix q assume q: "q \<in> dom (heap rt1) - U1"
    show "\<exists>b. B q = Some b \<and> value_type b"
    proof (cases "q = p")
      case False
      then have "q \<in> dom (heap rt) - U" using q 1(6,7) by blast
      then show ?thesis using zom by blast
    qed (use Bp in simp)
  qed
  ultimately show thesis using that 1(1,2) rem1 by blast
qed

lemma cycles_step_other:
  assumes inv: "free_inv B ext M Live L rt Hs ls U {} []" and ph: "gc_phase rt = JS_GC_PHASE_REMOVE_CYCLES"
    and p: "p \<in> set (ls tmp_obj_list)" "heap rt p = Some c" "\<not> value_type (body c)"
  obtains l ls' where "(do { rt \<leftarrow> rt_list_del p rt; rt_list_add_tail p gc_zero_ref_count_list rt }) = Some (rt\<lparr>links := l\<rparr>)"
    "free_inv B ext M Live L (rt\<lparr>links := l\<rparr>) Hs ls' U {} []" "set (ls' tmp_obj_list) \<subset> set (ls tmp_obj_list)"
proof -
  have f: "free_core B ext M Live rt Hs ls U []" and inv2: "phase_inv Live L rt Hs ls U {}"
    using inv by (simp_all add: free_inv_def)
  note cd = cycles_invD[OF inv2 ph]
  have h: "tmp_obj_list \<in> Hs" "gc_zero_ref_count_list \<in> Hs" using cd(1) by simp_all
  have r: "rings (links rt) Hs ls" by (rule free_coreD(5)[OF f])
  let ?ls1 = "ls(tmp_obj_list := remove1 p (ls tmp_obj_list))"
  let ?ls = "?ls1(gc_zero_ref_count_list := put_at False p (?ls1 gc_zero_ref_count_list))"
  obtain l1 l2 where l: "list_del (links rt) (Link p) = Some l1"
    "(if False then list_add else list_add_tail) l1 (Link p) gc_zero_ref_count_list = Some l2"
    "rings l2 Hs ?ls" "\<And>x. (\<exists>h \<in> Hs. x \<in> set (?ls h)) \<longleftrightarrow> (\<exists>h \<in> Hs. x \<in> set (ls h))"
    by (rule rings_move[OF r h(1) p(1) h(2), where front = False]; rule that)
  let ?rt = "rt\<lparr>links := l2\<rparr>"
  have tmp: "set (?ls tmp_obj_list) = set (ls tmp_obj_list) - {p}"
    using set_remove1_eq[OF rings_distinct[OF r h(1)], of p] by simp
  have "phase_inv Live L ?rt Hs ?ls U {}"
  proof (rule cycles_invI)
    fix x cx assume x: "heap ?rt x = Some cx" "value_type (body cx)"
    then have x1: "heap rt x = Some cx" and ne: "x \<noteq> p" using p(2,3) by auto
    show "x \<in> set (?ls tmp_obj_list) \<longleftrightarrow> x \<notin> Live" if "x \<in> U"
      unfolding tmp using cd(4)[OF x1 x(2) that] ne by simp
    show "x \<in> {}" if "x \<notin> U" "x \<in> set (?ls tmp_obj_list)"
      using cd(5)[OF x1 x(2) that(1)] that(2) unfolding tmp by simp
  qed (use ph cd(1-3) in simp_all)
  moreover have "free_core B ext M Live ?rt Hs ?ls U []" by (rule core_links[OF f l(3,4)])
  ultimately have "free_inv B ext M Live L ?rt Hs ?ls U {} []" unfolding free_inv_def by blast
  moreover have "set (?ls tmp_obj_list) \<subset> set (ls tmp_obj_list)" unfolding tmp using p(1) by blast
  moreover have "(do { rt \<leftarrow> rt_list_del p rt; rt_list_add_tail p gc_zero_ref_count_list rt }) = Some ?rt"
    using l(1,2) by (simp add: rt_list_del_def rt_list_add_tail_def)
  ultimately show thesis using that by blast
qed

lemma cycles_loop:
  assumes "free_inv B ext M Live L rt Hs ls U {} []" "gc_phase rt = JS_GC_PHASE_REMOVE_CYCLES"
    "\<forall>q \<in> dom (heap rt) - U. \<exists>b. B q = Some b \<and> value_type b"
  shows "\<exists>rt' ls' U'. gc_cycles_loop rt = Some rt' \<and> free_inv B ext M Live L rt' Hs ls' U' {} [] \<and>
    gc_phase rt' = JS_GC_PHASE_REMOVE_CYCLES \<and> ls' tmp_obj_list = [] \<and>
    (\<forall>q \<in> dom (heap rt') - U'. \<exists>b. B q = Some b \<and> value_type b)"
  using assms
proof (induction "card (set (ls tmp_obj_list))" arbitrary: rt ls U rule: less_induct)
  case less
  have f: "free_core B ext M Live rt Hs ls U []" and inv2: "phase_inv Live L rt Hs ls U {}"
    using less.prems(1) by (simp_all add: free_inv_def)
  note cd = cycles_invD[OF inv2 less.prems(2)]
  have ring: "ring (links rt) tmp_obj_list (map Link (ls tmp_obj_list))"
    by (rule rings_ring[OF free_coreD(5)[OF f]]) (simp add: cd(1))
  show ?case
  proof (cases "ls tmp_obj_list")
    case Nil
    have "gc_cycles_loop rt = Some rt" by (subst gc_cycles_loop.simps) (use ring_next[OF ring] Nil in simp)
    then show ?thesis using less.prems Nil by blast
  next
    case (Cons p ps)
    have p: "p \<in> set (ls tmp_obj_list)" using Cons by simp
    then have "\<exists>h \<in> Hs. p \<in> set (ls h)" using cd(1) by auto
    then obtain c where c: "heap rt p = Some c" using free_coreD(7)[OF f, of p] by blast
    have el: "list_next (links rt) tmp_obj_list = Some (Link p)" using ring_next[OF ring] Cons by simp
    show ?thesis
    proof (cases "value_type (body c)")
      case True
      obtain rt1 ls1 U1 where 1: "free_gc_object p rt = Some rt1" "free_inv B ext M Live L rt1 Hs ls1 U1 {} []"
        "gc_phase rt1 = JS_GC_PHASE_REMOVE_CYCLES" "\<forall>q \<in> dom (heap rt1) - U1. \<exists>b. B q = Some b \<and> value_type b"
        "set (ls1 tmp_obj_list) \<subset> set (ls tmp_obj_list)"
        by (rule cycles_step_value[OF less.prems p c True]; rule that)
      have "card (set (ls1 tmp_obj_list)) < card (set (ls tmp_obj_list))" using 1(5) by (intro psubset_card_mono) simp_all
      note IH = less.hyps[OF this 1(2-4)]
      have "gc_cycles_loop rt = gc_cycles_loop rt1"
        by (subst gc_cycles_loop.simps) (use el c 1(1) True in \<open>simp add: value_type_def\<close>)
      then show ?thesis using IH by simp
    next
      case False
      obtain l ls1 where 1: "(do { rt \<leftarrow> rt_list_del p rt; rt_list_add_tail p gc_zero_ref_count_list rt }) = Some (rt\<lparr>links := l\<rparr>)"
        "free_inv B ext M Live L (rt\<lparr>links := l\<rparr>) Hs ls1 U {} []" "set (ls1 tmp_obj_list) \<subset> set (ls tmp_obj_list)"
        by (rule cycles_step_other[OF less.prems(1,2) p c False]; rule that)
      have "card (set (ls1 tmp_obj_list)) < card (set (ls tmp_obj_list))" using 1(3) by (intro psubset_card_mono) simp_all
      moreover have "gc_phase (rt\<lparr>links := l\<rparr>) = JS_GC_PHASE_REMOVE_CYCLES"
        "\<forall>q \<in> dom (heap (rt\<lparr>links := l\<rparr>)) - U. \<exists>b. B q = Some b \<and> value_type b" using less.prems(2,3) by simp_all
      ultimately have IH: "\<exists>rt' ls' U'. gc_cycles_loop (rt\<lparr>links := l\<rparr>) = Some rt' \<and> free_inv B ext M Live L rt' Hs ls' U' {} [] \<and>
        gc_phase rt' = JS_GC_PHASE_REMOVE_CYCLES \<and> ls' tmp_obj_list = [] \<and>
        (\<forall>q \<in> dom (heap rt') - U'. \<exists>b. B q = Some b \<and> value_type b)" using less.hyps 1(2) by blast
      have "gc_cycles_loop rt = gc_cycles_loop (rt\<lparr>links := l\<rparr>)"
        by (subst gc_cycles_loop.simps) (use el c 1(1) False in \<open>auto simp: value_type_def bind_eq_Some_conv\<close>)
      then show ?thesis using IH by simp
    qed
  qed
qed


text \<open>Once the list is empty, what is not released is alive: whatever else were left would be referenced from it.\<close>

lemma cycles_rest:
  assumes f: "free_core B ext M (Collect (reachable B ext)) rt Hs ls U []"
    and ph: "phase_inv (Collect (reachable B ext)) L rt Hs ls U {}" "gc_phase rt = JS_GC_PHASE_REMOVE_CYCLES"
    and tmp: "ls tmp_obj_list = []"
  shows "U = Collect (reachable B ext)"
proof -
  note fd = free_coreD[OF f] and cd = cycles_invD[OF ph]
  let ?G = "U - Collect (reachable B ext)"
  have G: "\<exists>b. B q = Some b \<and> \<not> value_type b \<and> (\<exists>r \<in> ?G. q \<in> set (ref_ptrs B r))" if q: "q \<in> ?G" for q
  proof -
    have "q \<in> dom (heap rt)" using q fd(3) by blast
    then obtain c where c: "heap rt q = Some c" by blast
    have ok: "cell_ok B ext M U [] q c" by (rule fd(8)[OF c])
    have Bq: "B q = Some (body c)" using ok that by (auto simp: cell_ok_def)
    have nv: "\<not> value_type (body c)" using cd(4)[OF c] that tmp by auto
    have "ref_count c = int (ext q + in_refs B U q)" "ref_count c > 0" using ok nv q by (simp_all add: cell_ok_def)
    then have pos: "ext q + in_refs B U q > 0" by linarith
    have "ext q = 0" using that Bq reachable.root[of B q ext] by auto
    then have "in_refs B U q \<noteq> 0" using pos by simp
    then obtain r where r: "r \<in> U" "count_list (ref_ptrs B r) q \<noteq> 0"
      unfolding in_refs_def using fd(2) by auto
    then have qr: "q \<in> set (ref_ptrs B r)" using count_list_0_iff[of "ref_ptrs B r" q] by auto
    then have "r \<in> ?G" using that r(1) reachable.step[of B ext r q] by auto
    then show ?thesis using Bq nv qr by blast
  qed
  let ?d = "\<lambda>q. case B q of None \<Rightarrow> 0 | Some b \<Rightarrow> depth (gc_type b)"
  have up: "\<exists>r \<in> ?G. ?d q < ?d r" if q: "q \<in> ?G" for q
  proof -
    obtain r where r: "r \<in> ?G" "q \<in> set (ref_ptrs B r)" using G[OF q] by blast
    obtain br where br: "B r = Some br" "\<not> value_type br" using G[OF r(1)] by blast
    then obtain k where k: "(k, q) \<in> set (refs br)" using r(2) by (auto simp: ref_ptrs_def)
    have "refs_ok B (refs br)" by (rule typed_refs[OF fd(1) br(1)])
    then obtain bq where "B q = Some bq" "gc_type bq = k" using k by (auto simp: refs_ok_def)
    then show ?thesis using depth_refs[OF br(2) k] r(1) br(1) by (intro bexI[of _ r]) simp_all
  qed
  have "depth k \<le> 2" for k by (cases k) simp_all
  then have bound: "?d q \<le> 2" for q by (simp split: option.split)
  have "?G = {}"
  proof (rule ccontr)
    assume "?G \<noteq> {}"
    then obtain q where "q \<in> ?G" by blast
    then obtain r where r: "r \<in> ?G" "?d q < ?d r" using up by blast
    then obtain s where s: "s \<in> ?G" "?d r < ?d s" using up by blast
    then obtain t where t: "t \<in> ?G" "?d s < ?d t" using up by blast
    show False using r(2) s(2) t(2) bound[of t] by linarith
  qed
  then show ?thesis using fd(4) by blast
qed

lemma kept_loop:
  assumes "distinct zs" "\<forall>p \<in> set zs. \<exists>c. heap rt p = Some c \<and> value_type (body c)"
    "list_next (links rt) gc_zero_ref_count_list \<noteq> None"
    "\<forall>xs p ys. zs = xs @ p # ys \<longrightarrow> list_next (links rt) (Link p) = Some (hd (map Link ys @ [gc_zero_ref_count_list]))"
    "el = hd (map Link zs @ [gc_zero_ref_count_list])"
    "zs \<noteq> [] \<Longrightarrow> el1 = hd (map Link (tl zs) @ [gc_zero_ref_count_list])"
  shows "\<exists>rt'. gc_free_kept_loop el el1 rt = Some rt' \<and> heap rt' = heap rt |` (- set zs) \<and>
    (\<forall>x. x \<notin> Link ` set zs \<longrightarrow> links rt' x = links rt x) \<and> gc_phase rt' = gc_phase rt"
  using assms
proof (induction zs arbitrary: rt el el1)
  case Nil
  then have "gc_free_kept_loop el el1 rt = Some rt" by (subst gc_free_kept_loop.simps) simp
  then show ?case by (simp add: restrict_map_def)
next
  case (Cons p zs)
  obtain c where c: "heap rt p = Some c" "value_type (body c)" using Cons.prems(2) by auto
  let ?rt = "rt\<lparr>heap := (heap rt)(p := None), links := (links rt)(Link p := None)\<rparr>"
  have el: "el = Link p" "el1 = hd (map Link zs @ [gc_zero_ref_count_list])" using Cons.prems(5,6) by simp_all
  have next': "list_next (links ?rt) x = list_next (links rt) x" if "x \<noteq> Link p" for x
    using that by (simp add: list_next_def)
  have zero: "list_next (links ?rt) gc_zero_ref_count_list \<noteq> None" using next'[of gc_zero_ref_count_list] Cons.prems(3) by simp
  have nexts: "\<forall>xs q ys. zs = xs @ q # ys \<longrightarrow> list_next (links ?rt) (Link q) = Some (hd (map Link ys @ [gc_zero_ref_count_list]))"
  proof (intro allI impI)
    fix xs q ys assume z: "zs = xs @ q # ys"
    then have "q \<noteq> p" using Cons.prems(1) by auto
    moreover have "p # zs = (p # xs) @ q # ys" using z by simp
    ultimately show "list_next (links ?rt) (Link q) = Some (hd (map Link ys @ [gc_zero_ref_count_list]))"
      using Cons.prems(4) next'[of "Link q"] by (metis link.inject)
  qed
  obtain el2 where el2: "list_next (links ?rt) el1 = Some el2" "zs \<noteq> [] \<Longrightarrow> el2 = hd (map Link (tl zs) @ [gc_zero_ref_count_list])"
  proof (cases zs)
    case Nil
    then show thesis using that zero el(2) by auto
  next
    case (Cons q zs')
    then have "zs = [] @ q # zs'" by simp
    then have "list_next (links ?rt) (Link q) = Some (hd (map Link zs' @ [gc_zero_ref_count_list]))" using nexts by blast
    then show thesis using that el(2) Cons by simp
  qed
  have cells: "\<forall>q \<in> set zs. \<exists>c. heap ?rt q = Some c \<and> value_type (body c)" using Cons.prems(1,2) by auto
  have dist: "distinct zs" using Cons.prems(1) by simp
  obtain rt' where r: "gc_free_kept_loop el1 el2 ?rt = Some rt'" "heap rt' = heap ?rt |` (- set zs)"
    "\<forall>x. x \<notin> Link ` set zs \<longrightarrow> links rt' x = links ?rt x" "gc_phase rt' = gc_phase ?rt"
    using Cons.IH[OF dist cells zero nexts el(2) el2(2)] by blast
  have "gc_free_kept_loop el el1 rt = Some rt'"
    by (subst gc_free_kept_loop.simps)
      (use el(1) c el2(1) r(1) in \<open>simp add: js_free_rt_def check_def value_type_def\<close>)
  moreover have "heap rt' = heap rt |` (- set (p # zs))" using r(2) by (auto simp: restrict_map_def fun_eq_iff)
  ultimately show ?case using r(3,4) by auto
qed


section \<open>Removing what the two passes left in the list\<close>

lemma free_cycles:
  assumes t: "typed B" "finite (dom B)" and m: "mark_inv B ext H (- 1) rt ls (dom B) []"
    and obj: "set (ls gc_obj_list) = collectables B \<inter> Collect (reachable B ext)"
    and unmarked: "\<And>p c. heap rt p = Some c \<Longrightarrow> reachable B ext p \<Longrightarrow> \<not> mark c"
    and rest: "\<And>p c. heap rt p = Some c \<Longrightarrow> ref_count c = int (ext p + in_refs B (dom B) p)"
      "\<And>p c. heap rt p = Some c \<Longrightarrow> ref_count c > 0"
  shows "\<exists>rt'. gc_free_cycles rt = Some rt' \<and> gc_ok rt' ext \<and> dom (heap rt') = Collect (reachable B ext) \<and>
    (\<forall>p \<in> dom (heap rt'). bodies rt' p = B p)"
proof -
  note md = mark_invD[OF m]
  let ?Live = "Collect (reachable B ext)" and ?L = "ls gc_obj_list"
  let ?rt = "rt\<lparr>gc_phase := JS_GC_PHASE_REMOVE_CYCLES\<rparr>"
  have b: "bodies ?rt = B" "dom (heap ?rt) = dom B" using md(1) dom_bodies[of rt] by simp_all
  have col: "x \<in> collectables B \<longleftrightarrow> (\<exists>c. heap rt x = Some c \<and> collectable (body c))" for x
    unfolding md(1)[symmetric] by (auto simp: collectables_def bodies_def)
  have "free_core (bodies ?rt) ext ?Live (Collect (reachable (bodies ?rt) ext)) ?rt all_lists ls (dom (heap ?rt)) []"
  proof (rule free_core_all)
    show "typed (bodies ?rt)" "finite (dom (heap ?rt))" using t b by simp_all
    show "rings (links ?rt) all_lists ls" using md(3) by simp
    show "(\<exists>h \<in> all_lists. p \<in> set (ls h)) \<longleftrightarrow> (\<exists>c. heap ?rt p = Some c \<and> collectable (body c))" for p
      using md(4,5) col[of p] by auto
    fix p c assume c: "heap ?rt p = Some c"
    then have c1: "heap rt p = Some c" by simp
    show "ref_count c = int (ext p + in_refs (bodies ?rt) (dom (heap ?rt)) p)" unfolding b by (rule rest(1)[OF c1])
    show "ref_count c > 0" by (rule rest(2)[OF c1])
    show "\<not> mark c" if "p \<in> ?Live" using unmarked[OF c1] that by simp
  qed
  then have f0: "free_core B ext ?Live ?Live ?rt all_lists ls (dom B) []" unfolding b .
  have "phase_inv ?Live ?L ?rt all_lists ls (dom B) {}"
  proof (rule cycles_invI)
    show "set ?L \<subseteq> ?Live" using obj by blast
    fix p c assume c: "heap ?rt p = Some c" "value_type (body c)"
    have pC: "p \<in> collectables B" using col[of p] c value_collectable by auto
    show "p \<in> set (ls tmp_obj_list) \<longleftrightarrow> p \<notin> ?Live"
      using pC md(5) obj disjoint_lists[OF md(3)] by blast
    show "p \<in> {}" if "p \<notin> dom B" using that pC by (auto simp: collectables_def)
  qed simp_all
  then have inv: "free_inv B ext ?Live ?Live ?L ?rt all_lists ls (dom B) {} []" using f0 by (simp add: free_inv_def)
  have none: "\<forall>q \<in> dom (heap ?rt) - dom B. \<exists>b. B q = Some b \<and> value_type b" using b(2) by blast
  have ph: "gc_phase ?rt = JS_GC_PHASE_REMOVE_CYCLES" by simp
  obtain rt1 ls1 U where 1: "gc_cycles_loop ?rt = Some rt1" "free_inv B ext ?Live ?Live ?L rt1 all_lists ls1 U {} []"
    "gc_phase rt1 = JS_GC_PHASE_REMOVE_CYCLES" "ls1 tmp_obj_list = []"
    "\<forall>q \<in> dom (heap rt1) - U. \<exists>b. B q = Some b \<and> value_type b"
    using cycles_loop[OF inv ph none] by blast
  have f1: "free_core B ext ?Live ?Live rt1 all_lists ls1 U []" and p1: "phase_inv ?Live ?L rt1 all_lists ls1 U {}"
    using 1(2) by (simp_all add: free_inv_def)
  have U: "U = ?Live" by (rule cycles_rest[OF f1 p1 1(3,4)])
  note fd = free_coreD[OF f1]
  let ?zs = "ls1 gc_zero_ref_count_list"
  have ls1: "ls1 gc_obj_list = ?L" by (rule cycles_invD(2)[OF p1 1(3)])
  have member: "q \<in> set ?L \<or> q \<in> set ?zs \<longleftrightarrow> (\<exists>c. heap rt1 q = Some c \<and> collectable (body c))" for q
    using fd(7)[of q] 1(4) ls1 by auto
  have disj: "set ?L \<inter> set ?zs = {}" using fd(5) ls1 unfolding rings_def by auto
  have valued: "value_type (body c)" if q: "heap rt1 q = Some c" "q \<notin> U" for q c
  proof -
    have "q \<in> dom (heap rt1) - U" using q by blast
    then obtain b where b: "B q = Some b" "value_type b" using 1(5) by blast
    show ?thesis using fd(8)[OF q(1)] b by (auto simp: cell_ok_def value_type_def)
  qed
  have zs: "q \<in> set ?zs \<longleftrightarrow> q \<in> dom (heap rt1) - U" for q
  proof
    assume q: "q \<in> dom (heap rt1) - U"
    then obtain c where c: "heap rt1 q = Some c" by blast
    have "value_type (body c)" using valued[OF c] q by blast
    then have "q \<in> set ?L \<or> q \<in> set ?zs" using member[of q] c value_collectable by blast
    moreover have "q \<notin> set ?L" using q obj unfolding U by blast
    ultimately show "q \<in> set ?zs" by blast
  next
    assume q: "q \<in> set ?zs"
    then obtain c where c: "heap rt1 q = Some c" "collectable (body c)" using member[of q] by blast
    have "q \<notin> U"
    proof
      assume qU: "q \<in> U"
      have "B q = Some (body c)" using fd(8)[OF c(1)] qU by (auto simp: cell_ok_def)
      then have "q \<in> collectables B" using c(2) by (auto simp: collectables_def)
      then show False using qU U obj q disj by blast
    qed
    then show "q \<in> dom (heap rt1) - U" using c(1) by blast
  qed
  let ?rt1 = "rt1\<lparr>gc_phase := JS_GC_PHASE_NONE\<rparr>"
  have ring: "ring (links ?rt1) gc_zero_ref_count_list (map Link ?zs)" using rings_ring[OF fd(5)] by simp
  let ?el = "hd (map Link ?zs @ [gc_zero_ref_count_list])"
  have el: "list_next (links ?rt1) gc_zero_ref_count_list = Some ?el" by (rule ring_next[OF ring])
  obtain el1 where el1: "list_next (links ?rt1) ?el = Some el1"
    "?zs \<noteq> [] \<Longrightarrow> el1 = hd (map Link (tl ?zs) @ [gc_zero_ref_count_list])"
  proof (cases ?zs)
    case Nil
    then show thesis using that el by simp
  next
    case (Cons p ps)
    then show thesis using that ring_step[of "links ?rt1" gc_zero_ref_count_list "[]" p ps] ring by simp
  qed
  have dist: "distinct ?zs" by (rule rings_distinct[OF fd(5)]) simp
  have cells: "\<forall>p \<in> set ?zs. \<exists>c. heap ?rt1 p = Some c \<and> value_type (body c)" using zs valued by fastforce
  have next0: "list_next (links ?rt1) gc_zero_ref_count_list \<noteq> None" using el by simp
  have nexts: "\<forall>xs p ys. ?zs = xs @ p # ys \<longrightarrow>
      list_next (links ?rt1) (Link p) = Some (hd (map Link ys @ [gc_zero_ref_count_list]))"
    using ring_step[of "links ?rt1" gc_zero_ref_count_list] ring by metis
  obtain rt2 where 2: "gc_free_kept_loop ?el el1 ?rt1 = Some rt2" "heap rt2 = heap ?rt1 |` (- set ?zs)"
    "\<forall>x. x \<notin> Link ` set ?zs \<longrightarrow> links rt2 x = links ?rt1 x" "gc_phase rt2 = gc_phase ?rt1"
    using kept_loop[OF dist cells next0 nexts refl el1(2)] by blast
  have "gc_zero_ref_count_list \<in> dom (links rt2)"
    using 2(3) ring_allocated[OF ring, of gc_zero_ref_count_list] by (auto simp: domIff)
  then obtain l where l: "init_list_head (links rt2) gc_zero_ref_count_list = Some l" "ring l gc_zero_ref_count_list []"
    "dom l = dom (links rt2)" "\<And>x. x \<noteq> gc_zero_ref_count_list \<Longrightarrow> l x = links rt2 x" using ring_init by metis
  let ?rt3 = "rt2\<lparr>links := l\<rparr>"
  have run: "gc_free_cycles rt = Some ?rt3"
    using 1(1) el el1(1) 2(1) l(1) by (simp add: gc_free_cycles_def rt_init_list_head_def Let_def)
  have heap3: "heap ?rt3 = heap rt1 |` U"
    using 2(2) zs fd(3) by (fastforce simp: restrict_map_def fun_eq_iff domIff)
  have in_U: "\<forall>p \<in> U. set (ref_ptrs B p) \<subseteq> U" unfolding U using reachable.step by blast
  note rem = remaining_heap[OF f1 heap3 in_U]
  have get: "heap rt1 q = Some c" "q \<in> U" if "heap ?rt3 q = Some c" for q c
    using that unfolding heap3 by (auto simp: restrict_map_def split: if_splits)
  have ring3: "ring l gc_obj_list (map Link ?L)"
  proof (rule ring_cong[of "links rt1"])
    show "ring (links rt1) gc_obj_list (map Link ?L)" using rings_ring[OF fd(5), of gc_obj_list] ls1 by simp
    fix x assume "x \<in> set (gc_obj_list # map Link ?L)"
    then have "x \<noteq> gc_zero_ref_count_list" "x \<notin> Link ` set ?zs" using disj by auto
    then show "l x = links rt1 x" using l(4) 2(3) by simp
  qed
  have "gc_ok ?rt3 ext"
  proof (rule gc_okI)
    show "ring (links ?rt3) gc_obj_list (map Link ?L)" using ring3 by simp
    show "set ?L = {p. \<exists>c. heap ?rt3 p = Some c \<and> collectable (body c)}"
    proof (rule set_eqI)
      fix q
      show "q \<in> set ?L \<longleftrightarrow> q \<in> {p. \<exists>c. heap ?rt3 p = Some c \<and> collectable (body c)}"
      proof
        assume q: "q \<in> set ?L"
        then have "q \<in> U" using obj unfolding U by blast
        then show "q \<in> {p. \<exists>c. heap ?rt3 p = Some c \<and> collectable (body c)}"
          using member[of q] q unfolding heap3 by (auto simp: restrict_map_def)
      next
        assume "q \<in> {p. \<exists>c. heap ?rt3 p = Some c \<and> collectable (body c)}"
        then obtain c where c: "heap ?rt3 q = Some c" "collectable (body c)" by blast
        then show "q \<in> set ?L" using member[of q] get[OF c(1)] zs[of q] by blast
      qed
    qed
    have "tmp_obj_list \<in> dom (links rt1)" using fd(5) by (simp add: rings_def)
    moreover have "links rt2 tmp_obj_list = links rt1 tmp_obj_list" using 2(3) by auto
    ultimately show "tmp_obj_list \<in> dom (links ?rt3)" using l(4)[of tmp_obj_list] by (simp add: domIff)
    show "finite (dom (heap ?rt3))" unfolding rem(1) by (rule fd(2))
    fix q c assume q: "heap ?rt3 q = Some c"
    show "ref_count c = int (ext q + in_refs (bodies ?rt3) (dom (heap ?rt3)) q)" by (rule rem(4)[OF q])
    have "q \<in> ?Live" using get(2)[OF q] unfolding U .
    then show "\<not> mark c" "ref_count c > 0"
      using rem(6)[OF q] live_count[OF f1 _ get(1)[OF q]] by simp_all
  qed (use rem(2) l(2) 2(4) in simp_all)
  moreover have "dom (heap ?rt3) = ?Live" using rem(1) U by simp
  moreover have "\<forall>p \<in> dom (heap ?rt3). bodies ?rt3 p = B p" using rem(1,3) by blast
  ultimately show ?thesis using run by blast
qed

lemma run_gc_result:
  assumes ok: "gc_ok rt ext"
  shows "\<exists>rt'. JS_RunGC rt = Some rt' \<and> gc_ok rt' ext \<and> dom (heap rt') = {p. reachable (bodies rt) ext p} \<and>
    (\<forall>p \<in> dom (heap rt'). bodies rt' p = bodies rt p)"
proof -
  note g = gc_okD[OF ok]
  let ?B = "bodies rt"
  have t: "typed ?B" "finite (dom ?B)" using g(1,3) by simp_all
  obtain rt1 ls1 where 1: "gc_decref rt = Some rt1" "mark_inv ?B ext (heap rt) 1 rt1 ls1 (dom ?B - collectables ?B) []"
    "decref_inv ?B rt1 ls1 (collectables ?B)" by (rule gc_decref_result[OF ok]; rule that)
  obtain rt2 ls2 where 2: "gc_scan rt1 = Some rt2" "mark_inv ?B ext (heap rt) (- 1) rt2 ls2 (dom ?B) []"
    "set (ls2 gc_obj_list) = collectables ?B \<inter> Collect (reachable ?B ext)"
    "\<And>p c. heap rt2 p = Some c \<Longrightarrow> p \<in> set (ls2 gc_obj_list) \<Longrightarrow> \<not> mark c"
    by (rule gc_scan_result[OF t 1(2,3)]; rule that)
  note md = mark_invD[OF 2(2)]
  have orig: "ref_count c = int (ext p + in_refs ?B (dom ?B) p)" "ref_count c > 0" if c: "heap rt2 p = Some c" for p c
  proof -
    have "p \<in> dom (bodies rt2)" using c by auto
    then have "p \<in> dom (heap rt)" unfolding md(1) by simp
    then obtain c0 where c0: "heap rt p = Some c0" by blast
    have "ref_count c = ref_count c0"
    proof (cases "p \<in> collectables ?B")
      case True
      then show ?thesis using md(7)[OF c] g(7)[OF c0] by simp
    next
      case False
      then show ?thesis using md(6)[of p] c c0 by simp
    qed
    then show "ref_count c = int (ext p + in_refs ?B (dom ?B) p)" "ref_count c > 0"
      using g(7,8)[OF c0] by simp_all
  qed
  have unmarked: "\<not> mark c" if c: "heap rt2 p = Some c" "reachable ?B ext p" for p c
  proof (cases "p \<in> collectables ?B")
    case True
    then show ?thesis using 2(3,4) c by blast
  next
    case False
    then show ?thesis using md(6)[of p] c(1) g(9)[of p c] by simp
  qed
  have "\<exists>rt3. gc_free_cycles rt2 = Some rt3 \<and> gc_ok rt3 ext \<and> dom (heap rt3) = Collect (reachable ?B ext) \<and>
      (\<forall>p \<in> dom (heap rt3). bodies rt3 p = ?B p)"
    by (rule free_cycles[OF t 2(2,3)]) (erule (1) unmarked | erule orig)+
  then obtain rt3 where "gc_free_cycles rt2 = Some rt3" "gc_ok rt3 ext" "dom (heap rt3) = Collect (reachable ?B ext)"
    "\<forall>p \<in> dom (heap rt3). bodies rt3 p = ?B p" by blast
  then show ?thesis using 1(1) 2(1) by (intro exI[of _ rt3]) (simp add: JS_RunGC_def)
qed

end
