(* ===== verification/Gc_Props.thy ===== *)
theory Gc_Props
  imports Gc_Run
begin

text \<open>
  The properties of reference counting and of the collection of cycles, with a small heap that shows they can apply.
\<close>

section \<open>A heap with a cycle\<close>

text \<open>
  The objects 1 and 2 refer to each other, the object 3 is referenced from outside, the three share the shape 0.
\<close>

definition shared_shape :: gc_body where
  "shared_shape = JSShape \<lparr>sh_proto = None, sh_prop = [\<lparr>sp_flags = JS_PROP_NORMAL, sp_atom = 1\<rparr>]\<rparr>"

definition plain_object :: "js_value \<Rightarrow> gc_body" where
  "plain_object v = JSObject \<lparr>obj_shape = Some 0, obj_prop = [U_value v], obj_class = JS_CLASS_OBJECT, obj_u = U_NULL,
     free_mark = False\<rparr>"

definition two_cycle :: gc_rt where
  "two_cycle = \<lparr>
     links = [gc_obj_list \<mapsto> (Some (Link 3), Some (Link 0)), Link 0 \<mapsto> (Some gc_obj_list, Some (Link 1)),
       Link 1 \<mapsto> (Some (Link 0), Some (Link 2)), Link 2 \<mapsto> (Some (Link 1), Some (Link 3)),
       Link 3 \<mapsto> (Some (Link 2), Some gc_obj_list),
       gc_zero_ref_count_list \<mapsto> (Some gc_zero_ref_count_list, Some gc_zero_ref_count_list),
       tmp_obj_list \<mapsto> (None, None)],
     heap = [0 \<mapsto> \<lparr>ref_count = 3, mark = False, body = shared_shape\<rparr>,
       1 \<mapsto> \<lparr>ref_count = 1, mark = False, body = plain_object (JS_TAG_OBJECT 2)\<rparr>,
       2 \<mapsto> \<lparr>ref_count = 1, mark = False, body = plain_object (JS_TAG_OBJECT 1)\<rparr>,
       3 \<mapsto> \<lparr>ref_count = 1, mark = False, body = plain_object JS_TAG_OTHER\<rparr>],
     gc_phase = JS_GC_PHASE_NONE\<rparr>"

definition one_root :: "ptr \<Rightarrow> nat" where
  "one_root p = (if p = 3 then 1 else 0)"

lemma two_cycle_dom: "dom (heap two_cycle) = {0, 1, 2, 3}"
  by (auto simp: two_cycle_def)

lemma two_cycle_bodies:
  "bodies two_cycle 0 = Some shared_shape" "bodies two_cycle 1 = Some (plain_object (JS_TAG_OBJECT 2))"
  "bodies two_cycle (Suc 0) = Some (plain_object (JS_TAG_OBJECT 2))"
  "bodies two_cycle 2 = Some (plain_object (JS_TAG_OBJECT 1))" "bodies two_cycle 3 = Some (plain_object JS_TAG_OTHER)"
  by (simp_all add: two_cycle_def bodies_def)

lemma two_cycle_refs:
  "ref_ptrs (bodies two_cycle) 0 = []" "ref_ptrs (bodies two_cycle) 1 = [2, 0]"
  "ref_ptrs (bodies two_cycle) (Suc 0) = [2, 0]"
  "ref_ptrs (bodies two_cycle) 2 = [1, 0]" "ref_ptrs (bodies two_cycle) 3 = [0]"
  by (simp_all add: ref_ptrs_def two_cycle_bodies shared_shape_def plain_object_def object_ref_def opt_list_def)

lemma two_cycle_typed: "typed (bodies two_cycle)"
  unfolding typed_def
proof (intro allI impI)
  fix p b assume b: "bodies two_cycle p = Some b"
  then have "p \<in> {0, 1, 2, 3}" using two_cycle_dom dom_bodies[of two_cycle] by blast
  then show "body_ok (bodies two_cycle) b \<and> (\<forall>(k, q) \<in> set (refs b). \<exists>b'. bodies two_cycle q = Some b' \<and> gc_type b' = k)"
    using b by (auto simp: two_cycle_bodies shared_shape_def plain_object_def object_ref_def opt_list_def property_ok_def
        JS_ATOM_NULL_def)
qed

lemma two_cycle_ok: "gc_ok two_cycle one_root"
proof (rule gc_okI)
  show "ring (links two_cycle) gc_obj_list (map Link [0, 1, 2, 3])"
    by (simp add: two_cycle_def ring_def list_next_def list_prev_def)
  show "set [0, 1, 2, 3] = {p. \<exists>c. heap two_cycle p = Some c \<and> collectable (body c)}"
    by (auto simp: two_cycle_def shared_shape_def plain_object_def split: if_splits)
  fix p c assume c: "heap two_cycle p = Some c"
  then have p: "p \<in> {0, 1, 2, 3}" using two_cycle_dom by blast
  show "ref_count c = int (one_root p + in_refs (bodies two_cycle) (dom (heap two_cycle)) p)"
    using p c unfolding in_refs_def two_cycle_dom
    by (auto simp: two_cycle_refs one_root_def) (auto simp: two_cycle_def)
  show "ref_count c > 0" "\<not> mark c" using p c by (auto simp: two_cycle_def)
qed (simp_all add: two_cycle_typed two_cycle_dom, auto simp: two_cycle_def ring_def list_next_def list_prev_def)

lemma two_cycle_reachable: "reachable (bodies two_cycle) one_root p \<longleftrightarrow> p \<in> {0, 3}"
proof
  show "p \<in> {0, 3}" if "reachable (bodies two_cycle) one_root p"
    using that
  proof (induction rule: reachable.induct)
    case (root p)
    then show ?case by (simp add: one_root_def split: if_splits)
  next
    case (step q p)
    then show ?case using two_cycle_refs by auto
  qed
  have 3: "reachable (bodies two_cycle) one_root 3"
    by (rule reachable.root) (simp_all add: two_cycle_bodies one_root_def)
  have "0 \<in> set (ref_ptrs (bodies two_cycle) 3)" by (simp add: two_cycle_refs)
  then have "reachable (bodies two_cycle) one_root 0" by (rule reachable.step[OF 3])
  then show "reachable (bodies two_cycle) one_root p" if "p \<in> {0, 3}" using that 3 by auto
qed

section \<open>Collection\<close>

text \<open>
  \<^bold>\<open>C35.\<close> \<open>JS_RunGC\<close> on a consistent heap returns without touching freed memory, failing an assertion or running forever,
  leaves a consistent heap with the same outside references, and what is left is exactly what outside references reach,
  with its contents unchanged: nothing living is freed, every dead cycle is.
\<close>

theorem JS_RunGC_exact:
  assumes "gc_ok rt ext"
  shows "\<exists>rt'. JS_RunGC rt = Some rt' \<and> gc_ok rt' ext \<and> dom (heap rt') = {p. reachable (bodies rt) ext p} \<and>
    (\<forall>p \<in> dom (heap rt'). bodies rt' p = bodies rt p)"
  by (rule run_gc_result[OF assms])

theorem JS_RunGC_exact_witness: "\<exists>rt'. JS_RunGC two_cycle = Some rt' \<and> gc_ok rt' one_root \<and> dom (heap rt') = {0, 3}"
  using JS_RunGC_exact[OF two_cycle_ok] two_cycle_reachable by auto

section \<open>Releasing a value\<close>

text \<open>
  \<^bold>\<open>C36.\<close> Releasing one outside reference with \<open>JS_FreeValue\<close> returns and leaves a consistent heap for one outside
  reference less: whatever is still reachable is kept, nothing that stays has changed, and every count is exact and positive.
\<close>

theorem JS_FreeValue_consistent:
  assumes "gc_ok rt ext" "value_refs v = [(k, p)]" "bodies rt p = Some b" "gc_type b = k" "ext p > 0"
  shows "\<exists>rt'. JS_FreeValue v rt = Some rt' \<and> gc_ok rt' (ext(p := ext p - 1)) \<and> dom (heap rt') \<subseteq> dom (heap rt) \<and>
    (\<forall>q \<in> dom (heap rt'). bodies rt' q = bodies rt q) \<and>
    (\<forall>q. reachable (bodies rt) (ext(p := ext p - 1)) q \<longrightarrow> q \<in> dom (heap rt'))"
  by (rule free_value_exact[OF assms])

theorem JS_FreeValue_consistent_witness:
  "\<exists>rt'. JS_FreeValue (JS_TAG_OBJECT 3) two_cycle = Some rt' \<and> gc_ok rt' (\<lambda>_. 0) \<and> dom (heap rt') \<subseteq> {0, 1, 2, 3}"
proof -
  have "one_root(3 := one_root 3 - 1) = (\<lambda>_. 0)" by (auto simp: one_root_def)
  then show ?thesis
    using JS_FreeValue_consistent[OF two_cycle_ok, of "JS_TAG_OBJECT 3" JS_GC_OBJ_TYPE_JS_OBJECT 3]
    by (auto simp: two_cycle_bodies two_cycle_dom plain_object_def one_root_def)
qed

section \<open>Nothing leaks\<close>

lemma reachable_agree:
  assumes "reachable B ext p" "\<And>q. reachable B ext q \<Longrightarrow> B' q = B q"
  shows "reachable B' ext p"
  using assms(1)
proof (induction rule: reachable.induct)
  case (root p)
  then show ?case using assms(2)[OF reachable.root[of B p ext]] by (intro reachable.root) auto
next
  case (step q p)
  then have "p \<in> set (ref_ptrs B' q)" using assms(2)[OF step.hyps(1)] by (simp add: ref_ptrs_def)
  then show ?case by (rule reachable.step[OF step.IH])
qed

lemma kept_bodies:
  assumes kept: "\<forall>q \<in> dom (heap rt'). bodies rt' q = bodies rt q"
    and live: "\<forall>q. reachable (bodies rt) ext q \<longrightarrow> q \<in> dom (heap rt')" and t: "typed (bodies rt')"
  shows "reachable (bodies rt') ext p \<longleftrightarrow> reachable (bodies rt) ext p"
proof
  show "reachable (bodies rt) ext p" if "reachable (bodies rt') ext p"
  proof (rule reachable_agree[OF that])
    fix q assume "reachable (bodies rt') ext q"
    then have "q \<in> dom (heap rt')" using reachable_dom[OF _ t] by simp
    then show "bodies rt q = bodies rt' q" using kept by simp
  qed
  show "reachable (bodies rt') ext p" if "reachable (bodies rt) ext p"
    by (rule reachable_agree[OF that]) (use kept live in simp)
qed

lemma free_values_exact:
  assumes "gc_ok rt ext" "refs_ok (bodies rt) (values_refs vs)" "\<And>p. ext p = rest p + count_list (map snd (values_refs vs)) p"
  shows "\<exists>rt'. each JS_FreeValue vs rt = Some rt' \<and> gc_ok rt' rest \<and> dom (heap rt') \<subseteq> dom (heap rt) \<and>
    (\<forall>q \<in> dom (heap rt'). bodies rt' q = bodies rt q) \<and> (\<forall>q. reachable (bodies rt) rest q \<longrightarrow> q \<in> dom (heap rt'))"
  using assms
proof (induction vs arbitrary: rt ext)
  case Nil
  then have "ext = rest" by (auto simp: values_refs_def)
  then show ?case using Nil.prems(1) reachable_dom[OF _ gc_okD(3)[OF Nil.prems(1)]] by auto
next
  case (Cons v vs)
  have vs: "values_refs (v # vs) = value_refs v @ values_refs vs" by (simp add: values_refs_def)
  show ?case
  proof (cases "value_refs v")
    case Nil
    then have "JS_FreeValue v rt = Some rt" by (cases v) (simp_all add: JS_FreeValue_def)
    then show ?thesis using Cons.IH[of rt ext] Cons.prems Nil vs by simp
  next
    case (Cons r rs)
    then obtain k p where r: "value_refs v = [(k, p)]" by (cases v) auto
    obtain b where b: "bodies rt p = Some b" "gc_type b = k" using Cons.prems(2) r vs by auto
    have pos: "ext p > 0" using Cons.prems(3)[of p] r vs by simp
    let ?ext = "ext(p := ext p - 1)"
    obtain rt1 where 1: "JS_FreeValue v rt = Some rt1" "gc_ok rt1 ?ext" "dom (heap rt1) \<subseteq> dom (heap rt)"
      "\<forall>q \<in> dom (heap rt1). bodies rt1 q = bodies rt q" "\<forall>q. reachable (bodies rt) ?ext q \<longrightarrow> q \<in> dom (heap rt1)"
      using free_value_exact[OF Cons.prems(1) r b pos] by blast
    have ext: "?ext q = rest q + count_list (map snd (values_refs vs)) q" for q
      using Cons.prems(3)[of q] r vs by auto
    have more: "rest q \<le> ?ext q" for q using ext[of q] by simp
    have "\<exists>b'. bodies rt1 q = Some b' \<and> gc_type b' = kq" if kq: "(kq, q) \<in> set (values_refs vs)" for kq q
    proof -
      have "(kq, q) \<in> set (value_refs v @ values_refs vs)" using kq by simp
      from bspec[OF Cons.prems(2)[unfolded vs refs_ok_def] this]
      obtain b' where b': "bodies rt q = Some b'" "gc_type b' = kq" by auto
      have "q \<in> set (map snd (values_refs vs))" using kq by force
      then have "?ext q > 0" using ext[of q] count_list_pos[of q] by fastforce
      then have "reachable (bodies rt) ?ext q" using b' by (intro reachable.root) simp_all
      then show ?thesis using 1(4,5) b' by auto
    qed
    then have "refs_ok (bodies rt1) (values_refs vs)" by (auto simp: refs_ok_def)
    from Cons.IH[OF 1(2) this ext] obtain rt2 where 2: "each JS_FreeValue vs rt1 = Some rt2" "gc_ok rt2 rest"
      "dom (heap rt2) \<subseteq> dom (heap rt1)" "\<forall>q \<in> dom (heap rt2). bodies rt2 q = bodies rt1 q"
      "\<forall>q. reachable (bodies rt1) rest q \<longrightarrow> q \<in> dom (heap rt2)" by blast
    have live: "\<forall>q. reachable (bodies rt) rest q \<longrightarrow> q \<in> dom (heap rt1)"
    proof (intro allI impI)
      fix q assume "reachable (bodies rt) rest q"
      then have "reachable (bodies rt) ?ext q" by (rule reachable_mono) (rule more)
      then show "q \<in> dom (heap rt1)" using 1(5) by blast
    qed
    note agree = kept_bodies[OF 1(4) live gc_okD(3)[OF 1(2)]]
    have "each JS_FreeValue (v # vs) rt = Some rt2" using 1(1) 2(1) by simp
    moreover have "\<forall>q \<in> dom (heap rt2). bodies rt2 q = bodies rt q" using 2(3,4) 1(4) by auto
    moreover have "\<forall>q. reachable (bodies rt) rest q \<longrightarrow> q \<in> dom (heap rt2)" using 2(5) agree by blast
    ultimately show ?thesis using 2(2,3) 1(3) by blast
  qed
qed

text \<open>
  \<^bold>\<open>C37.\<close> When the values the outside holds are released one after another and the cycles are collected, exactly
  what the remaining outside references reach is left; when none remains, the heap is empty and the list of the collector
  with it, as \<open>JS_FreeRuntime\<close> asserts.
\<close>

theorem released_values_are_freed:
  assumes "gc_ok rt ext" "refs_ok (bodies rt) (values_refs vs)" "\<And>p. ext p = rest p + count_list (map snd (values_refs vs)) p"
  shows "\<exists>rt1 rt2. each JS_FreeValue vs rt = Some rt1 \<and> JS_RunGC rt1 = Some rt2 \<and> gc_ok rt2 rest \<and>
    dom (heap rt2) = {p. reachable (bodies rt) rest p} \<and>
    ((\<forall>p. rest p = 0) \<longrightarrow> heap rt2 = Map.empty \<and> list_empty (links rt2) gc_obj_list = Some True)"
proof -
  obtain rt1 where 1: "each JS_FreeValue vs rt = Some rt1" "gc_ok rt1 rest"
    "\<forall>q \<in> dom (heap rt1). bodies rt1 q = bodies rt q" "\<forall>q. reachable (bodies rt) rest q \<longrightarrow> q \<in> dom (heap rt1)"
    using free_values_exact[OF assms] by blast
  obtain rt2 where 2: "JS_RunGC rt1 = Some rt2" "gc_ok rt2 rest" "dom (heap rt2) = {p. reachable (bodies rt1) rest p}"
    using run_gc_result[OF 1(2)] by blast
  have dom: "dom (heap rt2) = {p. reachable (bodies rt) rest p}"
    using 2(3) kept_bodies[OF 1(3,4) gc_okD(3)[OF 1(2)]] by simp
  have "heap rt2 = Map.empty \<and> list_empty (links rt2) gc_obj_list = Some True" if none: "\<forall>p. rest p = 0"
  proof -
    have "\<not> reachable (bodies rt) rest p" for p
    proof
      assume "reachable (bodies rt) rest p"
      then show False by (induction rule: reachable.induct) (use none in simp_all)
    qed
    then have empty: "heap rt2 = Map.empty" using dom by (simp add: dom_eq_empty_conv)
    obtain ps where "ring (links rt2) gc_obj_list (map Link ps)" "set ps = {p. \<exists>c. heap rt2 p = Some c \<and> collectable (body c)}"
      using gc_okD(4)[OF 2(2)] by blast
    then show ?thesis using empty ring_empty[of "links rt2" gc_obj_list "map Link ps"] by simp
  qed
  then show ?thesis using 1(1) 2(1,2) dom by blast
qed

theorem released_values_are_freed_witness:
  "\<exists>rt1 rt2. each JS_FreeValue [JS_TAG_OBJECT 3] two_cycle = Some rt1 \<and> JS_RunGC rt1 = Some rt2 \<and> heap rt2 = Map.empty"
proof -
  have refs: "values_refs [JS_TAG_OBJECT 3] = [(JS_GC_OBJ_TYPE_JS_OBJECT, 3)]" by (simp add: values_refs_def)
  have ok: "refs_ok (bodies two_cycle) (values_refs [JS_TAG_OBJECT 3])"
    by (simp add: refs two_cycle_bodies plain_object_def)
  have "one_root p = 0 + count_list (map snd (values_refs [JS_TAG_OBJECT 3])) p" for p
    by (simp add: refs one_root_def)
  from released_values_are_freed[OF two_cycle_ok ok, of "\<lambda>_. 0", OF this] show ?thesis by blast
qed

section \<open>Marking and releasing agree\<close>

text \<open>
  \<^bold>\<open>C38.\<close> The marking functions and the finalizers of a class agree: marking an object reports, with its multiplicity, every
  reference to a structure of the list of the collector that the freeing of its properties, its shape and its class
  releases, and nothing else. The finalizer of a bytecode function reads the number of its closure variables from the
  bytecode after it has released the home object; for such a function the states are those where this
  bytecode is the one of the heap that was marked.
\<close>

theorem mark_children_agrees:
  assumes "typed (bodies rt)" "bodies rt p = Some (JSObject ob)"
  shows "\<exists>sp sh ps. obj_shape ob = Some sp \<and> get_shape rt sp = Some sh \<and> children rt (JSObject ob) = Some ps \<and>
    (\<forall>s. each free_property (zip (obj_prop ob) (sh_prop sh)) s = each release (concat (map property_refs (obj_prop ob))) s) \<and>
    (\<forall>s. (\<forall>home vs b. obj_u ob = U_func home vs (Some b) \<longrightarrow> bodies s b = bodies rt b) \<longrightarrow>
       (case class_finalizer (obj_class ob) of None \<Rightarrow> Some s | Some f \<Rightarrow> f (obj_u ob) s) =
       each release (class_refs (obj_u ob)) s) \<and>
    (\<forall>q. count_list ps q = count_list (map snd (filter (\<lambda>(k, q). \<exists>b. bodies rt q = Some b \<and> collectable b)
       (concat (map property_refs (obj_prop ob)) @ (JS_GC_OBJ_TYPE_SHAPE, sp) # class_refs (obj_u ob)))) q)"
proof -
  obtain sp sh where sh: "obj_shape ob = Some sp" "bodies rt sp = Some (JSShape sh)"
    "list_all2 property_ok (obj_prop ob) (sh_prop sh)" "class_ok (obj_class ob) (obj_u ob)" "closure_ok (bodies rt) (obj_u ob)"
    by (rule shape_of_typed[OF assms(1,2)])
  have "collectable (JSObject ob)" by simp
  then obtain ps where ps: "children rt (JSObject ob) = Some ps"
    "\<And>q. count_list ps q = count_list (marked_refs (bodies rt) (refs (JSObject ob))) q"
    using children_refs[OF refl assms(1,2)] by metis
  have "get_shape rt sp = Some sh" using sh(2) by (auto simp: get_shape_def bodies_def)
  moreover have "refs (JSObject ob) = concat (map property_refs (obj_prop ob)) @ (JS_GC_OBJ_TYPE_SHAPE, sp) # class_refs (obj_u ob)"
    using sh(1) by (simp add: opt_list_def)
  moreover have "(case bodies rt q of None \<Rightarrow> False | Some b \<Rightarrow> collectable b) \<longleftrightarrow> (\<exists>b. bodies rt q = Some b \<and> collectable b)" for q
    by (simp split: option.split)
  moreover have "(case class_finalizer (obj_class ob) of None \<Rightarrow> Some s | Some f \<Rightarrow> f (obj_u ob) s) = each release (class_refs (obj_u ob)) s"
    if "\<forall>home vs b. obj_u ob = U_func home vs (Some b) \<longrightarrow> bodies s b = bodies rt b" for s
    by (rule typed_finalizer_release[OF sh(4,5)]) (use that in blast)
  ultimately show ?thesis
    using sh(1) ps free_properties_release[OF sh(3)]
    by (intro exI[of _ sp] exI[of _ sh] exI[of _ ps]) (simp add: marked_refs_def)
qed

theorem mark_children_agrees_witness:
  "\<exists>ps. children two_cycle (plain_object (JS_TAG_OBJECT 2)) = Some ps \<and> count_list ps 2 = 1 \<and> count_list ps 0 = 1"
proof -
  let ?ob = "\<lparr>obj_shape = Some 0, obj_prop = [U_value (JS_TAG_OBJECT 2)], obj_class = JS_CLASS_OBJECT, obj_u = U_NULL,
     free_mark = False\<rparr>"
  have "bodies two_cycle 1 = Some (JSObject ?ob)" by (simp add: two_cycle_bodies plain_object_def)
  from mark_children_agrees[OF two_cycle_typed this] obtain ps where
    "children two_cycle (JSObject ?ob) = Some ps"
    "\<forall>q. count_list ps q = count_list (map snd (filter (\<lambda>(k, q). \<exists>b. bodies two_cycle q = Some b \<and> collectable b)
       [(JS_GC_OBJ_TYPE_JS_OBJECT, 2), (JS_GC_OBJ_TYPE_SHAPE, 0)])) q" by auto
  then show ?thesis
    by (simp add: plain_object_def two_cycle_bodies shared_shape_def)
qed

end
