(* ===== verification/Spec2Isabelle.thy ===== *)
theory Spec2Isabelle
  imports Utf8_Buf Dyn_Buf Big_Props Lre_Chars Char_Canon Sort_Uses Exchange Gc_Props
begin

text \<open>
  A verification library for the C engine of this repository, the JavaScript engine under
  \<open>src/c_src/quickjs_ng\<close>. Sources are named below relative to that directory.

  \<^bold>\<open>The parts and how they interact.\<close> The engine consists of a layer of C helpers (\<open>cutils.h\<close>: integers, UTF-8,
  growable buffers, sorting; \<open>list.h\<close>: intrusive lists), the Unicode library (\<open>libunicode.c\<close> over the compressed tables of
  \<open>libunicode-table.h\<close>), the regular expression library (\<open>libregexp.c\<close>), number printing and parsing
  (\<open>dtoa.c\<close>) and the engine proper (\<open>quickjs.c\<close>: values, BigInt, objects and their reference counts, interpreter,
  builtins). The engine calls all the others; \<open>libregexp.c\<close> asks \<open>libunicode.c\<close> for character sets and canonical forms,
  \<open>libunicode.c\<close> sorts intervals with \<open>rqsort\<close> and grows arrays with the \<open>realloc\<close> it is given, strings are
  converted by the UTF-8 codec, and the collector of \<open>quickjs.c\<close> keeps its structures in the lists of \<open>list.h\<close>. The library
  follows these calls: a theory imports the theories of what its code calls.

  \<^bold>\<open>How code becomes definitions.\<close> Definitions keep the names of the C functions. Machine integers are words of their
  width (\<open>u8\<close>, \<open>u16\<close>, \<open>u32\<close>, \<open>u64\<close> of \<open>Qjs_Prelude\<close>) where overflow can occur; array
  indexes and lengths that the code checks are \<open>nat\<close>. A pointer into an array is the array and an index, or the part of the
  array from there on. A function that updates memory returns the memory; a loop is a recursive function of its own,
  and the map of the manifest gives it the lines of the loop. Failures are values: \<open>None\<close> for a state in which the C code
  would leave its memory, fail an assertion, call \<open>abort\<close> or not terminate, so that a theorem that something returns \<open>Some\<close>
  excludes these; return codes and \<open>NULL\<close> as the C code has them. \<open>malloc\<close> and \<open>realloc\<close> are parameters: which requests
  succeed and what fresh memory contains is arbitrary, but does not change between requests of one size.

  \<^bold>\<open>Helpers.\<close> \<open>Qjs_Prelude\<close> holds the types and the collection \<open>word_nat\<close>, which turns word operations into arithmetic.
  \<open>Cutils_Bits\<close> has the integer helpers of \<open>cutils.h\<close> (\<open>clz32\<close>, \<open>ctz64\<close>, \<open>hash32\<close>, loads and
  stores, surrogates) with their bounds. \<open>Utf8\<close> and \<open>Utf8_Buf\<close> have the codec: the decoder accepts exactly what the
  encoder writes and reads no byte beyond its bound, the scan announces the size and kind of string the decoder then stores,
  truncated encodings end at a whole code point, and UTF-16 to UTF-8 and back is the identity, lone surrogates included.
  \<open>Dyn_Buf\<close> has \<open>DynBuf\<close>: contents are appended exactly or the error flag is set, and a clear flag after any sequence of
  puts means that nothing was lost. \<open>List_Head\<close> has \<open>list.h\<close> on an explicit store and shows that its operations are those
  of lists. \<open>Sort\<close>, \<open>Sort_Props\<close> and \<open>Exchange\<close> have \<open>rqsort\<close> with its stack
  of 50 segments, depth limit and heap sort: for every comparison function, consistent or not, it returns, stays in its memory and permutes;
  for a total preorder it sorts; the routines that exchange elements do so for every alignment. \<open>Sort_State\<close> has the same
  routines for a comparison that changes the elements and a state of its own, and shows that they act alike when the answers do not depend
  on these changes; \<open>Sort_Uses\<close> uses this for \<open>Array.prototype.sort\<close>, whose comparison calls the script or
  converts values to strings it keeps, and shows that its result is stable. An exception ends such a sort; its result is not described.

  \<^bold>\<open>BigInt.\<close> \<open>Limbs\<close> and \<open>Limb_Div\<close> have the \<open>js_mp_\<close> layer on arrays of 32-bit limbs, with division by Knuth's
  algorithm; \<open>Big_Int\<close> has \<open>JSBigInt\<close> and its operations; \<open>Big_Arith\<close>, \<open>Big_Div\<close> and \<open>Big_Props\<close> show that each
  operation that returns a number returns the exact integer in its unique shortest form, and fails otherwise only for memory, size,
  a zero divisor or a negative exponent. The quotient estimates are never wrong by more than the loop corrects.

  \<^bold>\<open>Unicode.\<close> \<open>Char_Range\<close> and \<open>Char_Sets\<close> have sets of characters as sorted points with \<open>cr_op\<close>,
  \<open>cr_union1\<close>, \<open>cr_invert\<close>; \<open>Uni_Table\<close> and \<open>Uni_Data\<close> the compressed tables, with the
  proof that the indexed lookup finds what the enumeration lists; \<open>Uni_Case\<close> and \<open>Uni_Case_Sets\<close> case conversion, folding
  and the character sets derived from them; \<open>Uni_Canon\<close> what the canonical form of a character is; \<open>Char_Canon\<close> canonical character classes; \<open>Lre_Chars\<close> the tests
  \<open>libregexp\<close> builds on them. The tables of the program are included as data and checked by evaluation in the kernel.

  \<^bold>\<open>Reference counting and cycles.\<close> \<open>Gc\<close> has the heap of \<open>quickjs.c\<close>: objects, shapes, bytecode, variable references
  and contexts behind headers, the marking function and the finalizer of each class, \<open>JS_FreeValue\<close> with
  the deferred list of zero counts, and the trial deletion \<open>gc_decref\<close>, \<open>gc_scan\<close>, \<open>gc_free_cycles\<close>. \<open>Gc_Refs\<close>
  reads off the references a structure owns and shows that marking reports and freeing releases exactly these. \<open>Gc_Free\<close> states
  the invariant of freeing: the count of every structure is the number of references from outside, from structures
  not yet released, and still to be released. \<open>Gc_Count\<close> defines a consistent heap (\<open>gc_ok\<close>) and shows that \<open>JS_FreeValue\<close>
  keeps it; \<open>Gc_Mark\<close> shows that the two passes separate reachable from unreachable; \<open>Gc_Run\<close> that freeing the
  unreachable ends, frees everything and nothing twice; \<open>Gc_Props\<close> states the results.


  \<^bold>\<open>Loops and bounds.\<close> Recursion is structural or has a measure, except for the loops of the collector and the correction
  of a quotient digit, which are partial functions with \<open>None\<close> for a run that does not end; the properties show that
  they return. No fuel is used as an assumption of a property.

  \<^bold>\<open>Simplifications.\<close> Counts of references are integers without the bound of 32 bits. In the collector there are no weak
  references (\<open>first_weak_ref\<close> is \<open>NULL\<close>), no asynchronous functions and generators, no classes of later intrinsics except
  proxies, arrays and their iterators; strings, symbols and BigInts are values without references; the list of contexts, the modules
  of a context, the hash table of shapes and the slot of a running frame that an attached variable reference occupies are left out.
  The properties about memory failures hold for an allocator that answers equal requests alike. Of
  \<open>cr_regexp_canonicalize\<close>, which adds an interval without looking at the result, the result is described only when every
  request is served. The state of an interpreter that runs inside a comparison, and what it answers, are parameters.

  \<^bold>\<open>Not modelled.\<close> The tokenizer, parser, bytecode compiler and interpreter of \<open>quickjs.c\<close> and the standard library written on top
  of them (with the exceptions above) have no specification short of that of the language. The compiler and the backtracking matcher of
  \<open>libregexp.c\<close>, the scripts, general categories and normal forms of \<open>libunicode.c\<close>, and the printing and parsing of numbers in \<open>dtoa.c\<close> are
  left for an extension. Threads, clocks and the file system in \<open>cutils.h\<close> and \<open>quickjs-libc.h\<close>
  are calls of the operating system.
\<close>

end
